(* ===== verification/Go_Base.thy ===== *)
theory Go_Base
  imports Main "HOL-Library.Sublist" "HOL-Library.Char_ord" "HOL-Library.List_Lexorder"
begin

text \<open>
  The parts of Go's standard library that the modelled code calls: string trimming,
  cutting, splitting and joining (package strings) and lexical path manipulation
  (packages path and path/filepath on a Unix system). A Go string is a sequence of
  bytes, so it is a \<^typ>\<open>string\<close> here: one \<^typ>\<open>char\<close> per byte.

  The theory also holds the named collections of simplification rules the components
  share and a few generic lemmas on lists.
\<close>

named_theorems go_simps \<open>evaluation rules of the standard-library model\<close>
named_theorems go_intros \<open>introduction rules shared by the components\<close>

section \<open>Strings\<close>

type_synonym go_string = string

abbreviation slash :: char where
  "slash \<equiv> CHR ''/''"

abbreviation backslash :: char where
  "backslash \<equiv> CHR 0x5C"

definition trim_prefix :: "string \<Rightarrow> string \<Rightarrow> string" where
  "trim_prefix p s = (if prefix p s then drop (length p) s else s)"

definition trim_suffix :: "string \<Rightarrow> string \<Rightarrow> string" where
  "trim_suffix p s = (if suffix p s then take (length s - length p) s else s)"

definition trim_left_chars :: "char list \<Rightarrow> string \<Rightarrow> string" where
  "trim_left_chars cs s = dropWhile (\<lambda>c. c \<in> set cs) s"

definition trim_chars :: "char list \<Rightarrow> string \<Rightarrow> string" where
  "trim_chars cs s = rev (dropWhile (\<lambda>c. c \<in> set cs) (rev (trim_left_chars cs s)))"

text \<open>
  The white space of \<open>strings.TrimSpace\<close>: the code points of \<open>unicode.IsSpace\<close>, each in
  its UTF-8 encoding. Decoding the first (or last) code point of a string gives one of
  them exactly when the string starts (or ends) with that encoding.
\<close>

definition space_seqs :: "string list" where
  "space_seqs =
     [[CHR 0x09], [CHR 0x0A], [CHR 0x0B], [CHR 0x0C], [CHR 0x0D], [CHR 0x20],
      [CHR 0xC2, CHR 0x85], [CHR 0xC2, CHR 0xA0], [CHR 0xE1, CHR 0x9A, CHR 0x80],
      [CHR 0xE2, CHR 0x80, CHR 0x80], [CHR 0xE2, CHR 0x80, CHR 0x81],
      [CHR 0xE2, CHR 0x80, CHR 0x82], [CHR 0xE2, CHR 0x80, CHR 0x83],
      [CHR 0xE2, CHR 0x80, CHR 0x84], [CHR 0xE2, CHR 0x80, CHR 0x85],
      [CHR 0xE2, CHR 0x80, CHR 0x86], [CHR 0xE2, CHR 0x80, CHR 0x87],
      [CHR 0xE2, CHR 0x80, CHR 0x88], [CHR 0xE2, CHR 0x80, CHR 0x89],
      [CHR 0xE2, CHR 0x80, CHR 0x8A], [CHR 0xE2, CHR 0x80, CHR 0xA8],
      [CHR 0xE2, CHR 0x80, CHR 0xA9], [CHR 0xE2, CHR 0x80, CHR 0xAF],
      [CHR 0xE2, CHR 0x81, CHR 0x9F], [CHR 0xE3, CHR 0x80, CHR 0x80]]"

fun strip_first :: "string list \<Rightarrow> string \<Rightarrow> string option" where
  "strip_first [] s = None"
| "strip_first (p # ps) s =
     (if p \<noteq> [] \<and> prefix p s then Some (drop (length p) s) else strip_first ps s)"

lemma strip_first_shorter: "strip_first ps s = Some r \<Longrightarrow> length r < length s"
proof (induction ps s rule: strip_first.induct)
  case (1 s)
  then show ?case by simp
next
  case (2 p ps s)
  have "p \<noteq> [] \<Longrightarrow> prefix p s \<Longrightarrow> length s - length p < length s"
    by (cases p; cases s) auto
  with 2 show ?case by (auto split: if_splits)
qed

function trim_seqs :: "string list \<Rightarrow> string \<Rightarrow> string" where
  "trim_seqs ps s = (case strip_first ps s of None \<Rightarrow> s | Some r \<Rightarrow> trim_seqs ps r)"
  by pat_completeness auto
termination
  by (relation "measure (\<lambda>(ps, s). length s)") (auto dest: strip_first_shorter)

declare trim_seqs.simps [simp del]

definition trim_left_space :: "string \<Rightarrow> string" where
  "trim_left_space s = trim_seqs space_seqs s"

definition trim_right_space :: "string \<Rightarrow> string" where
  "trim_right_space s = rev (trim_seqs (map rev space_seqs) (rev s))"

definition trim_space :: "string \<Rightarrow> string" where
  "trim_space s = trim_right_space (trim_left_space s)"

text \<open>
  \<open>strings.ToLower\<close> on ASCII letters; bytes of other code points are kept.
\<close>

definition lower_char :: "char \<Rightarrow> char" where
  "lower_char c =
     (if 65 \<le> (of_char c :: nat) \<and> (of_char c :: nat) \<le> 90
      then char_of ((of_char c :: nat) + 32) else c)"

definition to_lower :: "string \<Rightarrow> string" where
  "to_lower s = map lower_char s"

text \<open>
  \<open>strings.Cut\<close> with a one-byte separator: what precedes its first occurrence, and what
  follows it when there is one.
\<close>

fun cut_char :: "char \<Rightarrow> string \<Rightarrow> string \<times> string option" where
  "cut_char c [] = ([], None)"
| "cut_char c (x # xs) =
     (if x = c then ([], Some xs)
      else (case cut_char c xs of (a, b) \<Rightarrow> (x # a, b)))"

text \<open>
  \<open>strings.LastIndex\<close> with a one-byte separator, as the two halves around the last
  occurrence.
\<close>

definition cut_last_char :: "char \<Rightarrow> string \<Rightarrow> (string \<times> string) option" where
  "cut_last_char c s =
     (case cut_char c (rev s) of
        (b, None) \<Rightarrow> None
      | (b, Some a) \<Rightarrow> Some (rev a, rev b))"

text \<open>\<open>strings.Cut\<close> at a separator of several bytes.\<close>

fun cut_string :: "string \<Rightarrow> string \<Rightarrow> (string \<times> string) option" where
  "cut_string sep [] = (if sep = [] then Some ([], []) else None)"
| "cut_string sep (c # s) =
     (if prefix sep (c # s) then Some ([], drop (length sep) (c # s))
      else map_option (\<lambda>(a, b). (c # a, b)) (cut_string sep s))"

fun split_char :: "char \<Rightarrow> string \<Rightarrow> string list" where
  "split_char c [] = [[]]"
| "split_char c (x # xs) =
     (if x = c then [] # split_char c xs
      else (case split_char c xs of [] \<Rightarrow> [[x]] | y # ys \<Rightarrow> (x # y) # ys))"

fun join :: "string \<Rightarrow> string list \<Rightarrow> string" where
  "join sep [] = []"
| "join sep [x] = x"
| "join sep (x # y # ys) = x @ sep @ join sep (y # ys)"

section \<open>Lexical paths\<close>

definition is_abs :: "string \<Rightarrow> bool" where
  "is_abs p = (case p of [] \<Rightarrow> False | c # _ \<Rightarrow> c = slash)"

text \<open>
  \<open>filepath.Clean\<close>: the elements of the path are read from the left onto a stack. Empty
  and \<open>.\<close> elements vanish; \<open>..\<close> removes the element before it, is dropped at the root and
  is kept at the front of a relative path.
\<close>

fun clean_step :: "bool \<Rightarrow> string list \<Rightarrow> string \<Rightarrow> string list" where
  "clean_step rooted st seg =
     (if seg = [] \<or> seg = ''.'' then st
      else if seg = ''..'' then
        (case st of
           [] \<Rightarrow> if rooted then [] else [''..'']
         | t # ts \<Rightarrow> if t = ''..'' then ''..'' # st else ts)
      else seg # st)"

definition clean_segments :: "bool \<Rightarrow> string list \<Rightarrow> string list" where
  "clean_segments rooted segs = rev (foldl (clean_step rooted) [] segs)"

definition path_clean :: "string \<Rightarrow> string" where
  "path_clean p =
     (let segs = clean_segments (is_abs p) (split_char slash p)
      in if is_abs p then slash # join ''/'' segs
         else if segs = [] then ''.'' else join ''/'' segs)"

definition path_base :: "string \<Rightarrow> string" where
  "path_base p =
     (if p = [] then ''.''
      else let q = rev (dropWhile (\<lambda>c. c = slash) (rev p))
           in if q = [] then ''/''
              else case cut_last_char slash q of None \<Rightarrow> q | Some (_, b) \<Rightarrow> b)"

definition path_dir :: "string \<Rightarrow> string" where
  "path_dir p =
     (case cut_last_char slash p of
        None \<Rightarrow> ''.''
      | Some (d, _) \<Rightarrow> path_clean (d @ ''/''))"

definition path_join :: "string list \<Rightarrow> string" where
  "path_join es =
     (let ne = filter (\<lambda>e. e \<noteq> []) es
      in if ne = [] then [] else path_clean (join ''/'' ne))"

section \<open>Facts about strings\<close>

lemma strip_first_Some_iff:
  "strip_first ps s = None \<longleftrightarrow> (\<forall>p \<in> set ps. p \<noteq> [] \<longrightarrow> \<not> prefix p s)"
  by (induction ps s rule: strip_first.induct) auto

lemma trim_seqs_fixed [go_simps]:
  "strip_first ps s = None \<Longrightarrow> trim_seqs ps s = s"
  by (simp add: trim_seqs.simps)

lemma strip_first_trim_seqs: "strip_first ps (trim_seqs ps s) = None"
proof (induction ps s rule: trim_seqs.induct)
  case (1 ps s)
  then show ?case
    by (cases "strip_first ps s") (simp_all add: trim_seqs.simps [of ps s])
qed

lemma trim_seqs_idem [simp]: "trim_seqs ps (trim_seqs ps s) = trim_seqs ps s"
  by (simp add: trim_seqs_fixed strip_first_trim_seqs)

lemma suffix_trim_seqs: "suffix (trim_seqs ps s) s"
proof (induction ps s rule: trim_seqs.induct)
  case (1 ps s)
  show ?case
  proof (cases "strip_first ps s")
    case None
    then show ?thesis by (simp add: trim_seqs_fixed)
  next
    case (Some r)
    have "suffix r s" using Some
      by (induction ps s rule: strip_first.induct) (auto simp: suffix_drop split: if_splits)
    with 1 Some show ?thesis
      by (metis option.simps(5) suffix_order.trans trim_seqs.simps)
  qed
qed

lemma trim_seqs_suffix_closed:
  assumes "strip_first ps s = None" and "prefix t s"
  shows "strip_first ps t = None"
  using assms by (metis prefix_order.trans strip_first_Some_iff)

lemma prefix_trim_right_space: "prefix (trim_right_space s) s"
  using suffix_trim_seqs [of "map rev space_seqs" "rev s"]
  by (simp add: trim_right_space_def suffix_to_prefix)

lemma trim_left_space_idem [simp]: "trim_left_space (trim_left_space s) = trim_left_space s"
  by (simp add: trim_left_space_def)

lemma trim_right_space_idem [simp]: "trim_right_space (trim_right_space s) = trim_right_space s"
  by (simp add: trim_right_space_def)

lemma trim_space_idem [simp]: "trim_space (trim_space s) = trim_space s"
proof -
  have "strip_first space_seqs (trim_left_space s) = None"
    by (simp add: trim_left_space_def strip_first_trim_seqs)
  then have "strip_first space_seqs (trim_space s) = None"
    unfolding trim_space_def by (rule trim_seqs_suffix_closed) (rule prefix_trim_right_space)
  then have "trim_left_space (trim_space s) = trim_space s"
    by (simp add: trim_left_space_def trim_seqs_fixed)
  then show ?thesis by (simp add: trim_space_def)
qed

lemma trim_space_Nil [simp]: "trim_space [] = []"
  by (simp add: trim_space_def trim_left_space_def trim_right_space_def trim_seqs_fixed
      strip_first_Some_iff)

text \<open>
  A string that starts and ends with a byte that no white-space encoding starts or ends
  with is not changed.
\<close>

definition space_start :: "char \<Rightarrow> bool" where
  "space_start c = (c \<in> hd ` set space_seqs)"

definition space_end :: "char \<Rightarrow> bool" where
  "space_end c = (c \<in> hd ` set (map rev space_seqs))"

lemma strip_first_hd:
  assumes "s \<noteq> []" and "hd s \<notin> hd ` set ps"
  shows "strip_first ps s = None"
proof -
  have "hd p = hd s" if "prefix p s" and "p \<noteq> []" for p
    using that by (auto simp: prefix_def)
  with assms show ?thesis unfolding strip_first_Some_iff by (metis image_eqI)
qed

lemma trim_space_plain [go_simps]:
  assumes "s \<noteq> []" and "\<not> space_start (hd s)" and "\<not> space_end (last s)"
  shows "trim_space s = s"
proof -
  have "strip_first space_seqs s = None"
    using assms by (intro strip_first_hd) (auto simp: space_start_def)
  moreover have "hd (rev s) \<notin> hd ` set (map rev space_seqs)"
    using assms by (simp add: space_end_def hd_rev)
  then have "strip_first (map rev space_seqs) (rev s) = None"
    using assms by (intro strip_first_hd) auto
  ultimately show ?thesis
    by (simp add: trim_space_def trim_left_space_def trim_right_space_def trim_seqs_fixed)
qed

lemma lower_char_idem [simp]: "lower_char (lower_char c) = lower_char c"
proof (cases "65 \<le> (of_char c :: nat) \<and> (of_char c :: nat) \<le> 90")
  case True
  then have "(of_char (char_of ((of_char c :: nat) + 32)) :: nat) = of_char c + 32"
    by simp
  with True show ?thesis by (simp add: lower_char_def)
next
  case False
  then show ?thesis by (auto simp: lower_char_def)
qed

lemma to_lower_idem [simp]: "to_lower (to_lower s) = to_lower s"
  by (simp add: to_lower_def)

lemma to_lower_append [simp]: "to_lower (a @ b) = to_lower a @ to_lower b"
  by (simp add: to_lower_def)

lemma to_lower_eq_Nil [simp]: "to_lower s = [] \<longleftrightarrow> s = []"
  by (simp add: to_lower_def)

lemma lower_char_eq_non_letter [go_simps]:
  assumes "\<not> (65 \<le> (of_char d :: nat) \<and> (of_char d :: nat) \<le> 90)"
    and "\<not> (97 \<le> (of_char d :: nat) \<and> (of_char d :: nat) \<le> 122)"
  shows "lower_char c = d \<longleftrightarrow> c = d"
proof -
  have "c \<noteq> d \<Longrightarrow> lower_char c \<noteq> d"
  proof
    assume "c \<noteq> d" and "lower_char c = d"
    then have "65 \<le> (of_char c :: nat) \<and> (of_char c :: nat) \<le> 90"
      and "d = char_of ((of_char c :: nat) + 32)"
      by (auto simp: lower_char_def split: if_splits)
    then have "(of_char d :: nat) = of_char c + 32" by simp
    with \<open>65 \<le> (of_char c :: nat) \<and> (of_char c :: nat) \<le> 90\<close> assms(2) show False by simp
  qed
  moreover have "lower_char d = d" using assms(1) by (auto simp: lower_char_def)
  ultimately show ?thesis by auto
qed

lemma slash_in_to_lower [simp]: "slash \<in> set (to_lower s) \<longleftrightarrow> slash \<in> set s"
proof -
  have "lower_char c = slash \<longleftrightarrow> c = slash" for c
    by (rule lower_char_eq_non_letter) simp_all
  then show ?thesis unfolding to_lower_def set_map image_iff by metis
qed

lemma cut_char_None: "c \<notin> set s \<Longrightarrow> cut_char c s = (s, None)"
  by (induction s) auto

lemma cut_char_append: "c \<notin> set a \<Longrightarrow> cut_char c (a @ c # b) = (a, Some b)"
  by (induction a) auto

lemma cut_char_SomeD: "cut_char c s = (a, Some b) \<Longrightarrow> s = a @ c # b \<and> c \<notin> set a"
  by (induction s arbitrary: a) (auto split: if_splits prod.splits)

lemma cut_char_NoneD: "cut_char c s = (a, None) \<Longrightarrow> a = s \<and> c \<notin> set s"
  by (induction s arbitrary: a) (auto split: if_splits prod.splits)

lemma cut_last_char_append: "c \<notin> set b \<Longrightarrow> cut_last_char c (a @ c # b) = Some (a, b)"
  by (simp add: cut_last_char_def cut_char_append)

lemma cut_last_char_None: "c \<notin> set s \<Longrightarrow> cut_last_char c s = None"
  by (simp add: cut_last_char_def cut_char_None)

lemma split_char_not_Nil [simp]: "split_char c s \<noteq> []"
  by (induction s) (auto split: list.splits)

lemma split_char_no_sep: "x \<in> set (split_char c s) \<Longrightarrow> c \<notin> set x"
  by (induction s arbitrary: x) (auto split: if_splits list.splits)

lemma split_char_single [simp]: "c \<notin> set s \<Longrightarrow> split_char c s = [s]"
  by (induction s) auto

lemma split_char_append:
  "c \<notin> set a \<Longrightarrow> split_char c (a @ c # s) = a # split_char c s"
  by (induction a) auto

lemma join_Cons: "ys \<noteq> [] \<Longrightarrow> join sep (x # ys) = x @ sep @ join sep ys"
  by (cases ys) auto

lemma join_snoc: "segs \<noteq> [] \<Longrightarrow> join sep (segs @ [s]) = join sep segs @ sep @ s"
proof (induction segs)
  case (Cons a segs)
  then show ?case by (cases segs) simp_all
qed simp

lemma join_split_char [simp]: "join [c] (split_char c s) = s"
proof (induction s)
  case Nil
  then show ?case by simp
next
  case (Cons x xs)
  obtain y ys where y: "split_char c xs = y # ys"
    by (metis split_char_not_Nil neq_Nil_conv)
  with Cons have "join [c] (y # ys) = xs" by simp
  with y show ?case by (cases ys) auto
qed

lemma split_char_join [simp]:
  assumes "xs \<noteq> []" and "\<forall>x \<in> set xs. c \<notin> set x"
  shows "split_char c (join [c] xs) = xs"
  using assms
proof (induction xs rule: induct_list012)
  case (3 x y zs)
  then show ?case by (simp add: split_char_append)
qed auto

lemma join_eq_Nil_iff [simp]:
  "join [c] xs = [] \<longleftrightarrow> xs = [] \<or> xs = [[]]"
  by (cases xs rule: remdups_adj.cases) auto

section \<open>Lists of fallible results\<close>

lemma those_eq_None_iff: "those xs = None \<longleftrightarrow> None \<in> set xs"
  by (induction xs) (auto split: option.splits)

lemma those_map_SomeD:
  "those (map f xs) = Some ys \<Longrightarrow> list_all2 (\<lambda>x y. f x = Some y) xs ys"
  by (induction xs arbitrary: ys) (auto split: option.splits)

lemma those_map_SomeI: "list_all2 (\<lambda>x y. f x = Some y) xs ys \<Longrightarrow> those (map f xs) = Some ys"
  by (induction rule: list_all2_induct) auto

text \<open>A loop whose body may panic: the state after the last iteration, or \<open>None\<close>.\<close>

fun fold_opt :: "('s \<Rightarrow> 'x \<Rightarrow> 's option) \<Rightarrow> 's \<Rightarrow> 'x list \<Rightarrow> 's option" where
  "fold_opt f s [] = Some s"
| "fold_opt f s (x # xs) = (case f s x of None \<Rightarrow> None | Some s' \<Rightarrow> fold_opt f s' xs)"

lemma fold_opt_append:
  "fold_opt f s (xs @ ys) = (case fold_opt f s xs of None \<Rightarrow> None | Some t \<Rightarrow> fold_opt f t ys)"
  by (induction xs arbitrary: s) (auto split: option.splits)

lemma fold_opt_invariant:
  assumes "fold_opt f s xs = Some t" and "I [] s"
    and "\<And>done x u v. I done u \<Longrightarrow> x \<in> set xs \<Longrightarrow> f u x = Some v \<Longrightarrow> I (done @ [x]) v"
  shows "I xs t"
proof -
  have "fold_opt f u ys = Some t \<Longrightarrow> I zs u \<Longrightarrow> set ys \<subseteq> set xs \<Longrightarrow> I (zs @ ys) t" for u ys zs
  proof (induction ys arbitrary: u zs)
    case (Cons y ys)
    then obtain v where "f u y = Some v" "fold_opt f v ys = Some t"
      by (auto split: option.splits)
    with Cons.IH [of v "zs @ [y]"] assms(3) [of zs u y v] Cons.prems show ?case by simp
  qed simp
  from this [of s xs "[]"] assms(1,2) show ?thesis by simp
qed

text \<open>The idiom \<open>if err := check(); err != nil { return err }\<close>, with \<open>Some\<close> the error.\<close>

lemma first_error_None_iff [go_simps]:
  "(case x of None \<Rightarrow> y | Some e \<Rightarrow> Some (f e)) = None \<longleftrightarrow> x = None \<and> y = None"
  by (cases x) auto

section \<open>Invariants of step relations\<close>

text \<open>In a window of one lap a residue names one position.\<close>

lemma mod_window:
  assumes "m mod c = n mod (c :: nat)" and "m < n + c" and "n < m + c"
  shows "m = n"
proof -
  have le: "a = b" if "a \<le> b" "b < a + c" "a mod c = b mod c" for a b :: nat
  proof -
    have "c dvd b - a" using that(3) mod_eq_dvd_iff_nat [OF that(1)] by metis
    moreover have "b - a < c" using that(1,2) by simp
    ultimately show ?thesis using that(1) nat_dvd_not_less [of "b - a" c] by auto
  qed
  show ?thesis
  proof (cases "m \<le> n")
    case True
    then show ?thesis using le assms by simp
  next
    case False
    then show ?thesis using le [of n m] assms by simp
  qed
qed

text \<open>
  A system with a parameter: what holds at the start and is kept by every step holds in every
  reachable state.
\<close>

locale invariant_machine =
  fixes start :: "'p \<Rightarrow> 's \<Rightarrow> bool"
    and step :: "'p \<Rightarrow> 's \<Rightarrow> 's \<Rightarrow> bool"
    and inv :: "'p \<Rightarrow> 's \<Rightarrow> bool"
  assumes start_inv: "start p s \<Longrightarrow> inv p s"
    and step_inv: "inv p s \<Longrightarrow> step p s s' \<Longrightarrow> inv p s'"
begin

lemma reachable_inv:
  assumes "start p s" and "(step p)\<^sup>*\<^sup>* s s'"
  shows "inv p s'"
  using assms(2) by (induction rule: rtranclp_induct) (auto intro: start_inv [OF assms(1)] step_inv)

end

section \<open>Three-way comparison\<close>

text \<open>
  A Go comparison function returns a negative number, zero or a positive number. The
  locale says that such a function compares a key in a linear order; from that follow the
  facts its callers use.
\<close>

locale keyed_compare =
  fixes cmp :: "'a \<Rightarrow> 'a \<Rightarrow> int"
    and key :: "'a \<Rightarrow> 'k::linorder"
  assumes cmp_key: "cmp a b = (if key a < key b then -1 else if key a = key b then 0 else 1)"
begin

lemma less_iff: "cmp a b < 0 \<longleftrightarrow> key a < key b"
  by (simp add: cmp_key)

lemma greater_iff: "0 < cmp a b \<longleftrightarrow> key b < key a"
  by (simp add: cmp_key not_less_iff_gr_or_eq)

lemma eq_iff: "cmp a b = 0 \<longleftrightarrow> key a = key b"
  by (simp add: cmp_key)

lemmas cmp_iffs = less_iff greater_iff eq_iff

lemma swap: "cmp b a = - cmp a b"
  by (auto simp: cmp_key)

end

section \<open>Validation loops\<close>

text \<open>
  The shape shared by the validators: a loop over rows that rejects a row that is bad in
  itself and a row whose key an earlier row had, and otherwise remembers the key. The
  locale gives the meaning of such a loop; each validator's loop is an instance.
\<close>

locale dup_checked_loop =
  fixes loop :: "('k \<times> nat) list \<Rightarrow> nat \<Rightarrow> 'a list \<Rightarrow> 'e option"
    and key :: "'a \<Rightarrow> 'k"
    and good :: "'a \<Rightarrow> bool"
  assumes loop_Nil: "loop seen i [] = None"
    and loop_Cons: "loop seen i (x # xs) = None \<longleftrightarrow>
      good x \<and> map_of seen (key x) = None \<and> loop ((key x, i) # seen) (Suc i) xs = None"
begin

lemma accepts_from:
  "loop seen i xs = None \<longleftrightarrow>
     (\<forall>x \<in> set xs. good x \<and> key x \<notin> fst ` set seen) \<and> distinct (map key xs)"
proof (induction xs arbitrary: seen i)
  case Nil
  then show ?case by (simp add: loop_Nil)
next
  case (Cons x xs)
  show ?case unfolding loop_Cons Cons.IH map_of_eq_None_iff by (auto simp: image_iff)
qed

lemma accepts_iff: "loop [] i xs = None \<longleftrightarrow> (\<forall>x \<in> set xs. good x) \<and> distinct (map key xs)"
  by (simp add: accepts_from)

end

section \<open>Facts about paths\<close>

definition normal_seg :: "string \<Rightarrow> bool" where
  "normal_seg s \<longleftrightarrow> s \<noteq> [] \<and> s \<noteq> ''.'' \<and> s \<noteq> ''..'' \<and> slash \<notin> set s"

definition clean_inv :: "bool \<Rightarrow> string list \<Rightarrow> bool" where
  "clean_inv rooted st \<longleftrightarrow>
     (\<exists>ns k. st = ns @ replicate k ''..'' \<and> (\<forall>s \<in> set ns. normal_seg s) \<and> (rooted \<longrightarrow> k = 0))"

lemma clean_inv_Nil [simp]: "clean_inv rooted []"
  by (simp add: clean_inv_def)

lemma clean_inv_step:
  assumes "clean_inv rooted st" and "slash \<notin> set seg"
  shows "clean_inv rooted (clean_step rooted st seg)"
proof -
  from assms obtain ns k where st: "st = ns @ replicate k ''..''"
    and ns: "\<forall>s \<in> set ns. normal_seg s" and k: "rooted \<longrightarrow> k = 0"
    by (auto simp: clean_inv_def)
  consider "seg = [] \<or> seg = ''.''" | "seg = ''..''" | "normal_seg seg"
    using assms(2) by (auto simp: normal_seg_def)
  then show ?thesis
  proof cases
    case 1
    with assms(1) show ?thesis by auto
  next
    case 3
    then have "clean_step rooted st seg = (seg # ns) @ replicate k ''..''"
      using st by (simp add: normal_seg_def)
    with 3 ns k show ?thesis unfolding clean_inv_def
      by (intro exI [of _ "seg # ns"] exI [of _ k]) auto
  next
    case 2
    show ?thesis
    proof (cases ns)
      case (Cons n ns')
      with st ns 2 have "clean_step rooted st seg = ns' @ replicate k ''..''"
        by (auto simp: normal_seg_def)
      with Cons ns k show ?thesis unfolding clean_inv_def by auto
    next
      case Nil
      with st k 2 have "clean_step rooted st seg = (if rooted then [] else replicate (Suc k) ''..'')"
        by (cases k) auto
      then show ?thesis
        unfolding clean_inv_def by (intro exI [of _ "[]"]) (auto intro: exI [of _ "Suc k"])
    qed
  qed
qed

lemma clean_inv_foldl:
  "clean_inv rooted st \<Longrightarrow> \<forall>s \<in> set segs. slash \<notin> set s \<Longrightarrow>
   clean_inv rooted (foldl (clean_step rooted) st segs)"
  by (induction segs arbitrary: st) (auto intro: clean_inv_step simp del: clean_step.simps)

lemma clean_inv_segments:
  "\<forall>s \<in> set segs. slash \<notin> set s \<Longrightarrow> clean_inv rooted (rev (clean_segments rooted segs))"
  by (simp add: clean_segments_def clean_inv_foldl)

lemma foldl_clean_dots:
  "foldl (clean_step False) (replicate j ''..'') (replicate k ''..'') = replicate (j + k) ''..''"
proof (induction k arbitrary: j)
  case (Suc k)
  have "clean_step False (replicate j ''..'') ''..'' = replicate (Suc j) ''..''"
    by (cases j) auto
  with Suc [of "Suc j"] show ?case by (simp del: clean_step.simps)
qed simp

lemma foldl_clean_normal:
  "\<forall>s \<in> set ns. normal_seg s \<Longrightarrow> foldl (clean_step rooted) st ns = rev ns @ st"
  by (induction ns arbitrary: st) (auto simp: normal_seg_def)

lemma clean_segments_fixed:
  assumes "clean_inv rooted (rev segs)"
  shows "clean_segments rooted segs = segs"
proof -
  from assms obtain ns k where "rev segs = ns @ replicate k ''..''"
    and ns: "\<forall>s \<in> set ns. normal_seg s" and k: "rooted \<longrightarrow> k = 0"
    by (auto simp: clean_inv_def)
  then have segs: "segs = replicate k ''..'' @ rev ns"
    by (metis rev_append rev_replicate rev_rev_ident)
  have "foldl (clean_step rooted) [] (replicate k ''..'') = replicate k ''..''"
    using foldl_clean_dots [of 0 k] k by (cases rooted) auto
  with segs ns show ?thesis
    by (simp add: clean_segments_def foldl_clean_normal)
qed

lemma clean_inv_no_slash:
  "clean_inv rooted st \<Longrightarrow> s \<in> set st \<Longrightarrow> slash \<notin> set s \<and> s \<noteq> [] \<and> s \<noteq> ''.''"
proof -
  assume "clean_inv rooted st" and s: "s \<in> set st"
  then obtain ns k where "st = ns @ replicate k ''..''" and "\<forall>s \<in> set ns. normal_seg s"
    unfolding clean_inv_def by blast
  with s have "normal_seg s \<or> s = ''..''"
    by (metis Un_iff in_set_replicate set_append)
  then show ?thesis by (elim disjE) (simp_all add: normal_seg_def)
qed

text \<open>
  Cleaning is idempotent, and a relative clean path is exactly a sequence of \<open>..\<close> followed
  by ordinary names.
\<close>

lemma path_clean_abs:
  "is_abs p \<Longrightarrow> path_clean p = slash # join ''/'' (clean_segments True (split_char slash p))"
  by (simp add: path_clean_def)

lemma is_abs_path_clean [simp]: "is_abs (path_clean p) \<longleftrightarrow> is_abs p"
proof (cases "is_abs p")
  case True
  then show ?thesis by (simp add: path_clean_def is_abs_def)
next
  case False
  let ?segs = "clean_segments False (split_char slash p)"
  have inv: "clean_inv False (rev ?segs)"
    by (rule clean_inv_segments) (auto dest: split_char_no_sep)
  show ?thesis
  proof (cases ?segs)
    case Nil
    with False show ?thesis by (simp add: path_clean_def is_abs_def)
  next
    case (Cons s ss)
    with inv have "s \<noteq> []" and "slash \<notin> set s"
      using clean_inv_no_slash [OF inv, of s] by auto
    then have "\<not> is_abs (join ''/'' (s # ss))"
      by (cases ss; cases s) (auto simp: is_abs_def)
    with False Cons show ?thesis by (simp add: path_clean_def Let_def)
  qed
qed

lemma path_clean_idem [simp]: "path_clean (path_clean p) = path_clean p"
proof -
  let ?r = "is_abs p"
  let ?segs = "clean_segments ?r (split_char slash p)"
  have inv: "clean_inv ?r (rev ?segs)"
    by (rule clean_inv_segments) (auto dest: split_char_no_sep)
  then have fixed: "clean_segments ?r ?segs = ?segs"
    by (rule clean_segments_fixed)
  have ns: "\<forall>s \<in> set ?segs. slash \<notin> set s"
    using clean_inv_no_slash [OF inv] by auto
  have skip: "clean_segments ?r ([] # ?segs) = clean_segments ?r ?segs"
    by (simp add: clean_segments_def)
  have eq: "clean_segments ?r (split_char slash (path_clean p)) = ?segs"
  proof (cases "?segs = []")
    case True
    then have "path_clean p = (if ?r then ''/'' else ''.'')"
      by (simp add: path_clean_def)
    with True show ?thesis
      by (simp add: clean_segments_def)
  next
    case False
    with ns have "split_char slash (join ''/'' ?segs) = ?segs" by simp
    with False fixed skip show ?thesis
      by (cases ?r) (simp_all add: path_clean_def Let_def)
  qed
  have "path_clean (path_clean p) =
      (let segs = ?segs in if ?r then slash # join ''/'' segs
         else if segs = [] then ''.'' else join ''/'' segs)"
    unfolding path_clean_def [of "path_clean p"] is_abs_path_clean eq ..
  then show ?thesis by (simp add: path_clean_def)
qed

lemma path_clean_normal:
  assumes "segs \<noteq> []" and "\<forall>s \<in> set segs. normal_seg s"
  shows "path_clean (join ''/'' segs) = join ''/'' segs"
proof -
  from assms have split: "split_char slash (join ''/'' segs) = segs"
    by (simp add: normal_seg_def)
  obtain s ss where s: "segs = s # ss" using assms(1) by (cases segs) auto
  with assms(2) have "\<not> is_abs (join ''/'' segs)"
    by (cases ss; cases s) (auto simp: is_abs_def normal_seg_def)
  moreover have "clean_segments False segs = segs"
    using assms(2) by (simp add: clean_segments_def foldl_clean_normal)
  ultimately show ?thesis using assms(1) split by (simp add: path_clean_def)
qed

text \<open>
  Cleaning never lengthens a path, and it shortens a path that ends in a slash unless the
  path is the root. The weight of a list of segments is the length of their join, plus one
  when the list is not empty.
\<close>

definition seg_weight :: "string list \<Rightarrow> nat" where
  "seg_weight segs = sum_list (map (\<lambda>s. Suc (length s)) segs)"

lemma seg_weight_simps [simp]:
  "seg_weight [] = 0" "seg_weight (s # ss) = Suc (length s) + seg_weight ss"
  "seg_weight (a @ b) = seg_weight a + seg_weight b" "seg_weight (rev a) = seg_weight a"
  by (simp_all add: seg_weight_def rev_map [symmetric])

lemma join_length: "ss \<noteq> [] \<Longrightarrow> Suc (length (join ''/'' ss)) = seg_weight ss"
  by (induction ss rule: induct_list012) auto

lemma clean_step_weight:
  "seg_weight (clean_step r st seg) \<le> seg_weight st + (if seg = [] then 0 else Suc (length seg))"
  by (auto split: list.splits)

lemma foldl_clean_weight:
  "seg_weight (foldl (clean_step r) st segs) \<le> seg_weight st + seg_weight (filter (\<lambda>s. s \<noteq> []) segs)"
proof (induction segs arbitrary: st)
  case (Cons a segs)
  have "seg_weight (foldl (clean_step r) st (a # segs)) \<le>
      seg_weight (clean_step r st a) + seg_weight (filter (\<lambda>s. s \<noteq> []) segs)"
    using Cons [of "clean_step r st a"] by (simp del: clean_step.simps)
  also have "\<dots> \<le> seg_weight st + seg_weight (filter (\<lambda>s. s \<noteq> []) (a # segs))"
    using clean_step_weight [of r st a] by (simp del: clean_step.simps split: if_splits)
  finally show ?case .
qed simp

lemma split_weight:
  "seg_weight (filter (\<lambda>s. s \<noteq> []) segs) + length (filter (\<lambda>s. s = []) segs) = seg_weight segs"
  by (induction segs) auto

lemma clean_weight:
  "seg_weight (clean_segments r (split_char slash p)) + length (filter (\<lambda>s. s = []) (split_char slash p)) \<le>
   Suc (length p)"
proof -
  let ?segs = "split_char slash p"
  have "seg_weight (clean_segments r ?segs) \<le> seg_weight (filter (\<lambda>s. s \<noteq> []) ?segs)"
    using foldl_clean_weight [of r "[]" ?segs] by (simp add: clean_segments_def)
  moreover have "seg_weight ?segs = Suc (length p)" using join_length [of ?segs] by simp
  ultimately show ?thesis using split_weight [of ?segs] by simp
qed

lemma path_clean_length_weight:
  "length (path_clean p) = (let w = seg_weight (clean_segments (is_abs p) (split_char slash p))
     in if is_abs p then max 1 w else if w = 0 then 1 else w - 1)"
proof -
  let ?segs = "clean_segments (is_abs p) (split_char slash p)"
  show ?thesis
  proof (cases "?segs = []")
    case True
    then show ?thesis by (simp add: path_clean_def)
  next
    case False
    then have "seg_weight ?segs = Suc (length (join ''/'' ?segs))" using join_length by metis
    with False show ?thesis by (cases "is_abs p") (simp_all add: path_clean_def Let_def)
  qed
qed

lemma split_char_abs: "is_abs p \<Longrightarrow> \<exists>ss. split_char slash p = [] # ss \<and> ss \<noteq> []"
  by (cases p) (auto simp: is_abs_def)

lemma path_clean_length: "p \<noteq> [] \<Longrightarrow> length (path_clean p) \<le> length p"
proof -
  assume "p \<noteq> []"
  then have len: "1 \<le> length p" by (cases p) auto
  show ?thesis
  proof (cases "is_abs p")
    case True
    then have "1 \<le> length (filter (\<lambda>s. s = []) (split_char slash p))" using split_char_abs by force
    with clean_weight [of True p] True len show ?thesis by (simp add: path_clean_length_weight Let_def)
  next
    case False
    with clean_weight [of False p] len show ?thesis by (auto simp: path_clean_length_weight Let_def)
  qed
qed

lemma split_char_snoc: "split_char c (s @ [c]) = split_char c s @ [[]]"
proof (induction s)
  case (Cons x s)
  then show ?case by (cases "split_char c s") (auto split: list.splits)
qed simp

lemma path_clean_trailing: "d \<noteq> [] \<Longrightarrow> length (path_clean (d @ ''/'')) < length (d @ ''/'')"
proof -
  assume "d \<noteq> []"
  then have len: "1 \<le> length d" by (cases d) auto
  have abs: "is_abs (d @ ''/'') = is_abs d" using \<open>d \<noteq> []\<close> by (cases d) (auto simp: is_abs_def)
  have last: "filter (\<lambda>s. s = []) (split_char slash (d @ ''/'')) = filter (\<lambda>s. s = []) (split_char slash d) @ [[]]"
    by (simp add: split_char_snoc)
  show ?thesis
  proof (cases "is_abs d")
    case True
    then have "2 \<le> length (filter (\<lambda>s. s = []) (split_char slash (d @ ''/'')))"
      using split_char_abs [OF True] last by auto
    with clean_weight [of True "d @ ''/''"] True len abs \<open>d \<noteq> []\<close> show ?thesis
      by (simp add: path_clean_length_weight Let_def)
  next
    case False
    with clean_weight [of False "d @ ''/''"] len abs last show ?thesis
      by (auto simp: path_clean_length_weight Let_def)
  qed
qed

text \<open>Walking up with \<open>filepath.Dir\<close> ends.\<close>

lemma path_dir_smaller:
  assumes "p \<noteq> []" and "path_dir p \<noteq> p"
  shows "length (path_dir p) < length p \<or> length (path_dir p) = length p \<and> path_dir p = ''.'' \<and> p \<noteq> ''.''"
proof (cases "cut_last_char slash p")
  case None
  then have "path_dir p = ''.''" by (simp add: path_dir_def)
  with assms show ?thesis by (cases p; cases "tl p") auto
next
  case (Some x)
  then obtain d b where db: "cut_last_char slash p = Some (d, b)" by (cases x) auto
  then have "cut_char slash (rev p) = (rev b, Some (rev d))"
    by (auto simp: cut_last_char_def split: prod.splits option.splits)
  then have "rev p = rev b @ slash # rev d" using cut_char_SomeD by metis
  then have p: "p = d @ slash # b" by (metis append.assoc append_Cons append_Nil rev.simps(2) rev_append rev_rev_ident)
  have r: "path_dir p = path_clean (d @ ''/'')" using db by (simp add: path_dir_def)
  show ?thesis
  proof (cases "d = []")
    case True
    have "path_clean ''/'' = ''/''" by (simp add: path_clean_def is_abs_def clean_segments_def)
    with r True p assms(2) show ?thesis by (cases b) auto
  next
    case False
    with path_clean_trailing [OF False] r p show ?thesis by auto
  qed
qed

end
