(* ===== verification/Remote.thy ===== *)
theory Remote
  imports Go_Base "HOL-Library.Monad_Syntax"
begin

text \<open>
  Git remote normalisation, \<open>internal/ingest/remote.go\<close>: the strict parser
  \<open>NormalizeRemoteURL\<close> that gives a project its canonical identity, the best-effort
  \<open>NormalizeRemoteForMatch\<close> that both sides of a selection comparison go through, and
  \<open>NormalizeProjectNameForMatch\<close> of \<open>internal/ingest/types.go\<close>.

  A Go function that can panic has an \<open>option\<close> result here: \<open>None\<close> is the panic. The error
  path of the URL branch formats a field of a nil pointer, so a remote that \<open>url.Parse\<close>
  rejects makes \<open>NormalizeRemoteURL\<close> panic; the model keeps that outcome apart from the
  ordinary errors.

  \<open>url.Parse\<close> (package net/url, as of Go 1.26) is modelled on the inputs that reach it
  here, \<open>scheme://authority/path?query#fragment\<close>, down to its result fields \<open>Hostname()\<close>
  and \<open>Path\<close>. An IP literal in brackets is accepted without checking the address.
\<close>

section \<open>net/url\<close>

definition byte :: "char \<Rightarrow> nat" where
  "byte c = of_char c"

definition is_digit :: "char \<Rightarrow> bool" where
  "is_digit c = (48 \<le> byte c \<and> byte c \<le> 57)"

definition is_alnum :: "char \<Rightarrow> bool" where
  "is_alnum c = (is_digit c \<or> 65 \<le> byte c \<and> byte c \<le> 90 \<or> 97 \<le> byte c \<and> byte c \<le> 122)"

definition is_hex :: "char \<Rightarrow> bool" where
  "is_hex c = (is_digit c \<or> 65 \<le> byte c \<and> byte c \<le> 70 \<or> 97 \<le> byte c \<and> byte c \<le> 102)"

definition unhex :: "char \<Rightarrow> nat" where
  "unhex c =
     (if is_digit c then byte c - 48
      else if 97 \<le> byte c then byte c - 87 else byte c - 55)"

text \<open>
  \<open>unescape\<close>: percent decoding. \<open>ok\<close> says which plain bytes the component allows and \<open>pct\<close>
  which escapes.
\<close>

fun unescape :: "(char \<Rightarrow> bool) \<Rightarrow> (char \<Rightarrow> char \<Rightarrow> bool) \<Rightarrow> string \<Rightarrow> string option" where
  "unescape ok pct [] = Some []"
| "unescape ok pct (c # cs) =
     (if c = CHR ''%'' then
        (case cs of
           a # b # r \<Rightarrow>
             if is_hex a \<and> is_hex b \<and> pct a b
             then map_option (Cons (char_of (16 * unhex a + unhex b))) (unescape ok pct r)
             else None
         | _ \<Rightarrow> None)
      else if ok c then map_option (Cons c) (unescape ok pct cs) else None)"

definition unescape_any :: "string \<Rightarrow> string option" where
  "unescape_any s = unescape (\<lambda>_. True) (\<lambda>_ _. True) s"

definition host_char :: "char \<Rightarrow> bool" where
  "host_char c = (128 \<le> byte c \<or> is_alnum c \<or> c \<in> set ''-_.~!$&()*+,;=:[]<>'' \<or> byte c = 34 \<or> byte c = 39)"

definition host_pct :: "char \<Rightarrow> char \<Rightarrow> bool" where
  "host_pct a b = (8 \<le> unhex a \<or> a = CHR ''2'' \<and> b = CHR ''5'')"

definition userinfo_char :: "char \<Rightarrow> bool" where
  "userinfo_char c = (is_alnum c \<or> c \<in> set ''-._:~!$&()*+,;=%@'' \<or> byte c = 39)"

definition valid_optional_port :: "string \<Rightarrow> bool" where
  "valid_optional_port s = (case s of [] \<Rightarrow> True | c # cs \<Rightarrow> c = CHR '':'' \<and> list_all is_digit cs)"

definition parse_host :: "string \<Rightarrow> string option" where
  "parse_host h =
     (if prefix ''['' h then
        (case cut_last_char (CHR '']'') h of
           None \<Rightarrow> None
         | Some (_, port) \<Rightarrow>
             if valid_optional_port port then unescape host_char host_pct h else None)
      else
        (case cut_char (CHR '':'') h of
           (_, None) \<Rightarrow> unescape host_char host_pct h
         | (_, Some port) \<Rightarrow>
             if list_all is_digit port then unescape host_char host_pct h else None))"

definition parse_authority :: "string \<Rightarrow> string option" where
  "parse_authority a =
     (case cut_last_char (CHR ''@'') a of
        None \<Rightarrow> parse_host a
      | Some (user, host) \<Rightarrow>
          (case parse_host host of
             None \<Rightarrow> None
           | Some h \<Rightarrow>
               if list_all userinfo_char user \<and> unescape_any user \<noteq> None then Some h else None))"

text \<open>\<open>URL.Hostname\<close>: the host without a port and without the brackets of an IP literal.\<close>

definition url_hostname :: "string \<Rightarrow> string" where
  "url_hostname h =
     (let h1 = (case cut_last_char (CHR '':'') h of
                  None \<Rightarrow> h
                | Some (a, port) \<Rightarrow> if list_all is_digit port then a else h)
      in if prefix ''['' h1 \<and> suffix '']'' h1 then butlast (tl h1) else h1)"

definition has_ctl :: "string \<Rightarrow> bool" where
  "has_ctl s = list_ex (\<lambda>c. byte c < 32 \<or> byte c = 127) s"

text \<open>
  \<open>url.Parse\<close> on a string that starts with \<open>scheme://\<close>, given what follows those
  characters: the host as \<open>Hostname()\<close> returns it and the decoded path.
\<close>

definition url_parse :: "string \<Rightarrow> string \<Rightarrow> (string \<times> string) option" where
  "url_parse scheme remote =
     (let (front, frag) = cut_char (CHR ''#'') remote;
          rest = drop (length scheme) (fst (cut_char (CHR ''?'') front));
          authority = fst (cut_char slash rest);
          rawpath = drop (length authority) rest
      in if has_ctl front then None
         else case parse_authority authority of
                None \<Rightarrow> None
              | Some host \<Rightarrow>
                  (case unescape_any rawpath of
                     None \<Rightarrow> None
                   | Some path \<Rightarrow>
                       (case frag of
                          Some f \<Rightarrow>
                            if unescape_any f = None then None else Some (url_hostname host, path)
                        | None \<Rightarrow> Some (url_hostname host, path))))"

section \<open>Normalising a remote\<close>

datatype remote_error =
    EmptyRemote | ScpNoPath | FileScheme | NoHost | NoPath | UnrecognizedFormat

definition ext_git :: string where
  "ext_git = ''.git''"

text \<open>
  \<open>scpPattern\<close>, \<open>^git@([^:]+):(.+?)(?:\.git)?$\<close>: the host runs to the first colon, the
  path is on one line, and the lazy group leaves one \<open>.git\<close> at the end out when
  something is left without it.
\<close>

definition scp_match :: "string \<Rightarrow> (string \<times> string) option" where
  "scp_match remote =
     (if prefix ''git@'' remote then
        (case cut_char (CHR '':'') (drop 4 remote) of
           (host, Some p) \<Rightarrow>
             if host \<noteq> [] \<and> p \<noteq> [] \<and> CHR 0x0A \<notin> set p
             then Some (host, if suffix ext_git p \<and> length p > 4 then trim_suffix ext_git p else p)
             else None
         | _ \<Rightarrow> None)
      else None)"

definition url_schemes :: "string list" where
  "url_schemes = [''https://'', ''http://'', ''ssh://'', ''git://'']"

definition scheme_of :: "string \<Rightarrow> string option" where
  "scheme_of remote = find (\<lambda>s. prefix s remote) url_schemes"

definition NormalizeRemoteURL :: "string \<Rightarrow> (remote_error + string) option" where
  "NormalizeRemoteURL remote =
     (if remote = [] then Some (Inl EmptyRemote)
      else case scp_match remote of
        Some (h, p) \<Rightarrow>
          let path = trim_chars ''/'' (trim_suffix ext_git p)
          in if path = [] then Some (Inl ScpNoPath)
             else Some (Inr (to_lower h @ ''/'' @ path))
      | None \<Rightarrow>
          if prefix ''file://'' remote then Some (Inl FileScheme)
          else case scheme_of remote of
            None \<Rightarrow> Some (Inl UnrecognizedFormat)
          | Some scheme \<Rightarrow>
              (case url_parse scheme remote of
                 None \<Rightarrow> None
               | Some (hostname, upath) \<Rightarrow>
                   let host = to_lower hostname;
                       path = trim_chars ''/'' (trim_suffix ext_git (trim_prefix ''/'' upath))
                   in if host = [] then Some (Inl NoHost)
                      else if path = [] then Some (Inl NoPath)
                      else Some (Inr (host @ ''/'' @ path))))"

definition RepoNameFromRemote :: "string \<Rightarrow> string option" where
  "RepoNameFromRemote remote =
     (case NormalizeRemoteURL remote of
        None \<Rightarrow> None
      | Some (Inl _) \<Rightarrow> Some []
      | Some (Inr n) \<Rightarrow>
          (case cut_last_char slash n of None \<Rightarrow> Some [] | Some (_, repo) \<Rightarrow> Some repo))"

definition NormalizeRemoteForMatch :: "string \<Rightarrow> string option" where
  "NormalizeRemoteForMatch raw =
     (let remote = trim_space raw
      in if remote = [] then Some []
         else case NormalizeRemoteURL remote of
           None \<Rightarrow> None
         | Some (Inr normalized) \<Rightarrow> Some normalized
         | Some (Inl _) \<Rightarrow>
             let trimmed = trim_suffix ext_git (trim_chars ''/'' remote)
             in if trimmed = [] then Some []
                else Some (case cut_char slash trimmed of
                             (h, Some p) \<Rightarrow> if h \<noteq> [] then to_lower h @ slash # p else to_lower trimmed
                           | (_, None) \<Rightarrow> to_lower trimmed))"

definition NormalizeProjectNameForMatch :: "string \<Rightarrow> string" where
  "NormalizeProjectNameForMatch raw =
     (let name = trim_space raw
      in if name = [] then []
         else if slash \<notin> set name \<and> backslash \<notin> set name then name
         else let base = path_base (path_clean name)
              in if base = ''.'' \<or> base = ''/'' then [] else base)"

section \<open>Remotes as people write them\<close>

text \<open>
  A plain host and a plain repository path: the bytes a hosting service uses. The
  lemmas below evaluate the normalisers on every spelling of such a remote.
\<close>

definition plain_char :: "char \<Rightarrow> bool" where
  "plain_char c = (is_alnum c \<or> c = CHR ''-'' \<or> c = CHR ''.'' \<or> c = CHR ''_'')"

definition plain_host :: "string \<Rightarrow> bool" where
  "plain_host h = (h \<noteq> [] \<and> list_all plain_char h)"

definition plain_path :: "string \<Rightarrow> bool" where
  "plain_path p =
     (p \<noteq> [] \<and> hd p \<noteq> slash \<and> last p \<noteq> slash \<and>
      list_all (\<lambda>c. plain_char c \<or> c = slash) p)"

lemma not_in_list_all: "list_all P s \<Longrightarrow> \<not> P c \<Longrightarrow> c \<notin> set s"
  by (auto simp: list_all_iff)

lemma not_plain_char [simp]:
  "\<not> plain_char CHR ''#''" "\<not> plain_char CHR ''?''" "\<not> plain_char CHR ''%''"
  "\<not> plain_char CHR '':''" "\<not> plain_char CHR ''@''" "\<not> plain_char slash"
  "\<not> plain_char CHR ''[''" "\<not> plain_char CHR 0x0A" "\<not> plain_char CHR 0x20"
  by (simp_all add: plain_char_def is_alnum_def is_digit_def byte_def)

lemma plain_char_no_ctl: "plain_char c \<Longrightarrow> \<not> byte c < 32 \<and> byte c \<noteq> 127"
  by (auto simp: plain_char_def is_alnum_def is_digit_def byte_def)

lemma plain_char_host: "plain_char c \<Longrightarrow> host_char c"
  by (auto simp: plain_char_def host_char_def)

lemma plain_char_userinfo: "plain_char c \<Longrightarrow> userinfo_char c"
  by (auto simp: plain_char_def userinfo_char_def)

lemma digit_plain: "is_digit c \<Longrightarrow> plain_char c"
  by (simp add: plain_char_def is_alnum_def)

lemma digits_plain: "list_all is_digit s \<Longrightarrow> list_all plain_char s"
  by (auto simp: list_all_iff intro: digit_plain)

lemma no_ctl_list:
  "list_all P s \<Longrightarrow> (\<And>c. P c \<Longrightarrow> \<not> byte c < 32 \<and> byte c \<noteq> 127) \<Longrightarrow> \<not> has_ctl s"
  by (auto simp: list_all_iff has_ctl_def list_ex_iff)

lemma plain_list:
  assumes "list_all plain_char s"
  shows "CHR ''#'' \<notin> set s" "CHR ''?'' \<notin> set s" "CHR ''%'' \<notin> set s" "CHR '':'' \<notin> set s"
    "CHR ''@'' \<notin> set s" "slash \<notin> set s" "CHR ''['' \<notin> set s" "CHR 0x0A \<notin> set s"
  by (rule not_in_list_all [OF assms], simp)+

lemma plain_list_chars:
  assumes "list_all plain_char s"
  shows "\<not> has_ctl s" "list_all host_char s" "list_all userinfo_char s"
proof -
  show "\<not> has_ctl s" using assms by (rule no_ctl_list) (rule plain_char_no_ctl)
  show "list_all host_char s" using assms plain_char_host by (simp add: list_all_iff)
  show "list_all userinfo_char s" using assms plain_char_userinfo by (simp add: list_all_iff)
qed

lemma plain_path_list:
  assumes "list_all (\<lambda>c. plain_char c \<or> c = slash) s"
  shows "CHR ''#'' \<notin> set s" "CHR ''?'' \<notin> set s" "CHR ''%'' \<notin> set s" "CHR '':'' \<notin> set s"
    "CHR 0x0A \<notin> set s"
  by (rule not_in_list_all [OF assms], simp)+

lemma plain_path_no_ctl:
  assumes "list_all (\<lambda>c. plain_char c \<or> c = slash) s"
  shows "\<not> has_ctl s"
  using assms by (rule no_ctl_list) (auto dest: plain_char_no_ctl simp: byte_def)

lemma has_ctl_append [simp]: "has_ctl (a @ b) \<longleftrightarrow> has_ctl a \<or> has_ctl b"
  by (simp add: has_ctl_def)

lemma has_ctl_Cons: "has_ctl (c # s) \<longleftrightarrow> byte c < 32 \<or> byte c = 127 \<or> has_ctl s"
  by (simp add: has_ctl_def)

lemma unescape_plain:
  "CHR ''%'' \<notin> set s \<Longrightarrow> list_all ok s \<Longrightarrow> unescape ok pct s = Some s"
  by (induction s) auto

lemma unescape_any_plain: "CHR ''%'' \<notin> set s \<Longrightarrow> unescape_any s = Some s"
  by (simp add: unescape_any_def unescape_plain list_all_iff)

lemma trim_suffix_absent: "\<not> suffix e s \<Longrightarrow> trim_suffix e s = s"
  by (simp add: trim_suffix_def)

lemma trim_suffix_append [simp]: "trim_suffix e (s @ e) = s"
  by (simp add: trim_suffix_def suffix_def)

lemma trim_chars_fixed:
  assumes "s \<noteq> []" and "hd s \<notin> set cs" and "last s \<notin> set cs"
  shows "trim_chars cs s = s"
proof -
  obtain a t where s: "s = a # t" using assms(1) by (cases s) auto
  have "dropWhile (\<lambda>c. c \<in> set cs) s = s" using assms s by simp
  moreover obtain b u where "rev s = b # u" using assms(1) by (cases "rev s") auto
  then have "dropWhile (\<lambda>c. c \<in> set cs) (rev s) = rev s"
    using assms(3) by (metis dropWhile.simps(2) hd_rev list.sel(1))
  ultimately show ?thesis by (simp add: trim_chars_def trim_left_chars_def)
qed

lemma trim_chars_plain_path [simp]: "plain_path p \<Longrightarrow> trim_chars ''/'' p = p"
  by (rule trim_chars_fixed) (auto simp: plain_path_def)

section \<open>The parser on plain authorities\<close>

definition plain_user :: "string \<Rightarrow> bool" where
  "plain_user u = (u = [] \<or> (\<exists>n. u = n @ ''@'' \<and> list_all plain_char n))"

definition plain_port :: "string \<Rightarrow> bool" where
  "plain_port t = (t = [] \<or> (\<exists>d. t = '':'' @ d \<and> list_all is_digit d))"

lemma no_bracket_plain:
  assumes "plain_host h"
  shows "\<not> prefix ''['' (h @ t)"
proof -
  from assms obtain c cs where "h = c # cs" and "plain_char c"
    by (cases h) (auto simp: plain_host_def)
  then show ?thesis by (auto simp: prefix_def)
qed

lemma parse_host_plain:
  assumes "plain_host h" and "plain_port t"
  shows "parse_host (h @ t) = Some (h @ t)"
proof -
  from assms(1) have ph: "list_all plain_char h" by (simp add: plain_host_def)
  have nb: "\<not> prefix ''['' (h @ t)" using assms(1) by (rule no_bracket_plain)
  consider "t = []" | d where "t = CHR '':'' # d" "list_all is_digit d"
    using assms(2) by (auto simp: plain_port_def)
  then show ?thesis
  proof cases
    case 1
    with nb plain_list(3,4) [OF ph] plain_list_chars(2) [OF ph] show ?thesis
      by (simp add: parse_host_def cut_char_None unescape_plain)
  next
    case 2
    note d = digits_plain [OF 2(2)]
    have "host_char CHR '':''" by (simp add: host_char_def)
    then have all: "list_all host_char (h @ t)" "CHR ''%'' \<notin> set (h @ t)"
      using plain_list(3) [OF ph] plain_list_chars(2) [OF ph] plain_list(3) [OF d]
        plain_list_chars(2) [OF d] 2(1) by simp_all
    have "cut_char (CHR '':'') (h @ t) = (h, Some d)"
      using plain_list(4) [OF ph] 2(1) by (simp add: cut_char_append)
    with nb all 2(2) show ?thesis by (simp add: parse_host_def unescape_plain)
  qed
qed

lemma plain_port_no_at: "plain_port t \<Longrightarrow> CHR ''@'' \<notin> set t"
  using plain_list(5) [OF digits_plain] by (auto simp: plain_port_def)

lemma parse_authority_plain:
  assumes "plain_user u" and "plain_host h" and "plain_port t"
  shows "parse_authority (u @ h @ t) = Some (h @ t)"
proof -
  have "CHR ''@'' \<notin> set h" using assms(2) plain_list(5) by (simp add: plain_host_def)
  with plain_port_no_at [OF assms(3)] have no_at: "CHR ''@'' \<notin> set (h @ t)" by simp
  consider "u = []" | n where "u = n @ ''@''" "list_all plain_char n"
    using assms(1) by (auto simp: plain_user_def)
  then show ?thesis
  proof cases
    case 1
    with no_at show ?thesis
      by (simp add: parse_authority_def cut_last_char_None parse_host_plain assms)
  next
    case 2
    with no_at have "cut_last_char (CHR ''@'') (u @ h @ t) = Some (n, h @ t)"
      using cut_last_char_append [of "CHR ''@''" "h @ t" n] by simp
    with 2 show ?thesis
      using plain_list(3) [OF 2(2)] plain_list_chars(3) [OF 2(2)]
      by (simp add: parse_authority_def parse_host_plain assms unescape_any_plain)
  qed
qed

lemma url_hostname_plain:
  assumes "plain_host h" and "plain_port t"
  shows "url_hostname (h @ t) = h"
proof -
  from assms(1) have ph: "list_all plain_char h" by (simp add: plain_host_def)
  have "\<not> prefix ''['' h" using no_bracket_plain [OF assms(1), of "[]"] by simp
  moreover have "CHR '':'' \<notin> set h" by (rule plain_list(4) [OF ph])
  moreover have "cut_last_char (CHR '':'') (h @ CHR '':'' # d) = Some (h, d)"
    if "list_all is_digit d" for d
    using plain_list(4) [OF digits_plain [OF that]] by (rule cut_last_char_append)
  ultimately show ?thesis
    using assms(2) by (auto simp: url_hostname_def plain_port_def cut_last_char_None)
qed

lemma plain_authority:
  assumes "plain_user u" and "plain_host h" and "plain_port t"
  shows "list_all (\<lambda>c. plain_char c \<or> c = CHR ''@'' \<or> c = CHR '':'') (u @ h @ t)"
  using assms by (auto simp: plain_user_def plain_host_def plain_port_def list_all_iff
      intro: digit_plain)

lemma url_parse_plain:
  assumes "list_all (\<lambda>c. plain_char c \<or> c = slash) p"
    and "plain_user u" and "plain_host h" and "plain_port t" and "\<not> has_ctl sch"
    and "CHR ''#'' \<notin> set sch" and "CHR ''?'' \<notin> set sch"
  shows "url_parse sch (sch @ u @ h @ t @ slash # p) = Some (h, slash # p)"
proof -
  let ?a = "u @ h @ t"
  note a = plain_authority [OF assms(2-4)]
  have no: "CHR ''#'' \<notin> set ?a" "CHR ''?'' \<notin> set ?a" "slash \<notin> set ?a"
    by (rule not_in_list_all [OF a], simp)+
  have "\<not> has_ctl ?a"
    using a by (rule no_ctl_list) (auto dest: plain_char_no_ctl simp: byte_def)
  note no = no this
  note p = plain_path_list [OF assms(1)] plain_path_no_ctl [OF assms(1)]
  have c1: "cut_char (CHR ''#'') (sch @ ?a @ slash # p) = (sch @ ?a @ slash # p, None)"
    and c2: "cut_char (CHR ''?'') (sch @ ?a @ slash # p) = (sch @ ?a @ slash # p, None)"
    using assms(6,7) no p by (auto intro!: cut_char_None)
  have c3: "cut_char slash (?a @ slash # p) = (?a, Some p)"
    using no by (intro cut_char_append)
  have ctl: "\<not> has_ctl (sch @ ?a @ slash # p)"
    using assms(5) no p by (simp add: has_ctl_Cons byte_def)
  have un: "unescape_any (slash # p) = Some (slash # p)"
    using p(3) by (intro unescape_any_plain) simp
  show ?thesis
    using c1 c2 c3 ctl un parse_authority_plain [OF assms(2-4)] url_hostname_plain [OF assms(3,4)]
    by (simp add: url_parse_def)
qed

section \<open>Every spelling of a remote has one canonical form\<close>

lemma trim_prefix_slash [simp]: "trim_prefix ''/'' (slash # p) = p"
  by (simp add: trim_prefix_def)

lemma suffix_git_append:
  assumes "\<not> suffix ext_git p"
  shows "\<not> suffix ext_git (x @ slash # p)"
proof
  assume "suffix ext_git (x @ slash # p)"
  then obtain y where y: "x @ slash # p = y @ ext_git" by (auto simp: suffix_def)
  then consider z where "slash # p = z @ ext_git" | z where "ext_git = z @ slash # p"
    by (metis append_eq_append_conv2)
  then show False
  proof cases
    case 1
    with assms show False by (cases z) (auto simp: ext_git_def suffix_def)
  next
    case 2
    then have "slash \<in> set ext_git" by (metis in_set_conv_decomp)
    then show False by (simp add: ext_git_def)
  qed
qed

lemma scheme_cases:
  assumes "sch \<in> set url_schemes"
  obtains "sch = ''https://''" | "sch = ''http://''" | "sch = ''ssh://''" | "sch = ''git://''"
  using assms unfolding url_schemes_def by (simp, blast)

lemma scheme_facts:
  assumes "sch \<in> set url_schemes"
  shows "scheme_of (sch @ r) = Some sch" "scp_match (sch @ r) = None"
    "\<not> prefix ''file://'' (sch @ r)" "sch @ r \<noteq> []" "\<not> has_ctl sch"
    "CHR ''#'' \<notin> set sch" "CHR ''?'' \<notin> set sch"
proof -
  show "scheme_of (sch @ r) = Some sch"
    using assms by (cases rule: scheme_cases) (simp_all add: scheme_of_def url_schemes_def)
  have "\<not> prefix ''git@'' (sch @ r)" using assms by (cases rule: scheme_cases) simp_all
  then show "scp_match (sch @ r) = None" by (simp add: scp_match_def)
  show "\<not> prefix ''file://'' (sch @ r)" using assms by (cases rule: scheme_cases) simp_all
  show "sch @ r \<noteq> []" using assms by (cases rule: scheme_cases) simp_all
  show "\<not> has_ctl sch"
    using assms by (cases rule: scheme_cases) (simp_all add: has_ctl_def byte_def)
  show "CHR ''#'' \<notin> set sch" using assms by (cases rule: scheme_cases) simp_all
  show "CHR ''?'' \<notin> set sch" using assms by (cases rule: scheme_cases) simp_all
qed

lemma NormalizeRemoteURL_scp:
  assumes "plain_host h" and "list_all (\<lambda>c. plain_char c \<or> c = slash) q" and "q \<noteq> []"
    and "length q > 4 \<or> \<not> suffix ext_git q"
    and "trim_chars ''/'' (trim_suffix ext_git (trim_suffix ext_git q)) = r" and "r \<noteq> []"
  shows "NormalizeRemoteURL (''git@'' @ h @ '':'' @ q) = Some (Inr (to_lower h @ ''/'' @ r))"
proof -
  have "cut_char (CHR '':'') (h @ CHR '':'' # q) = (h, Some q)"
    using assms(1) plain_list(4) by (intro cut_char_append) (simp add: plain_host_def)
  moreover have "h \<noteq> []" using assms(1) by (simp add: plain_host_def)
  ultimately have "scp_match (''git@'' @ h @ '':'' @ q) = Some (h, trim_suffix ext_git q)"
    using assms(3,4) plain_path_list(5) [OF assms(2)]
    by (auto simp: scp_match_def trim_suffix_absent)
  with assms(5,6) show ?thesis
    unfolding NormalizeRemoteURL_def by (simp add: Let_def)
qed

lemma NormalizeRemoteURL_scheme:
  assumes "sch \<in> set url_schemes" and "plain_user u" and "plain_host h" and "plain_port t"
    and "list_all (\<lambda>c. plain_char c \<or> c = slash) q"
    and "trim_chars ''/'' (trim_suffix ext_git q) = r" and "r \<noteq> []"
  shows "NormalizeRemoteURL (sch @ u @ h @ t @ ''/'' @ q) = Some (Inr (to_lower h @ ''/'' @ r))"
proof -
  note sf = scheme_facts [OF assms(1)]
  have "url_parse sch (sch @ u @ h @ t @ slash # q) = Some (h, slash # q)"
    using assms(5,2,3,4) sf(5-7) by (rule url_parse_plain)
  moreover have "h \<noteq> []" using assms(3) by (simp add: plain_host_def)
  ultimately show ?thesis
    unfolding NormalizeRemoteURL_def using sf(1-4) assms(6,7) by (simp add: Let_def)
qed

lemma space_bytes_not_plain:
  "list_all (\<lambda>s. \<not> plain_char (hd s) \<and> \<not> plain_char (hd (rev s))) space_seqs"
  by code_simp

lemma plain_not_space:
  assumes "plain_char c"
  shows "\<not> space_start c" "\<not> space_end c"
  using assms space_bytes_not_plain
  by (auto simp: space_start_def space_end_def list_all_iff)

lemma plain_letters [simp]:
  "plain_char CHR ''t''" "plain_char CHR ''g''" "plain_char CHR ''h''" "plain_char CHR ''s''"
  by (simp_all add: plain_char_def is_alnum_def is_digit_def byte_def)

lemma bare_not_url:
  assumes "s \<noteq> []" and "CHR ''@'' \<notin> set s" and "CHR '':'' \<notin> set s"
  shows "NormalizeRemoteURL s = Some (Inl UnrecognizedFormat)"
proof -
  have "\<not> prefix x s" if "CHR '':'' \<in> set x" for x
    using that assms(3) set_mono_prefix by blast
  then have "\<not> prefix ''file://'' s" and "scheme_of s = None"
    by (simp_all add: scheme_of_def url_schemes_def)
  moreover have "\<not> prefix ''git@'' s"
    using assms(2) set_mono_prefix by fastforce
  then have "scp_match s = None" by (simp add: scp_match_def)
  ultimately show ?thesis using assms(1) by (simp add: NormalizeRemoteURL_def)
qed

lemma NormalizeRemoteForMatch_bare:
  assumes "plain_host h" and "plain_path p" and "\<not> suffix ext_git p" and "e \<in> {[], ext_git}"
  shows "NormalizeRemoteForMatch (h @ ''/'' @ p @ e) = Some (to_lower h @ ''/'' @ p)"
proof -
  let ?s = "h @ ''/'' @ p @ e"
  from assms(1) obtain c cs where h: "h = c # cs" and c: "plain_char c" and ph: "list_all plain_char h"
    by (cases h) (auto simp: plain_host_def)
  from assms(2) have pp: "list_all (\<lambda>c. plain_char c \<or> c = slash) p" and pn: "p \<noteq> []"
    and "last p \<noteq> slash" by (auto simp: plain_path_def)
  then have "plain_char (last p)" by (auto simp: list_all_iff)
  then have last: "plain_char (last ?s)" using assms(4) pn by (auto simp: ext_git_def)
  have trim: "trim_space ?s = ?s"
    using h c last plain_not_space by (intro trim_space_plain) auto
  have "CHR ''@'' \<notin> set p" by (rule not_in_list_all [OF pp]) simp
  then have "CHR ''@'' \<notin> set ?s" "CHR '':'' \<notin> set ?s"
    using plain_list [OF ph] plain_path_list(4) [OF pp] assms(4) by (auto simp: ext_git_def)
  then have err: "NormalizeRemoteURL ?s = Some (Inl UnrecognizedFormat)"
    using h by (intro bare_not_url) auto
  have "last ?s \<noteq> slash" using last by auto
  moreover have "hd ?s \<noteq> slash" using h c by auto
  ultimately have slashes: "trim_chars ''/'' ?s = ?s"
    using h by (intro trim_chars_fixed) auto
  have "trim_suffix ext_git ?s = h @ ''/'' @ p"
  proof (cases "e = []")
    case True
    then show ?thesis
      using suffix_git_append [OF assms(3), of h] by (simp add: trim_suffix_absent)
  next
    case False
    with assms(4) show ?thesis using trim_suffix_append [of ext_git "h @ ''/'' @ p"] by simp
  qed
  moreover have "cut_char slash (h @ ''/'' @ p) = (h, Some p)"
    using plain_list(6) [OF ph] cut_char_append [of slash h p] by simp
  ultimately show ?thesis
    using h err trim slashes by (simp add: NormalizeRemoteForMatch_def Let_def)
qed

text \<open>
  C34: One repository, one key. For a plain host and repository path, the SCP form, every
  URL form with or without a user and a port, and the bare stored form, each with or
  without the \<open>.git\<close> suffix, all normalise for matching to the same
  \<open>lowercased-host/path\<close>, and the strict parser gives that same identity to the SCP and
  URL forms.
\<close>

theorem remote_forms_agree:
  assumes "plain_host h" and "plain_path p" and "\<not> suffix ext_git p"
    and "plain_user u" and "plain_port t" and "sch \<in> set url_schemes" and "e \<in> {[], ext_git}"
  shows "NormalizeRemoteURL (''git@'' @ h @ '':'' @ p @ e) = Some (Inr (to_lower h @ ''/'' @ p)) \<and>
    NormalizeRemoteURL (sch @ u @ h @ t @ ''/'' @ p @ e) = Some (Inr (to_lower h @ ''/'' @ p)) \<and>
    NormalizeRemoteForMatch (''git@'' @ h @ '':'' @ p @ e) = Some (to_lower h @ ''/'' @ p) \<and>
    NormalizeRemoteForMatch (sch @ u @ h @ t @ ''/'' @ p @ e) = Some (to_lower h @ ''/'' @ p) \<and>
    NormalizeRemoteForMatch (h @ ''/'' @ p @ e) = Some (to_lower h @ ''/'' @ p)"
proof -
  let ?n = "to_lower h @ ''/'' @ p"
  let ?scp = "''git@'' @ h @ '':'' @ p @ e" and ?url = "sch @ u @ h @ t @ ''/'' @ p @ e"
  from assms(2) have pp: "list_all (\<lambda>c. plain_char c \<or> c = slash) p" and pn: "p \<noteq> []"
    and lp: "last p \<noteq> slash" by (auto simp: plain_path_def)
  have ext: "list_all (\<lambda>c. plain_char c \<or> c = slash) ext_git"
    by (simp add: ext_git_def plain_char_def is_alnum_def is_digit_def byte_def)
  have q: "list_all (\<lambda>c. plain_char c \<or> c = slash) (p @ e)"
    using pp ext assms(7) by auto
  have ts: "trim_suffix ext_git (p @ e) = p"
    using assms(3,7) by (auto simp: trim_suffix_absent)
  have len: "length (p @ e) > 4 \<or> \<not> suffix ext_git (p @ e)"
    using assms(3,7) pn by (auto simp: ext_git_def)
  have scp: "NormalizeRemoteURL ?scp = Some (Inr ?n)"
    using assms(1) q _ len by (rule NormalizeRemoteURL_scp)
      (simp_all add: pn ts trim_suffix_absent assms(2,3))
  have url: "NormalizeRemoteURL ?url = Some (Inr ?n)"
    using assms(6,4,1,5) q by (rule NormalizeRemoteURL_scheme) (simp_all add: pn ts assms(2))
  have "plain_char (last p)" using pp pn lp by (auto simp: list_all_iff)
  then have "plain_char (last (p @ e))" using assms(7) by (auto simp: ext_git_def)
  then have last: "\<not> space_end (last (p @ e))" by (rule plain_not_space)
  have "trim_space ?scp = ?scp"
    using last pn by (intro trim_space_plain) (simp_all add: plain_not_space)
  moreover have "trim_space ?url = ?url"
    using last pn assms(6)
    by (intro trim_space_plain) (auto simp: plain_not_space url_schemes_def)
  ultimately show ?thesis
    using scp url NormalizeRemoteForMatch_bare [OF assms(1-3,7)] scheme_facts(4) [OF assms(6)]
    by (simp add: NormalizeRemoteForMatch_def Let_def)
qed

theorem remote_forms_agree_witness:
  "NormalizeRemoteForMatch ''git@GitHub.com:acme/app.git'' = Some ''github.com/acme/app'' \<and>
   NormalizeRemoteForMatch ''ssh://git@GitHub.com:22/acme/app'' = Some ''github.com/acme/app'' \<and>
   NormalizeRemoteForMatch ''GitHub.com/acme/app.git'' = Some ''github.com/acme/app''"
proof -
  have pc: "plain_host ''GitHub.com''" "plain_path ''acme/app''" "\<not> suffix ext_git ''acme/app''"
    by code_simp+
  have up: "plain_user ''git@''" "plain_port '':22''" "''ssh://'' \<in> set url_schemes"
    by (auto simp: plain_user_def plain_port_def url_schemes_def is_digit_def byte_def
        intro!: exI [of _ "''git''"] exI [of _ "''22''"])
      (simp_all add: plain_char_def is_alnum_def is_digit_def byte_def)
  note pc = pc up
  have "to_lower ''GitHub.com'' = ''github.com''" by code_simp
  then show ?thesis
    using remote_forms_agree [OF pc(1-6), of ext_git] remote_forms_agree [OF pc(1-6), of "[]"]
    by (simp add: ext_git_def)
qed

section \<open>Where the normalisers go wrong\<close>

lemma NormalizeRemoteURL_panicI:
  assumes "remote \<noteq> []" and "scp_match remote = None" and "\<not> prefix ''file://'' remote"
    and "scheme_of remote = Some sch" and "url_parse sch remote = None"
  shows "NormalizeRemoteURL remote = None"
  using assms by (simp add: NormalizeRemoteURL_def)

text \<open>
  A panic in the error path. The strict parser panics exactly when the remote is
  neither SCP nor \<open>file://\<close>, has one of the four URL schemes, and \<open>url.Parse\<close> rejects it:
  the message of that branch reads a field of the nil URL. Every other input returns a
  value or an error.
\<close>

theorem NormalizeRemoteURL_panics_iff:
  "NormalizeRemoteURL remote = None \<longleftrightarrow>
     remote \<noteq> [] \<and> scp_match remote = None \<and> \<not> prefix ''file://'' remote \<and>
     (\<exists>sch. scheme_of remote = Some sch \<and> url_parse sch remote = None)"
  by (auto simp: NormalizeRemoteURL_def Let_def split: option.splits if_splits)

lemma url_parse_bad_port:
  assumes "plain_user u" and "plain_host h" and "list_all plain_char v" and "\<not> list_all is_digit v"
    and "list_all (\<lambda>c. plain_char c \<or> c = slash) q" and "sch \<in> set url_schemes"
  shows "url_parse sch (sch @ u @ h @ '':'' @ v @ ''/'' @ q) = None"
proof -
  note sf = scheme_facts [OF assms(6)]
  let ?a = "u @ h @ '':'' @ v"
  have a: "list_all (\<lambda>c. plain_char c \<or> c = CHR ''@'' \<or> c = CHR '':'') ?a"
    using assms(1-3) by (auto simp: plain_user_def plain_host_def list_all_iff)
  have no: "CHR ''#'' \<notin> set ?a" "CHR ''?'' \<notin> set ?a" "slash \<notin> set ?a"
    by (rule not_in_list_all [OF a], simp)+
  note q = plain_path_list [OF assms(5)]
  have "cut_char (CHR ''#'') (sch @ ?a @ slash # q) = (sch @ ?a @ slash # q, None)"
    and "cut_char (CHR ''?'') (sch @ ?a @ slash # q) = (sch @ ?a @ slash # q, None)"
    using sf(6,7) no q by (auto intro!: cut_char_None)
  moreover have "cut_char slash (?a @ slash # q) = (?a, Some q)"
    using no by (intro cut_char_append)
  moreover have "parse_authority ?a = None"
  proof -
    from assms(2) have ph: "list_all plain_char h" by (simp add: plain_host_def)
    have "cut_char (CHR '':'') (h @ '':'' @ v) = (h, Some v)"
      using plain_list(4) [OF ph] cut_char_append by simp
    then have bad: "parse_host (h @ '':'' @ v) = None"
      using no_bracket_plain [OF assms(2), of "'':'' @ v"] assms(4) by (simp add: parse_host_def)
    have at: "CHR ''@'' \<notin> set (h @ '':'' @ v)"
      using plain_list(5) [OF ph] plain_list(5) [OF assms(3)] by simp
    consider "u = []" | n where "u = n @ ''@''"
      using assms(1) by (auto simp: plain_user_def)
    then show ?thesis
    proof cases
      case 1
      with cut_last_char_None [OF at] bad show ?thesis by (simp add: parse_authority_def)
    next
      case 2
      then have "cut_last_char (CHR ''@'') (u @ h @ '':'' @ v) = Some (n, h @ '':'' @ v)"
        using cut_last_char_append [OF at, of n] by simp
      with bad show ?thesis by (simp add: parse_authority_def)
    qed
  qed
  ultimately show ?thesis by (simp add: url_parse_def Let_def)
qed

text \<open>
  The panic is one typo away. A URL that keeps the colon of the SCP form, such as
  \<open>ssh://git@github.com:owner/repo\<close>, makes the matching normaliser panic for every plain
  user, host, owner and path, although its contract is that it never fails.
\<close>

theorem NormalizeRemoteForMatch_scp_url_panics:
  assumes "plain_user u" and "plain_host h" and "list_all plain_char v" and "\<not> list_all is_digit v"
    and "plain_path q" and "sch \<in> set url_schemes"
  shows "NormalizeRemoteForMatch (sch @ u @ h @ '':'' @ v @ ''/'' @ q) = None"
proof -
  let ?r = "sch @ u @ h @ '':'' @ v @ ''/'' @ q"
  note sf = scheme_facts [OF assms(6)]
  have qq: "list_all (\<lambda>c. plain_char c \<or> c = slash) q" "q \<noteq> []" "last q \<noteq> slash"
    using assms(5) by (auto simp: plain_path_def)
  then have "plain_char (last q)" by (auto simp: list_all_iff)
  then have "\<not> space_end (last ?r)" using qq(2) plain_not_space by simp
  moreover have "\<not> space_start (hd ?r)"
    using assms(6) by (cases rule: scheme_cases) (simp_all add: plain_not_space)
  ultimately have "trim_space ?r = ?r"
    using sf(4) by (intro trim_space_plain) auto
  moreover have "NormalizeRemoteURL ?r = None"
    using sf url_parse_bad_port [OF assms(1-4) qq(1) assms(6)]
    by (intro NormalizeRemoteURL_panicI [where sch = sch]) auto
  ultimately show ?thesis using sf(4) by (simp add: NormalizeRemoteForMatch_def Let_def)
qed

theorem NormalizeRemoteForMatch_scp_url_panics_witness:
  "NormalizeRemoteForMatch ''ssh://git@github.com:acme/app'' = None"
proof -
  have "plain_user ''git@''"
    by (auto simp: plain_user_def plain_char_def is_alnum_def is_digit_def byte_def
        intro!: exI [of _ "''git''"])
  moreover have "plain_host ''github.com''" "list_all plain_char ''acme''"
    "\<not> list_all is_digit ''acme''" "plain_path ''app''" "''ssh://'' \<in> set url_schemes"
    by code_simp+
  ultimately show ?thesis
    using NormalizeRemoteForMatch_scp_url_panics [of "''git@''" "''github.com''" "''acme''" "''app''" "''ssh://''"]
    by simp
qed

text \<open>
  A trailing slash defeats the \<open>.git\<close> stripping. The strict parser strips \<open>.git\<close>
  before it trims slashes, so the URL of a repository with \<open>.git/\<close> at its end gets an
  identity that differs from the identity of the same URL without the slash.
\<close>

theorem trailing_slash_keeps_git_suffix:
  assumes "plain_host h" and "plain_path p" and "\<not> suffix ext_git p"
    and "plain_user u" and "plain_port t" and "sch \<in> set url_schemes"
  shows "NormalizeRemoteURL (sch @ u @ h @ t @ ''/'' @ p @ ''.git'') = Some (Inr (to_lower h @ ''/'' @ p)) \<and>
    NormalizeRemoteURL (sch @ u @ h @ t @ ''/'' @ p @ ''.git/'') = Some (Inr (to_lower h @ ''/'' @ p @ ''.git''))"
proof -
  have pp: "list_all (\<lambda>c. plain_char c \<or> c = slash) p" "p \<noteq> []" "hd p \<noteq> slash"
    using assms(2) by (auto simp: plain_path_def)
  have ext: "list_all plain_char ext_git"
    by (simp add: ext_git_def plain_char_def is_alnum_def is_digit_def byte_def)
  have all: "list_all (\<lambda>c. plain_char c \<or> c = slash) (p @ ''.git'')"
    "list_all (\<lambda>c. plain_char c \<or> c = slash) (p @ ''.git/'')"
    using pp ext by (auto simp: ext_git_def)
  have t1: "trim_suffix ext_git (p @ ''.git'') = p"
    using trim_suffix_append [of ext_git p] by (simp add: ext_git_def)
  have "\<not> suffix ext_git (p @ ''.git/'')"
    by (simp add: ext_git_def suffix_def)
  then have t2: "trim_suffix ext_git (p @ ''.git/'') = p @ ''.git/''"
    by (rule trim_suffix_absent)
  have t3: "trim_chars ''/'' (p @ ''.git/'') = p @ ''.git''"
    using pp(2,3) by (cases p) (auto simp: trim_chars_def trim_left_chars_def)
  show ?thesis
    using NormalizeRemoteURL_scheme [OF assms(6,4,1,5) all(1), of p]
      NormalizeRemoteURL_scheme [OF assms(6,4,1,5) all(2), of "p @ ''.git''"]
      pp(2) assms(2) t1 t2 t3 by simp
qed

theorem trailing_slash_keeps_git_suffix_witness:
  "NormalizeRemoteURL ''https://github.com/acme/app.git'' = Some (Inr ''github.com/acme/app'') \<and>
   NormalizeRemoteURL ''https://github.com/acme/app.git/'' = Some (Inr ''github.com/acme/app.git'')"
proof -
  have "plain_host ''github.com''" "plain_path ''acme/app''" "\<not> suffix ext_git ''acme/app''"
    "''https://'' \<in> set url_schemes" "to_lower ''github.com'' = ''github.com''"
    by code_simp+
  then show ?thesis
    using trailing_slash_keeps_git_suffix [of "''github.com''" "''acme/app''" "[]" "[]" "''https://''"]
    by (simp add: plain_user_def plain_port_def)
qed

end
