(* ===== verification/Selection.thy ===== *)
theory Selection
  imports Remote "HOL-Library.AList" "HOL-Library.Multiset"
begin

text \<open>
  The selection matcher, \<open>internal/ingest/types.go\<close>, and its compilation and validation
  from the persisted configuration, \<open>internal/config/config.go\<close>.

  A Go map that is only looked up and iterated is an association list with distinct keys
  (\<open>map_of\<close> looks up, \<open>AList.update\<close> assigns), in the order one iteration visits it; a
  \<open>map[K]bool\<close> used as a set is a set. \<open>None\<close> is a panic, which can only come from
  \<open>NormalizeRemoteForMatch\<close>.
\<close>

section \<open>Data\<close>

datatype DiscoveryIdentityMultiplicity =
    DiscoveryIdentityUnproven | DiscoveryIdentityUnique | DiscoveryIdentityAmbiguous

record DiscoveryCandidate =
  cHarness :: string
  cGitRemote :: string
  cProjectName :: string
  cClonePath :: string
  cBranch :: string
  cSessionID :: string
  cRemoteMultiplicity :: DiscoveryIdentityMultiplicity
  cNameMultiplicity :: DiscoveryIdentityMultiplicity

record SelectionEntry =
  eGitRemote :: string
  eName :: string
  eClonePaths :: "string list"
  eBranches :: "string list"

record projectMatcher =
  pmGitRemote :: string
  pmName :: string
  pmClonePaths :: "string set"
  pmPathBound :: bool
  pmBranches :: "string set"
  pmEntry :: SelectionEntry

record harnessMatcher =
  hmProjects :: "projectMatcher list"
  hmSessions :: "string set"
  hmBranchExclusions :: "(string \<times> string set) list"
  hmSessionExclusions :: "string set"

type_synonym SelectionMatcher = "(string \<times> harnessMatcher) list"

datatype BranchMatch = BranchMatchNo | BranchMatchYes | BranchMatchWithheldConflict

record DiscoveryDecision =
  dMatch :: BranchMatch
  dAdmitting :: "SelectionEntry list"
  dRejecting :: "SelectionEntry list"

record branchPolicy =
  admitUnknownBranch :: bool
  autoAdmitNewBranches :: bool

record projectSelectionInput =
  piGitRemote :: string
  piName :: string
  piClonePaths :: "string list"
  piBranches :: "string list"

record branchExclusionInput =
  beClonePath :: string
  beBranches :: "string list"

record harnessSelectionInput =
  hiProjects :: "projectSelectionInput list"
  hiSessions :: "string list"
  hiBranchExclusions :: "branchExclusionInput list"
  hiSessionExclusions :: "string list"

definition Conflicting :: "DiscoveryDecision \<Rightarrow> SelectionEntry list" where
  "Conflicting d =
     (if dMatch d \<noteq> BranchMatchWithheldConflict then [] else dAdmitting d @ dRejecting d)"

section \<open>Matching one project rule\<close>

definition matchesClonePath :: "projectMatcher \<Rightarrow> string \<Rightarrow> bool" where
  "matchesClonePath p clonePath = (clonePath \<noteq> [] \<and> clonePath \<in> pmClonePaths p)"

definition matchesRemote :: "projectMatcher \<Rightarrow> string \<Rightarrow> bool" where
  "matchesRemote p normalizedRemote =
     (normalizedRemote \<noteq> [] \<and> pmGitRemote p \<noteq> [] \<and> pmGitRemote p = normalizedRemote)"

definition matchesName :: "projectMatcher \<Rightarrow> string \<Rightarrow> bool" where
  "matchesName p normalizedName =
     (normalizedName \<noteq> [] \<and> pmName p \<noteq> [] \<and> pmName p = normalizedName)"

definition admitsBranch :: "projectMatcher \<Rightarrow> string \<Rightarrow> bool" where
  "admitsBranch p gitBranch =
     (if pmBranches p = {} then True
      else if gitBranch = [] then True
      else gitBranch \<in> pmBranches p)"

section \<open>Building a matcher\<close>

definition toBranchSet :: "string list \<Rightarrow> string set" where
  "toBranchSet branches = set branches"

definition toClonePathSet :: "string list \<Rightarrow> string set" where
  "toClonePathSet paths =
     set (filter (\<lambda>path. \<not> (path = [] \<or> \<not> is_abs path \<or> path_clean path \<noteq> path)) paths)"

definition exactClonePath :: "string \<Rightarrow> string option" where
  "exactClonePath path =
     (if path = [] \<or> trim_space path \<noteq> path \<or> \<not> is_abs path \<or> path_clean path \<noteq> path
      then None else Some path)"

definition normalizeBranchForMatch :: "string \<Rightarrow> string" where
  "normalizeBranchForMatch branch = trim_space branch"

text \<open>
  The loop of \<open>newSelectionMatcher\<close> over the branch exclusions of a harness: rows for the
  same exact path add to one set, other rows are skipped.
\<close>

definition addBranchExclusion ::
  "(string \<times> string set) list \<Rightarrow> branchExclusionInput \<Rightarrow> (string \<times> string set) list" where
  "addBranchExclusion m exclusion =
     (case exactClonePath (beClonePath exclusion) of
        None \<Rightarrow> m
      | Some clonePath \<Rightarrow>
          let branches = (case map_of m clonePath of None \<Rightarrow> {} | Some bs \<Rightarrow> bs);
              new = filter (\<lambda>b. b \<noteq> []) (map normalizeBranchForMatch (beBranches exclusion))
          in AList.update clonePath (branches \<union> set new) m)"

definition newProjectMatcher :: "projectSelectionInput \<Rightarrow> projectMatcher option" where
  "newProjectMatcher proj = do {
     remote \<leftarrow> NormalizeRemoteForMatch (piGitRemote proj);
     Some \<lparr> pmGitRemote = remote,
            pmName = NormalizeProjectNameForMatch (piName proj),
            pmClonePaths = toClonePathSet (piClonePaths proj),
            pmPathBound = (piClonePaths proj \<noteq> []),
            pmBranches = toBranchSet (piBranches proj),
            pmEntry = \<lparr> eGitRemote = piGitRemote proj, eName = piName proj,
                        eClonePaths = piClonePaths proj, eBranches = piBranches proj \<rparr> \<rparr>
   }"

definition newHarnessMatcher :: "harnessSelectionInput \<Rightarrow> harnessMatcher option" where
  "newHarnessMatcher input = do {
     projects \<leftarrow> those (map newProjectMatcher (hiProjects input));
     Some \<lparr> hmProjects = projects,
            hmSessions = set (hiSessions input),
            hmBranchExclusions = foldl addBranchExclusion [] (hiBranchExclusions input),
            hmSessionExclusions = set (filter (\<lambda>s. s \<noteq> []) (hiSessionExclusions input)) \<rparr>
   }"

definition newSelectionMatcher :: "(string \<times> harnessSelectionInput) list \<Rightarrow> SelectionMatcher option" where
  "newSelectionMatcher harnesses =
     those (map (\<lambda>(name, input). map_option (Pair name) (newHarnessMatcher input)) harnesses)"

type_synonym SelectionMatcherBuilder = "(string \<times> harnessSelectionInput) list"

definition emptyInput :: harnessSelectionInput where
  "emptyInput = \<lparr> hiProjects = [], hiSessions = [], hiBranchExclusions = [], hiSessionExclusions = [] \<rparr>"

definition NewSelectionMatcherBuilder :: SelectionMatcherBuilder where
  "NewSelectionMatcherBuilder = []"

text \<open>Reading a missing key of a Go map gives the zero value of its type.\<close>

definition inputAt :: "SelectionMatcherBuilder \<Rightarrow> string \<Rightarrow> harnessSelectionInput" where
  "inputAt b harness = (case map_of b harness of None \<Rightarrow> emptyInput | Some p \<Rightarrow> p)"

definition AddHarness :: "string \<Rightarrow> SelectionMatcherBuilder \<Rightarrow> SelectionMatcherBuilder" where
  "AddHarness name b =
     (case map_of b name of None \<Rightarrow> AList.update name emptyInput b | Some _ \<Rightarrow> b)"

definition AddProjectWithClonePaths ::
  "string \<Rightarrow> string \<Rightarrow> string \<Rightarrow> string list \<Rightarrow> string list \<Rightarrow>
   SelectionMatcherBuilder \<Rightarrow> SelectionMatcherBuilder" where
  "AddProjectWithClonePaths harness gitRemote name clonePaths branches b =
     (let p = inputAt b harness
      in AList.update harness
           (p\<lparr> hiProjects := hiProjects p @
                 [\<lparr> piGitRemote = gitRemote, piName = name,
                    piClonePaths = clonePaths, piBranches = branches \<rparr>] \<rparr>) b)"

definition AddProject ::
  "string \<Rightarrow> string \<Rightarrow> string \<Rightarrow> string list \<Rightarrow> SelectionMatcherBuilder \<Rightarrow> SelectionMatcherBuilder" where
  "AddProject harness gitRemote name branches b =
     AddProjectWithClonePaths harness gitRemote name [] branches b"

definition AddSession :: "string \<Rightarrow> string \<Rightarrow> SelectionMatcherBuilder \<Rightarrow> SelectionMatcherBuilder" where
  "AddSession harness sessionID b =
     (let p = inputAt b harness
      in AList.update harness (p\<lparr> hiSessions := hiSessions p @ [sessionID] \<rparr>) b)"

definition AddBranchExclusion ::
  "string \<Rightarrow> string \<Rightarrow> string list \<Rightarrow> SelectionMatcherBuilder \<Rightarrow> SelectionMatcherBuilder" where
  "AddBranchExclusion harness clonePath branches b =
     (let p = inputAt b harness
      in AList.update harness
           (p\<lparr> hiBranchExclusions := hiBranchExclusions p @
                 [\<lparr> beClonePath = clonePath, beBranches = branches \<rparr>] \<rparr>) b)"

definition AddSessionExclusion ::
  "string \<Rightarrow> string \<Rightarrow> SelectionMatcherBuilder \<Rightarrow> SelectionMatcherBuilder" where
  "AddSessionExclusion harness sessionID b =
     (let p = inputAt b harness
      in AList.update harness (p\<lparr> hiSessionExclusions := hiSessionExclusions p @ [sessionID] \<rparr>) b)"

definition Build :: "SelectionMatcherBuilder \<Rightarrow> SelectionMatcher option" where
  "Build b = newSelectionMatcher b"

section \<open>Deciding a candidate\<close>

definition excludesCandidate :: "harnessMatcher \<Rightarrow> DiscoveryCandidate \<Rightarrow> bool" where
  "excludesCandidate m candidate =
     (if cSessionID candidate \<noteq> [] \<and> cSessionID candidate \<in> hmSessionExclusions m then True
      else case exactClonePath (cClonePath candidate) of
        None \<Rightarrow> False
      | Some clonePath \<Rightarrow>
          let branch = normalizeBranchForMatch (cBranch candidate)
          in if branch = [] then False
             else case map_of (hmBranchExclusions m) clonePath of
                    None \<Rightarrow> False
                  | Some branches \<Rightarrow> branch \<in> branches)"

definition ExcludesCandidate :: "SelectionMatcher \<Rightarrow> DiscoveryCandidate \<Rightarrow> bool" where
  "ExcludesCandidate m candidate =
     (case map_of m (cHarness candidate) of
        None \<Rightarrow> False
      | Some selected \<Rightarrow> excludesCandidate selected candidate)"

definition DiscoveryNeedsGit :: "SelectionMatcher \<Rightarrow> string \<Rightarrow> string \<Rightarrow> bool" where
  "DiscoveryNeedsGit m harness sessionID =
     (case map_of m harness of
        None \<Rightarrow> False
      | Some selected \<Rightarrow>
          if sessionID \<in> hmSessionExclusions selected then False
          else if hmBranchExclusions selected \<noteq> [] then True
          else if hmProjects selected = [] then False
          else sessionID \<notin> hmSessions selected)"

definition matchingProjects ::
  "projectMatcher list \<Rightarrow> DiscoveryCandidate \<Rightarrow> projectMatcher list option" where
  "matchingProjects projects candidate =
     (let exact = filter (\<lambda>p. matchesClonePath p (cClonePath candidate)) projects;
          name = NormalizeProjectNameForMatch (cProjectName candidate);
          byName =
            (if cNameMultiplicity candidate \<noteq> DiscoveryIdentityUnique then []
             else if name = [] then []
             else filter (\<lambda>p. \<not> pmPathBound p \<and> matchesName p name) projects)
      in if cClonePath candidate \<noteq> [] \<and> exact \<noteq> [] then Some exact
         else do {
           remote \<leftarrow> NormalizeRemoteForMatch (cGitRemote candidate);
           Some
             (if remote \<noteq> [] then
                if cRemoteMultiplicity candidate \<noteq> DiscoveryIdentityUnique then []
                else
                  let sameRemote = filter (\<lambda>p. matchesRemote p remote) projects;
                      remoteMatches = filter (\<lambda>p. \<not> pmPathBound p) sameRemote
                  in if remoteMatches \<noteq> [] then
                       if cNameMultiplicity candidate = DiscoveryIdentityUnique then
                         remoteMatches @
                         filter (\<lambda>p. \<not> pmPathBound p \<and> \<not> matchesRemote p remote \<and> matchesName p name) projects
                       else remoteMatches
                     else if list_ex pmPathBound sameRemote then []
                     else byName
              else byName)
         })"

definition projectAdmits :: "branchPolicy \<Rightarrow> string \<Rightarrow> projectMatcher \<Rightarrow> bool" where
  "projectAdmits policy branch proj =
     (let admitted = admitsBranch proj branch;
          admitted = (if pmBranches proj \<noteq> {} \<and> branch = [] \<and> \<not> admitUnknownBranch policy
                      then False else admitted)
      in if pmBranches proj \<noteq> {} \<and> branch \<noteq> [] \<and> autoAdmitNewBranches policy
         then True else admitted)"

definition positiveDecision ::
  "harnessMatcher \<Rightarrow> DiscoveryCandidate \<Rightarrow> branchPolicy \<Rightarrow> DiscoveryDecision option" where
  "positiveDecision pm candidate policy =
     (if hmProjects pm = [] \<and> hmSessions pm = {} then
        Some \<lparr> dMatch = BranchMatchYes, dAdmitting = [], dRejecting = [] \<rparr>
      else if cSessionID candidate \<in> hmSessions pm then
        Some \<lparr> dMatch = BranchMatchYes, dAdmitting = [], dRejecting = [] \<rparr>
      else do {
        projects \<leftarrow> matchingProjects (hmProjects pm) candidate;
        let admits = projectAdmits policy (cBranch candidate);
            admitting = map pmEntry (filter admits projects);
            rejecting = map pmEntry (filter (\<lambda>p. \<not> admits p) projects)
        in Some \<lparr> dMatch =
                    (if admitting = [] \<and> rejecting = [] then BranchMatchNo
                     else if rejecting = [] then BranchMatchYes
                     else if admitting = [] then BranchMatchNo
                     else BranchMatchWithheldConflict),
                  dAdmitting = admitting, dRejecting = rejecting \<rparr>
      })"

definition decisionNo :: DiscoveryDecision where
  "decisionNo = \<lparr> dMatch = BranchMatchNo, dAdmitting = [], dRejecting = [] \<rparr>"

definition decideCandidate ::
  "SelectionMatcher \<Rightarrow> DiscoveryCandidate \<Rightarrow> branchPolicy \<Rightarrow> DiscoveryDecision option" where
  "decideCandidate m candidate policy =
     (case map_of m (cHarness candidate) of
        None \<Rightarrow> Some decisionNo
      | Some pm \<Rightarrow> do {
          decision \<leftarrow> positiveDecision pm candidate policy;
          Some (if excludesCandidate pm candidate then decisionNo else decision)
        })"

definition storedPolicy :: branchPolicy where
  "storedPolicy = \<lparr> admitUnknownBranch = True, autoAdmitNewBranches = False \<rparr>"

definition discoveryPolicy :: "bool \<Rightarrow> branchPolicy" where
  "discoveryPolicy autoNewBranches =
     \<lparr> admitUnknownBranch = False, autoAdmitNewBranches = autoNewBranches \<rparr>"

definition MatchBranchCandidate :: "SelectionMatcher \<Rightarrow> DiscoveryCandidate \<Rightarrow> BranchMatch option" where
  "MatchBranchCandidate m candidate = map_option dMatch (decideCandidate m candidate storedPolicy)"

definition MatchesCandidate :: "SelectionMatcher \<Rightarrow> DiscoveryCandidate \<Rightarrow> bool option" where
  "MatchesCandidate m candidate =
     map_option (\<lambda>d. dMatch d = BranchMatchYes)
       (decideCandidate m (candidate\<lparr> cBranch := [] \<rparr>) storedPolicy)"

definition positionalCandidate ::
  "string \<Rightarrow> string \<Rightarrow> string \<Rightarrow> string \<Rightarrow> string \<Rightarrow> DiscoveryCandidate" where
  "positionalCandidate harness gitRemote projectName gitBranch sessionID =
     \<lparr> cHarness = harness, cGitRemote = gitRemote, cProjectName = projectName,
       cClonePath = [], cBranch = gitBranch, cSessionID = sessionID,
       cRemoteMultiplicity = DiscoveryIdentityUnique, cNameMultiplicity = DiscoveryIdentityUnique \<rparr>"

definition Matches :: "SelectionMatcher \<Rightarrow> string \<Rightarrow> string \<Rightarrow> string \<Rightarrow> string \<Rightarrow> bool option" where
  "Matches m harness gitRemote projectName sessionID =
     MatchesCandidate m (positionalCandidate harness gitRemote projectName [] sessionID)"

definition MatchBranch ::
  "SelectionMatcher \<Rightarrow> string \<Rightarrow> string \<Rightarrow> string \<Rightarrow> string \<Rightarrow> string \<Rightarrow> BranchMatch option" where
  "MatchBranch m harness gitRemote projectName gitBranch sessionID =
     MatchBranchCandidate m (positionalCandidate harness gitRemote projectName gitBranch sessionID)"

definition MatchDiscoveryCandidateDecision ::
  "SelectionMatcher \<Rightarrow> DiscoveryCandidate \<Rightarrow> bool \<Rightarrow> DiscoveryDecision option" where
  "MatchDiscoveryCandidateDecision m candidate autoNewBranches =
     decideCandidate m candidate (discoveryPolicy autoNewBranches)"

definition MatchDiscoveryCandidate ::
  "SelectionMatcher \<Rightarrow> DiscoveryCandidate \<Rightarrow> bool \<Rightarrow> BranchMatch option" where
  "MatchDiscoveryCandidate m candidate autoNewBranches =
     map_option dMatch (MatchDiscoveryCandidateDecision m candidate autoNewBranches)"

definition MatchDiscovery ::
  "SelectionMatcher \<Rightarrow> string \<Rightarrow> string \<Rightarrow> string \<Rightarrow> string \<Rightarrow> string \<Rightarrow> bool \<Rightarrow> BranchMatch option" where
  "MatchDiscovery m harness gitRemote projectName gitBranch sessionID autoNewBranches =
     MatchDiscoveryCandidate m
       (positionalCandidate harness gitRemote projectName gitBranch sessionID) autoNewBranches"

definition MatchDiscoveryDecision ::
  "SelectionMatcher \<Rightarrow> string \<Rightarrow> string \<Rightarrow> string \<Rightarrow> string \<Rightarrow> string \<Rightarrow> bool \<Rightarrow> DiscoveryDecision option" where
  "MatchDiscoveryDecision m harness gitRemote projectName gitBranch sessionID autoNewBranches =
     MatchDiscoveryCandidateDecision m
       (positionalCandidate harness gitRemote projectName gitBranch sessionID) autoNewBranches"

section \<open>The persisted selection\<close>

record ProjectSelection =
  psGitRemote :: string
  psName :: string
  psClonePaths :: "string list"
  psBranches :: "string list"

record BranchExclusion =
  bxClonePath :: string
  bxBranches :: "string list"

record SelectionExclusions =
  xBranches :: "BranchExclusion list"
  xSessions :: "string list"

record SelectionHarnessConfig =
  shProjects :: "ProjectSelection list"
  shSessions :: "string list"
  shExclusions :: SelectionExclusions

record SelectionConfig =
  scMode :: string
  scAutoIngestNewBranches :: bool
  scHarnesses :: "(string \<times> SelectionHarnessConfig) list"
  scDeprecatedProviders :: "(string \<times> SelectionHarnessConfig) list"

definition SelectionModeAll :: string where "SelectionModeAll = ''all''"

definition SelectionModeSelected :: string where "SelectionModeSelected = ''selected''"

definition AllSelectionModes :: "string list" where
  "AllSelectionModes = [SelectionModeAll, SelectionModeSelected]"

definition selectionModeIsValid :: "string \<Rightarrow> bool" where
  "selectionModeIsValid m = (m \<in> set AllSelectionModes)"

definition compileHarness ::
  "string \<Rightarrow> (string \<times> SelectionHarnessConfig) \<Rightarrow> SelectionMatcherBuilder \<Rightarrow> SelectionMatcherBuilder" where
  "compileHarness mode hs b =
     (case hs of (harness, selected) \<Rightarrow>
        let b = AddHarness harness b;
            b = foldl (\<lambda>b project. AddProjectWithClonePaths harness (psGitRemote project)
                  (psName project) (psClonePaths project) (psBranches project) b) b (shProjects selected);
            b = foldl (\<lambda>b sessionID. AddSession harness sessionID b) b (shSessions selected)
        in if mode = SelectionModeSelected then
             let b = foldl (\<lambda>b excluded. AddBranchExclusion harness (bxClonePath excluded)
                       (bxBranches excluded) b) b (xBranches (shExclusions selected))
             in foldl (\<lambda>b sessionID. AddSessionExclusion harness sessionID b) b
                  (xSessions (shExclusions selected))
           else b)"

definition CompileSelectionMatcher :: "SelectionConfig \<Rightarrow> SelectionMatcher option" where
  "CompileSelectionMatcher selection =
     Build (foldl (\<lambda>b hs. compileHarness (scMode selection) hs b)
       NewSelectionMatcherBuilder (scHarnesses selection))"

section \<open>The builder\<close>

text \<open>
  Every builder operation but \<open>AddHarness\<close> replaces the input of one harness by an
  extension of it. The locale is that contract; its client is the compilation loop, which
  repeats one operation for all rows of one harness.
\<close>

locale input_extender =
  fixes add :: "string \<Rightarrow> 'x \<Rightarrow> SelectionMatcherBuilder \<Rightarrow> SelectionMatcherBuilder"
    and ext :: "'x list \<Rightarrow> harnessSelectionInput \<Rightarrow> harnessSelectionInput"
  assumes add: "map_of (add h x b) = (map_of b)(h \<mapsto> ext [x] (inputAt b h))"
    and ext_Nil: "ext [] inp = inp"
    and ext_Cons: "ext xs (ext [x] inp) = ext (x # xs) inp"
begin

lemma inputAt_add [simp]:
  "inputAt (add h x b) h' = (if h' = h then ext [x] (inputAt b h) else inputAt b h')"
  by (simp add: inputAt_def add)

lemma map_of_add_other: "h' \<noteq> h \<Longrightarrow> map_of (add h x b) h' = map_of b h'"
  by (simp add: add)

lemma fold_other:
  "h' \<noteq> h \<Longrightarrow> map_of (foldl (\<lambda>b x. add h x b) b xs) h' = map_of b h'"
  by (induction xs arbitrary: b) (simp_all add: map_of_add_other)

lemma fold_same:
  "map_of b h = Some inp \<Longrightarrow>
   map_of (foldl (\<lambda>b x. add h x b) b xs) h = Some (ext xs inp)"
  by (induction xs arbitrary: b inp) (simp_all add: add ext_Nil ext_Cons inputAt_def)

end

interpretation addProject: input_extender
  "\<lambda>h p. AddProjectWithClonePaths h (psGitRemote p) (psName p) (psClonePaths p) (psBranches p)"
  "\<lambda>ps inp. inp\<lparr> hiProjects := hiProjects inp @
     map (\<lambda>p. \<lparr> piGitRemote = psGitRemote p, piName = psName p,
                piClonePaths = psClonePaths p, piBranches = psBranches p \<rparr>) ps \<rparr>"
  by unfold_locales (simp_all add: AddProjectWithClonePaths_def Let_def update_conv')

interpretation addSession: input_extender
  AddSession "\<lambda>ss inp. inp\<lparr> hiSessions := hiSessions inp @ ss \<rparr>"
  by unfold_locales (simp_all add: AddSession_def Let_def update_conv')

interpretation addBranchExclusion: input_extender
  "\<lambda>h x. AddBranchExclusion h (bxClonePath x) (bxBranches x)"
  "\<lambda>xs inp. inp\<lparr> hiBranchExclusions := hiBranchExclusions inp @
     map (\<lambda>x. \<lparr> beClonePath = bxClonePath x, beBranches = bxBranches x \<rparr>) xs \<rparr>"
  by unfold_locales (simp_all add: AddBranchExclusion_def Let_def update_conv')

interpretation addSessionExclusion: input_extender
  AddSessionExclusion "\<lambda>ss inp. inp\<lparr> hiSessionExclusions := hiSessionExclusions inp @ ss \<rparr>"
  by unfold_locales (simp_all add: AddSessionExclusion_def Let_def update_conv')

lemmas builder_fold_same =
  addProject.fold_same addSession.fold_same addBranchExclusion.fold_same
  addSessionExclusion.fold_same

lemmas builder_fold_other =
  addProject.fold_other addSession.fold_other addBranchExclusion.fold_other
  addSessionExclusion.fold_other

text \<open>What one harness of the configuration contributes, without the builder.\<close>

definition configInput :: "string \<Rightarrow> SelectionHarnessConfig \<Rightarrow> harnessSelectionInput" where
  "configInput mode selected =
     \<lparr> hiProjects = map (\<lambda>p. \<lparr> piGitRemote = psGitRemote p, piName = psName p,
                              piClonePaths = psClonePaths p, piBranches = psBranches p \<rparr>)
                     (shProjects selected),
       hiSessions = shSessions selected,
       hiBranchExclusions =
         (if mode = SelectionModeSelected
          then map (\<lambda>x. \<lparr> beClonePath = bxClonePath x, beBranches = bxBranches x \<rparr>)
                 (xBranches (shExclusions selected))
          else []),
       hiSessionExclusions =
         (if mode = SelectionModeSelected then xSessions (shExclusions selected) else []) \<rparr>"

lemma compileHarness_other:
  "h' \<noteq> fst hs \<Longrightarrow> map_of (compileHarness mode hs b) h' = map_of b h'"
  by (cases hs) (simp add: compileHarness_def Let_def builder_fold_other AddHarness_def
      update_conv' split: option.splits)

lemma compileHarness_same:
  "map_of b h = None \<Longrightarrow> map_of (compileHarness mode (h, s) b) h = Some (configInput mode s)"
  by (simp add: compileHarness_def Let_def builder_fold_same AddHarness_def update_conv'
      configInput_def emptyInput_def)

lemma compile_lookup:
  assumes "distinct (map fst hs)" and "\<forall>h \<in> fst ` set hs. map_of b h = None"
  shows "map_of (foldl (\<lambda>b hs. compileHarness mode hs b) b hs) h =
    (case map_of hs h of None \<Rightarrow> map_of b h | Some s \<Rightarrow> Some (configInput mode s))"
  using assms
proof (induction hs arbitrary: b)
  case Nil
  then show ?case by simp
next
  case (Cons x hs)
  obtain k s where x: "x = (k, s)" by (cases x)
  let ?b = "compileHarness mode x b"
  have "\<forall>h \<in> fst ` set hs. map_of ?b h = None"
  proof
    fix h assume "h \<in> fst ` set hs"
    with Cons.prems(1) have "h \<noteq> fst x" by (cases "h = fst x") simp_all
    moreover have "map_of b h = None" using Cons.prems(2) \<open>h \<in> fst ` set hs\<close> by auto
    ultimately show "map_of ?b h = None" by (simp add: compileHarness_other)
  qed
  with Cons have IH: "map_of (foldl (\<lambda>b hs. compileHarness mode hs b) ?b hs) h =
      (case map_of hs h of None \<Rightarrow> map_of ?b h | Some s \<Rightarrow> Some (configInput mode s))"
    by simp
  show ?case
  proof (cases "h = k")
    case True
    then have "map_of hs h = None" using Cons.prems(1) x by (simp add: map_of_eq_None_iff)
    moreover have "map_of ?b h = Some (configInput mode s)"
      using Cons.prems(2) x True by (simp add: compileHarness_same)
    ultimately show ?thesis using IH x True by simp
  next
    case False
    then have "map_of ?b h = map_of b h" using x by (simp add: compileHarness_other)
    with IH x False show ?thesis by (simp split: option.split)
  qed
qed

lemma newSelectionMatcher_lookup:
  assumes "newSelectionMatcher b = Some m"
  shows "map_of m h = (case map_of b h of None \<Rightarrow> None | Some inp \<Rightarrow> newHarnessMatcher inp)"
proof -
  have "list_all2 (\<lambda>x y. (\<lambda>(name, input). map_option (Pair name) (newHarnessMatcher input)) x = Some y) b m"
    using assms unfolding newSelectionMatcher_def by (rule those_map_SomeD)
  then show ?thesis
    by (induction rule: list_all2_induct) (auto split: prod.splits)
qed

lemma newSelectionMatcher_None_iff:
  "newSelectionMatcher b = None \<longleftrightarrow> (\<exists>(h, inp) \<in> set b. newHarnessMatcher inp = None)"
  by (auto simp: newSelectionMatcher_def those_eq_None_iff image_iff split: prod.splits)

lemma newHarnessMatcher_None_iff:
  "newHarnessMatcher inp = None \<longleftrightarrow>
     (\<exists>p \<in> set (hiProjects inp). NormalizeRemoteForMatch (piGitRemote p) = None)"
proof -
  have "newProjectMatcher p = None \<longleftrightarrow> NormalizeRemoteForMatch (piGitRemote p) = None" for p
    by (cases "NormalizeRemoteForMatch (piGitRemote p)") (simp_all add: newProjectMatcher_def)
  moreover have "newHarnessMatcher inp = None \<longleftrightarrow> None \<in> newProjectMatcher ` set (hiProjects inp)"
    using those_eq_None_iff [of "map newProjectMatcher (hiProjects inp)"]
    by (cases "those (map newProjectMatcher (hiProjects inp))") (simp_all add: newHarnessMatcher_def)
  ultimately show ?thesis by (metis (no_types, lifting) image_iff)
qed

lemma newHarnessMatcher_SomeD:
  assumes "newHarnessMatcher inp = Some hm"
  shows "list_all2 (\<lambda>x y. newProjectMatcher x = Some y) (hiProjects inp) (hmProjects hm)"
    and "hmSessions hm = set (hiSessions inp)"
    and "hmBranchExclusions hm = foldl addBranchExclusion [] (hiBranchExclusions inp)"
    and "hmSessionExclusions hm = set (hiSessionExclusions inp) - {[]}"
  using assms
  by (auto simp: newHarnessMatcher_def bind_eq_Some_conv dest: those_map_SomeD)

lemma newProjectMatcher_SomeD:
  assumes "newProjectMatcher p = Some pm"
  shows "NormalizeRemoteForMatch (piGitRemote p) = Some (pmGitRemote pm)"
    and "pmName pm = NormalizeProjectNameForMatch (piName p)"
    and "pmClonePaths pm = toClonePathSet (piClonePaths p)"
    and "pmPathBound pm \<longleftrightarrow> piClonePaths p \<noteq> []"
    and "pmBranches pm = set (piBranches p)"
    and "eBranches (pmEntry pm) = piBranches p"
  using assms by (auto simp: newProjectMatcher_def toBranchSet_def bind_eq_Some_conv)

text \<open>
  A map that a key-distinct association list stands for does not depend on the order of
  the list, so neither does the compiled matcher.
\<close>

lemma compile_map_of:
  assumes "distinct (map fst (scHarnesses sel))"
  shows "map_of (foldl (\<lambda>b hs. compileHarness (scMode sel) hs b) NewSelectionMatcherBuilder
      (scHarnesses sel)) h =
    map_option (configInput (scMode sel)) (map_of (scHarnesses sel) h)"
  using compile_lookup [OF assms, of NewSelectionMatcherBuilder "scMode sel" h]
  by (simp add: NewSelectionMatcherBuilder_def split: option.split)

lemma AList_update_distinct: "distinct (map fst b) \<Longrightarrow> distinct (map fst (AList.update k v b))"
  by (rule distinct_update)

lemma foldl_distinct:
  "(\<And>b x. distinct (map fst b) \<Longrightarrow> distinct (map fst (f b x))) \<Longrightarrow> distinct (map fst b) \<Longrightarrow>
   distinct (map fst (foldl f b xs))"
  by (induction xs arbitrary: b) auto

lemma compileHarness_distinct:
  assumes "distinct (map fst b)"
  shows "distinct (map fst (compileHarness mode hs b))"
  using assms
  by (cases hs)
    (auto simp: compileHarness_def Let_def AddHarness_def AddProjectWithClonePaths_def AddSession_def
      AddBranchExclusion_def AddSessionExclusion_def split: option.splits
      intro!: foldl_distinct distinct_update)

lemma map_of_set_iff:
  "distinct (map fst b) \<Longrightarrow> (\<exists>(h, x) \<in> set b. P x) \<longleftrightarrow> (\<exists>h x. map_of b h = Some x \<and> P x)"
  by force

lemma compile_None_iff:
  assumes "distinct (map fst (scHarnesses sel))"
  shows "CompileSelectionMatcher sel = None \<longleftrightarrow>
    (\<exists>h s. map_of (scHarnesses sel) h = Some s \<and>
      (\<exists>p \<in> set (shProjects s). NormalizeRemoteForMatch (psGitRemote p) = None))"
proof -
  let ?b = "foldl (\<lambda>b hs. compileHarness (scMode sel) hs b) NewSelectionMatcherBuilder (scHarnesses sel)"
  have d: "distinct (map fst ?b)"
    by (rule foldl_distinct) (auto intro: compileHarness_distinct simp: NewSelectionMatcherBuilder_def)
  have "CompileSelectionMatcher sel = None \<longleftrightarrow>
      (\<exists>h inp. map_of ?b h = Some inp \<and> newHarnessMatcher inp = None)"
    unfolding CompileSelectionMatcher_def Build_def newSelectionMatcher_None_iff map_of_set_iff [OF d] ..
  also have "\<dots> \<longleftrightarrow> (\<exists>h s. map_of (scHarnesses sel) h = Some s \<and>
      newHarnessMatcher (configInput (scMode sel) s) = None)"
    unfolding compile_map_of [OF assms] by auto
  finally show ?thesis
    by (simp add: newHarnessMatcher_None_iff configInput_def)
qed

lemma compile_Some_lookup:
  assumes "distinct (map fst (scHarnesses sel))" and "CompileSelectionMatcher sel = Some m"
  shows "map_of m h = (case map_of (scHarnesses sel) h of
    None \<Rightarrow> None | Some s \<Rightarrow> newHarnessMatcher (configInput (scMode sel) s))"
  using newSelectionMatcher_lookup [of _ m h] assms compile_map_of [OF assms(1), of h]
  by (simp add: CompileSelectionMatcher_def Build_def split: option.splits)

section \<open>A selection to evaluate\<close>

text \<open>
  Two rules identify the repository \<open>acme/app\<close>, one pinned to \<open>main\<close> and one for all
  branches; one session is listed, one session and one branch are denied.
\<close>

definition exampleConfig :: SelectionConfig where
  "exampleConfig = \<lparr> scMode = ''selected'', scAutoIngestNewBranches = False,
     scHarnesses = [(''codex'', \<lparr> shProjects =
        [\<lparr> psGitRemote = ''git@GitHub.com:acme/app.git'', psName = [], psClonePaths = [],
           psBranches = [''main''] \<rparr>,
         \<lparr> psGitRemote = [], psName = ''app'', psClonePaths = [], psBranches = [] \<rparr>],
        shSessions = [''s1''],
        shExclusions = \<lparr> xBranches = [\<lparr> bxClonePath = ''/w/app'', bxBranches = [''wip''] \<rparr>],
                         xSessions = [''s2''] \<rparr> \<rparr>)],
     scDeprecatedProviders = [] \<rparr>"

definition exampleHarness :: harnessMatcher where
  "exampleHarness =
     \<lparr> hmProjects =
         [\<lparr> pmGitRemote = ''github.com/acme/app'', pmName = [], pmClonePaths = {}, pmPathBound = False,
            pmBranches = {''main''},
            pmEntry = \<lparr> eGitRemote = ''git@GitHub.com:acme/app.git'', eName = [], eClonePaths = [],
                        eBranches = [''main''] \<rparr> \<rparr>,
          \<lparr> pmGitRemote = [], pmName = ''app'', pmClonePaths = {}, pmPathBound = False,
            pmBranches = {},
            pmEntry = \<lparr> eGitRemote = [], eName = ''app'', eClonePaths = [], eBranches = [] \<rparr> \<rparr>],
       hmSessions = {''s1''}, hmBranchExclusions = [(''/w/app'', {''wip''})],
       hmSessionExclusions = {''s2''} \<rparr>"

definition exampleMatcher :: SelectionMatcher where
  "exampleMatcher = [(''codex'', exampleHarness)]"

definition exampleCandidate :: DiscoveryCandidate where
  "exampleCandidate =
     positionalCandidate ''codex'' ''https://github.com/acme/app'' ''/home/u/app'' ''dev'' ''s9''"

lemma exampleMatcher_lookup: "map_of exampleMatcher ''codex'' = Some exampleHarness"
  by (simp add: exampleMatcher_def)

lemma example_compiles: "CompileSelectionMatcher exampleConfig = Some exampleMatcher"
  by code_simp

lemma exampleCandidate_harness [simp]: "cHarness exampleCandidate = ''codex''"
  by (simp add: exampleCandidate_def positionalCandidate_def)

lemma example_config_distinct: "distinct (map fst (scHarnesses exampleConfig))"
  by (simp add: exampleConfig_def)

section \<open>What the matcher decides\<close>

lemma positiveDecision_unrestricted:
  "hmProjects pm = [] \<Longrightarrow> hmSessions pm = {} \<Longrightarrow>
   positiveDecision pm c policy = Some \<lparr> dMatch = BranchMatchYes, dAdmitting = [], dRejecting = [] \<rparr>"
  by (simp add: positiveDecision_def)

lemma positiveDecision_session:
  "cSessionID c \<in> hmSessions pm \<Longrightarrow>
   positiveDecision pm c policy = Some \<lparr> dMatch = BranchMatchYes, dAdmitting = [], dRejecting = [] \<rparr>"
  by (simp add: positiveDecision_def)

lemma positiveDecision_projects:
  assumes "hmProjects pm \<noteq> [] \<or> hmSessions pm \<noteq> {}" and "cSessionID c \<notin> hmSessions pm"
  shows "positiveDecision pm c policy = map_option (\<lambda>ps.
    \<lparr> dMatch = (if \<exists>p \<in> set ps. projectAdmits policy (cBranch c) p then
                 if \<exists>p \<in> set ps. \<not> projectAdmits policy (cBranch c) p
                 then BranchMatchWithheldConflict else BranchMatchYes
               else BranchMatchNo),
      dAdmitting = map pmEntry (filter (projectAdmits policy (cBranch c)) ps),
      dRejecting = map pmEntry (filter (\<lambda>p. \<not> projectAdmits policy (cBranch c) p) ps) \<rparr>)
    (matchingProjects (hmProjects pm) c)"
proof -
  have "filter Q ps = [] \<longleftrightarrow> \<not> (\<exists>p \<in> set ps. Q p)" for Q and ps :: "projectMatcher list"
    by (auto simp: filter_empty_conv)
  with assms show ?thesis
    by (cases "matchingProjects (hmProjects pm) c") (simp_all add: positiveDecision_def Let_def)
qed

lemmas positiveDecision_cases =
  positiveDecision_unrestricted positiveDecision_session positiveDecision_projects

lemma decideCandidate_Some:
  assumes "map_of m (cHarness c) = Some pm"
  shows "decideCandidate m c policy = map_option
    (\<lambda>d. if excludesCandidate pm c then decisionNo else d) (positiveDecision pm c policy)"
  using assms by (cases "positiveDecision pm c policy") (simp_all add: decideCandidate_def)

lemma decideCandidate_None:
  "map_of m (cHarness c) = None \<Longrightarrow> decideCandidate m c policy = Some decisionNo"
  by (simp add: decideCandidate_def)

lemma decideCandidate_excluded:
  assumes "ExcludesCandidate m c" and "decideCandidate m c policy = Some d"
  shows "d = decisionNo"
  using assms by (cases "map_of m (cHarness c)")
    (auto simp: ExcludesCandidate_def decideCandidate_Some)



text \<open>
  Exclusions are final. Whatever selected the session, a candidate the matcher excludes
  is decided No without entries, under the stored-row policy and under both discovery
  policies, and the project-level match is false for a session that is denied by its ID.
\<close>

theorem excluded_never_selected:
  assumes "ExcludesCandidate m c"
  shows "MatchBranchCandidate m c \<in> {None, Some BranchMatchNo} \<and>
    MatchDiscoveryCandidateDecision m c auto \<in> {None, Some decisionNo} \<and>
    (\<forall>pm. map_of m (cHarness c) = Some pm \<and> cSessionID c \<noteq> [] \<and> cSessionID c \<in> hmSessionExclusions pm
       \<longrightarrow> MatchesCandidate m c \<in> {None, Some False})"
proof -
  have no: "decideCandidate m c' policy \<in> {None, Some decisionNo}" if "ExcludesCandidate m c'" for c' policy
    using decideCandidate_excluded [OF that, of policy] by (cases "decideCandidate m c' policy") auto
  have "ExcludesCandidate m (c\<lparr> cBranch := [] \<rparr>)"
    if "map_of m (cHarness c) = Some pm" "cSessionID c \<noteq> []" "cSessionID c \<in> hmSessionExclusions pm" for pm
    using that by (simp add: ExcludesCandidate_def excludesCandidate_def)
  then have "map_of m (cHarness c) = Some pm \<and> cSessionID c \<noteq> [] \<and> cSessionID c \<in> hmSessionExclusions pm
       \<longrightarrow> MatchesCandidate m c \<in> {None, Some False}" for pm
    using no [of "c\<lparr> cBranch := [] \<rparr>" storedPolicy] by (auto simp: MatchesCandidate_def decisionNo_def)
  then show ?thesis
    using no [OF assms, of storedPolicy] no [OF assms, of "discoveryPolicy auto"]
    by (auto simp: MatchBranchCandidate_def MatchDiscoveryCandidateDecision_def decisionNo_def)
qed

theorem excluded_never_selected_witness:
  "MatchBranchCandidate exampleMatcher (exampleCandidate\<lparr> cClonePath := ''/w/app'', cBranch := ''wip'' \<rparr>) =
     Some BranchMatchNo"
proof -
  let ?c = "exampleCandidate\<lparr> cClonePath := ''/w/app'', cBranch := ''wip'' \<rparr>"
  have "ExcludesCandidate exampleMatcher ?c" by code_simp
  moreover have "MatchBranchCandidate exampleMatcher ?c \<noteq> None" by code_simp
  ultimately show ?thesis using excluded_never_selected [of exampleMatcher ?c False] by auto
qed

section \<open>Evidence\<close>

lemma matchingProjects_Nil: "matchingProjects [] c = Some ps \<Longrightarrow> ps = []"
  by (auto simp: matchingProjects_def Let_def bind_eq_Some_conv)

lemma matchingProjects_branch [simp]:
  "matchingProjects projects (c\<lparr> cBranch := b \<rparr>) = matchingProjects projects c"
  by (cases "NormalizeRemoteForMatch (cGitRemote c)") (simp_all add: matchingProjects_def Let_def)

lemma matchingProjects_exact:
  assumes "p \<in> set projects" and "matchesClonePath p (cClonePath c)"
  shows "matchingProjects projects c = Some (filter (\<lambda>p. matchesClonePath p (cClonePath c)) projects)"
proof -
  from assms(2) have "cClonePath c \<noteq> []" by (simp add: matchesClonePath_def)
  moreover from assms have "filter (\<lambda>p. matchesClonePath p (cClonePath c)) projects \<noteq> []"
    by (auto simp: filter_empty_conv)
  ultimately show ?thesis by (simp add: matchingProjects_def Let_def)
qed

lemma matchingProjects_inexact:
  assumes "\<forall>p \<in> set projects. \<not> matchesClonePath p (cClonePath c)"
    and "matchingProjects projects c = Some ps" and "p \<in> set ps"
  shows "p \<in> set projects \<and> \<not> pmPathBound p \<and>
    (\<exists>n. NormalizeRemoteForMatch (cGitRemote c) = Some n \<and>
      (n \<noteq> [] \<longrightarrow> cRemoteMultiplicity c = DiscoveryIdentityUnique) \<and>
      (matchesRemote p n \<and> cRemoteMultiplicity c = DiscoveryIdentityUnique \<or>
       matchesName p (NormalizeProjectNameForMatch (cProjectName c)) \<and>
       cNameMultiplicity c = DiscoveryIdentityUnique))"
proof -
  have "filter (\<lambda>p. matchesClonePath p (cClonePath c)) projects = []"
    using assms(1) by (simp add: filter_empty_conv)
  moreover from this assms(2) obtain n where "NormalizeRemoteForMatch (cGitRemote c) = Some n"
    by (auto simp: matchingProjects_def Let_def bind_eq_Some_conv)
  ultimately show ?thesis
    using assms(2,3) by (auto simp: matchingProjects_def Let_def split: if_splits)
qed

text \<open>
  Identity evidence fails closed. When a rule lists the candidate's clone path, exactly
  the rules listing it identify the candidate. Otherwise a rule identifies it only by a
  remote that is proved unique or a name that is proved unique, never when the rule is
  bound to clone paths, and a known remote that is not proved unique identifies nothing.
\<close>

theorem matchingProjects_evidence:
  assumes "matchingProjects projects c = Some ps"
  shows "(\<exists>p \<in> set projects. matchesClonePath p (cClonePath c)) \<and>
      ps = filter (\<lambda>p. matchesClonePath p (cClonePath c)) projects \<or>
    (\<forall>p \<in> set projects. \<not> matchesClonePath p (cClonePath c)) \<and>
    (\<exists>n. NormalizeRemoteForMatch (cGitRemote c) = Some n \<and>
      (n \<noteq> [] \<and> cRemoteMultiplicity c \<noteq> DiscoveryIdentityUnique \<longrightarrow> ps = []) \<and>
      (\<forall>p \<in> set ps. p \<in> set projects \<and> \<not> pmPathBound p \<and>
        (matchesRemote p n \<and> cRemoteMultiplicity c = DiscoveryIdentityUnique \<or>
         matchesName p (NormalizeProjectNameForMatch (cProjectName c)) \<and>
         cNameMultiplicity c = DiscoveryIdentityUnique)))"
proof (cases "\<exists>p \<in> set projects. matchesClonePath p (cClonePath c)")
  case True
  then show ?thesis using assms matchingProjects_exact [of _ projects c] by auto
next
  case False
  then have "filter (\<lambda>p. matchesClonePath p (cClonePath c)) projects = []"
    by (simp add: filter_empty_conv)
  then obtain n where n: "NormalizeRemoteForMatch (cGitRemote c) = Some n"
    using assms by (auto simp: matchingProjects_def Let_def bind_eq_Some_conv)
  note inexact = matchingProjects_inexact [OF _ assms]
  have "ps = []" if "n \<noteq> []" and "cRemoteMultiplicity c \<noteq> DiscoveryIdentityUnique"
  proof (rule ccontr)
    assume "ps \<noteq> []"
    with inexact [of "hd ps"] False n that show False by simp
  qed
  moreover have "\<forall>p \<in> set ps. p \<in> set projects \<and> \<not> pmPathBound p \<and>
        (matchesRemote p n \<and> cRemoteMultiplicity c = DiscoveryIdentityUnique \<or>
         matchesName p (NormalizeProjectNameForMatch (cProjectName c)) \<and>
         cNameMultiplicity c = DiscoveryIdentityUnique)"
  proof
    fix p assume "p \<in> set ps"
    with inexact [of p] False n show "p \<in> set projects \<and> \<not> pmPathBound p \<and>
        (matchesRemote p n \<and> cRemoteMultiplicity c = DiscoveryIdentityUnique \<or>
         matchesName p (NormalizeProjectNameForMatch (cProjectName c)) \<and>
         cNameMultiplicity c = DiscoveryIdentityUnique)"
      by auto
  qed
  ultimately show ?thesis using False n by blast
qed

theorem matchingProjects_evidence_witness:
  "matchingProjects (hmProjects exampleHarness)
     (exampleCandidate\<lparr> cRemoteMultiplicity := DiscoveryIdentityUnproven \<rparr>) = Some []"
proof -
  let ?c = "exampleCandidate\<lparr> cRemoteMultiplicity := DiscoveryIdentityUnproven \<rparr>"
  have "NormalizeRemoteForMatch (cGitRemote ?c) = Some ''github.com/acme/app''"
    and "\<forall>p \<in> set (hmProjects exampleHarness). \<not> matchesClonePath p (cClonePath ?c)"
    by code_simp+
  moreover have "matchingProjects (hmProjects exampleHarness) ?c \<noteq> None" by code_simp
  then obtain ps where "matchingProjects (hmProjects exampleHarness) ?c = Some ps" by auto
  ultimately show ?thesis
    using matchingProjects_evidence [of "hmProjects exampleHarness" ?c ps] by auto
qed

lemma positiveDecision_no_git:
  assumes "hmProjects pm = [] \<or> cSessionID c \<in> hmSessions pm"
    and "positiveDecision pm c policy = Some d"
  shows "d = (if cSessionID c \<in> hmSessions pm \<or> hmSessions pm = {}
    then \<lparr> dMatch = BranchMatchYes, dAdmitting = [], dRejecting = [] \<rparr> else decisionNo)"
proof (cases "cSessionID c \<in> hmSessions pm \<or> hmSessions pm = {}")
  case True
  with assms show ?thesis by (auto simp: positiveDecision_session positiveDecision_unrestricted)
next
  case False
  with assms have "hmProjects pm = []" and "matchingProjects [] c \<noteq> None"
    by (auto simp: positiveDecision_projects)
  then obtain ps where ps: "matchingProjects [] c = Some ps" and "ps = []"
    using matchingProjects_Nil by blast
  then show ?thesis
    using assms(2) False \<open>hmProjects pm = []\<close> by (simp add: positiveDecision_projects decisionNo_def)
qed

text \<open>
  Skipping repository resolution is safe. When the matcher says that repository
  attributes cannot change the answer for a harness and session, two candidates with that
  harness and session get the same decision, entries included, whatever their remotes,
  names, clone paths, branches and multiplicities are (a remote that panics aside).
\<close>

theorem DiscoveryNeedsGit_sound:
  assumes "Build b = Some m" and "\<not> DiscoveryNeedsGit m h sid"
    and "cHarness c1 = h" and "cSessionID c1 = sid" and "cHarness c2 = h" and "cSessionID c2 = sid"
    and "decideCandidate m c1 policy = Some d1" and "decideCandidate m c2 policy = Some d2"
  shows "d1 = d2"
proof (cases "map_of m h")
  case None
  with assms show ?thesis by (simp add: decideCandidate_None)
next
  case (Some pm)
  have d1: "map_option (\<lambda>d. if excludesCandidate pm c1 then decisionNo else d)
      (positiveDecision pm c1 policy) = Some d1"
    and d2: "map_option (\<lambda>d. if excludesCandidate pm c2 then decisionNo else d)
      (positiveDecision pm c2 policy) = Some d2"
    using assms Some by (auto simp: decideCandidate_Some)
  from assms(1) Some obtain inp where "newHarnessMatcher inp = Some pm"
    using newSelectionMatcher_lookup [of b m h] by (auto simp: Build_def split: option.splits)
  then have ne: "[] \<notin> hmSessionExclusions pm" by (simp add: newHarnessMatcher_SomeD(4))
  show ?thesis
  proof (cases "sid \<in> hmSessionExclusions pm")
    case True
    with ne have "sid \<noteq> []" by auto
    with True have "excludesCandidate pm c" if "c = c1 \<or> c = c2" for c
      using that assms(3-6) by (auto simp: excludesCandidate_def)
    with d1 d2 show ?thesis by auto
  next
    case False
    with assms(2) Some have bx: "hmBranchExclusions pm = []"
      and pj: "hmProjects pm = [] \<or> sid \<in> hmSessions pm"
      by (auto simp: DiscoveryNeedsGit_def split: if_splits)
    have notex: "\<not> excludesCandidate pm c" if "c = c1 \<or> c = c2" for c
      using that False bx assms(3-6) by (auto simp: excludesCandidate_def split: option.splits)
    with d1 d2 have "positiveDecision pm c1 policy = Some d1" "positiveDecision pm c2 policy = Some d2"
      by auto
    with pj show ?thesis
      using positiveDecision_no_git [of pm c1 policy d1] positiveDecision_no_git [of pm c2 policy d2]
        assms(3-6) by simp
  qed
qed

theorem DiscoveryNeedsGit_sound_witness:
  "decideCandidate exampleMatcher (positionalCandidate ''codex'' [] [] [] ''s2'') storedPolicy =
   decideCandidate exampleMatcher (exampleCandidate\<lparr> cSessionID := ''s2'' \<rparr>) storedPolicy"
proof -
  let ?c1 = "positionalCandidate ''codex'' [] [] [] ''s2''" and ?c2 = "exampleCandidate\<lparr> cSessionID := ''s2'' \<rparr>"
  let ?b = "foldl (\<lambda>b hs. compileHarness (scMode exampleConfig) hs b) NewSelectionMatcherBuilder
    (scHarnesses exampleConfig)"
  have "Build ?b = Some exampleMatcher" using example_compiles by (simp add: CompileSelectionMatcher_def)
  moreover have "\<not> DiscoveryNeedsGit exampleMatcher ''codex'' ''s2''" by code_simp
  moreover have "decideCandidate exampleMatcher ?c1 storedPolicy \<noteq> None" by code_simp
  moreover have "decideCandidate exampleMatcher ?c2 storedPolicy \<noteq> None" by code_simp
  ultimately show ?thesis
    using DiscoveryNeedsGit_sound [of ?b exampleMatcher "''codex''" "''s2''" ?c1 ?c2 storedPolicy]
    by (auto simp: positionalCandidate_def)
qed

section \<open>Policies and compilation\<close>

lemma projectAdmits_stored [simp]:
  "projectAdmits storedPolicy branch p \<longleftrightarrow> pmBranches p = {} \<or> branch = [] \<or> branch \<in> pmBranches p"
  by (auto simp: projectAdmits_def storedPolicy_def admitsBranch_def Let_def)

lemma projectAdmits_discovery [simp]:
  "projectAdmits (discoveryPolicy auto) branch p \<longleftrightarrow>
     pmBranches p = {} \<or> branch \<noteq> [] \<and> (auto \<or> branch \<in> pmBranches p)"
  by (auto simp: projectAdmits_def discoveryPolicy_def admitsBranch_def Let_def)

lemma decideCandidate_mono:
  assumes "\<And>p. projectAdmits pol1 (cBranch c) p \<Longrightarrow> projectAdmits pol2 (cBranch c) p"
    and "map_option dMatch (decideCandidate m c pol1) = Some BranchMatchYes"
  shows "map_option dMatch (decideCandidate m c pol2) = Some BranchMatchYes"
proof (cases "map_of m (cHarness c)")
  case None
  with assms(2) show ?thesis by (simp add: decideCandidate_None decisionNo_def)
next
  case (Some pm)
  note dec = decideCandidate_Some [of m c pm, OF Some]
  consider "hmProjects pm = []" "hmSessions pm = {}" | "cSessionID c \<in> hmSessions pm"
    | "hmProjects pm \<noteq> [] \<or> hmSessions pm \<noteq> {}" "cSessionID c \<notin> hmSessions pm"
    by blast
  then show ?thesis
  proof cases
    case 3
    from assms(2) obtain ps where ps: "matchingProjects (hmProjects pm) c = Some ps"
      by (auto simp: dec positiveDecision_projects [OF 3])
    with assms(2) have ex: "\<not> excludesCandidate pm c"
      and one: "\<exists>p \<in> set ps. projectAdmits pol1 (cBranch c) p"
      and all: "\<not> (\<exists>p \<in> set ps. \<not> projectAdmits pol1 (cBranch c) p)"
      by (simp_all add: dec positiveDecision_projects [OF 3] decisionNo_def split: if_splits)
    have "\<exists>p \<in> set ps. projectAdmits pol2 (cBranch c) p"
      and "\<not> (\<exists>p \<in> set ps. \<not> projectAdmits pol2 (cBranch c) p)"
      using one all assms(1) by blast+
    with ps ex show ?thesis by (simp add: dec positiveDecision_projects [OF 3])
  qed (use assms(2) in \<open>auto simp: dec positiveDecision_cases\<close>)
qed

text \<open>
  C40: The policies are nested. A session that strict discovery selects stays selected when
  branches outside the lists are admitted automatically, and it stays selected once it is
  a stored row; so strict discovery never ingests a session that prune or push would then
  treat as unselected.
\<close>

theorem strict_discovery_implies_stored:
  assumes "MatchDiscoveryCandidate m c False = Some BranchMatchYes"
  shows "MatchDiscoveryCandidate m c True = Some BranchMatchYes \<and>
    MatchBranchCandidate m c = Some BranchMatchYes"
proof -
  have strict: "map_option dMatch (decideCandidate m c (discoveryPolicy False)) = Some BranchMatchYes"
    using assms by (simp add: MatchDiscoveryCandidate_def MatchDiscoveryCandidateDecision_def)
  have "map_option dMatch (decideCandidate m c (discoveryPolicy True)) = Some BranchMatchYes"
    by (rule decideCandidate_mono [OF _ strict]) auto
  moreover have "map_option dMatch (decideCandidate m c storedPolicy) = Some BranchMatchYes"
    by (rule decideCandidate_mono [OF _ strict]) auto
  ultimately show ?thesis
    by (simp add: MatchDiscoveryCandidate_def MatchDiscoveryCandidateDecision_def MatchBranchCandidate_def)
qed

theorem strict_discovery_implies_stored_witness:
  "MatchBranchCandidate exampleMatcher (exampleCandidate\<lparr> cBranch := ''main'' \<rparr>) = Some BranchMatchYes"
proof -
  have "MatchDiscoveryCandidate exampleMatcher (exampleCandidate\<lparr> cBranch := ''main'' \<rparr>) False =
    Some BranchMatchYes" by code_simp
  then show ?thesis by (rule strict_discovery_implies_stored [THEN conjunct2])
qed

text \<open>
  Project-level matching never looks at branches. It returns a value whenever the
  candidate's remote can be normalised, the value does not depend on the branch, and it is
  true exactly for a session that is not denied by its ID and whose harness is
  unrestricted, which is listed, or which some project rule identifies.
\<close>

theorem MatchesCandidate_rule:
  assumes "map_of m (cHarness c) = Some pm" and "matchingProjects (hmProjects pm) c = Some ps"
  shows "MatchesCandidate m (c\<lparr> cBranch := b \<rparr>) = Some
    (\<not> (cSessionID c \<noteq> [] \<and> cSessionID c \<in> hmSessionExclusions pm) \<and>
     (hmProjects pm = [] \<and> hmSessions pm = {} \<or> cSessionID c \<in> hmSessions pm \<or> ps \<noteq> []))"
proof -
  let ?c = "c\<lparr> cBranch := [] \<rparr>"
  have mp: "matchingProjects (hmProjects pm) ?c = Some ps"
    using assms(2) by simp
  have ex: "excludesCandidate pm ?c \<longleftrightarrow> cSessionID c \<noteq> [] \<and> cSessionID c \<in> hmSessionExclusions pm"
    by (simp add: excludesCandidate_def normalizeBranchForMatch_def split: option.splits)
  have lookup: "map_of m (cHarness ?c) = Some pm" using assms(1) by simp
  consider "hmProjects pm = []" "hmSessions pm = {}" | "cSessionID c \<in> hmSessions pm"
    | "hmProjects pm \<noteq> [] \<or> hmSessions pm \<noteq> {}" "cSessionID c \<notin> hmSessions pm"
    by blast
  then show ?thesis
  proof cases
    case 3
    then show ?thesis
      using decideCandidate_Some [OF lookup, of storedPolicy] ex mp
      by (cases ps) (auto simp: MatchesCandidate_def positiveDecision_projects decisionNo_def)
  qed (use decideCandidate_Some [OF lookup, of storedPolicy] ex in
      \<open>auto simp: MatchesCandidate_def positiveDecision_cases decisionNo_def\<close>)
qed

theorem MatchesCandidate_rule_witness:
  "MatchesCandidate exampleMatcher (exampleCandidate\<lparr> cBranch := ''dev'' \<rparr>) = Some True"
proof -
  have "map_option length (matchingProjects (hmProjects exampleHarness) exampleCandidate) = Some 2"
    by code_simp
  then obtain ps where "matchingProjects (hmProjects exampleHarness) exampleCandidate = Some ps"
    and "ps \<noteq> []" by fastforce
  moreover have "\<not> (cSessionID exampleCandidate \<in> hmSessionExclusions exampleHarness)" by code_simp
  ultimately show ?thesis
    using MatchesCandidate_rule [of exampleMatcher exampleCandidate exampleHarness ps "''dev''"]
      exampleMatcher_lookup by simp
qed

text \<open>
  The compiled matcher does not depend on map iteration order. Two configurations with
  the same mode whose harness maps agree as maps either both panic while compiling or give
  matchers that take the same decision on every candidate under every policy.
\<close>

theorem compile_order_independent:
  assumes "distinct (map fst (scHarnesses s1))" and "distinct (map fst (scHarnesses s2))"
    and "scMode s1 = scMode s2" and "map_of (scHarnesses s1) = map_of (scHarnesses s2)"
  shows "(CompileSelectionMatcher s1 = None \<longleftrightarrow> CompileSelectionMatcher s2 = None) \<and>
    (\<forall>m1 m2 c policy. CompileSelectionMatcher s1 = Some m1 \<and> CompileSelectionMatcher s2 = Some m2 \<longrightarrow>
       decideCandidate m1 c policy = decideCandidate m2 c policy)"
proof -
  have "decideCandidate m1 c policy = decideCandidate m2 c policy"
    if "CompileSelectionMatcher s1 = Some m1" and "CompileSelectionMatcher s2 = Some m2" for m1 m2 c policy
  proof -
    have "map_of m1 h = map_of m2 h" for h
      unfolding compile_Some_lookup [OF assms(1) that(1)] compile_Some_lookup [OF assms(2) that(2)]
        assms(3,4) ..
    then show ?thesis by (simp add: decideCandidate_def)
  qed
  then show ?thesis
    unfolding compile_None_iff [OF assms(1)] compile_None_iff [OF assms(2)] assms(4) by blast
qed

theorem compile_order_independent_witness:
  "let sel = (\<lambda>hs. \<lparr> scMode = ''all'', scAutoIngestNewBranches = False, scHarnesses = hs,
       scDeprecatedProviders = [] \<rparr>);
     h = snd (hd (scHarnesses exampleConfig))
   in CompileSelectionMatcher (sel [(''codex'', h), (''pi'', h)]) = None \<longleftrightarrow>
      CompileSelectionMatcher (sel [(''pi'', h), (''codex'', h)]) = None"
  unfolding Let_def
  by (rule compile_order_independent [THEN conjunct1]) (auto simp: fun_eq_iff)

text \<open>
  Compiling a selection panics exactly when one of its project rules has a remote on
  which the matching normaliser panics; every other selection compiles.
\<close>

theorem compile_panics_iff:
  assumes "distinct (map fst (scHarnesses sel))"
  shows "CompileSelectionMatcher sel = None \<longleftrightarrow>
    (\<exists>h s p. map_of (scHarnesses sel) h = Some s \<and> p \<in> set (shProjects s) \<and>
       NormalizeRemoteForMatch (psGitRemote p) = None)"
  unfolding compile_None_iff [OF assms] by blast

theorem compile_panics_iff_witness:
  "\<not> (\<exists>h s p. map_of (scHarnesses exampleConfig) h = Some s \<and> p \<in> set (shProjects s) \<and>
       NormalizeRemoteForMatch (psGitRemote p) = None)"
  using compile_panics_iff [OF example_config_distinct] example_compiles by simp

end
