(* ===== verification/Selection_Config.thy ===== *)
theory Selection_Config
  imports Selection
begin

text \<open>
  Validation of the persisted selection, \<open>ValidateSelection\<close> and
  \<open>validateSelectionExclusions\<close> of \<open>internal/config/config.go\<close>, and what a validated
  selection guarantees of the compiled matcher.

  A validator returns \<open>None\<close> for no error and \<open>Some e\<close> for the first error, with the
  harness, row and entry it names. Which harness names exist and which session identifiers
  are well formed is decided by the schema package, outside this repository: both are
  parameters.
\<close>

section \<open>Errors\<close>

datatype git_branch_reason =
    AtSign | LeadingHyphen | EdgeSlash | DoubleSlash | DoubleDot | ReflogSequence | TrailingDot
  | ComponentDot | ComponentLock | BadCharacter

datatype exclusion_problem =
    NotSelectedMode | HarnessEmpty | HarnessUnsupported
  | SessionEmpty nat | SessionNotNormalized nat | SessionMalformed nat | SessionDuplicate nat nat
  | ClonePathEmpty nat | ClonePathNotNormalized nat | ClonePathNotAbsolute nat | ClonePathNotClean nat
  | ClonePathDuplicate nat nat | BranchesEmpty nat
  | BranchEmpty nat nat | BranchNotNormalized nat nat
  | BranchInvalid nat nat git_branch_reason | BranchDuplicate nat nat nat

datatype selection_error =
    UnknownMode | ProvidersRenamed | BadExclusions string exclusion_problem

section \<open>Branch names\<close>

definition bad_branch_char :: "char \<Rightarrow> bool" where
  "bad_branch_char c =
     (byte c \<le> 32 \<or> byte c = 127 \<or> c \<in> set ''~^:?*['' \<or> c = backslash)"

definition invalidGitBranchReason :: "string \<Rightarrow> git_branch_reason option" where
  "invalidGitBranchReason branch =
     (if branch = ''@'' then Some AtSign
      else if prefix ''-'' branch then Some LeadingHyphen
      else if prefix ''/'' branch \<or> suffix ''/'' branch then Some EdgeSlash
      else if sublist ''//'' branch then Some DoubleSlash
      else if sublist ''..'' branch then Some DoubleDot
      else if sublist [CHR ''@'', CHR 0x7B] branch then Some ReflogSequence
      else if suffix ''.'' branch then Some TrailingDot
      else case find (\<lambda>component. prefix ''.'' component \<or> suffix ''.lock'' (to_lower component))
                  (split_char slash branch) of
             Some component \<Rightarrow> Some (if prefix ''.'' component then ComponentDot else ComponentLock)
           | None \<Rightarrow> if list_ex bad_branch_char branch then Some BadCharacter else None)"

section \<open>The three loops\<close>

fun checkSessions ::
  "(string \<Rightarrow> bool) \<Rightarrow> (string \<times> nat) list \<Rightarrow> nat \<Rightarrow> string list \<Rightarrow> exclusion_problem option" where
  "checkSessions valid seen i [] = None"
| "checkSessions valid seen i (raw # rest) =
     (if raw = [] then Some (SessionEmpty i)
      else if trim_space raw \<noteq> raw then Some (SessionNotNormalized i)
      else if \<not> valid raw then Some (SessionMalformed i)
      else case map_of seen raw of
             Some first \<Rightarrow> Some (SessionDuplicate i first)
           | None \<Rightarrow> checkSessions valid ((raw, i) # seen) (Suc i) rest)"

fun checkBranches ::
  "nat \<Rightarrow> (string \<times> nat) list \<Rightarrow> nat \<Rightarrow> string list \<Rightarrow> exclusion_problem option" where
  "checkBranches row seen i [] = None"
| "checkBranches row seen i (branch # rest) =
     (if branch = [] then Some (BranchEmpty row i)
      else if trim_space branch \<noteq> branch then Some (BranchNotNormalized row i)
      else case invalidGitBranchReason branch of
        Some reason \<Rightarrow> Some (BranchInvalid row i reason)
      | None \<Rightarrow>
          (case map_of seen branch of
             Some first \<Rightarrow> Some (BranchDuplicate row i first)
           | None \<Rightarrow> checkBranches row ((branch, i) # seen) (Suc i) rest))"

fun checkRows :: "(string \<times> nat) list \<Rightarrow> nat \<Rightarrow> BranchExclusion list \<Rightarrow> exclusion_problem option" where
  "checkRows seen i [] = None"
| "checkRows seen i (exclusion # rest) =
     (let path = bxClonePath exclusion
      in if path = [] then Some (ClonePathEmpty i)
         else if trim_space path \<noteq> path then Some (ClonePathNotNormalized i)
         else if \<not> is_abs path then Some (ClonePathNotAbsolute i)
         else if path_clean path \<noteq> path then Some (ClonePathNotClean i)
         else case map_of seen path of
           Some first \<Rightarrow> Some (ClonePathDuplicate i first)
         | None \<Rightarrow>
             if bxBranches exclusion = [] then Some (BranchesEmpty i)
             else case checkBranches i [] 0 (bxBranches exclusion) of
                    Some e \<Rightarrow> Some e
                  | None \<Rightarrow> checkRows ((path, i) # seen) (Suc i) rest)"

definition checkHarness ::
  "(string \<Rightarrow> bool) \<Rightarrow> (string \<Rightarrow> bool) \<Rightarrow> string \<Rightarrow> string \<Rightarrow> SelectionExclusions \<Rightarrow> exclusion_problem option" where
  "checkHarness known valid mode harness exclusions =
     (if xBranches exclusions = [] \<and> xSessions exclusions = [] then None
      else if mode \<noteq> SelectionModeSelected then Some NotSelectedMode
      else if trim_space harness = [] then Some HarnessEmpty
      else if \<not> known harness then Some HarnessUnsupported
      else case checkSessions valid [] 0 (xSessions exclusions) of
             Some e \<Rightarrow> Some e
           | None \<Rightarrow> checkRows [] 0 (xBranches exclusions))"

fun checkHarnesses ::
  "(string \<Rightarrow> exclusion_problem option) \<Rightarrow> string list \<Rightarrow> selection_error option" where
  "checkHarnesses check [] = None"
| "checkHarnesses check (h # hs) =
     (case check h of Some e \<Rightarrow> Some (BadExclusions h e) | None \<Rightarrow> checkHarnesses check hs)"

definition harnessExclusions :: "SelectionConfig \<Rightarrow> string \<Rightarrow> SelectionExclusions" where
  "harnessExclusions sel h =
     (case map_of (scHarnesses sel) h of
        None \<Rightarrow> \<lparr> xBranches = [], xSessions = [] \<rparr>
      | Some s \<Rightarrow> shExclusions s)"

definition validateSelectionExclusions ::
  "(string \<Rightarrow> bool) \<Rightarrow> (string \<Rightarrow> bool) \<Rightarrow> SelectionConfig \<Rightarrow> selection_error option" where
  "validateSelectionExclusions known valid selection =
     checkHarnesses (\<lambda>h. checkHarness known valid (scMode selection) h (harnessExclusions selection h))
       (sort (map fst (scHarnesses selection)))"

definition ValidateSelection ::
  "(string \<Rightarrow> bool) \<Rightarrow> (string \<Rightarrow> bool) \<Rightarrow> SelectionConfig \<Rightarrow> selection_error option" where
  "ValidateSelection known valid selection =
     (if scMode selection \<noteq> [] \<and> \<not> selectionModeIsValid (scMode selection) then Some UnknownMode
      else if scDeprecatedProviders selection \<noteq> [] then Some ProvidersRenamed
      else validateSelectionExclusions known valid selection)"

section \<open>What the loops accept\<close>

definition good_branch :: "string \<Rightarrow> bool" where
  "good_branch b \<longleftrightarrow> b \<noteq> [] \<and> trim_space b = b \<and> invalidGitBranchReason b = None"

definition good_row :: "BranchExclusion \<Rightarrow> bool" where
  "good_row x \<longleftrightarrow> exactClonePath (bxClonePath x) = Some (bxClonePath x) \<and> bxBranches x \<noteq> [] \<and>
     (\<forall>b \<in> set (bxBranches x). good_branch b) \<and> distinct (bxBranches x)"

interpretation sessions: dup_checked_loop
  "checkSessions valid" "\<lambda>s. s" "\<lambda>s. s \<noteq> [] \<and> trim_space s = s \<and> valid s" for valid
  by unfold_locales (auto split: option.splits)

interpretation branches: dup_checked_loop "checkBranches row" "\<lambda>b. b" good_branch for row
  by unfold_locales (auto simp: good_branch_def split: option.splits)

interpretation rows: dup_checked_loop checkRows bxClonePath good_row
  by unfold_locales
    (auto simp: good_row_def exactClonePath_def branches.accepts_iff Let_def first_error_None_iff)

lemma checkHarnesses_None_iff: "checkHarnesses check hs = None \<longleftrightarrow> (\<forall>h \<in> set hs. check h = None)"
  by (induction hs) (auto split: option.splits)

definition good_exclusions ::
  "(string \<Rightarrow> bool) \<Rightarrow> (string \<Rightarrow> bool) \<Rightarrow> string \<Rightarrow> string \<Rightarrow> SelectionExclusions \<Rightarrow> bool" where
  "good_exclusions known valid mode h x \<longleftrightarrow>
     xBranches x = [] \<and> xSessions x = [] \<or>
     mode = SelectionModeSelected \<and> trim_space h \<noteq> [] \<and> known h \<and>
     (\<forall>s \<in> set (xSessions x). s \<noteq> [] \<and> trim_space s = s \<and> valid s) \<and> distinct (xSessions x) \<and>
     (\<forall>r \<in> set (xBranches x). good_row r) \<and> distinct (map bxClonePath (xBranches x))"

lemma checkHarness_None_iff:
  "checkHarness known valid mode h x = None \<longleftrightarrow> good_exclusions known valid mode h x"
  by (auto simp: checkHarness_def good_exclusions_def sessions.accepts_iff rows.accepts_iff
      first_error_None_iff)

lemma validated_harness:
  assumes "distinct (map fst (scHarnesses sel))"
  shows "validateSelectionExclusions known valid sel = None \<longleftrightarrow>
    (\<forall>(h, s) \<in> set (scHarnesses sel). good_exclusions known valid (scMode sel) h (shExclusions s))"
  using assms
  by (force simp: validateSelectionExclusions_def checkHarnesses_None_iff checkHarness_None_iff
      harnessExclusions_def)

text \<open>
  C36: What the validator accepts. A selection passes exactly when its mode is empty or
  known, the renamed key is absent, and every harness either has no exclusions or the mode
  is selected, the harness is a known one, the denied sessions are distinct, trimmed, valid
  identifiers, and the branch rows have distinct exact clone paths, each with a non-empty
  list of distinct, trimmed, valid branch names.
\<close>

theorem ValidateSelection_accepts_iff:
  assumes "distinct (map fst (scHarnesses sel))"
  shows "ValidateSelection known valid sel = None \<longleftrightarrow>
    (scMode sel = [] \<or> scMode sel \<in> {SelectionModeAll, SelectionModeSelected}) \<and>
    scDeprecatedProviders sel = [] \<and>
    (\<forall>(h, s) \<in> set (scHarnesses sel). good_exclusions known valid (scMode sel) h (shExclusions s))"
  using validated_harness [OF assms]
  by (auto simp: ValidateSelection_def selectionModeIsValid_def AllSelectionModes_def)

theorem ValidateSelection_accepts_iff_witness:
  "good_exclusions (\<lambda>h. h = ''codex'') (\<lambda>s. length s = 2) ''selected'' ''codex''
     \<lparr> xBranches = [\<lparr> bxClonePath = ''/w/app'', bxBranches = [''wip''] \<rparr>], xSessions = [''s2''] \<rparr>"
proof -
  have "ValidateSelection (\<lambda>h. h = ''codex'') (\<lambda>s. length s = 2) exampleConfig = None"
    by code_simp
  then show ?thesis
    using ValidateSelection_accepts_iff
      [OF example_config_distinct, of "\<lambda>h. h = ''codex''" "\<lambda>s. length s = 2"]
    by (simp add: exampleConfig_def)
qed

section \<open>Validated exclusions take effect\<close>

text \<open>
  After the exclusion loop, a path is a key exactly when some row has that exact path, and
  its set is the union of what those rows name.
\<close>

lemma addBranchExclusion_mono:
  assumes "map_of m k = Some bs"
  shows "\<exists>bs'. map_of (addBranchExclusion m x) k = Some bs' \<and> bs \<subseteq> bs'"
  using assms by (auto simp: addBranchExclusion_def Let_def update_conv' split: option.splits)

lemma foldl_addBranchExclusion_mono:
  "map_of m k = Some bs \<Longrightarrow> \<exists>bs'. map_of (foldl addBranchExclusion m xs) k = Some bs' \<and> bs \<subseteq> bs'"
proof (induction xs arbitrary: m bs)
  case Nil
  then show ?case by auto
next
  case (Cons x xs)
  obtain bs1 where "map_of (addBranchExclusion m x) k = Some bs1" "bs \<subseteq> bs1"
    using addBranchExclusion_mono [OF Cons.prems] by blast
  with Cons.IH show ?case by fastforce
qed

lemma addBranchExclusion_row:
  assumes "exactClonePath (beClonePath x) = Some k" and "b \<in> set (beBranches x)"
    and "trim_space b = b" and "b \<noteq> []"
  shows "\<exists>bs. map_of (addBranchExclusion m x) k = Some bs \<and> b \<in> bs"
proof -
  have "b \<in> set (map normalizeBranchForMatch (beBranches x))"
    using assms(2,3) by (force simp: normalizeBranchForMatch_def)
  with assms(1,4) show ?thesis by (simp add: addBranchExclusion_def Let_def update_conv')
qed

lemma foldl_addBranchExclusion_row:
  assumes "x \<in> set xs" and "exactClonePath (beClonePath x) = Some k" and "b \<in> set (beBranches x)"
    and "trim_space b = b" and "b \<noteq> []"
  shows "\<exists>bs. map_of (foldl addBranchExclusion m xs) k = Some bs \<and> b \<in> bs"
proof -
  from assms(1) obtain us vs where xs: "xs = us @ x # vs" by (auto dest: split_list)
  let ?m = "addBranchExclusion (foldl addBranchExclusion m us) x"
  obtain bs where "map_of ?m k = Some bs" "b \<in> bs"
    using addBranchExclusion_row [OF assms(2-5)] by blast
  with foldl_addBranchExclusion_mono [of ?m k bs vs] xs show ?thesis by auto
qed

text \<open>
  C35: Every validated denial is enforced. When a selection passes validation and compiles,
  each configured session denial and each configured branch denial excludes every candidate
  of that harness with that session, or with that clone path and branch, and such a
  candidate is never selected by stored-row matching or by discovery.
\<close>

theorem validated_exclusions_enforced:
  assumes "ValidateSelection known valid sel = None" and "distinct (map fst (scHarnesses sel))"
    and "CompileSelectionMatcher sel = Some m" and "(h, s) \<in> set (scHarnesses sel)"
    and "cHarness c = h"
    and "cSessionID c \<in> set (xSessions (shExclusions s)) \<or>
      (\<exists>x \<in> set (xBranches (shExclusions s)).
         cClonePath c = bxClonePath x \<and> cBranch c \<in> set (bxBranches x))"
  shows "ExcludesCandidate m c \<and> MatchBranchCandidate m c \<in> {None, Some BranchMatchNo} \<and>
    MatchDiscoveryCandidate m c auto \<in> {None, Some BranchMatchNo}"
proof -
  have "validateSelectionExclusions known valid sel = None"
    using assms(1) by (simp add: ValidateSelection_def split: if_splits)
  then have good: "good_exclusions known valid (scMode sel) h (shExclusions s)"
    using validated_harness [OF assms(2)] assms(4) by auto
  moreover have "xBranches (shExclusions s) \<noteq> [] \<or> xSessions (shExclusions s) \<noteq> []"
    using assms(6) by auto
  ultimately have mode: "scMode sel = SelectionModeSelected"
    and rows: "\<forall>r \<in> set (xBranches (shExclusions s)). good_row r"
    and sess: "\<forall>x \<in> set (xSessions (shExclusions s)). x \<noteq> []"
    by (auto simp: good_exclusions_def)
  have "map_of (scHarnesses sel) h = Some s" using assms(2,4) by simp
  then have lookup: "map_of m h = newHarnessMatcher (configInput (scMode sel) s)"
    using compile_Some_lookup [OF assms(2,3), of h] by simp
  have "newHarnessMatcher (configInput (scMode sel) s) \<noteq> None"
    using compile_None_iff [OF assms(2)] assms(3) \<open>map_of (scHarnesses sel) h = Some s\<close>
    by (auto simp: newHarnessMatcher_None_iff configInput_def)
  then obtain pm where pm: "newHarnessMatcher (configInput (scMode sel) s) = Some pm" by blast
  have "excludesCandidate pm c"
    using assms(6)
  proof
    assume "cSessionID c \<in> set (xSessions (shExclusions s))"
    then show ?thesis
      using newHarnessMatcher_SomeD(4) [OF pm] sess mode
      by (simp add: excludesCandidate_def configInput_def)
  next
    assume "\<exists>x \<in> set (xBranches (shExclusions s)). cClonePath c = bxClonePath x \<and> cBranch c \<in> set (bxBranches x)"
    then obtain x where x: "x \<in> set (xBranches (shExclusions s))" "cClonePath c = bxClonePath x"
      "cBranch c \<in> set (bxBranches x)" by blast
    with rows have "exactClonePath (cClonePath c) = Some (cClonePath c)"
      and b: "trim_space (cBranch c) = cBranch c" "cBranch c \<noteq> []"
      by (auto simp: good_row_def good_branch_def)
    moreover from this x obtain bs where "map_of (hmBranchExclusions pm) (cClonePath c) = Some bs" "cBranch c \<in> bs"
      using newHarnessMatcher_SomeD(3) [OF pm] mode
        foldl_addBranchExclusion_row [of "\<lparr> beClonePath = bxClonePath x, beBranches = bxBranches x \<rparr>"
          "hiBranchExclusions (configInput (scMode sel) s)" "cClonePath c" "cBranch c" "[]"]
      by (auto simp: configInput_def)
    ultimately show ?thesis
      by (simp add: excludesCandidate_def normalizeBranchForMatch_def)
  qed
  then have ex: "ExcludesCandidate m c" using lookup pm assms(5) by (simp add: ExcludesCandidate_def)
  have "map_option dMatch (decideCandidate m c policy) \<in> {None, Some BranchMatchNo}" for policy
    using decideCandidate_excluded [OF ex, of policy]
    by (cases "decideCandidate m c policy") (auto simp: decisionNo_def)
  with ex show ?thesis
    by (simp add: MatchBranchCandidate_def MatchDiscoveryCandidate_def MatchDiscoveryCandidateDecision_def)
qed

theorem validated_exclusions_enforced_witness:
  "ExcludesCandidate exampleMatcher (exampleCandidate\<lparr> cClonePath := ''/w/app'', cBranch := ''wip'' \<rparr>)"
proof -
  let ?c = "exampleCandidate\<lparr> cClonePath := ''/w/app'', cBranch := ''wip'' \<rparr>"
  let ?s = "snd (hd (scHarnesses exampleConfig))"
  have "ValidateSelection (\<lambda>h. h = ''codex'') (\<lambda>s. length s = 2) exampleConfig = None"
    by code_simp
  moreover have "(''codex'', ?s) \<in> set (scHarnesses exampleConfig)"
    by (simp add: exampleConfig_def)
  moreover have "\<exists>x \<in> set (xBranches (shExclusions ?s)).
      cClonePath ?c = bxClonePath x \<and> cBranch ?c \<in> set (bxBranches x)"
    by (simp add: exampleConfig_def)
  ultimately show ?thesis
    using validated_exclusions_enforced [of "\<lambda>h. h = ''codex''" "\<lambda>s. length s = 2" exampleConfig
        exampleMatcher "''codex''" ?s ?c False]
      example_config_distinct example_compiles by simp
qed

end
