(* ===== verification/Projection.thy ===== *)
theory Projection
  imports Selection
begin

text \<open>
  The projection of a saved selection onto the locally available projects,
  \<open>internal/selectionprojection\<close>: \<open>projection.go\<close> (cohort preparation and admission),
  \<open>cohort.go\<close> (multiplicities and location labels) and \<open>types.go\<close>.

  \<open>None\<close> is a panic of \<open>NormalizeRemoteForMatch\<close>. Go maps are association lists and
  set-valued maps are sets, as in \<open>Selection\<close>.
\<close>

section \<open>Data\<close>

record SessionCandidate =
  sSessionID :: string
  sBranch :: string
  sParentSessionID :: string
  sClonePath :: string
  sRepositoryCohortKey :: string

record ProjectCandidate =
  pParentProjectID :: string
  pHarness :: string
  pGitRemote :: string
  pProjectName :: string
  pClonePath :: string
  pRepositoryCohortKey :: string
  pDescendants :: "SessionCandidate list"

datatype ProjectAdmission =
    ProjectNotEffective | ProjectEffectiveWholeProject | ProjectEffectiveBranch
  | ProjectEffectiveExplicitSession | ProjectEffectiveNestedDescendant

text \<open>The declaration order of the constants, which \<open>moreSpecificAdmission\<close> compares.\<close>

primrec admissionRank :: "ProjectAdmission \<Rightarrow> nat" where
  "admissionRank ProjectNotEffective = 0"
| "admissionRank ProjectEffectiveWholeProject = 1"
| "admissionRank ProjectEffectiveBranch = 2"
| "admissionRank ProjectEffectiveExplicitSession = 3"
| "admissionRank ProjectEffectiveNestedDescendant = 4"

lemma admissionRank_inject [simp]: "admissionRank a = admissionRank b \<longleftrightarrow> a = b"
  by (cases a; cases b) simp_all

instantiation ProjectAdmission :: linorder
begin

definition less_eq_ProjectAdmission :: "ProjectAdmission \<Rightarrow> ProjectAdmission \<Rightarrow> bool" where
  "a \<le> b \<longleftrightarrow> admissionRank a \<le> admissionRank b"

definition less_ProjectAdmission :: "ProjectAdmission \<Rightarrow> ProjectAdmission \<Rightarrow> bool" where
  "a < b \<longleftrightarrow> admissionRank a < admissionRank b"

instance
  by standard (auto simp: less_eq_ProjectAdmission_def less_ProjectAdmission_def)

end

record EffectiveProject =
  epCandidate :: ProjectCandidate
  epAdmission :: ProjectAdmission
  epSelectedDescendantCount :: nat

datatype cohortIdentityKind =
    cohortIdentityRepositoryCohort | cohortIdentityPhysicalPath | cohortIdentityParentProject

record cohortIdentity =
  ciHarness :: string
  ciKind :: cohortIdentityKind
  ciValue :: string

record identityMultiplicity =
  imIdentities :: "cohortIdentity set"
  imUnproven :: bool

record preparedDescendant =
  pdDirect :: DiscoveryCandidate
  pdParent :: "DiscoveryCandidate option"

record preparedProject =
  ppCandidate :: ProjectCandidate
  ppProject :: DiscoveryCandidate
  ppDescendants :: "preparedDescendant list"

section \<open>Preparing the cohort\<close>

definition effectiveClonePath :: "ProjectCandidate \<Rightarrow> SessionCandidate \<Rightarrow> string" where
  "effectiveClonePath project descendant =
     (if sClonePath descendant \<noteq> [] then sClonePath descendant else pClonePath project)"

definition effectiveRepositoryCohortKey :: "ProjectCandidate \<Rightarrow> SessionCandidate \<Rightarrow> string" where
  "effectiveRepositoryCohortKey project descendant =
     (if sRepositoryCohortKey descendant \<noteq> [] then sRepositoryCohortKey descendant
      else pRepositoryCohortKey project)"

definition candidateIdentity :: "ProjectCandidate \<Rightarrow> string \<Rightarrow> string \<Rightarrow> cohortIdentity \<times> bool" where
  "candidateIdentity candidate clonePath repositoryCohortKey =
     (if repositoryCohortKey \<noteq> [] then
        (\<lparr> ciHarness = pHarness candidate, ciKind = cohortIdentityRepositoryCohort,
           ciValue = repositoryCohortKey \<rparr>, True)
      else if clonePath \<noteq> [] then
        (\<lparr> ciHarness = pHarness candidate, ciKind = cohortIdentityPhysicalPath,
           ciValue = clonePath \<rparr>, True)
      else
        (\<lparr> ciHarness = pHarness candidate, ciKind = cohortIdentityParentProject,
           ciValue = pParentProjectID candidate \<rparr>, False))"

type_synonym multiplicities = "(string \<times> identityMultiplicity) list"

definition recordIdentity :: "multiplicities \<Rightarrow> string \<Rightarrow> cohortIdentity \<Rightarrow> bool \<Rightarrow> multiplicities" where
  "recordIdentity ms normalized ident proven =
     (if normalized = [] then ms
      else
        let m = (case map_of ms normalized of
                   None \<Rightarrow> \<lparr> imIdentities = {}, imUnproven = False \<rparr>
                 | Some m \<Rightarrow> m)
        in AList.update normalized
             \<lparr> imIdentities = insert ident (imIdentities m),
               imUnproven = imUnproven m \<or> \<not> proven \<rparr> ms)"

definition recordCandidateIdentity ::
  "multiplicities \<times> multiplicities \<Rightarrow> ProjectCandidate \<times> string \<times> string \<Rightarrow>
   (multiplicities \<times> multiplicities) option" where
  "recordCandidateIdentity st ev =
     (case (st, ev) of ((remotes, names), (candidate, clonePath, key)) \<Rightarrow>
        let (ident, proven) = candidateIdentity candidate clonePath key
        in do {
          remote \<leftarrow> NormalizeRemoteForMatch (pGitRemote candidate);
          Some (recordIdentity remotes remote ident proven,
                recordIdentity names (NormalizeProjectNameForMatch (pProjectName candidate)) ident proven)
        })"

text \<open>The evidence the first loop of \<open>prepareCohort\<close> visits, in its order.\<close>

definition cohortEvidence :: "ProjectCandidate list \<Rightarrow> (ProjectCandidate \<times> string \<times> string) list" where
  "cohortEvidence candidates =
     concat (map (\<lambda>c. (c, pClonePath c, pRepositoryCohortKey c) #
                      map (\<lambda>d. (c, effectiveClonePath c d, effectiveRepositoryCohortKey c d)) (pDescendants c))
               candidates)"

definition explicitMultiplicity ::
  "string \<Rightarrow> string \<Rightarrow> multiplicities \<Rightarrow> DiscoveryIdentityMultiplicity" where
  "explicitMultiplicity raw normalized ms =
     (if trim_space raw = [] then DiscoveryIdentityUnique
      else case map_of ms normalized of
        None \<Rightarrow> DiscoveryIdentityAmbiguous
      | Some m \<Rightarrow>
          if normalized = [] \<or> imUnproven m \<or> card (imIdentities m) \<noteq> 1
          then DiscoveryIdentityAmbiguous else DiscoveryIdentityUnique)"

definition discoveryCandidate ::
  "ProjectCandidate \<Rightarrow> SessionCandidate \<Rightarrow> string \<Rightarrow> DiscoveryIdentityMultiplicity \<Rightarrow>
   DiscoveryIdentityMultiplicity \<Rightarrow> DiscoveryCandidate" where
  "discoveryCandidate project descendant clonePath remoteMultiplicity nameMultiplicity =
     \<lparr> cHarness = pHarness project, cGitRemote = pGitRemote project,
       cProjectName = pProjectName project, cClonePath = clonePath,
       cBranch = sBranch descendant, cSessionID = sSessionID descendant,
       cRemoteMultiplicity = remoteMultiplicity, cNameMultiplicity = nameMultiplicity \<rparr>"

definition noSession :: SessionCandidate where
  "noSession = \<lparr> sSessionID = [], sBranch = [], sParentSessionID = [], sClonePath = [],
                 sRepositoryCohortKey = [] \<rparr>"

definition prepareDescendant ::
  "ProjectCandidate \<Rightarrow> DiscoveryIdentityMultiplicity \<Rightarrow> DiscoveryIdentityMultiplicity \<Rightarrow>
   SessionCandidate \<Rightarrow> preparedDescendant" where
  "prepareDescendant candidate remote name descendant =
     (let direct = discoveryCandidate candidate descendant (effectiveClonePath candidate descendant) remote name
      in \<lparr> pdDirect = direct,
           pdParent = (if sParentSessionID descendant \<noteq> []
                       then Some (direct\<lparr> cSessionID := sParentSessionID descendant \<rparr>) else None) \<rparr>)"

definition prepareProject ::
  "multiplicities \<Rightarrow> multiplicities \<Rightarrow> ProjectCandidate \<Rightarrow> preparedProject option" where
  "prepareProject remotes names candidate = do {
     normalized \<leftarrow> NormalizeRemoteForMatch (pGitRemote candidate);
     let remote = explicitMultiplicity (pGitRemote candidate) normalized remotes;
         name = explicitMultiplicity (pProjectName candidate)
                  (NormalizeProjectNameForMatch (pProjectName candidate)) names
     in Some \<lparr> ppCandidate = candidate,
               ppProject = discoveryCandidate candidate noSession (pClonePath candidate) remote name,
               ppDescendants = map (prepareDescendant candidate remote name) (pDescendants candidate) \<rparr>
   }"

definition prepareCohort :: "ProjectCandidate list \<Rightarrow> preparedProject list option" where
  "prepareCohort candidates = do {
     (remotes, names) \<leftarrow> fold_opt recordCandidateIdentity ([], []) (cohortEvidence candidates);
     those (map (prepareProject remotes names) candidates)
   }"

section \<open>Admission\<close>

definition moreSpecificAdmission :: "ProjectAdmission \<Rightarrow> ProjectAdmission \<Rightarrow> ProjectAdmission" where
  "moreSpecificAdmission current candidate = (if candidate > current then candidate else current)"

definition explicitSessionSelected :: "SelectionMatcher \<Rightarrow> DiscoveryCandidate \<Rightarrow> bool option" where
  "explicitSessionSelected matcher candidate =
     (if cSessionID candidate = [] then Some False
      else
        let probe = candidate\<lparr> cGitRemote := [], cProjectName := [], cClonePath := [], cBranch := [],
                      cRemoteMultiplicity := DiscoveryIdentityUnique,
                      cNameMultiplicity := DiscoveryIdentityUnique \<rparr>
        in do {
          first \<leftarrow> MatchBranchCandidate matcher probe;
          if first \<noteq> BranchMatchYes then Some False
          else map_option (\<lambda>control. control \<noteq> BranchMatchYes)
                 (MatchBranchCandidate matcher (probe\<lparr> cSessionID := [] \<rparr>))
        })"

definition projectRuleAdmission :: "SelectionMatcher \<Rightarrow> DiscoveryCandidate \<Rightarrow> ProjectAdmission option" where
  "projectRuleAdmission matcher candidate = do {
     match \<leftarrow> MatchBranchCandidate matcher candidate;
     if match \<noteq> BranchMatchYes then Some ProjectNotEffective
     else do {
       decision \<leftarrow> MatchDiscoveryCandidateDecision matcher candidate False;
       Some (if dAdmitting decision = [] \<and> dRejecting decision = [] then ProjectEffectiveWholeProject
             else if list_ex (\<lambda>e. eBranches e = []) (dAdmitting decision) then ProjectEffectiveWholeProject
             else if list_ex (\<lambda>e. eBranches e = []) (dRejecting decision) then ProjectEffectiveWholeProject
             else ProjectEffectiveBranch)
     }
   }"

definition descendantAdmission :: "SelectionMatcher \<Rightarrow> preparedDescendant \<Rightarrow> ProjectAdmission option" where
  "descendantAdmission matcher descendant =
     (if ExcludesCandidate matcher (pdDirect descendant) then Some ProjectNotEffective
      else do {
        rule \<leftarrow> projectRuleAdmission matcher ((pdDirect descendant)\<lparr> cSessionID := [] \<rparr>);
        let admission = moreSpecificAdmission ProjectNotEffective rule in do {
          direct \<leftarrow> explicitSessionSelected matcher (pdDirect descendant);
          let admission = (if direct then moreSpecificAdmission admission ProjectEffectiveExplicitSession
                           else admission) in
          case pdParent descendant of
            None \<Rightarrow> Some admission
          | Some parent \<Rightarrow> do {
              nested \<leftarrow> explicitSessionSelected matcher parent;
              Some (if nested then moreSpecificAdmission admission ProjectEffectiveNestedDescendant
                    else admission)
            }
        }
      })"

record admissionState =
  asAdmission :: ProjectAdmission
  asAllDenied :: bool
  asSelected :: nat

definition admitDescendant ::
  "SelectionMatcher \<Rightarrow> admissionState \<Rightarrow> preparedDescendant \<Rightarrow> admissionState option" where
  "admitDescendant matcher st descendant =
     (let denied = (if \<not> ExcludesCandidate matcher (pdDirect descendant) then False else asAllDenied st)
      in do {
        admission \<leftarrow> descendantAdmission matcher descendant;
        Some (if admission = ProjectNotEffective then st\<lparr> asAllDenied := denied \<rparr>
              else \<lparr> asAdmission = moreSpecificAdmission (asAdmission st) admission,
                     asAllDenied = denied, asSelected = asSelected st + 1 \<rparr>)
      })"

definition projectAdmission :: "SelectionMatcher \<Rightarrow> preparedProject \<Rightarrow> (ProjectAdmission \<times> nat) option" where
  "projectAdmission matcher project = do {
     st \<leftarrow> fold_opt (admitDescendant matcher)
             \<lparr> asAdmission = ProjectNotEffective, asAllDenied = (ppDescendants project \<noteq> []), asSelected = 0 \<rparr>
             (ppDescendants project);
     if asAllDenied st then Some (asAdmission st, asSelected st)
     else do {
       rule \<leftarrow> projectRuleAdmission matcher (ppProject project);
       Some (if rule = ProjectEffectiveWholeProject
             then moreSpecificAdmission (asAdmission st) ProjectEffectiveWholeProject else asAdmission st,
             asSelected st)
     }
   }"

definition effectiveProject :: "SelectionMatcher \<Rightarrow> preparedProject \<Rightarrow> EffectiveProject list option" where
  "effectiveProject matcher candidate = do {
     (admission, selected) \<leftarrow> projectAdmission matcher candidate;
     Some (if admission = ProjectNotEffective then []
           else [\<lparr> epCandidate = ppCandidate candidate, epAdmission = admission,
                   epSelectedDescendantCount = selected \<rparr>])
   }"

text \<open>The matcher argument is a Go pointer: \<open>None\<close> is nil.\<close>

definition effectiveProjects ::
  "SelectionMatcher option \<Rightarrow> SelectionConfig \<Rightarrow> ProjectCandidate list \<Rightarrow> EffectiveProject list option" where
  "effectiveProjects matcher selection candidates =
     (if candidates = [] then Some []
      else if scMode selection = SelectionModeAll then
        Some (map (\<lambda>c. \<lparr> epCandidate = c, epAdmission = ProjectEffectiveWholeProject,
                         epSelectedDescendantCount = length (pDescendants c) \<rparr>) candidates)
      else case matcher of
        None \<Rightarrow> Some []
      | Some m \<Rightarrow>
          if scMode selection \<noteq> SelectionModeSelected then Some []
          else do {
            prepared \<leftarrow> prepareCohort candidates;
            results \<leftarrow> those (map (effectiveProject m) prepared);
            Some (concat results)
          })"

definition EffectiveProjects ::
  "SelectionMatcher option \<Rightarrow> SelectionConfig \<Rightarrow> ProjectCandidate list \<Rightarrow> EffectiveProject list option" where
  "EffectiveProjects matcher selection candidates = effectiveProjects matcher selection candidates"

section \<open>A cohort to evaluate\<close>

text \<open>Two clones of one repository; the second one has a denied session of its own.\<close>

definition exampleSession :: "string \<Rightarrow> string \<Rightarrow> SessionCandidate" where
  "exampleSession sid branch =
     \<lparr> sSessionID = sid, sBranch = branch, sParentSessionID = [], sClonePath = [],
       sRepositoryCohortKey = [] \<rparr>"

definition exampleProject :: "string \<Rightarrow> SessionCandidate list \<Rightarrow> ProjectCandidate" where
  "exampleProject path ds =
     \<lparr> pParentProjectID = ''p'', pHarness = ''codex'', pGitRemote = ''github.com/acme/app'',
       pProjectName = ''app'', pClonePath = path, pRepositoryCohortKey = [], pDescendants = ds \<rparr>"

definition exampleCohort :: "ProjectCandidate list" where
  "exampleCohort = [exampleProject ''/w/one'' [exampleSession ''s1'' ''main''],
                    exampleProject ''/w/two'' [exampleSession ''s2'' ''main'']]"

lemma example_cohort_prepared:
  obtains prepared where "prepareCohort exampleCohort = Some prepared" "length prepared = 2"
proof -
  have "map_option length (prepareCohort exampleCohort) = Some 2" by code_simp
  then show thesis using that by auto
qed

section \<open>Multiplicity\<close>

text \<open>The identities recorded for a key by a list of evidence, read off directly.\<close>

definition keyedIdentities ::
  "('ev \<Rightarrow> string) \<Rightarrow> ('ev \<Rightarrow> cohortIdentity \<times> bool) \<Rightarrow> 'ev list \<Rightarrow> string \<Rightarrow> (cohortIdentity \<times> bool) set" where
  "keyedIdentities key ident evs n = ident ` {ev \<in> set evs. key ev = n}"

definition records ::
  "('ev \<Rightarrow> string) \<Rightarrow> ('ev \<Rightarrow> cohortIdentity \<times> bool) \<Rightarrow> 'ev list \<Rightarrow> multiplicities \<Rightarrow> bool" where
  "records key ident evs ms \<longleftrightarrow>
     (\<forall>n. n \<noteq> [] \<longrightarrow> map_of ms n =
        (let E = keyedIdentities key ident evs n
         in if E = {} then None
            else Some \<lparr> imIdentities = fst ` E, imUnproven = (\<exists>e \<in> E. \<not> snd e) \<rparr>))"

lemma keyedIdentities_snoc:
  "keyedIdentities key ident (evs @ [ev]) n =
     (if key ev = n then insert (ident ev) (keyedIdentities key ident evs n) else keyedIdentities key ident evs n)"
  by (auto simp: keyedIdentities_def)

lemma records_Nil: "records key ident [] []"
  by (simp add: records_def keyedIdentities_def)

lemma records_snoc:
  assumes "records key ident evs ms"
  shows "records key ident (evs @ [ev]) (recordIdentity ms (key ev) (fst (ident ev)) (snd (ident ev)))"
  using assms
  by (auto simp: records_def recordIdentity_def keyedIdentities_snoc update_conv' Let_def
      split: option.splits if_splits)

lemma singleton_card_iff: "a \<in> S \<Longrightarrow> card S = 1 \<longleftrightarrow> S = {a}"
  by (auto simp: card_1_singleton_iff)

lemma proven_singleton_iff:
  assumes "e \<in> E"
  shows "(\<forall>x \<in> E. snd x) \<and> fst ` E = {fst e} \<longleftrightarrow> snd e \<and> E = {e}"
proof
  assume A: "(\<forall>x \<in> E. snd x) \<and> fst ` E = {fst e}"
  have "x = e" if "x \<in> E" for x
  proof (rule prod_eqI)
    show "fst x = fst e" using that A by blast
    show "snd x = snd e" using that A assms by blast
  qed
  with A assms show "snd e \<and> E = {e}" by blast
qed auto

lemma all_same_proven:
  assumes "ev \<in> A" and "key ev = k"
  shows "snd (f ev) \<and> (\<forall>e \<in> A. key e = k \<longrightarrow> f e = f ev) \<longleftrightarrow>
    (\<exists>i. \<forall>e \<in> A. key e = k \<longrightarrow> f e = (i, True))"
proof
  assume L: "snd (f ev) \<and> (\<forall>e \<in> A. key e = k \<longrightarrow> f e = f ev)"
  then have "f ev = (fst (f ev), True)" by (simp add: prod_eq_iff)
  with L show "\<exists>i. \<forall>e \<in> A. key e = k \<longrightarrow> f e = (i, True)"
    by (intro exI [of _ "fst (f ev)"]) simp
next
  assume "\<exists>i. \<forall>e \<in> A. key e = k \<longrightarrow> f e = (i, True)"
  then obtain i where i: "\<forall>e \<in> A. key e = k \<longrightarrow> f e = (i, True)" ..
  with assms have "f ev = (i, True)" by blast
  with i show "snd (f ev) \<and> (\<forall>e \<in> A. key e = k \<longrightarrow> f e = f ev)" by simp
qed

lemma explicitMultiplicity_iff:
  assumes "records key ident evs ms" and "ev \<in> set evs" and "key ev = n"
  shows "explicitMultiplicity raw n ms = DiscoveryIdentityUnique \<longleftrightarrow>
    trim_space raw = [] \<or> n \<noteq> [] \<and> snd (ident ev) \<and> (\<forall>e \<in> set evs. key e = n \<longrightarrow> ident e = ident ev)"
proof (cases "n = [] \<or> trim_space raw = []")
  case True
  then show ?thesis by (auto simp: explicitMultiplicity_def split: option.splits)
next
  case False
  let ?E = "keyedIdentities key ident evs n"
  have mem: "ident ev \<in> ?E" using assms(2,3) by (auto simp: keyedIdentities_def)
  have fin: "finite ?E" by (simp add: keyedIdentities_def)
  have m: "map_of ms n = Some \<lparr> imIdentities = fst ` ?E, imUnproven = (\<exists>e \<in> ?E. \<not> snd e) \<rparr>"
    using assms(1) False mem by (auto simp: records_def Let_def)
  have one: "card (fst ` ?E) = 1 \<longleftrightarrow> fst ` ?E = {fst (ident ev)}"
    using singleton_card_iff [OF imageI [OF mem]] .
  have "(\<forall>e \<in> ?E. snd e) \<and> fst ` ?E = {fst (ident ev)} \<longleftrightarrow> snd (ident ev) \<and> ?E = {ident ev}"
    using mem by (rule proven_singleton_iff)
  moreover have "?E = {ident ev} \<longleftrightarrow> (\<forall>e \<in> set evs. key e = n \<longrightarrow> ident e = ident ev)"
    using mem by (auto simp: keyedIdentities_def)
  ultimately show ?thesis
    using False m one by (auto simp: explicitMultiplicity_def)
qed

definition evRemote :: "ProjectCandidate \<times> string \<times> string \<Rightarrow> string" where
  "evRemote ev = (case NormalizeRemoteForMatch (pGitRemote (fst ev)) of None \<Rightarrow> [] | Some n \<Rightarrow> n)"

definition evName :: "ProjectCandidate \<times> string \<times> string \<Rightarrow> string" where
  "evName ev = NormalizeProjectNameForMatch (pProjectName (fst ev))"

definition evIdentity :: "ProjectCandidate \<times> string \<times> string \<Rightarrow> cohortIdentity \<times> bool" where
  "evIdentity ev = (case ev of (c, path, key) \<Rightarrow> candidateIdentity c path key)"

lemma recordCandidateIdentity_Some:
  assumes "recordCandidateIdentity (R, N) ev = Some (R', N')"
  shows "R' = recordIdentity R (evRemote ev) (fst (evIdentity ev)) (snd (evIdentity ev))"
    and "N' = recordIdentity N (evName ev) (fst (evIdentity ev)) (snd (evIdentity ev))"
  using assms
  by (cases ev; auto simp: recordCandidateIdentity_def evRemote_def evName_def evIdentity_def
      bind_eq_Some_conv split: prod.splits)+

lemma fold_records:
  assumes "fold_opt recordCandidateIdentity ([], []) evs = Some (R, N)"
  shows "records evRemote evIdentity evs R \<and> records evName evIdentity evs N"
proof -
  let ?I = "\<lambda>evs st. records evRemote evIdentity evs (fst st) \<and> records evName evIdentity evs (snd st)"
  have "?I evs (R, N)"
    using assms
  proof (rule fold_opt_invariant [where I = ?I])
    fix evs1 ev st st'
    assume "?I evs1 st" and "recordCandidateIdentity st ev = Some st'"
    then show "?I (evs1 @ [ev]) st'"
      by (cases st; cases st') (auto dest: recordCandidateIdentity_Some intro!: records_snoc)
  qed (simp add: records_Nil)
  then show ?thesis by simp
qed

lemma candidate_in_evidence:
  "c \<in> set cs \<Longrightarrow> (c, pClonePath c, pRepositoryCohortKey c) \<in> set (cohortEvidence cs)"
  by (auto simp: cohortEvidence_def)

lemma prepareCohort_SomeD:
  assumes "prepareCohort cs = Some prepared"
  obtains R N where "fold_opt recordCandidateIdentity ([], []) (cohortEvidence cs) = Some (R, N)"
    and "list_all2 (\<lambda>c p. prepareProject R N c = Some p) cs prepared"
  using assms by (auto simp: prepareCohort_def bind_eq_Some_conv dest: those_map_SomeD)

text \<open>
  C37: Uniqueness is proved over the whole cohort. In a prepared cohort, a candidate's
  remote counts as unique exactly when it is blank or its normalised form is not empty and
  every piece of evidence in the cohort with that remote, of this or any other project and
  of every descendant session, carries one and the same proven identity. The name follows
  the same rule, and every descendant inherits both.
\<close>

theorem prepareCohort_multiplicity:
  assumes "prepareCohort cs = Some prepared" and "i < length cs"
  shows "ppCandidate (prepared ! i) = cs ! i \<and>
    (\<forall>d \<in> set (ppDescendants (prepared ! i)).
       cRemoteMultiplicity (pdDirect d) = cRemoteMultiplicity (ppProject (prepared ! i)) \<and>
       cNameMultiplicity (pdDirect d) = cNameMultiplicity (ppProject (prepared ! i))) \<and>
    (cRemoteMultiplicity (ppProject (prepared ! i)) = DiscoveryIdentityUnique \<longleftrightarrow>
       trim_space (pGitRemote (cs ! i)) = [] \<or>
       (\<exists>n ident. NormalizeRemoteForMatch (pGitRemote (cs ! i)) = Some n \<and> n \<noteq> [] \<and>
          (\<forall>ev \<in> set (cohortEvidence cs). evRemote ev = n \<longrightarrow> evIdentity ev = (ident, True)))) \<and>
    (cNameMultiplicity (ppProject (prepared ! i)) = DiscoveryIdentityUnique \<longleftrightarrow>
       trim_space (pProjectName (cs ! i)) = [] \<or>
       NormalizeProjectNameForMatch (pProjectName (cs ! i)) \<noteq> [] \<and>
       (\<exists>ident. \<forall>ev \<in> set (cohortEvidence cs).
          evName ev = NormalizeProjectNameForMatch (pProjectName (cs ! i)) \<longrightarrow> evIdentity ev = (ident, True)))"
proof -
  obtain R N where fold: "fold_opt recordCandidateIdentity ([], []) (cohortEvidence cs) = Some (R, N)"
    and all: "list_all2 (\<lambda>c p. prepareProject R N c = Some p) cs prepared"
    using assms(1) by (rule prepareCohort_SomeD)
  let ?c = "cs ! i" and ?p = "prepared ! i"
  let ?ev = "(?c, pClonePath ?c, pRepositoryCohortKey ?c)"
  from all assms(2) have "prepareProject R N ?c = Some ?p" by (rule list_all2_nthD)
  then obtain n where n: "NormalizeRemoteForMatch (pGitRemote ?c) = Some n"
    and p: "?p = \<lparr> ppCandidate = ?c,
        ppProject = discoveryCandidate ?c noSession (pClonePath ?c)
          (explicitMultiplicity (pGitRemote ?c) n R)
          (explicitMultiplicity (pProjectName ?c) (NormalizeProjectNameForMatch (pProjectName ?c)) N),
        ppDescendants = map (prepareDescendant ?c (explicitMultiplicity (pGitRemote ?c) n R)
          (explicitMultiplicity (pProjectName ?c) (NormalizeProjectNameForMatch (pProjectName ?c)) N))
          (pDescendants ?c) \<rparr>"
    by (auto simp: prepareProject_def bind_eq_Some_conv Let_def)
  have ev: "?ev \<in> set (cohortEvidence cs)" using assms(2) by (intro candidate_in_evidence) simp
  have keys: "evRemote ?ev = n" "evName ?ev = NormalizeProjectNameForMatch (pProjectName ?c)"
    using n by (simp_all add: evRemote_def evName_def)
  note recs = fold_records [OF fold]
  have same: "snd (evIdentity ?ev) \<and> (\<forall>e \<in> set (cohortEvidence cs). key e = k \<longrightarrow> evIdentity e = evIdentity ?ev)
      \<longleftrightarrow> (\<exists>ident. \<forall>e \<in> set (cohortEvidence cs). key e = k \<longrightarrow> evIdentity e = (ident, True))"
    if "key ?ev = k" for key :: "_ \<Rightarrow> string" and k
    using ev that by (rule all_same_proven)
  have r: "explicitMultiplicity (pGitRemote ?c) n R = DiscoveryIdentityUnique \<longleftrightarrow>
      trim_space (pGitRemote ?c) = [] \<or> n \<noteq> [] \<and>
      (\<exists>ident. \<forall>e \<in> set (cohortEvidence cs). evRemote e = n \<longrightarrow> evIdentity e = (ident, True))"
    unfolding explicitMultiplicity_iff [OF conjunct1 [OF recs] ev keys(1)] same [of evRemote, OF keys(1)] ..
  have nm: "explicitMultiplicity (pProjectName ?c) (NormalizeProjectNameForMatch (pProjectName ?c)) N =
        DiscoveryIdentityUnique \<longleftrightarrow>
      trim_space (pProjectName ?c) = [] \<or> NormalizeProjectNameForMatch (pProjectName ?c) \<noteq> [] \<and>
      (\<exists>ident. \<forall>e \<in> set (cohortEvidence cs).
         evName e = NormalizeProjectNameForMatch (pProjectName ?c) \<longrightarrow> evIdentity e = (ident, True))"
    unfolding explicitMultiplicity_iff [OF conjunct2 [OF recs] ev keys(2)] same [of evName, OF keys(2)] ..
  have fields: "ppCandidate ?p = ?c"
    "cRemoteMultiplicity (ppProject ?p) = explicitMultiplicity (pGitRemote ?c) n R"
    "cNameMultiplicity (ppProject ?p) =
       explicitMultiplicity (pProjectName ?c) (NormalizeProjectNameForMatch (pProjectName ?c)) N"
    by (simp_all add: p discoveryCandidate_def)
  have "\<forall>d \<in> set (ppDescendants ?p). cRemoteMultiplicity (pdDirect d) = cRemoteMultiplicity (ppProject ?p) \<and>
      cNameMultiplicity (pdDirect d) = cNameMultiplicity (ppProject ?p)"
    by (simp add: p discoveryCandidate_def prepareDescendant_def Let_def)
  then show ?thesis unfolding fields r nm using n by simp
qed

theorem prepareCohort_multiplicity_witness:
  "\<exists>prepared. prepareCohort exampleCohort = Some prepared \<and>
     cRemoteMultiplicity (ppProject (prepared ! 0)) \<noteq> DiscoveryIdentityUnique"
proof -
  obtain prepared where p: "prepareCohort exampleCohort = Some prepared"
    using example_cohort_prepared by blast
  have "0 < length exampleCohort" by (simp add: exampleCohort_def)
  note fact = prepareCohort_multiplicity [OF p this]
  let ?e1 = "(exampleCohort ! 0, ''/w/one'', [])" and ?e2 = "(exampleCohort ! 1, ''/w/two'', [])"
  have n: "NormalizeRemoteForMatch (pGitRemote (exampleCohort ! 0)) = Some ''github.com/acme/app''"
    and "trim_space (pGitRemote (exampleCohort ! 0)) \<noteq> []"
    by code_simp+
  moreover have "?e1 \<in> set (cohortEvidence exampleCohort)" "?e2 \<in> set (cohortEvidence exampleCohort)"
    by (simp_all add: cohortEvidence_def exampleCohort_def exampleProject_def)
  moreover have "evRemote ?e1 = ''github.com/acme/app''" "evRemote ?e2 = ''github.com/acme/app''"
    by code_simp+
  moreover have "evIdentity ?e1 \<noteq> evIdentity ?e2" by code_simp
  ultimately have "cRemoteMultiplicity (ppProject (prepared ! 0)) \<noteq> DiscoveryIdentityUnique"
    using fact by (metis option.inject)
  with p show ?thesis by blast
qed

section \<open>Admission of descendants\<close>

lemma matchingProjects_no_evidence:
  assumes "cClonePath c = []" and "cGitRemote c = []" and "cProjectName c = []"
  shows "matchingProjects projects c = Some []"
proof -
  have "NormalizeRemoteForMatch [] = Some []" by (simp add: NormalizeRemoteForMatch_def)
  moreover have "NormalizeProjectNameForMatch [] = []" by (simp add: NormalizeProjectNameForMatch_def)
  ultimately show ?thesis using assms by (simp add: matchingProjects_def)
qed

lemma excludesCandidate_pathless:
  "cClonePath c = [] \<Longrightarrow>
   excludesCandidate pm c \<longleftrightarrow> cSessionID c \<noteq> [] \<and> cSessionID c \<in> hmSessionExclusions pm"
  by (auto simp: excludesCandidate_def exactClonePath_def)

lemma MatchBranchCandidate_no_evidence:
  assumes "cClonePath c = []" and "cGitRemote c = []" and "cProjectName c = []"
    and "map_of m (cHarness c) = Some pm"
  shows "MatchBranchCandidate m c = Some
    (if \<not> (cSessionID c \<noteq> [] \<and> cSessionID c \<in> hmSessionExclusions pm) \<and>
        (hmProjects pm = [] \<and> hmSessions pm = {} \<or> cSessionID c \<in> hmSessions pm)
     then BranchMatchYes else BranchMatchNo)"
proof -
  note dec = decideCandidate_Some [of m c pm storedPolicy, OF assms(4)]
    and ex = excludesCandidate_pathless [OF assms(1), of pm]
  consider "hmProjects pm = []" "hmSessions pm = {}" | "cSessionID c \<in> hmSessions pm"
    | "hmProjects pm \<noteq> [] \<or> hmSessions pm \<noteq> {}" "cSessionID c \<notin> hmSessions pm"
    by blast
  then show ?thesis
  proof cases
    case 3
    then have "\<not> (hmProjects pm = [] \<and> hmSessions pm = {})" by blast
    with 3(2) show ?thesis
      unfolding MatchBranchCandidate_def dec positiveDecision_projects [OF 3]
        matchingProjects_no_evidence [OF assms(1-3)]
      by (simp add: decisionNo_def)
  qed (simp_all add: MatchBranchCandidate_def dec ex positiveDecision_cases decisionNo_def)
qed

text \<open>
  When a session counts as explicitly selected. The two-probe test of the projection
  always returns, and it answers yes exactly when the session's harness lists that
  non-empty session, does not deny it, and does not list the empty session: an unrestricted
  harness is never mistaken for an explicit entry, and one empty entry hides them all.
\<close>

theorem explicitSessionSelected_iff:
  "explicitSessionSelected m c = Some (cSessionID c \<noteq> [] \<and>
     (\<exists>pm. map_of m (cHarness c) = Some pm \<and> cSessionID c \<in> hmSessions pm \<and>
        [] \<notin> hmSessions pm \<and> cSessionID c \<notin> hmSessionExclusions pm))"
proof (cases "map_of m (cHarness c)")
  case None
  then show ?thesis
    by (simp add: explicitSessionSelected_def MatchBranchCandidate_def decideCandidate_None decisionNo_def)
next
  case (Some pm)
  show ?thesis
  proof (cases "cSessionID c = []")
    case True
    then show ?thesis by (simp add: explicitSessionSelected_def)
  next
    case False
    let ?p = "c\<lparr> cGitRemote := [], cProjectName := [], cClonePath := [], cBranch := [],
      cRemoteMultiplicity := DiscoveryIdentityUnique, cNameMultiplicity := DiscoveryIdentityUnique \<rparr>"
    have first: "MatchBranchCandidate m ?p = Some
      (if cSessionID c \<notin> hmSessionExclusions pm \<and>
          (hmProjects pm = [] \<and> hmSessions pm = {} \<or> cSessionID c \<in> hmSessions pm)
       then BranchMatchYes else BranchMatchNo)"
      using MatchBranchCandidate_no_evidence [of ?p m pm] Some False by simp
    have control: "MatchBranchCandidate m (?p\<lparr> cSessionID := [] \<rparr>) = Some
      (if hmProjects pm = [] \<and> hmSessions pm = {} \<or> [] \<in> hmSessions pm
       then BranchMatchYes else BranchMatchNo)"
      using MatchBranchCandidate_no_evidence [of "?p\<lparr> cSessionID := [] \<rparr>" m pm] Some by simp
    show ?thesis
      using False Some unfolding explicitSessionSelected_def Let_def first control by auto
  qed
qed

lemma descendantAdmission_denied:
  "ExcludesCandidate m (pdDirect d) \<Longrightarrow> descendantAdmission m d = Some ProjectNotEffective"
  by (simp add: descendantAdmission_def)

lemma moreSpecificAdmission_max: "moreSpecificAdmission a b = max a b"
  by (auto simp: moreSpecificAdmission_def max_def)

lemma ProjectNotEffective_least [simp]: "ProjectNotEffective \<le> a"
  by (cases a) (simp_all add: less_eq_ProjectAdmission_def)

lemma moreSpecificAdmission_NotEffective [simp]:
  "moreSpecificAdmission a b = ProjectNotEffective \<longleftrightarrow> a = ProjectNotEffective \<and> b = ProjectNotEffective"
  by (metis ProjectNotEffective_least max.absorb2 max.cobounded1 moreSpecificAdmission_max order_antisym
      max.idem max.commute)

definition undenied :: "SelectionMatcher \<Rightarrow> preparedDescendant list \<Rightarrow> preparedDescendant list" where
  "undenied m ds = filter (\<lambda>d. \<not> ExcludesCandidate m (pdDirect d)) ds"

definition admissionInv ::
  "SelectionMatcher \<Rightarrow> bool \<Rightarrow> preparedDescendant list \<Rightarrow> admissionState \<Rightarrow> bool" where
  "admissionInv m start ds st \<longleftrightarrow>
     asSelected st \<le> length (undenied m ds) \<and>
     (asAllDenied st \<longleftrightarrow> start \<and> undenied m ds = []) \<and>
     (asAdmission st = ProjectNotEffective \<longleftrightarrow> asSelected st = 0)"

lemma admissionInv_step:
  assumes "admissionInv m start ds st" and "admitDescendant m st d = Some st'"
  shows "admissionInv m start (ds @ [d]) st'"
proof (cases "ExcludesCandidate m (pdDirect d)")
  case True
  with assms show ?thesis
    by (auto simp: admitDescendant_def descendantAdmission_denied admissionInv_def undenied_def)
next
  case False
  from assms(2) obtain a where "st' = (if a = ProjectNotEffective then st\<lparr> asAllDenied := False \<rparr>
      else \<lparr> asAdmission = moreSpecificAdmission (asAdmission st) a, asAllDenied = False,
             asSelected = asSelected st + 1 \<rparr>)"
    using False by (auto simp: admitDescendant_def bind_eq_Some_conv)
  with assms(1) False show ?thesis by (auto simp: admissionInv_def undenied_def)
qed

lemma admission_fold:
  assumes "fold_opt (admitDescendant m) \<lparr> asAdmission = ProjectNotEffective,
      asAllDenied = start, asSelected = 0 \<rparr> ds = Some st"
  shows "admissionInv m start ds st"
  using assms
proof (rule fold_opt_invariant [where I = "admissionInv m start"])
  show "admissionInv m start [] \<lparr> asAdmission = ProjectNotEffective, asAllDenied = start, asSelected = 0 \<rparr>"
    by (simp add: admissionInv_def undenied_def)
qed (rule admissionInv_step)

text \<open>
  A denied session never counts. The number of selected descendants of a project is at
  most the number of its descendants that are not exactly denied, and a project all of
  whose available descendants are denied is not effective, whatever its own rule says.
\<close>

theorem projectAdmission_denied:
  assumes "projectAdmission m p = Some (a, k)"
  shows "k \<le> length (undenied m (ppDescendants p)) \<and>
    (0 < k \<longrightarrow> a \<noteq> ProjectNotEffective) \<and>
    (ppDescendants p \<noteq> [] \<and> undenied m (ppDescendants p) = [] \<longrightarrow> a = ProjectNotEffective \<and> k = 0)"
proof -
  obtain st where fold: "fold_opt (admitDescendant m) \<lparr> asAdmission = ProjectNotEffective,
      asAllDenied = (ppDescendants p \<noteq> []), asSelected = 0 \<rparr> (ppDescendants p) = Some st"
    and a: "asAllDenied st \<Longrightarrow> a = asAdmission st" and k: "k = asSelected st"
    and keep: "asAdmission st \<noteq> ProjectNotEffective \<Longrightarrow> a \<noteq> ProjectNotEffective"
    using assms by (auto simp: projectAdmission_def bind_eq_Some_conv split: if_splits)
  have "admissionInv m (ppDescendants p \<noteq> []) (ppDescendants p) st"
    using fold by (rule admission_fold)
  with a k keep show ?thesis by (auto simp: admissionInv_def)
qed

theorem projectAdmission_denied_witness:
  "\<exists>prepared. prepareCohort exampleCohort = Some prepared \<and>
     projectAdmission exampleMatcher (prepared ! 1) = Some (ProjectNotEffective, 0)"
proof -
  obtain prepared where p: "prepareCohort exampleCohort = Some prepared"
    using example_cohort_prepared by blast
  have "map_option (\<lambda>ps. projectAdmission exampleMatcher (ps ! 1) \<noteq> None) (prepareCohort exampleCohort) = Some True"
    and "map_option (\<lambda>ps. ppDescendants (ps ! 1) \<noteq> [] \<and> undenied exampleMatcher (ppDescendants (ps ! 1)) = [])
      (prepareCohort exampleCohort) = Some True"
    by code_simp+
  then obtain a k where "projectAdmission exampleMatcher (prepared ! 1) = Some (a, k)"
    and "ppDescendants (prepared ! 1) \<noteq> []" "undenied exampleMatcher (ppDescendants (prepared ! 1)) = []"
    using p by auto
  with projectAdmission_denied [of exampleMatcher "prepared ! 1" a k] p show ?thesis by auto
qed

lemma effectiveProject_SomeD:
  assumes "effectiveProject m p = Some es"
  shows "es = [] \<or> (\<exists>a k. es = [\<lparr> epCandidate = ppCandidate p, epAdmission = a,
      epSelectedDescendantCount = k \<rparr>] \<and> a \<noteq> ProjectNotEffective \<and> projectAdmission m p = Some (a, k))"
  using assms by (auto simp: effectiveProject_def bind_eq_Some_conv split: if_splits)

lemma effective_fold:
  assumes "list_all2 (\<lambda>p es. effectiveProject m p = Some es) ps ess"
  shows "subseq (map epCandidate (concat ess)) (map ppCandidate ps) \<and>
    (\<forall>e \<in> set (concat ess). epAdmission e \<noteq> ProjectNotEffective \<and>
      (\<exists>p \<in> set ps. ppCandidate p = epCandidate e \<and>
         projectAdmission m p = Some (epAdmission e, epSelectedDescendantCount e)))"
  using assms
proof (induction rule: list_all2_induct)
  case (Cons p ps es ess)
  have "subseq (map epCandidate (es @ concat ess)) (ppCandidate p # map ppCandidate ps)"
    using effectiveProject_SomeD [OF Cons(1)] Cons.IH by auto
  with effectiveProject_SomeD [OF Cons(1)] Cons.IH show ?case by auto
qed simp

lemma prepareCohort_candidates:
  assumes "prepareCohort cs = Some prepared"
  shows "map ppCandidate prepared = cs"
proof -
  obtain R N where "list_all2 (\<lambda>c p. prepareProject R N c = Some p) cs prepared"
    using assms by (rule prepareCohort_SomeD)
  then show ?thesis
    by (induction rule: list_all2_induct) (auto simp: prepareProject_def bind_eq_Some_conv Let_def)
qed

text \<open>
  What the projection returns. Mode all returns every candidate whole. In selected mode
  without a matcher, and in any other mode, nothing is effective. In selected mode the
  result is a subsequence of the candidates in their order, and each returned project has
  the admission and count that the matcher gives its prepared form, never not-effective.
\<close>

theorem effectiveProjects_result:
  assumes "effectiveProjects matcher sel cs = Some es"
  shows "(scMode sel = SelectionModeAll \<longrightarrow>
      map epCandidate es = cs \<and> (\<forall>e \<in> set es. epAdmission e = ProjectEffectiveWholeProject \<and>
        epSelectedDescendantCount e = length (pDescendants (epCandidate e)))) \<and>
    (scMode sel \<noteq> SelectionModeAll \<and> (matcher = None \<or> scMode sel \<noteq> SelectionModeSelected) \<longrightarrow> es = []) \<and>
    subseq (map epCandidate es) cs \<and>
    (\<forall>m. scMode sel = SelectionModeSelected \<and> matcher = Some m \<longrightarrow>
      (\<forall>e \<in> set es. epAdmission e \<noteq> ProjectNotEffective \<and>
        (\<exists>prepared. prepareCohort cs = Some prepared \<and>
          (\<exists>p \<in> set prepared. ppCandidate p = epCandidate e \<and>
             projectAdmission m p = Some (epAdmission e, epSelectedDescendantCount e)))))"
proof -
  have modes: "SelectionModeAll \<noteq> SelectionModeSelected"
    by (simp add: SelectionModeAll_def SelectionModeSelected_def)
  consider (empty) "cs = []" | (all) "cs \<noteq> []" "scMode sel = SelectionModeAll"
    | (nothing) "cs \<noteq> []" "scMode sel \<noteq> SelectionModeAll"
        "matcher = None \<or> scMode sel \<noteq> SelectionModeSelected"
    | (selected) m where "cs \<noteq> []" "scMode sel = SelectionModeSelected" "matcher = Some m"
    by (cases matcher) blast+
  then show ?thesis
  proof cases
    case selected
    with assms modes obtain prepared ess where p: "prepareCohort cs = Some prepared"
      and "those (map (effectiveProject m) prepared) = Some ess" and es: "es = concat ess"
      by (auto simp: effectiveProjects_def bind_eq_Some_conv)
    then have "list_all2 (\<lambda>p es. effectiveProject m p = Some es) prepared ess"
      by (intro those_map_SomeD)
    then have "subseq (map epCandidate es) cs \<and>
      (\<forall>e \<in> set es. epAdmission e \<noteq> ProjectNotEffective \<and>
        (\<exists>p \<in> set prepared. ppCandidate p = epCandidate e \<and>
           projectAdmission m p = Some (epAdmission e, epSelectedDescendantCount e)))"
      using effective_fold [of m prepared ess] prepareCohort_candidates [OF p] es by simp
    with selected p modes show ?thesis by auto
  qed (use assms modes in \<open>auto simp: effectiveProjects_def o_def split: option.splits\<close>)
qed

theorem effectiveProjects_result_witness:
  "\<exists>es. effectiveProjects (Some exampleMatcher) exampleConfig exampleCohort = Some es \<and>
     subseq (map epCandidate es) exampleCohort"
proof -
  have "effectiveProjects (Some exampleMatcher) exampleConfig exampleCohort \<noteq> None" by code_simp
  then obtain es where "effectiveProjects (Some exampleMatcher) exampleConfig exampleCohort = Some es"
    by blast
  with effectiveProjects_result [OF this] show ?thesis by blast
qed

end
