(* ===== verification/Cohort.thy ===== *)
theory Cohort
  imports Selection
begin

text \<open>
  Repository cohorts, \<open>internal/selectionprojection/cohort.go\<close>: the multiplicity of a piece
  of identity text over a list of evidence, and the location labels that tell the clones of
  one presentation group apart.

  Paths are Unix paths, so \<open>filepath.VolumeName\<close> is empty. A Go map that is ranged over is
  an association list; the code sorts what it collects from it.
\<close>

section \<open>Multiplicities\<close>

record CohortEvidence =
  ceHarness :: string
  ceText :: string
  ceCohortKey :: string

record cohort =
  coIdentities :: "string set"
  coUnresolved :: bool

type_synonym cohorts = "((string \<times> string) \<times> cohort) list"

definition recordCohort :: "cohorts \<Rightarrow> CohortEvidence \<Rightarrow> cohorts" where
  "recordCohort cohorts item =
     (let key = (ceHarness item, ceText item)
      in if ceText item = [] then cohorts
         else
           let grp = (case map_of cohorts key of
                          None \<Rightarrow> \<lparr> coIdentities = {}, coUnresolved = False \<rparr>
                        | Some g \<Rightarrow> g)
           in AList.update key
                (if ceCohortKey item = [] then grp\<lparr> coUnresolved := True \<rparr>
                 else grp\<lparr> coIdentities := insert (ceCohortKey item) (coIdentities grp) \<rparr>)
                cohorts)"

definition CohortMultiplicities :: "CohortEvidence list \<Rightarrow> DiscoveryIdentityMultiplicity list" where
  "CohortMultiplicities evidence =
     (let cohorts = foldl recordCohort [] evidence
      in map (\<lambda>item.
           if ceText item = [] then DiscoveryIdentityUnique
           else case map_of cohorts (ceHarness item, ceText item) of
                  None \<Rightarrow> DiscoveryIdentityAmbiguous
                | Some grp \<Rightarrow>
                    if \<not> coUnresolved grp \<and> card (coIdentities grp) = 1
                    then DiscoveryIdentityUnique else DiscoveryIdentityAmbiguous)
         evidence)"

section \<open>Location labels\<close>

definition clonePathParts :: "string \<Rightarrow> string list" where
  "clonePathParts clonePath =
     (if clonePath = [] then []
      else filter (\<lambda>part. part \<noteq> [])
             (split_char slash (map (\<lambda>c. if c = backslash then slash else c) (path_clean clonePath))))"

definition suffixJoin :: "string list \<Rightarrow> nat \<Rightarrow> string" where
  "suffixJoin parts width = path_join (drop (length parts - width) parts)"

definition cloneSuffixUnique :: "string list \<Rightarrow> nat \<Rightarrow> string \<Rightarrow> string list \<Rightarrow> bool" where
  "cloneSuffixUnique parts width own cohort =
     (let suffix = suffixJoin parts width
      in \<not> list_ex (\<lambda>candidate.
            candidate \<noteq> own \<and>
            (let candidateParts = clonePathParts candidate
             in width \<le> length candidateParts \<and> suffixJoin candidateParts width = suffix)) cohort)"

function widenSuffix :: "string list \<Rightarrow> string \<Rightarrow> string list \<Rightarrow> nat \<Rightarrow> nat" where
  "widenSuffix parts own cohort width =
     (if width < length parts \<and> \<not> cloneSuffixUnique parts width own cohort
      then widenSuffix parts own cohort (width + 1) else width)"
  by pat_completeness auto
termination
  by (relation "measure (\<lambda>(parts, own, cohort, width). length parts - width)") auto

declare widenSuffix.simps [simp del]

definition ellipsis :: string where
  "ellipsis = [CHR 0xE2, CHR 0x80, CHR 0xA6]"

definition ShortestDistinctCloneSuffix :: "string \<Rightarrow> string list \<Rightarrow> string" where
  "ShortestDistinctCloneSuffix clonePath cohort =
     (let parts = clonePathParts clonePath
      in if parts = [] then []
         else
           let width = widenSuffix parts clonePath cohort (min 2 (length parts));
               suffix = suffixJoin parts width
           in if width = length parts \<and> length parts > 2 then ellipsis @ ''/'' @ suffix else suffix)"

record LocationLabelEvidence =
  lePresentationGroup :: string
  leClonePath :: string
  leCohortKey :: string

type_synonym representatives = "((string \<times> string) \<times> string) list"

definition leKey :: "LocationLabelEvidence \<Rightarrow> string \<times> string" where
  "leKey item = (lePresentationGroup item, leCohortKey item)"

definition recordRepresentative :: "representatives \<Rightarrow> LocationLabelEvidence \<Rightarrow> representatives" where
  "recordRepresentative reps item =
     (let current = (case map_of reps (leKey item) of None \<Rightarrow> [] | Some p \<Rightarrow> p)
      in if leClonePath item \<noteq> [] \<and> (current = [] \<or> leClonePath item < current)
         then AList.update (leKey item) (leClonePath item) reps else reps)"

definition pathsByGroup :: "representatives \<Rightarrow> string \<Rightarrow> string list" where
  "pathsByGroup reps grp = sort (map snd (filter (\<lambda>x. fst (fst x) = grp) reps))"

definition DistinctLocationLabels :: "LocationLabelEvidence list \<Rightarrow> string list" where
  "DistinctLocationLabels evidence =
     (let reps = foldl recordRepresentative [] evidence
      in map (\<lambda>item.
           case map_of reps (leKey item) of
             None \<Rightarrow> []
           | Some path \<Rightarrow> ShortestDistinctCloneSuffix path (pathsByGroup reps (lePresentationGroup item)))
         evidence)"

section \<open>Multiplicities are exact\<close>

definition cohortKeys :: "CohortEvidence list \<Rightarrow> string \<times> string \<Rightarrow> string set" where
  "cohortKeys evs k = ceCohortKey ` {e \<in> set evs. (ceHarness e, ceText e) = k}"

definition cohortsRecord :: "CohortEvidence list \<Rightarrow> cohorts \<Rightarrow> bool" where
  "cohortsRecord evs cs \<longleftrightarrow> (\<forall>h t. t \<noteq> [] \<longrightarrow>
     map_of cs (h, t) = (if cohortKeys evs (h, t) = {} then None
       else Some \<lparr> coIdentities = cohortKeys evs (h, t) - {[]}, coUnresolved = ([] \<in> cohortKeys evs (h, t)) \<rparr>))"

lemma cohortKeys_snoc:
  "cohortKeys (evs @ [e]) k =
     (if (ceHarness e, ceText e) = k then insert (ceCohortKey e) (cohortKeys evs k) else cohortKeys evs k)"
  by (auto simp: cohortKeys_def)

lemma cohortsRecord_step: "cohortsRecord evs cs \<Longrightarrow> cohortsRecord (evs @ [e]) (recordCohort cs e)"
  unfolding cohortsRecord_def recordCohort_def
  by (auto simp: cohortKeys_snoc update_conv' Let_def split: option.splits if_splits)

lemma cohortsRecord_fold: "cohortsRecord evs (foldl recordCohort [] evs)"
proof (induction evs rule: rev_induct)
  case Nil
  then show ?case by (simp add: cohortsRecord_def cohortKeys_def)
next
  case (snoc e evs)
  then show ?case by (simp add: cohortsRecord_step)
qed

text \<open>
  A piece of identity text is unique exactly when it is empty or every item of the
  evidence with the same harness and text has one and the same resolved cohort; one
  unresolved item makes the text ambiguous for all of them. One answer is given per item,
  in order.
\<close>

theorem CohortMultiplicities_iff:
  "length (CohortMultiplicities evs) = length evs \<and>
   (\<forall>i < length evs. CohortMultiplicities evs ! i =
      (if ceText (evs ! i) = [] \<or>
          (\<exists>key. key \<noteq> [] \<and> (\<forall>e \<in> set evs. ceHarness e = ceHarness (evs ! i) \<and> ceText e = ceText (evs ! i)
             \<longrightarrow> ceCohortKey e = key))
       then DiscoveryIdentityUnique else DiscoveryIdentityAmbiguous))"
proof -
  have "CohortMultiplicities evs ! i =
      (if ceText (evs ! i) = [] \<or>
          (\<exists>key. key \<noteq> [] \<and> (\<forall>e \<in> set evs. ceHarness e = ceHarness (evs ! i) \<and> ceText e = ceText (evs ! i)
             \<longrightarrow> ceCohortKey e = key))
       then DiscoveryIdentityUnique else DiscoveryIdentityAmbiguous)" if "i < length evs" for i
  proof -
    let ?h = "ceHarness (evs ! i)" and ?t = "ceText (evs ! i)" and ?K = "cohortKeys evs (ceHarness (evs ! i), ceText (evs ! i))"
    have mem: "ceCohortKey (evs ! i) \<in> ?K" using that by (auto simp: cohortKeys_def)
    have all: "?K \<subseteq> {key} \<longleftrightarrow>
        (\<forall>e \<in> set evs. ceHarness e = ?h \<and> ceText e = ?t \<longrightarrow> ceCohortKey e = key)" for key
      by (auto simp: cohortKeys_def)
    have "[] \<notin> ?K \<and> card (?K - {[]}) = 1 \<longleftrightarrow> (\<exists>key. key \<noteq> [] \<and> ?K \<subseteq> {key})"
      using mem by (auto simp: card_1_singleton_iff)
    with all show ?thesis
      using that cohortsRecord_fold [of evs] mem
      by (auto simp: CohortMultiplicities_def cohortsRecord_def Let_def)
  qed
  then show ?thesis by (simp add: CohortMultiplicities_def Let_def)
qed

definition exampleCohortEvidence :: "CohortEvidence list" where
  "exampleCohortEvidence =
     [\<lparr> ceHarness = ''codex'', ceText = ''app'', ceCohortKey = ''/a'' \<rparr>,
      \<lparr> ceHarness = ''codex'', ceText = ''app'', ceCohortKey = ''/b'' \<rparr>,
      \<lparr> ceHarness = ''pi'', ceText = ''app'', ceCohortKey = ''/a'' \<rparr>]"

theorem CohortMultiplicities_iff_witness:
  "CohortMultiplicities exampleCohortEvidence ! 0 = DiscoveryIdentityAmbiguous \<and>
   CohortMultiplicities exampleCohortEvidence ! 2 = DiscoveryIdentityUnique"
  using CohortMultiplicities_iff [of exampleCohortEvidence] by (auto simp: exampleCohortEvidence_def)

section \<open>Labels are distinct\<close>

text \<open>
  A clone path as resolution produces it: absolute, clean, not the root, without a
  backslash and without a directory named like the ellipsis.
\<close>

definition plain_clone :: "string \<Rightarrow> bool" where
  "plain_clone p \<longleftrightarrow> is_abs p \<and> path_clean p = p \<and> p \<noteq> ''/'' \<and> backslash \<notin> set p \<and>
     ellipsis \<notin> set (split_char slash p)"

lemma plain_clone_parts:
  assumes "plain_clone p"
  shows "p = slash # join ''/'' (clonePathParts p) \<and> clonePathParts p \<noteq> [] \<and>
    (\<forall>s \<in> set (clonePathParts p). normal_seg s \<and> s \<noteq> ellipsis)"
proof -
  let ?segs = "clean_segments True (split_char slash p)"
  from assms have abs: "is_abs p" and clean: "path_clean p = p" and root: "p \<noteq> ''/''"
    and nobs: "backslash \<notin> set p" and ell: "ellipsis \<notin> set (split_char slash p)"
    by (auto simp: plain_clone_def)
  have p: "p = slash # join ''/'' ?segs" using clean path_clean_abs [OF abs] by simp
  have inv: "clean_inv True (rev ?segs)"
    by (rule clean_inv_segments) (auto dest: split_char_no_sep)
  then have normal: "\<forall>s \<in> set ?segs. normal_seg s" by (auto simp: clean_inv_def)
  have ne: "?segs \<noteq> []" using p root by auto
  have split: "split_char slash p = [] # ?segs"
    using p ne normal by (metis (no_types, lifting) append_Nil list.distinct(1) normal_seg_def
        split_char_append split_char_join empty_iff list.set(1))
  have "map (\<lambda>c. if c = backslash then slash else c) p = p"
    using nobs by (intro map_idI) auto
  then have "clonePathParts p = filter (\<lambda>s. s \<noteq> []) ([] # ?segs)"
    using abs clean split by (auto simp: clonePathParts_def is_abs_def)
  also have "\<dots> = ?segs" using normal by (simp add: normal_seg_def filter_id_conv)
  finally have parts: "clonePathParts p = ?segs" .
  have "set (split_char slash p) = insert [] (set ?segs)" by (subst split) simp
  with ell have "ellipsis \<notin> set ?segs" by blast
  with p ne normal show ?thesis unfolding parts by blast
qed

lemma widenSuffix_bounds:
  assumes "w \<le> length parts"
  shows "w \<le> widenSuffix parts own cohort w \<and> widenSuffix parts own cohort w \<le> length parts \<and>
    (widenSuffix parts own cohort w < length parts \<longrightarrow>
       cloneSuffixUnique parts (widenSuffix parts own cohort w) own cohort)"
  using assms
proof (induction parts own cohort w rule: widenSuffix.induct)
  case (1 parts own cohort w)
  show ?case
  proof (cases "w < length parts \<and> \<not> cloneSuffixUnique parts w own cohort")
    case True
    with 1 show ?thesis by (simp add: widenSuffix.simps [of parts own cohort w])
  next
    case False
    then have "widenSuffix parts own cohort w = w"
      by (subst widenSuffix.simps) (simp only: if_not_P if_False)
    with False 1(2) show ?thesis by auto
  qed
qed

lemma drop_last_not_Nil: "0 < w \<Longrightarrow> xs \<noteq> [] \<Longrightarrow> drop (length xs - w) xs \<noteq> []"
  by (simp add: not_le)

lemma suffixJoin_normal:
  assumes "\<forall>s \<in> set parts. normal_seg s" and "0 < w" and "parts \<noteq> []"
  shows "suffixJoin parts w = join ''/'' (drop (length parts - w) parts)"
proof -
  let ?d = "drop (length parts - w) parts"
  have d: "\<forall>s \<in> set ?d. normal_seg s" using assms(1) by (meson in_set_dropD)
  moreover have ne: "?d \<noteq> []" using assms(2,3) by (rule drop_last_not_Nil)
  moreover have "filter (\<lambda>e. e \<noteq> []) ?d = ?d" using d by (simp add: filter_id_conv normal_seg_def)
  ultimately show ?thesis by (simp add: suffixJoin_def path_join_def path_clean_normal)
qed

lemma join_inject:
  assumes "join ''/'' xs = join ''/'' ys" and "xs \<noteq> []" and "ys \<noteq> []"
    and "\<forall>s \<in> set xs. slash \<notin> set s" and "\<forall>s \<in> set ys. slash \<notin> set s"
  shows "xs = ys"
  using assms by (metis split_char_join)

text \<open>The label of a clone as a list of path components.\<close>

lemma label_parts:
  assumes "plain_clone p"
  obtains w where "0 < w" and "w \<le> length (clonePathParts p)"
    and "w < length (clonePathParts p) \<longrightarrow> cloneSuffixUnique (clonePathParts p) w p cohort"
    and "ShortestDistinctCloneSuffix p cohort =
      join ''/'' ((if w = length (clonePathParts p) \<and> length (clonePathParts p) > 2 then [ellipsis] else []) @
        drop (length (clonePathParts p) - w) (clonePathParts p))"
proof -
  let ?P = "clonePathParts p"
  have ne: "?P \<noteq> []" and normal: "\<forall>s \<in> set ?P. normal_seg s"
    using plain_clone_parts [OF assms] by blast+
  define w where "w = widenSuffix ?P p cohort (min 2 (length ?P))"
  have b: "min 2 (length ?P) \<le> w \<and> w \<le> length ?P \<and>
      (w < length ?P \<longrightarrow> cloneSuffixUnique ?P w p cohort)"
    unfolding w_def by (rule widenSuffix_bounds) simp
  moreover have "0 < min 2 (length ?P)" using ne by simp
  ultimately have w: "0 < w" by linarith
  have "ShortestDistinctCloneSuffix p cohort =
      (if w = length ?P \<and> length ?P > 2 then ellipsis @ ''/'' @ suffixJoin ?P w else suffixJoin ?P w)"
    unfolding ShortestDistinctCloneSuffix_def Let_def w_def by (simp only: ne if_False)
  also have "\<dots> = join ''/'' ((if w = length ?P \<and> length ?P > 2 then [ellipsis] else []) @ drop (length ?P - w) ?P)"
    unfolding suffixJoin_normal [OF normal w ne] using join_Cons [OF ne, of "''/''" ellipsis] by simp
  finally show thesis using w b by (intro that) auto
qed

lemma label_conflict:
  assumes "q \<in> set cohort" and "q \<noteq> p" and "w \<le> length (clonePathParts q)"
    and "drop (length (clonePathParts p) - w) (clonePathParts p) =
         drop (length (clonePathParts q) - w) (clonePathParts q)"
  shows "\<not> cloneSuffixUnique (clonePathParts p) w p cohort"
proof -
  have "suffixJoin (clonePathParts q) w = suffixJoin (clonePathParts p) w"
    using assms(4) by (simp add: suffixJoin_def)
  with assms(1-3) show ?thesis
    by (auto simp: cloneSuffixUnique_def Let_def list_ex_iff)
qed

lemma ShortestDistinctCloneSuffix_distinct:
  assumes "plain_clone p" and "plain_clone q" and "p \<noteq> q" and "p \<in> set cohort" and "q \<in> set cohort"
  shows "ShortestDistinctCloneSuffix p cohort \<noteq> ShortestDistinctCloneSuffix q cohort"
proof
  let ?P = "clonePathParts p" and ?Q = "clonePathParts q"
  assume eq: "ShortestDistinctCloneSuffix p cohort = ShortestDistinctCloneSuffix q cohort"
  note P = plain_clone_parts [OF assms(1)] and Q = plain_clone_parts [OF assms(2)]
  have PQ: "?P \<noteq> ?Q" using P Q assms(3) by metis
  obtain w where w: "0 < w" "w \<le> length ?P" "w < length ?P \<longrightarrow> cloneSuffixUnique ?P w p cohort"
    and lp: "ShortestDistinctCloneSuffix p cohort =
      join ''/'' ((if w = length ?P \<and> length ?P > 2 then [ellipsis] else []) @ drop (length ?P - w) ?P)"
    by (rule label_parts [OF assms(1), of cohort])
  obtain v where v: "0 < v" "v \<le> length ?Q" "v < length ?Q \<longrightarrow> cloneSuffixUnique ?Q v q cohort"
    and lq: "ShortestDistinctCloneSuffix q cohort =
      join ''/'' ((if v = length ?Q \<and> length ?Q > 2 then [ellipsis] else []) @ drop (length ?Q - v) ?Q)"
    by (rule label_parts [OF assms(2), of cohort])
  let ?e = "\<lambda>b::bool. if b then [ellipsis] else []"
  let ?p = "w = length ?P \<and> length ?P > 2" and ?q = "v = length ?Q \<and> length ?Q > 2"
  have ell: "slash \<notin> set ellipsis" by (simp add: ellipsis_def)
  have dP: "set (drop (length ?P - w) ?P) \<subseteq> set ?P" and dQ: "set (drop (length ?Q - v) ?Q) \<subseteq> set ?Q"
    by (rule set_drop_subset)+
  have segs: "?e ?p @ drop (length ?P - w) ?P = ?e ?q @ drop (length ?Q - v) ?Q"
  proof (rule join_inject)
    show "join ''/'' (?e ?p @ drop (length ?P - w) ?P) = join ''/'' (?e ?q @ drop (length ?Q - v) ?Q)"
      using eq lp lq by simp
    show "\<forall>s \<in> set (?e ?p @ drop (length ?P - w) ?P). slash \<notin> set s"
      using dP P ell by (auto simp: normal_seg_def)
    show "\<forall>s \<in> set (?e ?q @ drop (length ?Q - v) ?Q). slash \<notin> set s"
      using dQ Q ell by (auto simp: normal_seg_def)
  qed (use w(1) v(1) P Q drop_last_not_Nil in auto)
  have noell: "ellipsis \<notin> set (drop (length ?P - w) ?P)" "ellipsis \<notin> set (drop (length ?Q - v) ?Q)"
    using dP dQ P Q by blast+
  have same: "?p \<longleftrightarrow> ?q"
    using segs noell by (auto split: if_splits) (metis list.set_intros(1))+
  then have drops: "drop (length ?P - w) ?P = drop (length ?Q - v) ?Q"
    using segs by (simp split: if_splits)
  then have "length (drop (length ?P - w) ?P) = length (drop (length ?Q - v) ?Q)" by simp
  then have wv: "w = v" using w(2) v(2) by simp
  have "\<not> cloneSuffixUnique ?P w p cohort" "\<not> cloneSuffixUnique ?Q v q cohort"
    using label_conflict [of q cohort p w] label_conflict [of p cohort q v] assms(3-5) drops wv w(2) v(2)
    by auto
  with w v have "w = length ?P" "v = length ?Q" by (meson le_neq_implies_less)+
  with drops PQ show False by simp
qed

section \<open>Labels of a list of evidence\<close>

definition repsInv :: "LocationLabelEvidence list \<Rightarrow> representatives \<Rightarrow> bool" where
  "repsInv evs reps \<longleftrightarrow>
     (\<forall>k p. map_of reps k = Some p \<longrightarrow>
        p \<noteq> [] \<and> (\<exists>e \<in> set evs. leKey e = k \<and> leClonePath e = p)) \<and>
     (\<forall>e \<in> set evs. leClonePath e \<noteq> [] \<longrightarrow> map_of reps (leKey e) \<noteq> None)"

lemma repsInv_step:
  assumes "repsInv evs reps"
  shows "repsInv (evs @ [e]) (recordRepresentative reps e)"
proof (cases "leClonePath e \<noteq> [] \<and> (map_of reps (leKey e) = None \<or>
    (\<exists>p. map_of reps (leKey e) = Some p \<and> (p = [] \<or> leClonePath e < p)))")
  case True
  then have "recordRepresentative reps e = AList.update (leKey e) (leClonePath e) reps"
    by (auto simp: recordRepresentative_def)
  with True assms show ?thesis by (auto simp: repsInv_def update_conv')
next
  case False
  then have "recordRepresentative reps e = reps"
    and "leClonePath e \<noteq> [] \<longrightarrow> map_of reps (leKey e) \<noteq> None"
    by (auto simp: recordRepresentative_def split: option.splits)
  with assms show ?thesis by (auto simp: repsInv_def)
qed

lemma repsInv_fold: "repsInv evs (foldl recordRepresentative [] evs)"
proof (induction evs rule: rev_induct)
  case Nil
  then show ?case by (simp add: repsInv_def)
next
  case (snoc e evs)
  then show ?case by (simp add: repsInv_step)
qed

lemma map_of_pathsByGroup:
  assumes "map_of reps (g, k) = Some p"
  shows "p \<in> set (pathsByGroup reps g)"
proof -
  have "((g, k), p) \<in> set reps" using assms by (rule map_of_SomeD)
  then show ?thesis by (force simp: pathsByGroup_def)
qed

text \<open>
  Clones are told apart. When every resolved clone path is an ordinary absolute path and
  one path never belongs to two cohorts of a presentation group, two items of one group in
  different cohorts get different labels.
\<close>

theorem DistinctLocationLabels_distinct:
  assumes "\<forall>e \<in> set evs. leClonePath e \<noteq> [] \<longrightarrow> plain_clone (leClonePath e)"
    and "\<forall>e \<in> set evs. \<forall>f \<in> set evs. lePresentationGroup e = lePresentationGroup f \<and>
      leClonePath e = leClonePath f \<and> leClonePath e \<noteq> [] \<longrightarrow> leCohortKey e = leCohortKey f"
    and "i < length evs" and "j < length evs"
    and "lePresentationGroup (evs ! i) = lePresentationGroup (evs ! j)"
    and "leCohortKey (evs ! i) \<noteq> leCohortKey (evs ! j)"
    and "leClonePath (evs ! i) \<noteq> []" and "leClonePath (evs ! j) \<noteq> []"
  shows "DistinctLocationLabels evs ! i \<noteq> DistinctLocationLabels evs ! j"
proof -
  let ?r = "foldl recordRepresentative [] evs" and ?g = "lePresentationGroup (evs ! i)"
  note inv = repsInv_fold [of evs, unfolded repsInv_def]
  have rep: "\<exists>p e. map_of ?r (leKey (evs ! n)) = Some p \<and> p \<noteq> [] \<and> e \<in> set evs \<and> leKey e = leKey (evs ! n) \<and>
      leClonePath e = p" if "n < length evs" "leClonePath (evs ! n) \<noteq> []" for n
  proof -
    from that inv have "map_of ?r (leKey (evs ! n)) \<noteq> None" by simp
    then obtain p where "map_of ?r (leKey (evs ! n)) = Some p" by blast
    with inv show ?thesis by metis
  qed
  from rep [OF assms(3,7)] obtain p e where p: "map_of ?r (leKey (evs ! i)) = Some p" "p \<noteq> []"
    and e: "e \<in> set evs" "leKey e = leKey (evs ! i)" "leClonePath e = p" by blast
  from rep [OF assms(4,8)] obtain q f where q: "map_of ?r (leKey (evs ! j)) = Some q" "q \<noteq> []"
    and f: "f \<in> set evs" "leKey f = leKey (evs ! j)" "leClonePath f = q" by blast
  have "leCohortKey e \<noteq> leCohortKey f" and "lePresentationGroup e = lePresentationGroup f"
    using e(2) f(2) assms(5,6) by (simp_all add: leKey_def)
  moreover have "p = q \<Longrightarrow> leCohortKey e = leCohortKey f"
    using assms(2) [rule_format, OF e(1) f(1)] \<open>lePresentationGroup e = lePresentationGroup f\<close> e(3) f(3) p(2)
    by simp
  ultimately have "p \<noteq> q" by blast
  moreover have "plain_clone p" "plain_clone q" using assms(1) e f p q by auto
  moreover have "p \<in> set (pathsByGroup ?r ?g)" "q \<in> set (pathsByGroup ?r ?g)"
    using p(1) q(1) assms(5) by (auto simp: leKey_def intro: map_of_pathsByGroup)
  ultimately have "ShortestDistinctCloneSuffix p (pathsByGroup ?r ?g) \<noteq>
      ShortestDistinctCloneSuffix q (pathsByGroup ?r ?g)"
    by (intro ShortestDistinctCloneSuffix_distinct)
  with p(1) q(1) assms(3-5) show ?thesis by (simp add: DistinctLocationLabels_def Let_def)
qed

theorem DistinctLocationLabels_distinct_witness:
  "let e = (\<lambda>path key. \<lparr> lePresentationGroup = ''app'', leClonePath = path, leCohortKey = key \<rparr>);
     evs = [e ''/a/src/app'' ''k1'', e ''/b/src/app'' ''k2'']
   in DistinctLocationLabels evs ! 0 \<noteq> DistinctLocationLabels evs ! 1"
proof -
  let ?e = "\<lambda>path key. \<lparr> lePresentationGroup = ''app'', leClonePath = path, leCohortKey = key \<rparr>"
  let ?evs = "[?e ''/a/src/app'' ''k1'', ?e ''/b/src/app'' ''k2'']"
  have "plain_clone ''/a/src/app''" "plain_clone ''/b/src/app''" by code_simp+
  then show ?thesis
    using DistinctLocationLabels_distinct [of ?evs 0 1] by simp
qed

end
