(* ===== verification/Origin.thy ===== *)
theory Origin
  imports Selection
begin

text \<open>
  Who drove a session, \<open>internal/sessionorigin\<close>, and what browsing and publication may show
  of it, \<open>internal/sessionvisibility/policy.go\<close>.

  The names of the harness wrapper tags belong to the redact package, outside this
  repository: they are the parameter \<open>wrappers\<close>. An origin is a string, as in the code,
  because it can come from a database row.
\<close>

section \<open>Origins\<close>

type_synonym Origin = string

definition User :: Origin where "User = ''user''"

definition Agent :: Origin where "Agent = ''agent''"

definition Unknown :: Origin where "Unknown = ''unknown''"

definition AllOrigins :: "Origin list" where
  "AllOrigins = [User, Agent, Unknown]"

lemmas origin_defs = User_def Agent_def Unknown_def

definition originValid :: "Origin \<Rightarrow> bool" where
  "originValid o' = (o' = User \<or> o' = Agent \<or> o' = Unknown)"

datatype origin_error = EmptyOrigin | OutsideMenu Origin

definition originValidate :: "Origin \<Rightarrow> origin_error option" where
  "originValidate o' =
     (if originValid o' then None else if o' = [] then Some EmptyOrigin else Some (OutsideMenu o'))"

definition originParse :: "string \<Rightarrow> origin_error + Origin" where
  "originParse value = (case originValidate value of Some e \<Rightarrow> Inl e | None \<Rightarrow> Inr value)"

definition Menu :: string where
  "Menu = join '', '' AllOrigins"

section \<open>Classification\<close>

record Evidence =
  evHasParent :: bool
  evAgentName :: string
  evTeamName :: string
  evEntrypoint :: string
  evPromptSource :: string
  evFirstUserText :: string

datatype Signal =
    SignalParentLinked | SignalStructuredIdentity | SignalProgrammaticEntry
  | SignalCommandInvocation | SignalBootstrapText | SignalNoEvidence

record wrappers =
  wCommandMessage :: string
  wCommandName :: string
  wTeammateMessage :: string

definition tag_end :: "char \<Rightarrow> bool" where
  "tag_end c = (c \<in> {CHR ''>'', CHR ''/'', CHR '' '', CHR 0x09, CHR 0x0D, CHR 0x0A})"

definition opensWithTag :: "string \<Rightarrow> string \<Rightarrow> bool" where
  "opensWithTag text name =
     (if name = [] \<or> \<not> prefix (CHR ''<'' # name) text then False
      else case drop (length name + 1) text of
             [] \<Rightarrow> False
           | c # _ \<Rightarrow> tag_end c)"

definition OpensWithTag :: "string \<Rightarrow> string \<Rightarrow> bool" where
  "OpensWithTag text name = opensWithTag text name"

text \<open>
  \<open>^(\d+\.\s*)?(Use |First invoke )?Skill\(/\<close>: an optional list number, then one of the
  three openings. White space is that of the regular-expression syntax.
\<close>

definition re_space :: "char \<Rightarrow> bool" where
  "re_space c = (c \<in> {CHR 0x09, CHR 0x0A, CHR 0x0C, CHR 0x0D, CHR '' ''})"

definition skip_list_number :: "string \<Rightarrow> string" where
  "skip_list_number s =
     (let rest = dropWhile is_digit s
      in if rest \<noteq> s \<and> prefix ''.'' rest then dropWhile re_space (tl rest) else s)"

definition bootstrapSkillInvocation :: "string \<Rightarrow> bool" where
  "bootstrapSkillInvocation s =
     (let t = skip_list_number s
      in prefix ''Skill(/'' t \<or> prefix ''Use Skill(/'' t \<or> prefix ''First invoke Skill(/'' t)"

definition entrypointSDKCLI :: string where "entrypointSDKCLI = ''sdk-cli''"

definition promptSourceSDK :: string where "promptSourceSDK = ''sdk''"

definition opening_text :: "string \<Rightarrow> string" where
  "opening_text s = trim_left_chars [CHR '' '', CHR 0x09, CHR 0x0D, CHR 0x0A] s"

definition Classify :: "wrappers \<Rightarrow> Evidence \<Rightarrow> Origin \<times> Signal" where
  "Classify w ev =
     (if evHasParent ev then (Agent, SignalParentLinked)
      else if evAgentName ev \<noteq> [] \<or> evTeamName ev \<noteq> [] then (Agent, SignalStructuredIdentity)
      else if evEntrypoint ev = entrypointSDKCLI \<and> evPromptSource ev = promptSourceSDK
      then (Agent, SignalProgrammaticEntry)
      else
        let opening = opening_text (evFirstUserText ev)
        in if opensWithTag opening (wCommandMessage w) \<or> opensWithTag opening (wCommandName w)
           then (User, SignalCommandInvocation)
           else if opensWithTag opening (wTeammateMessage w) \<or> bootstrapSkillInvocation opening
           then (Agent, SignalBootstrapText)
           else (Unknown, SignalNoEvidence))"

section \<open>Visibility\<close>

record Candidate =
  vSessionID :: string
  vHarness :: string
  vGitRemote :: string
  vProjectName :: string
  vClonePath :: string
  vGitBranch :: string
  vOrigin :: Origin
  vParentSessionID :: string

record Policy =
  polSelection :: SelectionConfig
  polMatcher :: SelectionMatcher
  polRevision :: string

definition browsingRevision :: string where "browsingRevision = ''browsing/v1''"

definition NewPolicy :: "SelectionConfig \<Rightarrow> Policy option" where
  "NewPolicy selection =
     map_option (\<lambda>m. \<lparr> polSelection = selection, polMatcher = m, polRevision = browsingRevision \<rparr>)
       (CompileSelectionMatcher selection)"

definition Browsing :: "Policy option" where
  "Browsing = NewPolicy \<lparr> scMode = SelectionModeAll, scAutoIngestNewBranches = False,
                          scHarnesses = [], scDeprecatedProviders = [] \<rparr>"

datatype visibility_error =
    NoValidMode string | ConflictingRules string string | UnusableOrigin string origin_error

definition storedCandidate :: "Candidate \<Rightarrow> DiscoveryCandidate" where
  "storedCandidate c =
     \<lparr> cHarness = vHarness c, cGitRemote = vGitRemote c, cProjectName = vProjectName c,
       cClonePath = vClonePath c, cBranch = vGitBranch c, cSessionID = vSessionID c,
       cRemoteMultiplicity = DiscoveryIdentityUnique, cNameMultiplicity = DiscoveryIdentityUnique \<rparr>"

text \<open>\<open>None\<close> is a panic of the matcher, \<open>Inl\<close> an error.\<close>

definition SelectedForIngest :: "Policy \<Rightarrow> Candidate \<Rightarrow> (visibility_error + bool) option" where
  "SelectedForIngest p c =
     (if \<not> selectionModeIsValid (scMode (polSelection p)) then Some (Inl (NoValidMode (vSessionID c)))
      else if scMode (polSelection p) = SelectionModeAll then Some (Inr True)
      else map_option (\<lambda>m. case m of
               BranchMatchYes \<Rightarrow> Inr True
             | BranchMatchNo \<Rightarrow> Inr False
             | BranchMatchWithheldConflict \<Rightarrow> Inl (ConflictingRules (vSessionID c) (vGitBranch c)))
           (MatchBranchCandidate (polMatcher p) (storedCandidate c)))"

definition VisibleForDiscovery :: "Policy \<Rightarrow> Candidate \<Rightarrow> visibility_error + bool" where
  "VisibleForDiscovery p c =
     (case originValidate (vOrigin c) of
        Some e \<Rightarrow> Inl (UnusableOrigin (vSessionID c) e)
      | None \<Rightarrow> Inr (vOrigin c \<noteq> Agent))"

section \<open>Tags and openings\<close>

lemma opensWithTag_iff:
  "opensWithTag text name \<longleftrightarrow> name \<noteq> [] \<and> (\<exists>c rest. text = CHR ''<'' # name @ c # rest \<and> tag_end c)"
proof
  assume A: "opensWithTag text name"
  then have "name \<noteq> []" and "prefix (CHR ''<'' # name) text" by (auto simp: opensWithTag_def split: if_splits)
  then obtain r where r: "text = CHR ''<'' # name @ r" by (auto simp: prefix_def)
  with A obtain c rest where "r = c # rest" "tag_end c"
    by (auto simp: opensWithTag_def split: if_splits list.splits)
  with r \<open>name \<noteq> []\<close> show "name \<noteq> [] \<and> (\<exists>c rest. text = CHR ''<'' # name @ c # rest \<and> tag_end c)"
    by blast
qed (auto simp: opensWithTag_def)

lemma terminated_prefix_unique:
  assumes "a @ c # r = b @ d # s" and "tag_end c" and "tag_end d"
    and "\<forall>x \<in> set a. \<not> tag_end x" and "\<forall>x \<in> set b. \<not> tag_end x"
  shows "a = b"
  using assms
proof (induction a arbitrary: b)
  case Nil
  then show ?case by (cases b) auto
next
  case (Cons x a)
  then show ?case by (cases b) auto
qed

text \<open>
  A text opens with at most one tag. For names that contain no character that can end a
  name, two tests succeeding on one text were asked for the same name, so a longer name
  that merely starts with a wrapper name is never taken for it.
\<close>

theorem opensWithTag_unique:
  assumes "opensWithTag text a" and "opensWithTag text b"
    and "\<forall>x \<in> set a. \<not> tag_end x" and "\<forall>x \<in> set b. \<not> tag_end x"
  shows "a = b"
  using assms unfolding opensWithTag_iff by (auto intro: terminated_prefix_unique)

theorem opensWithTag_unique_witness:
  "\<not> opensWithTag ''<command-name-v2>x'' ''command-name''"
proof
  assume "opensWithTag ''<command-name-v2>x'' ''command-name''"
  moreover have "opensWithTag ''<command-name-v2>x'' ''command-name-v2''" by code_simp
  moreover have "\<forall>x \<in> set ''command-name''. \<not> tag_end x" "\<forall>x \<in> set ''command-name-v2''. \<not> tag_end x"
    by code_simp+
  ultimately have "''command-name'' = ''command-name-v2''" by (rule opensWithTag_unique)
  then show False by simp
qed

definition agentEvidence :: "wrappers \<Rightarrow> Evidence \<Rightarrow> bool" where
  "agentEvidence w ev \<longleftrightarrow>
     evHasParent ev \<or> evAgentName ev \<noteq> [] \<or> evTeamName ev \<noteq> [] \<or>
     evEntrypoint ev = ''sdk-cli'' \<and> evPromptSource ev = ''sdk'' \<or>
     \<not> opensWithTag (opening_text (evFirstUserText ev)) (wCommandMessage w) \<and>
     \<not> opensWithTag (opening_text (evFirstUserText ev)) (wCommandName w) \<and>
     (opensWithTag (opening_text (evFirstUserText ev)) (wTeammateMessage w) \<or>
      bootstrapSkillInvocation (opening_text (evFirstUserText ev)))"

lemma origins_distinct [simp]:
  "User \<noteq> Agent" "Agent \<noteq> User" "User \<noteq> Unknown" "Unknown \<noteq> User" "Agent \<noteq> Unknown" "Unknown \<noteq> Agent"
  by (simp_all add: origin_defs)

lemma Classify_Agent_iff: "fst (Classify w ev) = Agent \<longleftrightarrow> agentEvidence w ev"
  by (auto simp: Classify_def agentEvidence_def Let_def entrypointSDKCLI_def promptSourceSDK_def)

lemma Classify_valid: "originValidate (fst (Classify w ev)) = None"
  by (simp add: Classify_def Let_def originValidate_def originValid_def)

text \<open>
  Only positive evidence hides a session. A session whose stored origin is what the rule
  gave for its evidence is always usable for browsing, under every policy, and it is
  withheld exactly when a parent link, a teammate identity, the programmatic launch pair,
  or a bootstrap opening without a command wrapper says that a program drove it. A root
  session that opens with a command is never hidden.
\<close>

theorem browsing_hides_agents_only:
  "VisibleForDiscovery p (c\<lparr> vOrigin := fst (Classify w ev) \<rparr>) = Inr (\<not> agentEvidence w ev) \<and>
   (\<not> evHasParent ev \<and> evAgentName ev = [] \<and> evTeamName ev = [] \<and> evPromptSource ev \<noteq> ''sdk'' \<and>
    (opensWithTag (opening_text (evFirstUserText ev)) (wCommandMessage w) \<or>
     opensWithTag (opening_text (evFirstUserText ev)) (wCommandName w)) \<longrightarrow>
    Classify w ev = (User, SignalCommandInvocation) \<and>
    VisibleForDiscovery p (c\<lparr> vOrigin := fst (Classify w ev) \<rparr>) = Inr True)"
  using Classify_valid [of w ev] Classify_Agent_iff [of w ev]
  by (auto simp: VisibleForDiscovery_def Classify_def Let_def promptSourceSDK_def agentEvidence_def)

definition exampleWrappers :: wrappers where
  "exampleWrappers = \<lparr> wCommandMessage = ''command-message'', wCommandName = ''command-name'',
     wTeammateMessage = ''teammate-message'' \<rparr>"

definition exampleEvidence :: Evidence where
  "exampleEvidence = \<lparr> evHasParent = False, evAgentName = [], evTeamName = [], evEntrypoint = ''sdk-cli'',
     evPromptSource = [], evFirstUserText = ''  <command-name>/review</command-name>'' \<rparr>"

theorem browsing_hides_agents_only_witness:
  "Classify exampleWrappers exampleEvidence = (User, SignalCommandInvocation)"
proof -
  let ?c = "\<lparr> vSessionID = [], vHarness = [], vGitRemote = [], vProjectName = [], vClonePath = [],
    vGitBranch = [], vOrigin = [], vParentSessionID = [] \<rparr>"
  have "opensWithTag (opening_text (evFirstUserText exampleEvidence)) (wCommandName exampleWrappers)"
    by code_simp
  then show ?thesis
    using browsing_hides_agents_only [where c = ?c and w = exampleWrappers and ev = exampleEvidence]
    by (simp add: exampleEvidence_def)
qed

text \<open>
  Publication membership. Under mode all every stored session is a member; under mode
  selected a session the matcher excludes is reported as not selected, never as a conflict,
  and a conflict error is given exactly for a session the matcher withholds. The stored
  origin plays no part.
\<close>

theorem SelectedForIngest_rule:
  assumes "NewPolicy sel = Some p" and "selectionModeIsValid (scMode sel)"
  shows "(scMode sel = SelectionModeAll \<longrightarrow> SelectedForIngest p c = Some (Inr True)) \<and>
    (scMode sel = SelectionModeSelected \<longrightarrow>
      (ExcludesCandidate (polMatcher p) (storedCandidate c) \<longrightarrow>
         SelectedForIngest p c \<in> {None, Some (Inr False)}) \<and>
      (SelectedForIngest p c = Some (Inl (ConflictingRules (vSessionID c) (vGitBranch c))) \<longleftrightarrow>
         MatchBranchCandidate (polMatcher p) (storedCandidate c) = Some BranchMatchWithheldConflict)) \<and>
    SelectedForIngest p (c\<lparr> vOrigin := o' \<rparr>) = SelectedForIngest p c"
proof -
  have p: "polSelection p = sel" using assms(1) by (auto simp: NewPolicy_def)
  let ?m = "polMatcher p" and ?c = "storedCandidate c"
  have ex: "ExcludesCandidate ?m ?c \<longrightarrow> MatchBranchCandidate ?m ?c \<in> {None, Some BranchMatchNo}"
    using decideCandidate_excluded [of ?m ?c storedPolicy]
    by (cases "decideCandidate ?m ?c storedPolicy") (auto simp: MatchBranchCandidate_def decisionNo_def)
  have origin: "storedCandidate (c\<lparr> vOrigin := o' \<rparr>) = ?c" by (simp add: storedCandidate_def)
  have modes: "SelectionModeAll \<noteq> SelectionModeSelected" "selectionModeIsValid SelectionModeAll"
    "selectionModeIsValid SelectionModeSelected"
    by (simp_all add: SelectionModeAll_def SelectionModeSelected_def selectionModeIsValid_def AllSelectionModes_def)
  show ?thesis
  proof (cases "MatchBranchCandidate ?m ?c")
    case None
    with assms(2) p modes origin show ?thesis by (simp add: SelectedForIngest_def)
  next
    case (Some b)
    with assms(2) p modes origin ex show ?thesis by (cases b) (simp_all add: SelectedForIngest_def)
  qed
qed

theorem SelectedForIngest_rule_witness:
  "\<exists>p. NewPolicy exampleConfig = Some p \<and>
     SelectedForIngest p \<lparr> vSessionID = ''s2'', vHarness = ''codex'', vGitRemote = [], vProjectName = [],
       vClonePath = [], vGitBranch = [], vOrigin = User, vParentSessionID = [] \<rparr> \<in> {None, Some (Inr False)}"
proof -
  let ?c = "\<lparr> vSessionID = ''s2'', vHarness = ''codex'', vGitRemote = [], vProjectName = [],
       vClonePath = [], vGitBranch = [], vOrigin = User, vParentSessionID = [] \<rparr>"
  let ?p = "\<lparr> polSelection = exampleConfig, polMatcher = exampleMatcher, polRevision = browsingRevision \<rparr>"
  have "NewPolicy exampleConfig = Some ?p" by (simp add: NewPolicy_def example_compiles)
  moreover have "ExcludesCandidate exampleMatcher (storedCandidate ?c)" by code_simp
  moreover have "selectionModeIsValid (scMode exampleConfig)" "scMode exampleConfig = SelectionModeSelected"
    by code_simp+
  ultimately show ?thesis
    using SelectedForIngest_rule [of exampleConfig ?p ?c User] by simp
qed

end
