(* ===== verification/Contract.thy ===== *)
theory Contract
  imports Remote "HOL-Library.Product_Lexorder"
begin

text \<open>
  Version negotiation with the village server: the semantic-version comparison and the
  window rules of \<open>internal/village/negotiate.go\<close>, the push preflight of
  \<open>internal/push/negotiate.go\<close>, and the pull preflight and response envelopes of
  \<open>internal/village/pull.go\<close> and \<open>internal/village/pull_contract.go\<close>.

  The contract versions this build speaks and reads are constants of the schema package:
  they are parameters. The answer of the schema-version request is an argument.
\<close>

section \<open>Versions\<close>

type_synonym version = string

text \<open>\<open>strings.SplitN\<close> with a one-byte separator and a positive count.\<close>

fun split_n :: "nat \<Rightarrow> char \<Rightarrow> string \<Rightarrow> string list" where
  "split_n 0 c s = [s]"
| "split_n (Suc n) c s =
     (case cut_char c s of (a, None) \<Rightarrow> [a] | (a, Some b) \<Rightarrow> a # split_n n c b)"

definition leadingDigits :: "string \<Rightarrow> string" where
  "leadingDigits s = trim_left_chars ''0'' (takeWhile is_digit s)"

definition semverParts :: "version \<Rightarrow> string \<times> string \<times> string" where
  "semverParts v =
     (let parts = split_n 2 (CHR ''.'') v;
          part = (\<lambda>i. if i < length parts then leadingDigits (parts ! i) else [])
      in (part 0, part 1, part 2))"

definition string_compare :: "string \<Rightarrow> string \<Rightarrow> int" where
  "string_compare a b = (if a < b then -1 else if a = b then 0 else 1)"

definition compareDigits :: "string \<Rightarrow> string \<Rightarrow> int" where
  "compareDigits a b =
     (if length a \<noteq> length b then (if length a < length b then -1 else 1)
      else string_compare a b)"

definition compareSemver :: "version \<Rightarrow> version \<Rightarrow> int" where
  "compareSemver a b =
     (case (semverParts a, semverParts b) of ((a0, a1, a2), (b0, b1, b2)) \<Rightarrow>
        if compareDigits a0 b0 \<noteq> 0 then compareDigits a0 b0
        else if compareDigits a1 b1 \<noteq> 0 then compareDigits a1 b1
        else if compareDigits a2 b2 \<noteq> 0 then compareDigits a2 b2
        else 0)"

definition sameMinor :: "version \<Rightarrow> version \<Rightarrow> bool" where
  "sameMinor a b =
     (case (semverParts a, semverParts b) of ((a0, a1, _), (b0, b1, _)) \<Rightarrow> a0 = b0 \<and> a1 = b1)"

definition CanDowngrade :: "version \<Rightarrow> version \<Rightarrow> bool" where
  "CanDowngrade cli target = (fst (semverParts cli) = fst (semverParts target))"

section \<open>Push\<close>

datatype ContractNegotiation =
    NegotiationWithin | NegotiationOlderThanMin | NegotiationAheadOfCurrent | NegotiationUnadvertised

definition ClassifyContract :: "version \<Rightarrow> version \<Rightarrow> version \<Rightarrow> ContractNegotiation" where
  "ClassifyContract cli mn current =
     (if mn = [] \<and> current = [] then NegotiationUnadvertised
      else if current \<noteq> [] \<and> compareSemver cli current > 0 then NegotiationAheadOfCurrent
      else if mn \<noteq> [] \<and> compareSemver cli mn < 0 then NegotiationOlderThanMin
      else NegotiationWithin)"

record SchemaVersionResponse =
  rMinPush :: version
  rPush :: version
  rMinPull :: version
  rPull :: version
  rMaxPull :: version
  rCapabilities :: "string list"

text \<open>The answer of \<open>GetSchemaVersion\<close>: an error, no body, or a body.\<close>

datatype preflight = PreflightFailed string | PreflightEmpty | PreflightAnswer SchemaVersionResponse

record RemoteCapabilitySupport =
  rcsCapabilities :: "string list"
  rcsKnown :: bool
  rcsUnavailable :: "string option"

datatype push_refusal = UpgradeCLI version version | CannotDowngrade version version

datatype notice = PreflightUnavailable string version | DowngradeEmit version version

text \<open>The emitted contract version, the receiver's support and what is printed.\<close>

definition negotiate ::
  "version \<Rightarrow> bool \<Rightarrow> preflight \<Rightarrow> push_refusal + version \<times> RemoteCapabilitySupport \<times> notice list" where
  "negotiate cli quiet answer =
     (case answer of
        PreflightFailed err \<Rightarrow>
          Inr (cli, \<lparr> rcsCapabilities = [], rcsKnown = False, rcsUnavailable = Some err \<rparr>,
               if quiet then [] else [PreflightUnavailable err cli])
      | PreflightEmpty \<Rightarrow>
          Inr (cli, \<lparr> rcsCapabilities = [], rcsKnown = False, rcsUnavailable = None \<rparr>, [])
      | PreflightAnswer resp \<Rightarrow>
          let mn = rMinPush resp; current = rPush resp;
              support = \<lparr> rcsCapabilities = rCapabilities resp, rcsKnown = True, rcsUnavailable = None \<rparr>
          in case ClassifyContract cli mn current of
               NegotiationOlderThanMin \<Rightarrow> Inl (UpgradeCLI cli mn)
             | NegotiationAheadOfCurrent \<Rightarrow>
                 if \<not> CanDowngrade cli current then Inl (CannotDowngrade cli current)
                 else Inr (current, support, [DowngradeEmit cli current])
             | _ \<Rightarrow> Inr (cli, support, []))"

section \<open>Pull\<close>

definition readablePullEnvelope :: "version list \<Rightarrow> version \<Rightarrow> version option" where
  "readablePullEnvelope readable v = find (\<lambda>envelope. sameMinor v envelope) readable"

definition servedVersion :: "version \<Rightarrow> version \<Rightarrow> version \<Rightarrow> version" where
  "servedVersion cliCurrent current mx =
     (if mx \<noteq> [] then (if compareSemver mx cliCurrent < 0 then mx else cliCurrent) else current)"

definition NegotiatePullWindow ::
  "version list \<Rightarrow> version \<Rightarrow> version \<Rightarrow> version \<Rightarrow> version \<Rightarrow> version \<Rightarrow> version option" where
  "NegotiatePullWindow readable cliMin cliCurrent mn current mx =
     (let served = servedVersion cliCurrent current mx
      in if served = [] \<or> compareSemver served cliMin < 0 then None
         else if compareSemver served cliCurrent > 0 \<and> \<not> sameMinor served cliCurrent then None
         else if mn \<noteq> [] \<and> compareSemver mn served > 0 then None
         else readablePullEnvelope readable served)"

datatype pull_refusal =
    PullPreflightFailed string | VillageTooOld | PullContractIncompatible version version version version
  | ServedUnreadable version

text \<open>The result with the envelope the client remembers afterwards.\<close>

definition NegotiatePull ::
  "version list \<Rightarrow> version \<Rightarrow> version \<Rightarrow> version option \<Rightarrow> preflight \<Rightarrow>
   (pull_refusal + version) \<times> version option" where
  "NegotiatePull readable cliMin cliCurrent negotiated answer =
     (case answer of
        PreflightFailed err \<Rightarrow> (Inl (PullPreflightFailed err), negotiated)
      | PreflightEmpty \<Rightarrow> (Inl VillageTooOld, negotiated)
      | PreflightAnswer resp \<Rightarrow>
          let mn = rMinPull resp; current = rPull resp; mx = rMaxPull resp
          in if mn = [] \<and> current = [] then (Inl VillageTooOld, negotiated)
             else case NegotiatePullWindow readable cliMin cliCurrent mn current mx of
                    None \<Rightarrow> (Inl (PullContractIncompatible cliMin cliCurrent mn
                                   (if mx \<noteq> [] then mx else current)), negotiated)
                  | Some envelope \<Rightarrow> (Inr envelope, Some envelope))"

definition wellFormedPullContract :: "string \<Rightarrow> bool" where
  "wellFormedPullContract s =
     (let parts = split_char (CHR ''.'') s
      in length parts = 3 \<and> list_all (\<lambda>p. p \<noteq> [] \<and> list_all is_digit p) parts)"

definition servedPullEnvelope ::
  "version list \<Rightarrow> version \<Rightarrow> version option \<Rightarrow> string \<Rightarrow> pull_refusal + version" where
  "servedPullEnvelope readable legacy negotiated header =
     (let raw = trim_space header
      in if \<not> wellFormedPullContract raw then
           Inr (case negotiated of Some v \<Rightarrow> if v \<noteq> [] then v else legacy | None \<Rightarrow> legacy)
         else case readablePullEnvelope readable raw of
                None \<Rightarrow> Inl (ServedUnreadable raw)
              | Some envelope \<Rightarrow> Inr envelope)"

section \<open>Versions as numbers\<close>

definition digit_value :: "char \<Rightarrow> nat" where
  "digit_value c = byte c - 48"

fun digits_value :: "string \<Rightarrow> nat" where
  "digits_value [] = 0"
| "digits_value (c # cs) = digit_value c * 10 ^ length cs + digits_value cs"

text \<open>A version as the triple of its numbers, of any size.\<close>

definition semver :: "version \<Rightarrow> nat \<times> nat \<times> nat" where
  "semver v = (case semverParts v of (a, b, c) \<Rightarrow> (digits_value a, digits_value b, digits_value c))"

definition canonical_digits :: "string \<Rightarrow> bool" where
  "canonical_digits s \<longleftrightarrow> list_all is_digit s \<and> (s \<noteq> [] \<longrightarrow> hd s \<noteq> CHR ''0'')"

lemma digit_value_less: "is_digit c \<Longrightarrow> digit_value c < 10"
  unfolding digit_value_def is_digit_def by linarith

lemma digit_value_inj: "is_digit c \<Longrightarrow> is_digit d \<Longrightarrow> digit_value c = digit_value d \<longleftrightarrow> c = d"
proof -
  assume "is_digit c" "is_digit d"
  then have "digit_value c = digit_value d \<longleftrightarrow> byte c = byte d"
    by (auto simp: digit_value_def is_digit_def)
  then show ?thesis by (simp add: byte_def of_char_eq_iff)
qed

lemma digits_value_less: "list_all is_digit s \<Longrightarrow> digits_value s < 10 ^ length s"
proof (induction s)
  case (Cons c s)
  then have "digits_value s < 10 ^ length s" and "digit_value c \<le> 9"
    using digit_value_less [of c] by auto
  then have "digit_value c * 10 ^ length s + digits_value s < 9 * 10 ^ length s + 10 ^ length s"
    by (meson add_le_less_mono mult_le_mono1)
  then show ?case by simp
qed simp

lemma digits_value_ge:
  assumes "canonical_digits s" and "s \<noteq> []"
  shows "10 ^ (length s - 1) \<le> digits_value s"
proof -
  obtain c r where s: "s = c # r" using assms(2) by (cases s) auto
  with assms(1) have "is_digit c" "c \<noteq> CHR ''0''" by (auto simp: canonical_digits_def)
  then have "digit_value c \<noteq> digit_value CHR ''0''"
    by (subst digit_value_inj) (simp_all add: is_digit_def byte_def)
  then have "1 \<le> digit_value c" by (simp add: digit_value_def byte_def)
  with s show ?thesis by (simp add: trans_le_add1)
qed

lemma less_by_length:
  assumes "canonical_digits a" and "canonical_digits b" and "length a < length b"
  shows "digits_value a < digits_value b"
proof -
  have "digits_value a < 10 ^ length a"
    using assms(1) by (simp add: canonical_digits_def digits_value_less)
  also have "\<dots> \<le> 10 ^ (length b - 1)" using assms(3) by (intro power_increasing) auto
  also have "\<dots> \<le> digits_value b" using assms(2,3) by (intro digits_value_ge) auto
  finally show ?thesis .
qed

lemma digit_less_iff: "is_digit c \<Longrightarrow> is_digit d \<Longrightarrow> c < d \<longleftrightarrow> digit_value c < digit_value d"
  by (auto simp: less_char_def digit_value_def is_digit_def byte_def)

lemma same_length_less_iff:
  assumes "list_all is_digit a" and "list_all is_digit b" and "length a = length b"
  shows "(digits_value a < digits_value b \<longleftrightarrow> a < b) \<and> (digits_value a = digits_value b \<longleftrightarrow> a = b)"
  using assms(3,1,2)
proof (induction a b rule: list_induct2)
  case (Cons c a d b)
  let ?n = "10 ^ length b :: nat"
  from Cons have small: "digits_value a < ?n" "digits_value b < ?n"
    using digits_value_less [of a] digits_value_less [of b] by auto
  have cd: "is_digit c" "is_digit d" using Cons.prems by auto
  have gap: "x * ?n + digits_value u < y * ?n + digits_value v"
    if "x < y" "digits_value u < ?n" for x y :: nat and u v
  proof -
    have "x * ?n + digits_value u < (x + 1) * ?n" using that by simp
    also have "\<dots> \<le> y * ?n" using that(1) by (intro mult_le_mono1) simp
    finally show ?thesis by simp
  qed
  consider "digit_value c < digit_value d" | "digit_value d < digit_value c" | "c = d"
    using digit_value_inj [OF cd] by linarith
  then show ?case
  proof cases
    case 1
    with gap [OF 1 small(1), of b] Cons.hyps cd show ?thesis
      by (auto simp: digit_less_iff)
  next
    case 2
    with gap [OF 2 small(2), of a] Cons.hyps cd show ?thesis
      by (auto simp: digit_less_iff)
  next
    case 3
    with Cons show ?thesis by simp
  qed
qed simp

lemma compareDigits_value:
  assumes "canonical_digits a" and "canonical_digits b"
  shows "compareDigits a b =
    (if digits_value a < digits_value b then -1 else if digits_value a = digits_value b then 0 else 1)"
proof (cases "length a = length b")
  case True
  with assms same_length_less_iff [of a b] show ?thesis
    by (simp add: compareDigits_def string_compare_def canonical_digits_def)
next
  case False
  with less_by_length [OF assms] less_by_length [OF assms(2,1)] show ?thesis
    by (auto simp: compareDigits_def not_less_iff_gr_or_eq)
qed

lemma canonical_leadingDigits: "canonical_digits (leadingDigits s)"
proof -
  have "list_all is_digit (takeWhile is_digit s)" by (induction s) auto
  moreover have "set (leadingDigits s) \<subseteq> set (takeWhile is_digit s)"
    unfolding leadingDigits_def trim_left_chars_def by (auto dest: set_dropWhileD)
  ultimately have "list_all is_digit (leadingDigits s)" by (auto simp: list_all_iff)
  moreover have "leadingDigits s \<noteq> [] \<longrightarrow> hd (leadingDigits s) \<noteq> CHR ''0''"
    unfolding leadingDigits_def trim_left_chars_def
    using hd_dropWhile [of "\<lambda>c. c \<in> set ''0''"] by fastforce
  ultimately show ?thesis by (simp add: canonical_digits_def)
qed

lemma canonical_parts:
  assumes "semverParts v = (a, b, c)"
  shows "canonical_digits a" "canonical_digits b" "canonical_digits c"
proof -
  have "canonical_digits []" by (simp add: canonical_digits_def)
  then show "canonical_digits a" "canonical_digits b" "canonical_digits c"
    using assms canonical_leadingDigits by (auto simp: semverParts_def Let_def)
qed

lemma compareSemver_value:
  "compareSemver a b = (if semver a < semver b then -1 else if semver a = semver b then 0 else 1)"
proof -
  obtain a0 a1 a2 where a: "semverParts a = (a0, a1, a2)" by (metis prod_cases3)
  obtain b0 b1 b2 where b: "semverParts b = (b0, b1, b2)" by (metis prod_cases3)
  note ca = canonical_parts [OF a] and cb = canonical_parts [OF b]
  show ?thesis
    unfolding compareSemver_def semver_def a b
    by (simp add: compareDigits_value [OF ca(1) cb(1)] compareDigits_value [OF ca(2) cb(2)]
        compareDigits_value [OF ca(3) cb(3)])
qed

interpretation semver: keyed_compare compareSemver semver
  by unfold_locales (rule compareSemver_value)

lemma canonical_inject:
  assumes "canonical_digits a" and "canonical_digits b"
  shows "digits_value a = digits_value b \<longleftrightarrow> a = b"
  using less_by_length [OF assms] less_by_length [OF assms(2,1)] assms same_length_less_iff [of a b]
  by (cases "length a = length b") (auto simp: canonical_digits_def neq_iff)

lemma sameMinor_value:
  "sameMinor a b \<longleftrightarrow> fst (semver a) = fst (semver b) \<and> fst (snd (semver a)) = fst (snd (semver b))"
proof -
  obtain a0 a1 a2 where a: "semverParts a = (a0, a1, a2)" by (metis prod_cases3)
  obtain b0 b1 b2 where b: "semverParts b = (b0, b1, b2)" by (metis prod_cases3)
  note ca = canonical_parts [OF a] and cb = canonical_parts [OF b]
  show ?thesis
    unfolding sameMinor_def semver_def a b
    by (simp add: canonical_inject [OF ca(1) cb(1)] canonical_inject [OF ca(2) cb(2)])
qed

lemma CanDowngrade_value: "CanDowngrade a b \<longleftrightarrow> fst (semver a) = fst (semver b)"
proof -
  obtain a0 a1 a2 where a: "semverParts a = (a0, a1, a2)" by (metis prod_cases3)
  obtain b0 b1 b2 where b: "semverParts b = (b0, b1, b2)" by (metis prod_cases3)
  show ?thesis
    unfolding CanDowngrade_def semver_def a b
    by (simp add: canonical_inject [OF canonical_parts(1) [OF a] canonical_parts(1) [OF b]])
qed

text \<open>
  Versions compare as numbers. The digit-wise comparison, which converts nothing to a
  machine integer, orders any two version strings exactly as the triples of their numbers
  compare lexicographically, whatever the number of digits; equal minors and downgradable
  majors are decided by the same numbers.
\<close>

theorem compareSemver_numeric:
  "compareSemver a b = (if semver a < semver b then -1 else if semver a = semver b then 0 else 1) \<and>
   (sameMinor a b \<longleftrightarrow> fst (semver a) = fst (semver b) \<and> fst (snd (semver a)) = fst (snd (semver b))) \<and>
   (CanDowngrade a b \<longleftrightarrow> fst (semver a) = fst (semver b)) \<and>
   compareSemver b a = - compareSemver a b"
  by (intro conjI compareSemver_value sameMinor_value CanDowngrade_value semver.swap)

section \<open>The push preflight\<close>

text \<open>
  What the push preflight lets through. On a village that advertises a window with its
  floor not above its current version, the preflight refuses exactly a client below the
  floor and a client ahead by a major version. Otherwise it emits a version inside the
  window: the client's own unless that is ahead of the village, and then the village's
  current one with one notice, never leaving the client's major version.
\<close>

theorem negotiate_window:
  assumes "answer = PreflightAnswer resp" and "rPush resp \<noteq> []" and "rMinPush resp \<noteq> []"
    and "semver (rMinPush resp) \<le> semver (rPush resp)"
  shows "case negotiate cli quiet answer of
      Inl e \<Rightarrow>
        e = UpgradeCLI cli (rMinPush resp) \<and> semver cli < semver (rMinPush resp) \<or>
        e = CannotDowngrade cli (rPush resp) \<and> semver (rPush resp) < semver cli \<and>
          fst (semver (rPush resp)) < fst (semver cli)
    | Inr (emit, support, notices) \<Rightarrow>
        semver (rMinPush resp) \<le> semver emit \<and> semver emit \<le> semver (rPush resp) \<and>
        semver emit \<le> semver cli \<and> fst (semver emit) = fst (semver cli) \<and>
        (emit = cli \<and> notices = [] \<or>
         emit = rPush resp \<and> semver (rPush resp) < semver cli \<and> notices = [DowngradeEmit cli emit]) \<and>
        rcsKnown support \<and> rcsCapabilities support = rCapabilities resp"
proof -
  let ?s = semver
  consider (ahead) "?s (rPush resp) < ?s cli" | (older) "?s cli < ?s (rMinPush resp)" "\<not> ?s (rPush resp) < ?s cli"
    | (within) "\<not> ?s (rPush resp) < ?s cli" "\<not> ?s cli < ?s (rMinPush resp)" by blast
  then show ?thesis
  proof cases
    case ahead
    then have "fst (?s (rPush resp)) \<le> fst (?s cli)"
      by (cases "?s cli"; cases "?s (rPush resp)") auto
    with ahead assms show ?thesis
      by (auto simp: negotiate_def ClassifyContract_def Let_def semver.cmp_iffs CanDowngrade_value)
  qed (use assms in \<open>auto simp: negotiate_def ClassifyContract_def Let_def semver.cmp_iffs\<close>)
qed

definition exampleResponse :: SchemaVersionResponse where
  "exampleResponse = \<lparr> rMinPush = ''0.9.0'', rPush = ''0.10.0'', rMinPull = ''0.2.0'', rPull = ''0.2.0'',
     rMaxPull = ''0.3.4'', rCapabilities = [''v1''] \<rparr>"

theorem negotiate_window_witness:
  "\<exists>emit support notices.
     negotiate ''0.11.2'' False (PreflightAnswer exampleResponse) = Inr (emit, support, notices) \<and>
     semver emit \<le> semver ''0.10.0''"
proof -
  have "semver (rMinPush exampleResponse) \<le> semver (rPush exampleResponse)" by code_simp
  moreover have "\<not> isl (negotiate ''0.11.2'' False (PreflightAnswer exampleResponse))" by code_simp
  ultimately show ?thesis
    using negotiate_window [of "PreflightAnswer exampleResponse" exampleResponse "''0.11.2''" False]
    by (auto simp: exampleResponse_def split: sum.splits)
qed

text \<open>
  The preflight never blocks on an absent answer, and then assumes no capability. With
  no usable answer the client's own version is emitted and the receiver's capability
  support is unknown; on a village that advertises no window the client's version is
  emitted with the advertised capabilities.
\<close>

theorem negotiate_fail_open:
  "negotiate cli quiet (PreflightFailed err) =
     Inr (cli, \<lparr> rcsCapabilities = [], rcsKnown = False, rcsUnavailable = Some err \<rparr>,
       if quiet then [] else [PreflightUnavailable err cli]) \<and>
   negotiate cli quiet PreflightEmpty =
     Inr (cli, \<lparr> rcsCapabilities = [], rcsKnown = False, rcsUnavailable = None \<rparr>, []) \<and>
   negotiate cli quiet (PreflightAnswer (resp\<lparr> rMinPush := [], rPush := [] \<rparr>)) =
     Inr (cli, \<lparr> rcsCapabilities = rCapabilities resp, rcsKnown = True, rcsUnavailable = None \<rparr>, [])"
  by (simp add: negotiate_def ClassifyContract_def)

section \<open>The pull preflight\<close>

lemma readablePullEnvelope_Some:
  "readablePullEnvelope readable v = Some e \<Longrightarrow> e \<in> set readable \<and> sameMinor v e"
  by (auto simp: readablePullEnvelope_def find_Some_iff)

lemma readablePullEnvelope_None:
  "readablePullEnvelope readable v = None \<longleftrightarrow> (\<forall>e \<in> set readable. \<not> sameMinor v e)"
  by (auto simp: readablePullEnvelope_def find_None_iff)

text \<open>
  A negotiated pull is one the client can read. The window negotiation settles on an
  envelope exactly when the version the village will serve is known, not below the client's
  floor, not beyond the client's newest minor, not below the village's own floor, and of a
  readable minor; the settled envelope is then a readable one with the served major and
  minor. A negotiated pull remembers that envelope; every refusal leaves the client as it
  was.
\<close>

theorem NegotiatePull_window:
  "let served = servedVersion cliCurrent (rPull resp) (rMaxPull resp);
     ok = served \<noteq> [] \<and> semver cliMin \<le> semver served \<and>
       (semver served \<le> semver cliCurrent \<or> sameMinor served cliCurrent) \<and>
       (rMinPull resp = [] \<or> semver (rMinPull resp) \<le> semver served) \<and>
       (\<exists>e \<in> set readable. sameMinor served e) \<and>
       \<not> (rMinPull resp = [] \<and> rPull resp = [])
   in case NegotiatePull readable cliMin cliCurrent prior (PreflightAnswer resp) of
        (Inr e, remembered) \<Rightarrow> ok \<and> e \<in> set readable \<and> sameMinor served e \<and> remembered = Some e
      | (Inl _, remembered) \<Rightarrow> \<not> ok \<and> remembered = prior"
proof -
  let ?served = "servedVersion cliCurrent (rPull resp) (rMaxPull resp)"
  show ?thesis
    by (auto simp: NegotiatePull_def NegotiatePullWindow_def Let_def semver.cmp_iffs not_less
        readablePullEnvelope_None dest: readablePullEnvelope_Some split: option.splits)
qed

end
