(* ===== verification/Push.thy ===== *)
theory Push
  imports Selection "HOL-Library.Product_Lexorder"
begin

text \<open>
  Which sessions a push run sends: the base query (\<open>internal/push/candidates.go\<close>), the
  repository scope (\<open>scope.go\<close>), the saved selection with inheritance (\<open>types.go\<close>), the
  narrowing and the upload order (\<open>pipeline.go\<close>), and the configured concurrency
  (\<open>concurrency.go\<close>).

  A row keeps the columns these functions read. Nil slices, maps and pointers are \<open>None\<close>
  where the code distinguishes them from empty ones. The store is the argument of the base
  query: its answer is an error or the pushable rows.
\<close>

section \<open>Rows and the base query\<close>

record PushSessionRow =
  prSessionID :: string
  prModelHarness :: string
  prProjectHash :: string
  prProjectName :: string
  prProjectPath :: string
  prGitRemote :: string
  prGitBranch :: "string option"
  prTokensTotal :: int

datatype PushMethod = PushMethodAll | PushMethodBySource | PushMethodIndividual

record PushCandidateQuery =
  qForce :: bool
  qSourceProvider :: string
  qMethod :: PushMethod
  qSources :: "string list"

definition filterByProvider :: "PushSessionRow list \<Rightarrow> string \<Rightarrow> PushSessionRow list" where
  "filterByProvider sessions provider = filter (\<lambda>s. prModelHarness s = provider) sessions"

definition QueryPushCandidates ::
  "'e + PushSessionRow list \<Rightarrow> PushCandidateQuery \<Rightarrow> 'e + PushSessionRow list" where
  "QueryPushCandidates pushable q =
     (if qForce q then
        (case pushable of
           Inl e \<Rightarrow> Inl e
         | Inr sessions \<Rightarrow>
             Inr (if qSourceProvider q \<noteq> [] then filterByProvider sessions (qSourceProvider q) else sessions))
      else if qSourceProvider q \<noteq> [] then
        (case pushable of
           Inl e \<Rightarrow> Inl e
         | Inr sessions \<Rightarrow> Inr (filterByProvider sessions (qSourceProvider q)))
      else if qMethod q = PushMethodBySource then
        (if qSources q = [] then Inr []
         else case pushable of
           Inl e \<Rightarrow> Inl e
         | Inr sessions \<Rightarrow> Inr (concat (map (filterByProvider sessions) (qSources q))))
      else pushable)"

section \<open>Repository scope\<close>

datatype IdentityBasis = IdentityFromRemote | IdentityFromPath

record RecordedUnderRoot =
  ruHash :: string
  ruDirectory :: string

record RepositoryScope =
  rsRoot :: string
  rsIdentity :: string
  rsBasis :: IdentityBasis
  rsAdmitted :: "string list"
  rsAlsoRecorded :: "string list"
  rsUnadmitted :: "RecordedUnderRoot list"

text \<open>
  The keys of the set \<open>admitted\<close> are kept in the order they were added; the code only asks
  for membership and, in \<open>Hashes\<close>, for the sorted keys.
\<close>

definition admitRecorded :: "string \<Rightarrow> string list \<times> string list \<Rightarrow> RecordedUnderRoot \<Rightarrow> string list \<times> string list" where
  "admitRecorded ident st recorded =
     (case st of (admitted, dirs) \<Rightarrow>
        if ruHash recorded = [] \<or> ruHash recorded = ident then st
        else if ruHash recorded \<in> set admitted then st
        else (admitted @ [ruHash recorded], dirs @ [ruDirectory recorded]))"

definition NewRepositoryScope ::
  "string \<Rightarrow> string \<Rightarrow> IdentityBasis \<Rightarrow> RecordedUnderRoot list \<Rightarrow> RecordedUnderRoot list \<Rightarrow> RepositoryScope" where
  "NewRepositoryScope root ident basis alsoRecorded unadmitted =
     (let (admitted, dirs) = foldl (admitRecorded ident) ([ident], []) alsoRecorded
      in \<lparr> rsRoot = root, rsIdentity = ident, rsBasis = basis, rsAdmitted = admitted,
           rsAlsoRecorded = sort dirs,
           rsUnadmitted = sort_key ruDirectory
             (filter (\<lambda>r. \<not> (ruHash r = [] \<or> ruHash r \<in> set admitted)) unadmitted) \<rparr>)"

definition Unadmitted :: "RepositoryScope option \<Rightarrow> RecordedUnderRoot list" where
  "Unadmitted s = (case s of None \<Rightarrow> [] | Some sc \<Rightarrow> rsUnadmitted sc)"

definition Admits :: "RepositoryScope option \<Rightarrow> string \<Rightarrow> bool" where
  "Admits s projectHash = (case s of None \<Rightarrow> True | Some sc \<Rightarrow> projectHash \<in> set (rsAdmitted sc))"

definition Hashes :: "RepositoryScope option \<Rightarrow> string list" where
  "Hashes s = (case s of None \<Rightarrow> [] | Some sc \<Rightarrow> sort (rsAdmitted sc))"

definition ApplyRepositoryScope ::
  "PushSessionRow list \<Rightarrow> RepositoryScope option \<Rightarrow> PushSessionRow list" where
  "ApplyRepositoryScope sessions scope =
     (case scope of
        None \<Rightarrow> sessions
      | Some _ \<Rightarrow> filter (\<lambda>s. Admits scope (prProjectHash s)) sessions)"

section \<open>Selection and inheritance\<close>

type_synonym SessionSelection = "(string \<times> BranchMatch) list"

definition Decision :: "SessionSelection option \<Rightarrow> string \<Rightarrow> BranchMatch" where
  "Decision s sessionID =
     (case s of
        None \<Rightarrow> BranchMatchYes
      | Some decisions \<Rightarrow>
          (case map_of decisions sessionID of None \<Rightarrow> BranchMatchNo | Some d \<Rightarrow> d))"

record PipelineConfig =
  pcForce :: bool
  pcSourceProvider :: string
  pcFilterSessionIDs :: "string list option"
  pcPinnedSessionIDs :: "string set option"
  pcSelection :: "SessionSelection option"
  pcInheritSelection :: "(string \<times> string) list"
  pcRepository :: "RepositoryScope option"

definition SelectionInheritedFrom :: "PipelineConfig \<Rightarrow> string \<Rightarrow> string option" where
  "SelectionInheritedFrom c sessionID =
     (case map_of (pcInheritSelection c) sessionID of
        None \<Rightarrow> None
      | Some root \<Rightarrow>
          if pcSelection c = None then None
          else if Decision (pcSelection c) sessionID = BranchMatchYes \<or>
                  Decision (pcSelection c) root \<noteq> BranchMatchYes then None
          else Some root)"

definition selectionDecision :: "PipelineConfig \<Rightarrow> string \<Rightarrow> BranchMatch" where
  "selectionDecision c sessionID =
     (case SelectionInheritedFrom c sessionID of
        Some _ \<Rightarrow> BranchMatchYes
      | None \<Rightarrow> Decision (pcSelection c) sessionID)"

definition inheritingSelection :: "PipelineConfig \<Rightarrow> SessionSelection option" where
  "inheritingSelection c =
     (case pcSelection c of
        None \<Rightarrow> None
      | Some decisions \<Rightarrow>
          if pcInheritSelection c = [] then Some decisions
          else Some (foldl (\<lambda>out (sessionID, _).
                 case SelectionInheritedFrom c sessionID of
                   Some _ \<Rightarrow> AList.update sessionID BranchMatchYes out
                 | None \<Rightarrow> out) decisions (pcInheritSelection c)))"

definition ApplySelection ::
  "PushSessionRow list \<Rightarrow> SessionSelection option \<Rightarrow> PushSessionRow list \<times> PushSessionRow list" where
  "ApplySelection sessions sel =
     (case sel of
        None \<Rightarrow> (sessions, [])
      | Some _ \<Rightarrow>
          (filter (\<lambda>s. Decision sel (prSessionID s) = BranchMatchYes) sessions,
           filter (\<lambda>s. Decision sel (prSessionID s) = BranchMatchWithheldConflict) sessions))"

section \<open>Narrowing\<close>

definition keepSessions :: "PushSessionRow list \<Rightarrow> string set \<Rightarrow> PushSessionRow list" where
  "keepSessions sessions keep = filter (\<lambda>s. prSessionID s \<in> keep) sessions"

definition dropInheritedWithoutRoot :: "PushSessionRow list \<Rightarrow> PipelineConfig \<Rightarrow> PushSessionRow list" where
  "dropInheritedWithoutRoot kept runCfg =
     (if pcInheritSelection runCfg = [] then kept
      else
        let present = prSessionID ` set kept
        in filter (\<lambda>s. case SelectionInheritedFrom runCfg (prSessionID s) of
                         None \<Rightarrow> True
                       | Some root \<Rightarrow> root \<in> present) kept)"

definition NarrowCandidates ::
  "PushSessionRow list \<Rightarrow> PipelineConfig \<Rightarrow> PushSessionRow list \<times> PushSessionRow list" where
  "NarrowCandidates sessions runCfg =
     (let ids = (case pcFilterSessionIDs runCfg of None \<Rightarrow> [] | Some xs \<Rightarrow> xs);
          sessions = (if ids \<noteq> [] then keepSessions sessions (set ids) else sessions);
          sessions = (case pcPinnedSessionIDs runCfg of
                        None \<Rightarrow> sessions
                      | Some pinned \<Rightarrow> keepSessions sessions pinned);
          (kept, withheld) = ApplySelection sessions (inheritingSelection runCfg);
          kept = ApplyRepositoryScope kept (pcRepository runCfg)
      in (dropInheritedWithoutRoot kept runCfg, ApplyRepositoryScope withheld (pcRepository runCfg)))"

text \<open>\<open>bounded\<close> says whether the run has a deadline.\<close>

definition orderForBudget :: "bool \<Rightarrow> PushSessionRow list \<Rightarrow> PushSessionRow list" where
  "orderForBudget bounded sessions =
     (if \<not> bounded \<or> length sessions < 2 then sessions
      else sort_key (\<lambda>s. (prTokensTotal s, prSessionID s)) sessions)"

section \<open>Concurrency\<close>

datatype concurrency_error = ConcurrencyNotPositive int

text \<open>Go's division truncates; a CPU count is never negative.\<close>

definition DefaultConcurrencyForCPU :: "nat \<Rightarrow> int" where
  "DefaultConcurrencyForCPU numCPU = max 1 (int (numCPU div 2))"

definition ResolveConcurrency :: "bool \<Rightarrow> int \<Rightarrow> int \<Rightarrow> nat \<Rightarrow> concurrency_error + int" where
  "ResolveConcurrency flagSet flagVal cfgVal numCPU =
     (if flagSet then
        (if flagVal \<le> 0 then Inl (ConcurrencyNotPositive flagVal) else Inr flagVal)
      else if cfgVal > 0 then Inr cfgVal
      else Inr (DefaultConcurrencyForCPU numCPU))"

section \<open>What a scope admits\<close>

lemma admitRecorded_inv:
  assumes "fst st = ident # hs" and "distinct (ident # hs)" and "length hs = length (snd st)"
    and "foldl (admitRecorded ident) st rs = (admitted, dirs)"
  shows "\<exists>hs'. admitted = ident # hs' \<and> distinct (ident # hs') \<and> length hs' = length dirs \<and>
    set hs' = set hs \<union> ((ruHash ` set rs) - {[], ident})"
  using assms
proof (induction rs arbitrary: st hs)
  case Nil
  then show ?case by auto
next
  case (Cons r rs)
  obtain adm ds where st: "st = (adm, ds)" by (cases st)
  show ?case
  proof (cases "ruHash r = [] \<or> ruHash r = ident \<or> ruHash r \<in> set adm")
    case True
    then have "admitRecorded ident st r = st" using st by (auto simp: admitRecorded_def)
    with Cons.prems(4) have "foldl (admitRecorded ident) st rs = (admitted, dirs)" by simp
    from Cons.IH [OF Cons.prems(1-3) this] True st Cons.prems(1) show ?thesis by auto
  next
    case False
    let ?st = "(adm @ [ruHash r], ds @ [ruDirectory r])"
    have "admitRecorded ident st r = ?st" using st False by (auto simp: admitRecorded_def)
    with Cons.prems(4) have f: "foldl (admitRecorded ident) ?st rs = (admitted, dirs)" by simp
    have "\<exists>hs'. admitted = ident # hs' \<and> distinct (ident # hs') \<and> length hs' = length dirs \<and>
        set hs' = set (hs @ [ruHash r]) \<union> ((ruHash ` set rs) - {[], ident})"
      using Cons.prems st False f by (intro Cons.IH [of ?st]) auto
    with False show ?thesis by auto
  qed
qed

text \<open>
  The closed set of a scope. A scope admits exactly its own identity and the non-empty
  identities recorded inside it; it names one directory for each extra identity it admits,
  in order; what it reports as unadmitted is recorded there and never admitted; and its
  hashes are the admitted set, sorted and without repetition.
\<close>

theorem NewRepositoryScope_admits:
  "let s = Some (NewRepositoryScope root ident basis extra un)
   in (Admits s h \<longleftrightarrow> h = ident \<or> h \<noteq> [] \<and> h \<in> ruHash ` set extra) \<and>
      set (Hashes s) = {h. Admits s h} \<and> sorted (Hashes s) \<and> distinct (Hashes s) \<and>
      length (Hashes s) = Suc (length (rsAlsoRecorded (the s))) \<and>
      set (Unadmitted s) = {r \<in> set un. ruHash r \<noteq> [] \<and> \<not> Admits s (ruHash r)} \<and>
      sorted (map ruDirectory (Unadmitted s))"
proof -
  obtain admitted dirs where f: "foldl (admitRecorded ident) ([ident], []) extra = (admitted, dirs)"
    by (cases "foldl (admitRecorded ident) ([ident], []) extra")
  obtain hs where a: "admitted = ident # hs" "distinct (ident # hs)" "length hs = length dirs"
    "set hs = (ruHash ` set extra) - {[], ident}"
    using admitRecorded_inv [of "([ident], [])" ident "[]" extra admitted dirs] f by auto
  have s: "NewRepositoryScope root ident basis extra un =
      \<lparr> rsRoot = root, rsIdentity = ident, rsBasis = basis, rsAdmitted = admitted, rsAlsoRecorded = sort dirs,
        rsUnadmitted = sort_key ruDirectory
          (filter (\<lambda>r. \<not> (ruHash r = [] \<or> ruHash r \<in> set admitted)) un) \<rparr>"
    using f by (simp add: NewRepositoryScope_def)
  have adm: "h \<in> set admitted \<longleftrightarrow> h = ident \<or> h \<noteq> [] \<and> h \<in> ruHash ` set extra" for h
    unfolding a(1) by (simp add: a(4)) blast
  then have admset: "set admitted = {h. h = ident \<or> h \<noteq> [] \<and> h \<in> ruHash ` set extra}" by blast
  have dist: "distinct admitted" and len: "length admitted = Suc (length dirs)" using a by simp_all
  show ?thesis
    unfolding Let_def s Admits_def Hashes_def Unadmitted_def
    by (intro conjI) (simp_all add: admset dist len)
qed

text \<open>
  The effective concurrency is positive. Whatever the configuration and the machine,
  resolving the concurrency either gives at least one upload slot or refuses, and it refuses
  exactly an explicit flag below one; an explicit positive flag wins over the configuration,
  and a configured non-positive value falls back to the processor default.
\<close>

theorem ResolveConcurrency_positive:
  "case ResolveConcurrency flagSet flagVal cfgVal numCPU of
     Inl e \<Rightarrow> flagSet \<and> flagVal \<le> 0 \<and> e = ConcurrencyNotPositive flagVal
   | Inr n \<Rightarrow> 1 \<le> n \<and> (flagSet \<longrightarrow> n = flagVal) \<and> (\<not> flagSet \<and> cfgVal > 0 \<longrightarrow> n = cfgVal) \<and>
       (\<not> flagSet \<and> cfgVal \<le> 0 \<longrightarrow> n = max 1 (int (numCPU div 2)))"
  by (auto simp: ResolveConcurrency_def DefaultConcurrencyForCPU_def)

section \<open>What a run sends\<close>

definition passesFilters :: "PipelineConfig \<Rightarrow> PushSessionRow \<Rightarrow> bool" where
  "passesFilters c s \<longleftrightarrow>
     (case pcFilterSessionIDs c of None \<Rightarrow> True | Some ids \<Rightarrow> ids = [] \<or> prSessionID s \<in> set ids) \<and>
     (case pcPinnedSessionIDs c of None \<Rightarrow> True | Some pinned \<Rightarrow> prSessionID s \<in> pinned) \<and>
     Admits (pcRepository c) (prProjectHash s)"

lemma inherit_fold:
  "map_of (foldl (\<lambda>out (sessionID, _).
       case SelectionInheritedFrom c sessionID of
         Some _ \<Rightarrow> AList.update sessionID BranchMatchYes out | None \<Rightarrow> out) out xs) sid =
     (if sid \<in> fst ` set xs \<and> SelectionInheritedFrom c sid \<noteq> None then Some BranchMatchYes
      else map_of out sid)"
  by (induction xs arbitrary: out) (auto simp: update_conv' split: option.splits prod.splits)

text \<open>The prepared selection answers for every session as \<open>selectionDecision\<close> does.\<close>

lemma inheritingSelection_decision:
  "Decision (inheritingSelection c) sid = selectionDecision c sid"
proof (cases "pcSelection c")
  case None
  then show ?thesis
    by (simp add: inheritingSelection_def selectionDecision_def SelectionInheritedFrom_def Decision_def
        split: option.split)
next
  case (Some decisions)
  show ?thesis
  proof (cases "SelectionInheritedFrom c sid")
    case None
    with Some show ?thesis
      by (simp add: inheritingSelection_def selectionDecision_def Decision_def inherit_fold)
  next
    case (Some root)
    then have "map_of (pcInheritSelection c) sid \<noteq> None"
      by (simp add: SelectionInheritedFrom_def split: option.splits)
    then have "sid \<in> fst ` set (pcInheritSelection c)" and "pcInheritSelection c \<noteq> []"
      by (auto simp: map_of_eq_None_iff)
    with Some \<open>pcSelection c = Some decisions\<close> show ?thesis
      by (simp add: inheritingSelection_def selectionDecision_def Decision_def inherit_fold)
  qed
qed

lemma ApplySelection_filters:
  "ApplySelection sessions sel =
     (filter (\<lambda>s. Decision sel (prSessionID s) = BranchMatchYes) sessions,
      filter (\<lambda>s. Decision sel (prSessionID s) = BranchMatchWithheldConflict) sessions)"
  by (simp add: ApplySelection_def Decision_def split: option.split)

lemma ApplyRepositoryScope_filter:
  "ApplyRepositoryScope sessions scope = filter (\<lambda>s. Admits scope (prProjectHash s)) sessions"
  by (simp add: ApplyRepositoryScope_def Admits_def split: option.split)

lemma narrow_first:
  "(case pcPinnedSessionIDs c of
      None \<Rightarrow> (if (case pcFilterSessionIDs c of None \<Rightarrow> [] | Some xs \<Rightarrow> xs) \<noteq> []
               then keepSessions ss (set (case pcFilterSessionIDs c of None \<Rightarrow> [] | Some xs \<Rightarrow> xs)) else ss)
    | Some pinned \<Rightarrow> keepSessions (if (case pcFilterSessionIDs c of None \<Rightarrow> [] | Some xs \<Rightarrow> xs) \<noteq> []
               then keepSessions ss (set (case pcFilterSessionIDs c of None \<Rightarrow> [] | Some xs \<Rightarrow> xs)) else ss) pinned) =
   filter (\<lambda>s. (case pcFilterSessionIDs c of None \<Rightarrow> True | Some ids \<Rightarrow> ids = [] \<or> prSessionID s \<in> set ids) \<and>
     (case pcPinnedSessionIDs c of None \<Rightarrow> True | Some pinned \<Rightarrow> prSessionID s \<in> pinned)) ss"
  by (auto simp: keepSessions_def split: option.split intro!: filter_cong)

lemma NarrowCandidates_filters:
  "NarrowCandidates ss c =
     (dropInheritedWithoutRoot
        (filter (\<lambda>s. passesFilters c s \<and> selectionDecision c (prSessionID s) = BranchMatchYes) ss) c,
      filter (\<lambda>s. passesFilters c s \<and> selectionDecision c (prSessionID s) = BranchMatchWithheldConflict) ss)"
  unfolding NarrowCandidates_def Let_def narrow_first
  by (simp add: ApplySelection_filters ApplyRepositoryScope_filter inheritingSelection_decision
      passesFilters_def conj_commute conj_left_commute)

lemma root_decision:
  "SelectionInheritedFrom c sid = Some root \<Longrightarrow>
   Decision (pcSelection c) root = BranchMatchYes \<and> Decision (pcSelection c) sid \<noteq> BranchMatchYes \<and>
   SelectionInheritedFrom c root = None \<and> pcInheritSelection c \<noteq> []"
  by (auto simp: SelectionInheritedFrom_def split: option.splits if_splits)


definition exampleRow :: "string \<Rightarrow> PushSessionRow" where
  "exampleRow sid = \<lparr> prSessionID = sid, prModelHarness = ''codex'', prProjectHash = ''h'',
     prProjectName = ''app'', prProjectPath = ''/work/app'', prGitRemote = [], prGitBranch = None, prTokensTotal = 1 \<rparr>"

definition exampleRun :: PipelineConfig where
  "exampleRun = \<lparr> pcForce = False, pcSourceProvider = [], pcFilterSessionIDs = None, pcPinnedSessionIDs = None,
     pcSelection = Some [(''root'', BranchMatchYes), (''child'', BranchMatchNo), (''other'', BranchMatchNo)],
     pcInheritSelection = [(''child'', ''root'')], pcRepository = None \<rparr>"


text \<open>
  An empty choice chooses everything. The field's comment promises that a non-nil list
  of session identifiers restricts the run to it; the code tests the length, so a non-nil
  empty list narrows nothing and the run sends what a run without a choice sends. The pinned
  set, which promises the same, does restrict when it is empty.
\<close>

theorem empty_choice_is_no_choice:
  "NarrowCandidates ss (c\<lparr> pcFilterSessionIDs := Some [] \<rparr>) = NarrowCandidates ss (c\<lparr> pcFilterSessionIDs := None \<rparr>) \<and>
   fst (NarrowCandidates ss (c\<lparr> pcPinnedSessionIDs := Some {} \<rparr>)) = []"
proof -
  have inh: "SelectionInheritedFrom (c\<lparr> pcFilterSessionIDs := f \<rparr>) = SelectionInheritedFrom c" for f
    by (auto simp: SelectionInheritedFrom_def fun_eq_iff split: option.split)
  have "selectionDecision (c\<lparr> pcFilterSessionIDs := f \<rparr>) = selectionDecision c" for f
    by (simp add: selectionDecision_def inh fun_eq_iff split: option.split)
  moreover have "dropInheritedWithoutRoot k (c\<lparr> pcFilterSessionIDs := f \<rparr>) = dropInheritedWithoutRoot k c" for k f
    by (simp add: dropInheritedWithoutRoot_def inh)
  moreover have "passesFilters (c\<lparr> pcFilterSessionIDs := Some [] \<rparr>) = passesFilters (c\<lparr> pcFilterSessionIDs := None \<rparr>)"
    by (simp add: passesFilters_def fun_eq_iff split: option.split)
  ultimately have "NarrowCandidates ss (c\<lparr> pcFilterSessionIDs := Some [] \<rparr>) =
      NarrowCandidates ss (c\<lparr> pcFilterSessionIDs := None \<rparr>)"
    unfolding NarrowCandidates_filters by (simp only:)
  moreover have "fst (NarrowCandidates ss (c\<lparr> pcPinnedSessionIDs := Some {} \<rparr>)) = []"
    by (simp add: NarrowCandidates_filters passesFilters_def dropInheritedWithoutRoot_def)
  ultimately show ?thesis by simp
qed

end
