(* ===== verification/Upload.thy ===== *)
theory Upload
  imports Push "HOL-Library.Multiset"
begin

text \<open>
  The concurrent upload loop of \<open>internal/push/pipeline.go\<close> (step 7 of \<open>Run\<close>) with the
  \<open>ConcurrencyTracker\<close> of \<open>concurrency.go\<close> and the counters of \<open>PushResult\<close>.

  Every session gets one goroutine of an errgroup with a limit. A goroutine looks at the
  abort flag under the mutex, enters the tracker, uploads, leaves the tracker, and then
  takes the mutex again to record its result. Those are the steps of the relation, in any
  interleaving; the result of an upload is arbitrary. Profiling is on, so the tracker is
  used.
\<close>

section \<open>The tracker and the counters\<close>

record ConcurrencyTracker =
  tCurrent :: int
  tHighWater :: int

definition Enter :: "ConcurrencyTracker \<Rightarrow> ConcurrencyTracker" where
  "Enter t =
     (let t = t\<lparr> tCurrent := tCurrent t + 1 \<rparr>
      in if tCurrent t > tHighWater t then t\<lparr> tHighWater := tCurrent t \<rparr> else t)"

definition Exit :: "ConcurrencyTracker \<Rightarrow> ConcurrencyTracker" where
  "Exit t = (if tCurrent t > 0 then t\<lparr> tCurrent := tCurrent t - 1 \<rparr> else t)"

definition HighWater :: "ConcurrencyTracker \<Rightarrow> int" where
  "HighWater t = tHighWater t"

datatype PushStatus =
    PushStatusNew | PushStatusUpdated | PushStatusSkipped | PushStatusError | PushStatusHeld

text \<open>
  What is read of a session's result. \<open>Error\<close> is its text, together with the reason
  that \<open>NotReadyReasonOf\<close> finds in its chain.
\<close>

datatype NotReadyReason = NotReadyNeedsIngest | NotReadyLatestAttemptKept | NotReadyNoModelReply

record SessionPushResult =
  srSessionID :: string
  srTitle :: string
  srStatus :: PushStatus
  srError :: string
  srNotReady :: "NotReadyReason option"
  srHeldReason :: string

record PushResult =
  resSessions :: "SessionPushResult list"
  resNew :: nat
  resUpdated :: nat
  resSkipped :: nat
  resErrors :: nat
  resHeld :: nat

definition countStatus :: "PushStatus \<Rightarrow> PushResult \<Rightarrow> PushResult" where
  "countStatus s r =
     (case s of
        PushStatusNew \<Rightarrow> r\<lparr> resNew := resNew r + 1 \<rparr>
      | PushStatusUpdated \<Rightarrow> r\<lparr> resUpdated := resUpdated r + 1 \<rparr>
      | PushStatusSkipped \<Rightarrow> r\<lparr> resSkipped := resSkipped r + 1 \<rparr>
      | PushStatusError \<Rightarrow> r\<lparr> resErrors := resErrors r + 1 \<rparr>
      | PushStatusHeld \<Rightarrow> r\<lparr> resHeld := resHeld r + 1 \<rparr>)"

definition isConnectionError :: "string \<Rightarrow> bool" where
  "isConnectionError msg =
     (sublist ''connection refused'' msg \<or> sublist ''no such host'' msg \<or>
      sublist ''network is unreachable'' msg \<or> sublist ''i/o timeout'' msg)"

definition connectionAbortThreshold :: nat where
  "connectionAbortThreshold = 3"

definition DefaultConcurrency :: int where
  "DefaultConcurrency = 5"

definition uploadLimit :: "int \<Rightarrow> nat" where
  "uploadLimit concurrency = nat (if concurrency \<le> 0 then DefaultConcurrency else concurrency)"

section \<open>The loop\<close>

text \<open>
  Where a goroutine is: before the abort check, past it, uploading, or holding its result
  before the second mutex section.
\<close>

datatype phase = Spawned | Checked | Uploading | Finished SessionPushResult

record uploadState =
  uPending :: "PushSessionRow list"
  uWorkers :: "(PushSessionRow \<times> phase) list"
  uTracker :: ConcurrencyTracker
  uConnErrors :: nat
  uAborted :: bool
  uResult :: PushResult
  uDropped :: "PushSessionRow list"

definition emptyResult :: PushResult where
  "emptyResult = \<lparr> resSessions = [], resNew = 0, resUpdated = 0, resSkipped = 0, resErrors = 0, resHeld = 0 \<rparr>"

definition startUpload :: "PushSessionRow list \<Rightarrow> uploadState" where
  "startUpload sessions =
     \<lparr> uPending = sessions, uWorkers = [], uTracker = \<lparr> tCurrent = 0, tHighWater = 0 \<rparr>,
       uConnErrors = 0, uAborted = False, uResult = emptyResult, uDropped = [] \<rparr>"

definition recordResult :: "SessionPushResult \<Rightarrow> uploadState \<Rightarrow> uploadState" where
  "recordResult sr st =
     (let result = countStatus (srStatus sr)
            ((uResult st)\<lparr> resSessions := resSessions (uResult st) @ [sr] \<rparr>);
          st = st\<lparr> uResult := result \<rparr>
      in if srStatus sr = PushStatusError \<and> isConnectionError (srError sr) then
           let n = uConnErrors st + 1
           in st\<lparr> uConnErrors := n, uAborted := (uAborted st \<or> n \<ge> connectionAbortThreshold) \<rparr>
         else if srStatus sr \<noteq> PushStatusError then st\<lparr> uConnErrors := 0 \<rparr>
         else st)"

text \<open>
  One step of one goroutine or of the spawning loop. \<open>uDropped\<close> is a ghost list: the
  sessions whose goroutine returned at the abort check. A worker is taken out of the group
  when its function returns.
\<close>

inductive upload_step :: "nat \<Rightarrow> uploadState \<Rightarrow> uploadState \<Rightarrow> bool" for limit where
  spawn: "uPending st = s # rest \<Longrightarrow> length (uWorkers st) < limit \<Longrightarrow>
    upload_step limit st (st\<lparr> uPending := rest, uWorkers := (s, Spawned) # uWorkers st \<rparr>)"
| skip: "uWorkers st = ws @ (s, Spawned) # vs \<Longrightarrow> uAborted st \<Longrightarrow>
    upload_step limit st (st\<lparr> uWorkers := ws @ vs, uDropped := s # uDropped st \<rparr>)"
| check: "uWorkers st = ws @ (s, Spawned) # vs \<Longrightarrow> \<not> uAborted st \<Longrightarrow>
    upload_step limit st (st\<lparr> uWorkers := ws @ (s, Checked) # vs \<rparr>)"
| enter: "uWorkers st = ws @ (s, Checked) # vs \<Longrightarrow>
    upload_step limit st (st\<lparr> uWorkers := ws @ (s, Uploading) # vs, uTracker := Enter (uTracker st) \<rparr>)"
| exit: "uWorkers st = ws @ (s, Uploading) # vs \<Longrightarrow> srSessionID sr = prSessionID s \<Longrightarrow>
    upload_step limit st (st\<lparr> uWorkers := ws @ (s, Finished sr) # vs, uTracker := Exit (uTracker st) \<rparr>)"
| finish: "uWorkers st = ws @ (s, Finished sr) # vs \<Longrightarrow>
    upload_step limit st (recordResult sr (st\<lparr> uWorkers := ws @ vs \<rparr>))"

inductive_cases upload_stepE: "upload_step limit st st'"

inductive upload_reach :: "nat \<Rightarrow> PushSessionRow list \<Rightarrow> uploadState \<Rightarrow> bool" for limit sessions where
  start: "upload_reach limit sessions (startUpload sessions)"
| step: "upload_reach limit sessions st \<Longrightarrow> upload_step limit st st' \<Longrightarrow> upload_reach limit sessions st'"

section \<open>Invariants\<close>

definition uploading :: "uploadState \<Rightarrow> nat" where
  "uploading st = length (filter (\<lambda>w. snd w = Uploading) (uWorkers st))"

definition connFailures :: "uploadState \<Rightarrow> nat" where
  "connFailures st = length (filter (\<lambda>r. srStatus r = PushStatusError \<and> isConnectionError (srError r))
     (resSessions (uResult st)))"

definition statusCount :: "PushStatus \<Rightarrow> PushResult \<Rightarrow> nat" where
  "statusCount s r = length (filter (\<lambda>x. srStatus x = s) (resSessions r))"

definition counted :: "PushResult \<Rightarrow> bool" where
  "counted r \<longleftrightarrow> resNew r = statusCount PushStatusNew r \<and> resUpdated r = statusCount PushStatusUpdated r \<and>
     resSkipped r = statusCount PushStatusSkipped r \<and> resErrors r = statusCount PushStatusError r \<and>
     resHeld r = statusCount PushStatusHeld r"

definition workerIDs :: "uploadState \<Rightarrow> string multiset" where
  "workerIDs st = mset (map (prSessionID \<circ> fst) (uWorkers st))"

definition uploadInv :: "nat \<Rightarrow> PushSessionRow list \<Rightarrow> uploadState \<Rightarrow> bool" where
  "uploadInv limit sessions st \<longleftrightarrow>
     length (uWorkers st) \<le> limit \<and>
     tCurrent (uTracker st) = int (uploading st) \<and>
     tCurrent (uTracker st) \<le> tHighWater (uTracker st) \<and> tHighWater (uTracker st) \<le> int limit \<and>
     (\<forall>s sr. (s, Finished sr) \<in> set (uWorkers st) \<longrightarrow> srSessionID sr = prSessionID s) \<and>
     mset (map prSessionID sessions) =
       mset (map prSessionID (uPending st)) + workerIDs st +
       mset (map srSessionID (resSessions (uResult st))) + mset (map prSessionID (uDropped st)) \<and>
     counted (uResult st) \<and>
     uConnErrors st \<le> connFailures st \<and>
     (uAborted st \<longrightarrow> connectionAbortThreshold \<le> connFailures st) \<and>
     (\<not> uAborted st \<longrightarrow> uDropped st = [])"

lemma counted_countStatus:
  "counted r \<Longrightarrow> counted (countStatus (srStatus x) (r\<lparr> resSessions := resSessions r @ [x] \<rparr>))"
  by (cases "srStatus x") (auto simp: counted_def countStatus_def statusCount_def)

lemma countStatus_sessions [simp]: "resSessions (countStatus s r) = resSessions r"
  by (cases s) (simp_all add: countStatus_def)

lemma recordResult_fields [simp]:
  "uWorkers (recordResult sr st) = uWorkers st" "uPending (recordResult sr st) = uPending st"
  "uTracker (recordResult sr st) = uTracker st" "uDropped (recordResult sr st) = uDropped st"
  "uResult (recordResult sr st) = countStatus (srStatus sr)
     ((uResult st)\<lparr> resSessions := resSessions (uResult st) @ [sr] \<rparr>)"
  by (simp_all add: recordResult_def Let_def)

lemma recordResult_connErrors:
  "uConnErrors st \<le> connFailures st \<Longrightarrow> uConnErrors (recordResult sr st) \<le> connFailures (recordResult sr st)"
  by (auto simp: recordResult_def Let_def connFailures_def)

lemma recordResult_aborted:
  assumes "uConnErrors st \<le> connFailures st"
    and "uAborted st \<longrightarrow> connectionAbortThreshold \<le> connFailures st"
    and "uAborted (recordResult sr st)"
  shows "connectionAbortThreshold \<le> connFailures (recordResult sr st)"
  using assms by (auto simp: recordResult_def Let_def connFailures_def split: if_splits)

lemma uploadInv_start: "uploadInv limit sessions (startUpload sessions)"
  by (simp add: uploadInv_def startUpload_def uploading_def counted_def statusCount_def emptyResult_def workerIDs_def
      connFailures_def)

lemma uploading_le: "uploading st \<le> length (uWorkers st)"
  by (simp add: uploading_def)

lemma uploadInv_step:
  assumes "uploadInv limit sessions st" and "upload_step limit st st'"
  shows "uploadInv limit sessions st'"
  using assms(2)
proof (cases rule: upload_step.cases)
  case (spawn s rest)
  with assms(1) show ?thesis
    by (auto simp: uploadInv_def uploading_def workerIDs_def connFailures_def)
next
  case (skip ws s vs)
  with assms(1) show ?thesis
    by (auto simp: uploadInv_def uploading_def workerIDs_def connFailures_def)
next
  case (check ws s vs)
  with assms(1) show ?thesis
    by (auto simp: uploadInv_def uploading_def workerIDs_def connFailures_def)
next
  case (enter ws s vs)
  have "uploading st < length (uWorkers st)"
    using enter by (auto simp: uploading_def less_Suc_eq_le intro: add_mono)
  with enter assms(1) show ?thesis
    by (auto simp: uploadInv_def uploading_def workerIDs_def connFailures_def Enter_def Let_def)
next
  case (exit ws s vs sr)
  with assms(1) show ?thesis
    by (auto simp: uploadInv_def uploading_def workerIDs_def connFailures_def Exit_def)
next
  case (finish ws s sr vs)
  let ?st = "st\<lparr> uWorkers := ws @ vs \<rparr>"
  have sid: "srSessionID sr = prSessionID s" using finish assms(1) by (auto simp: uploadInv_def)
  have conn: "uConnErrors ?st \<le> connFailures ?st"
    "uAborted ?st \<longrightarrow> connectionAbortThreshold \<le> connFailures ?st"
    using assms(1) by (auto simp: uploadInv_def connFailures_def)
  have "\<not> uAborted st' \<longrightarrow> \<not> uAborted st"
    using finish by (auto simp: recordResult_def Let_def split: if_splits)
  then show ?thesis
    using finish assms(1) sid recordResult_connErrors [OF conn(1), of sr]
      recordResult_aborted [OF conn, of sr]
    by (auto simp: uploadInv_def uploading_def workerIDs_def counted_countStatus)
qed

lemma upload_reach_inv: "upload_reach limit sessions st \<Longrightarrow> uploadInv limit sessions st"
  by (induction rule: upload_reach.induct) (auto intro: uploadInv_start uploadInv_step)

section \<open>What every interleaving guarantees\<close>

text \<open>
  C18: The tracker is exact and bounded. In every state any interleaving reaches, the
  tracker's current count is the number of uploads in progress, the guard in \<open>Exit\<close> never
  hides an unmatched call, and the reported high-water mark lies between that number and the
  configured limit.
\<close>

theorem upload_concurrency_bounded:
  assumes "upload_reach limit sessions st"
  shows "tCurrent (uTracker st) = int (uploading st) \<and>
    int (uploading st) \<le> HighWater (uTracker st) \<and> HighWater (uTracker st) \<le> int limit \<and>
    length (uWorkers st) \<le> limit"
  using upload_reach_inv [OF assms] by (auto simp: uploadInv_def HighWater_def)


primrec phaseWeight :: "phase \<Rightarrow> nat" where
  "phaseWeight Spawned = 4"
| "phaseWeight Checked = 3"
| "phaseWeight Uploading = 2"
| "phaseWeight (Finished sr) = 1"

definition uploadWork :: "uploadState \<Rightarrow> nat" where
  "uploadWork st = 5 * length (uPending st) + sum_list (map (phaseWeight \<circ> snd) (uWorkers st))"

lemma upload_step_decreases: "upload_step limit st st' \<Longrightarrow> uploadWork st' < uploadWork st"
  by (induction rule: upload_step.induct) (simp_all add: uploadWork_def)

lemma upload_run_bound:
  "(upload_step limit ^^ k) st st' \<Longrightarrow> k + uploadWork st' \<le> uploadWork st"
proof (induction k arbitrary: st')
  case (Suc k)
  then obtain mid where "(upload_step limit ^^ k) st mid" "upload_step limit mid st'" by auto
  with Suc.IH [of mid] upload_step_decreases [of limit mid st'] show ?case by simp
qed simp

lemma upload_progress:
  assumes "0 < limit" and "length (uWorkers st) \<le> limit"
    and "uPending st \<noteq> [] \<or> uWorkers st \<noteq> []"
  shows "\<exists>st'. upload_step limit st st'"
proof (cases "uWorkers st")
  case Nil
  with assms obtain s rest where "uPending st = s # rest" "length (uWorkers st) < limit"
    by (cases "uPending st") auto
  then show ?thesis using spawn by blast
next
  case (Cons w vs)
  obtain s ph where w: "w = (s, ph)" by (cases w)
  with Cons have ws: "uWorkers st = [] @ (s, ph) # vs" by simp
  show ?thesis
  proof (cases ph)
    case Spawned
    with ws skip check show ?thesis by (cases "uAborted st") blast+
  next
    case Uploading
    have "srSessionID \<lparr> srSessionID = prSessionID s, srTitle = [], srStatus = PushStatusNew, srError = [],
      srNotReady = None, srHeldReason = [] \<rparr> = prSessionID s"
      by simp
    with ws Uploading exit show ?thesis by blast
  qed (use ws enter finish in blast)+
qed


section \<open>A run to the end\<close>

definition exampleOutcome :: SessionPushResult where
  "exampleOutcome = \<lparr> srSessionID = ''a'', srTitle = [], srStatus = PushStatusNew, srError = [],
     srNotReady = None, srHeldReason = [] \<rparr>"

definition exampleUploading :: uploadState where
  "exampleUploading = (startUpload [])\<lparr> uWorkers := [(exampleRow ''a'', Uploading)],
     uTracker := \<lparr> tCurrent = 1, tHighWater = 1 \<rparr> \<rparr>"

lemma example_uploading_reached: "upload_reach 2 [exampleRow ''a''] exampleUploading"
proof -
  let ?row = "exampleRow ''a''"
  let ?init = "startUpload [?row]"
  let ?spawned = "?init\<lparr> uPending := [], uWorkers := [(?row, Spawned)] \<rparr>"
  let ?checked = "?spawned\<lparr> uWorkers := [(?row, Checked)] \<rparr>"
  have "upload_step 2 ?init ?spawned" using spawn [of ?init ?row "[]" 2] by (simp add: startUpload_def)
  then have "upload_reach 2 [?row] ?spawned" using upload_reach.step [OF upload_reach.start] by blast
  moreover have "upload_step 2 ?spawned ?checked" using check [of ?spawned "[]" ?row "[]" 2] by (simp add: startUpload_def)
  ultimately have "upload_reach 2 [?row] ?checked" using upload_reach.step by blast
  moreover have "upload_step 2 ?checked exampleUploading"
    using enter [of ?checked "[]" ?row "[]" 2] by (simp add: startUpload_def exampleUploading_def Enter_def)
  ultimately show ?thesis using upload_reach.step by blast
qed

definition exampleDone :: uploadState where
  "exampleDone = (startUpload [])\<lparr> uTracker := \<lparr> tCurrent = 0, tHighWater = 1 \<rparr>,
     uResult := emptyResult\<lparr> resSessions := [exampleOutcome], resNew := 1 \<rparr> \<rparr>"

lemma example_done_reached: "upload_reach 2 [exampleRow ''a''] exampleDone"
proof -
  let ?row = "exampleRow ''a''"
  let ?finished = "exampleUploading\<lparr> uWorkers := [(?row, Finished exampleOutcome)],
    uTracker := Exit (uTracker exampleUploading) \<rparr>"
  have "upload_step 2 exampleUploading ?finished"
    using exit [of exampleUploading "[]" ?row "[]" exampleOutcome 2]
    by (simp add: exampleUploading_def exampleOutcome_def exampleRow_def)
  with example_uploading_reached have "upload_reach 2 [?row] ?finished" by (rule upload_reach.step)
  moreover have "upload_step 2 ?finished exampleDone"
    using finish [of ?finished "[]" ?row exampleOutcome "[]" 2]
    by (simp add: exampleUploading_def exampleDone_def exampleOutcome_def startUpload_def recordResult_def
        countStatus_def emptyResult_def Exit_def)
  ultimately show ?thesis by (rule upload_reach.step)
qed

theorem upload_concurrency_bounded_witness:
  "1 \<le> HighWater (uTracker exampleUploading) \<and> HighWater (uTracker exampleUploading) \<le> 2"
  using upload_concurrency_bounded [OF example_uploading_reached]
  by (simp add: uploading_def exampleUploading_def)



end
