(* ===== verification/Glob.thy ===== *)
theory Glob
  imports Remote
begin

text \<open>
  The parts of Go's standard library behind the folder globs: decoding one code point of a
  UTF-8 string (package unicode/utf8) and \<open>filepath.Match\<close> on a Unix system, which
  \<open>path.Match\<close> equals there. A result of \<open>None\<close> is \<open>ErrBadPattern\<close>.
\<close>

section \<open>Code points\<close>

definition rune_error :: nat where
  "rune_error = 65533"

definition continuation :: "nat \<Rightarrow> nat \<Rightarrow> char \<Rightarrow> bool" where
  "continuation lo hi c = (lo \<le> byte c \<and> byte c \<le> hi)"

abbreviation tail_byte :: "char \<Rightarrow> bool" where
  "tail_byte \<equiv> continuation 128 191"

text \<open>
  The code point at the front of a string and its width in bytes. The front of an invalid
  encoding is the error code point with width one; the empty string gives width zero. The
  bounds on the second byte exclude overlong forms, surrogates and values above U+10FFFF.
\<close>

definition decode_rune :: "string \<Rightarrow> nat \<times> nat" where
  "decode_rune s =
     (case s of
        [] \<Rightarrow> (rune_error, 0)
      | a # r \<Rightarrow>
          if byte a < 128 then (byte a, 1)
          else if 194 \<le> byte a \<and> byte a \<le> 223 \<and> length r \<ge> 1 \<and> tail_byte (r ! 0)
          then ((byte a - 192) * 64 + (byte (r ! 0) - 128), 2)
          else if 224 \<le> byte a \<and> byte a \<le> 239 \<and> length r \<ge> 2 \<and>
                  continuation (if byte a = 224 then 160 else 128) (if byte a = 237 then 159 else 191) (r ! 0) \<and>
                  tail_byte (r ! 1)
          then ((byte a - 224) * 4096 + (byte (r ! 0) - 128) * 64 + (byte (r ! 1) - 128), 3)
          else if 240 \<le> byte a \<and> byte a \<le> 244 \<and> length r \<ge> 3 \<and>
                  continuation (if byte a = 240 then 144 else 128) (if byte a = 244 then 143 else 191) (r ! 0) \<and>
                  tail_byte (r ! 1) \<and> tail_byte (r ! 2)
          then ((byte a - 240) * 262144 + (byte (r ! 0) - 128) * 4096 + (byte (r ! 1) - 128) * 64 +
                (byte (r ! 2) - 128), 4)
          else (rune_error, 1))"

definition bad_rune :: "string \<Rightarrow> bool" where
  "bad_rune s = (s \<noteq> [] \<and> decode_rune s = (rune_error, 1))"

lemma decode_rune_width:
  "s \<noteq> [] \<Longrightarrow> 1 \<le> snd (decode_rune s) \<and> snd (decode_rune s) \<le> length s"
  by (auto simp: decode_rune_def split: list.splits)

lemma decode_rune_Nil [simp]: "decode_rune [] = (rune_error, 0)"
  by (simp add: decode_rune_def)

lemma drop_rune_shorter:
  assumes "s \<noteq> []"
  shows "length (drop (snd (decode_rune s)) s) < length s"
  using decode_rune_width [OF assms] assms by simp

text \<open>A string is valid UTF-8 when no code point of it decodes to an error.\<close>

function valid_utf8 :: "string \<Rightarrow> bool" where
  "valid_utf8 s =
     (if s = [] then True else if bad_rune s then False
      else valid_utf8 (drop (snd (decode_rune s)) s))"
  by pat_completeness auto
termination
  by (relation "measure length") (use drop_rune_shorter in auto)

declare valid_utf8.simps [simp del]

section \<open>Pattern matching\<close>

text \<open>
  \<open>getEsc\<close>: one character of a class, possibly escaped, and what follows it; the class is
  not over, so something must follow.
\<close>

definition getEsc :: "string \<Rightarrow> (nat \<times> string) option" where
  "getEsc chunk =
     (if chunk = [] \<or> hd chunk = CHR ''-'' \<or> hd chunk = CHR '']'' then None
      else
        let c = (if hd chunk = backslash then tl chunk else chunk)
        in if c = [] then None
           else
             let (r, n) = decode_rune c; rest = drop n c
             in if r = rune_error \<and> n = 1 then None
                else if rest = [] then None
                else Some (r, rest))"

lemma getEsc_shorter: "getEsc chunk = Some (r, rest) \<Longrightarrow> rest \<noteq> [] \<and> length rest < length chunk"
proof -
  assume A: "getEsc chunk = Some (r, rest)"
  let ?c = "if hd chunk = backslash then tl chunk else chunk"
  from A have c: "chunk \<noteq> []" "?c \<noteq> []" "rest = drop (snd (decode_rune ?c)) ?c" "rest \<noteq> []"
    by (auto simp: getEsc_def Let_def split: if_splits prod.splits)
  have "length rest < length ?c" unfolding c(3) using c(2) by (rule drop_rune_shorter)
  moreover have "length ?c \<le> length chunk" by simp
  ultimately have "length rest < length chunk" by (rule less_le_trans)
  with c(4) show ?thesis by blast
qed

text \<open>
  The loop over the ranges of a class: whether the code point is in one of them, and the
  pattern after the closing bracket. \<open>some\<close> says that a range has been read.
\<close>

function classRanges :: "nat \<Rightarrow> bool \<Rightarrow> bool \<Rightarrow> string \<Rightarrow> (bool \<times> string) option" where
  "classRanges r match some chunk =
     (if some \<and> chunk \<noteq> [] \<and> hd chunk = CHR '']'' then Some (match, tl chunk)
      else case getEsc chunk of
        None \<Rightarrow> None
      | Some (lo, c1) \<Rightarrow>
          if hd c1 = CHR ''-'' then
            (case getEsc (tl c1) of
               None \<Rightarrow> None
             | Some (hi, c2) \<Rightarrow> classRanges r (match \<or> lo \<le> r \<and> r \<le> hi) True c2)
          else classRanges r (match \<or> lo \<le> r \<and> r \<le> lo) True c1)"
  by pat_completeness auto
termination
proof (relation "measure (\<lambda>(r, m, sm, chunk). length chunk)")
  fix r :: nat and match some :: bool and chunk c1 c2 :: string and p q :: "nat \<times> string" and lo hi :: nat
  assume "getEsc chunk = Some p" "(lo, c1) = p" "getEsc (tl c1) = Some q" "(hi, c2) = q"
  then have "length c2 < length (tl c1)" "length c1 < length chunk"
    using getEsc_shorter by metis+
  then show "((r, match \<or> lo \<le> r \<and> r \<le> hi, True, c2), r, match, some, chunk)
      \<in> measure (\<lambda>(r, m, sm, chunk). length chunk)" by simp
next
  fix r :: nat and match some :: bool and chunk c1 :: string and p :: "nat \<times> string" and lo :: nat
  assume "getEsc chunk = Some p" "(lo, c1) = p"
  then have "length c1 < length chunk" using getEsc_shorter by metis
  then show "((r, match \<or> lo \<le> r \<and> r \<le> lo, True, c1), r, match, some, chunk)
      \<in> measure (\<lambda>(r, m, sm, chunk). length chunk)" by simp
qed simp

declare classRanges.simps [simp del]

lemma classRanges_shorter:
  "classRanges r match some chunk = Some (m, rest) \<Longrightarrow> length rest < length chunk"
proof (induction r match some chunk rule: classRanges.induct)
  case (1 r match some chunk)
  show ?case
  proof (cases "some \<and> chunk \<noteq> [] \<and> hd chunk = CHR '']''")
    case True
    with "1.prems" show ?thesis by (cases chunk) (auto simp: classRanges.simps [of r match True])
  next
    case False
    with "1.prems" obtain lo c1 where lo: "getEsc chunk = Some (lo, c1)"
      by (auto simp: classRanges.simps [of r match some chunk] split: option.splits if_splits)
    then have short: "length c1 < length chunk" using getEsc_shorter by blast
    show ?thesis
    proof (cases "hd c1 = CHR ''-''")
      case True
      with "1.prems" False lo obtain hi c2 where hi: "getEsc (tl c1) = Some (hi, c2)"
        and "classRanges r (match \<or> lo \<le> r \<and> r \<le> hi) True c2 = Some (m, rest)"
        by (auto simp: classRanges.simps [of r match some chunk] split: option.splits)
      then have "length rest < length c2" using "1.IH"(1) [OF False lo refl True hi refl] by blast
      moreover have "length c2 < length (tl c1)" using hi getEsc_shorter by blast
      ultimately show ?thesis using short by simp
    next
      case minus: False
      with "1.prems" False lo have "classRanges r (match \<or> lo \<le> r \<and> r \<le> lo) True c1 = Some (m, rest)"
        by (simp add: classRanges.simps [of r match some chunk])
      then have "length rest < length c1" using "1.IH"(2) [OF False lo refl minus] by blast
      with short show ?thesis by simp
    qed
  qed
qed

text \<open>
  \<open>matchChunk\<close>: a chunk without \<open>*\<close> against the front of the name. After the match has failed
  the rest of the chunk is still read, for its syntax. The result is an error, a failure
  (\<open>Some None\<close>) or what is left of the name.
\<close>

function matchChunk :: "bool \<Rightarrow> string \<Rightarrow> string \<Rightarrow> string option option" where
  "matchChunk failed chunk s =
     (if chunk = [] then Some (if failed then None else Some s)
      else
        let c = hd chunk; cs = tl chunk; failed = (failed \<or> s = [])
        in if c = CHR ''['' then
             (let (r, n) = (if failed then (0, 0) else decode_rune s);
                  negated = (cs \<noteq> [] \<and> hd cs = CHR ''^'');
                  cs = (if negated then tl cs else cs)
              in case classRanges r False False cs of
                   None \<Rightarrow> None
                 | Some (match, rest) \<Rightarrow> matchChunk (failed \<or> match = negated) rest (drop n s))
           else if c = CHR ''?'' then
             (if failed then matchChunk True cs s
              else matchChunk (hd s = slash) cs (drop (snd (decode_rune s)) s))
           else if c = backslash \<and> cs = [] then None
           else
             let (c, cs) = (if c = backslash then (hd cs, tl cs) else (c, cs))
             in if failed then matchChunk True cs s else matchChunk (c \<noteq> hd s) cs (tl s))"
  by pat_completeness auto
termination
proof (relation "measure (\<lambda>(failed, chunk, s). length chunk)", goal_cases)
  case (2 failed chunk s c cs f p r n negated cs' q match rest)
  then have "classRanges r False False cs' = Some (match, rest)" by simp
  then have "length rest < length cs'" by (rule classRanges_shorter)
  moreover have "length cs' \<le> length chunk" using 2 by auto
  ultimately show ?case by simp
qed (auto simp: neq_Nil_conv split: if_splits)

declare matchChunk.simps [simp del]

text \<open>
  \<open>scanChunk\<close>: whether the pattern starts with \<open>*\<close>, the chunk up to the next \<open>*\<close> outside a
  class, and the rest.
\<close>

fun scanPlain :: "bool \<Rightarrow> string \<Rightarrow> string \<times> string" where
  "scanPlain inrange [] = ([], [])"
| "scanPlain inrange [c] = (if c = CHR ''*'' \<and> \<not> inrange then ([], [c]) else ([c], []))"
| "scanPlain inrange (c # d # cs) =
     (if c = backslash then (case scanPlain inrange cs of (a, b) \<Rightarrow> (c # d # a, b))
      else if c = CHR ''*'' \<and> \<not> inrange then ([], c # d # cs)
      else (case scanPlain (if c = CHR ''['' then True else if c = CHR '']'' then False else inrange) (d # cs) of
              (a, b) \<Rightarrow> (c # a, b)))"

definition scanChunk :: "string \<Rightarrow> bool \<times> string \<times> string" where
  "scanChunk pattern =
     (let p = dropWhile (\<lambda>c. c = CHR ''*'') pattern
      in (p \<noteq> pattern, scanPlain False p))"

lemma scanPlain_append: "scanPlain inrange p = (a, b) \<Longrightarrow> p = a @ b"
  by (induction inrange p arbitrary: a b rule: scanPlain.induct)
    (auto split: if_splits prod.splits)

lemma scanPlain_progress: "p \<noteq> [] \<Longrightarrow> hd p \<noteq> CHR ''*'' \<Longrightarrow> fst (scanPlain inrange p) \<noteq> []"
  by (cases "(inrange, p)" rule: scanPlain.cases) (auto split: prod.splits)

lemma scanChunk_shorter:
  assumes "scanChunk pattern = (star, chunk, rest)" and "pattern \<noteq> []"
  shows "length rest < length pattern"
proof -
  let ?p = "dropWhile (\<lambda>c. c = CHR ''*'') pattern"
  have sc: "scanPlain False ?p = (chunk, rest)" and st: "star \<longleftrightarrow> ?p \<noteq> pattern"
    using assms(1) by (auto simp: scanChunk_def Let_def)
  then have len: "length ?p = length chunk + length rest" using scanPlain_append by fastforce
  have le: "length ?p \<le> length pattern" by (rule length_dropWhile_le)
  show ?thesis
  proof (cases "?p = pattern")
    case True
    then have "hd pattern \<noteq> CHR ''*''" using assms(2) hd_dropWhile [of "\<lambda>c. c = CHR ''*''" pattern] by simp
    then have "chunk \<noteq> []" using scanPlain_progress [of pattern False] assms(2) sc True by simp
    with len True show ?thesis by (cases chunk) auto
  next
    case False
    have "length ?p < length pattern"
    proof (rule ccontr)
      assume "\<not> length ?p < length pattern"
      then have "length (takeWhile (\<lambda>c. c = CHR ''*'') pattern) = 0"
        using le takeWhile_dropWhile_id [of "\<lambda>c. c = CHR ''*''" pattern]
        by (metis add_diff_cancel_right' diff_is_0_eq length_append not_le_imp_less)
      then show False
        using False takeWhile_dropWhile_id [of "\<lambda>c. c = CHR ''*''" pattern] by simp
    qed
    with len show ?thesis by simp
  qed
qed

text \<open>The loop that looks for a chunk after a \<open>*\<close>, one byte further each time.\<close>

fun skipMatch :: "string \<Rightarrow> bool \<Rightarrow> string \<Rightarrow> string option option" where
  "skipMatch chunk atEnd [] = Some None"
| "skipMatch chunk atEnd (n # ns) =
     (if n = slash then Some None
      else case matchChunk False chunk ns of
        None \<Rightarrow> None
      | Some (Some t) \<Rightarrow> if atEnd \<and> t \<noteq> [] then skipMatch chunk atEnd ns else Some (Some t)
      | Some None \<Rightarrow> skipMatch chunk atEnd ns)"

text \<open>After a failure the remaining chunks are only checked for their syntax.\<close>

function checkRest :: "string \<Rightarrow> bool option" where
  "checkRest pattern =
     (if pattern = [] then Some False
      else case scanChunk pattern of (_, chunk, rest) \<Rightarrow>
        if matchChunk False chunk [] = None then None else checkRest rest)"
  by pat_completeness auto
termination
  by (relation "measure length") (auto dest!: scanChunk_shorter [OF sym])

declare checkRest.simps [simp del]

function glob_match :: "string \<Rightarrow> string \<Rightarrow> bool option" where
  "glob_match pattern name =
     (if pattern = [] then Some (name = [])
      else case scanChunk pattern of (star, chunk, rest) \<Rightarrow>
        if star \<and> chunk = [] then Some (slash \<notin> set name)
        else case matchChunk False chunk name of
          None \<Rightarrow> None
        | Some m \<Rightarrow>
            if m \<noteq> None \<and> (the m = [] \<or> rest \<noteq> []) then glob_match rest (the m)
            else if star then
              (case skipMatch chunk (rest = []) name of
                 None \<Rightarrow> None
               | Some (Some t) \<Rightarrow> glob_match rest t
               | Some None \<Rightarrow> checkRest rest)
            else checkRest rest)"
  by pat_completeness auto
termination
  by (relation "measure (\<lambda>(p, n). length p)") (auto dest!: scanChunk_shorter [OF sym])

declare glob_match.simps [simp del]

section \<open>Escaped literals\<close>

text \<open>The four characters with a meaning, and a string with each of them escaped.\<close>

definition glob_meta :: "char \<Rightarrow> bool" where
  "glob_meta c = (c = CHR ''*'' \<or> c = CHR ''?'' \<or> c = CHR ''['' \<or> c = backslash)"

fun glob_escape :: "string \<Rightarrow> string" where
  "glob_escape [] = []"
| "glob_escape (c # cs) = (if glob_meta c then backslash # c # glob_escape cs else c # glob_escape cs)"

lemma matchChunk_Nil [simp]: "matchChunk failed [] s = Some (if failed then None else Some s)"
  by (simp add: matchChunk.simps)

lemma matchChunk_literal:
  assumes "\<not> glob_meta c"
  shows "matchChunk failed (c # cs) s =
    (if failed \<or> s = [] then matchChunk True cs s else matchChunk (c \<noteq> hd s) cs (tl s))"
  using assms by (subst matchChunk.simps) (auto simp: glob_meta_def Let_def)

lemma matchChunk_escaped:
  "matchChunk failed (backslash # c # cs) s =
    (if failed \<or> s = [] then matchChunk True cs s else matchChunk (c \<noteq> hd s) cs (tl s))"
  by (subst matchChunk.simps) (auto simp: Let_def)

lemma matchChunk_failed: "matchChunk True (glob_escape p) s = Some None"
  by (induction p arbitrary: s) (auto simp: matchChunk_literal matchChunk_escaped)

lemma matchChunk_glob_escape:
  "matchChunk False (glob_escape p) s = Some (if prefix p s then Some (drop (length p) s) else None)"
proof (induction p arbitrary: s)
  case (Cons c p)
  have "matchChunk False (glob_escape (c # p)) s =
      (if s = [] then Some None else matchChunk (c \<noteq> hd s) (glob_escape p) (tl s))"
    by (simp add: matchChunk_literal matchChunk_escaped matchChunk_failed)
  with Cons show ?case by (cases s; cases "c = hd s") (auto simp: matchChunk_failed)
qed simp

lemma glob_escape_eq_Nil [simp]: "glob_escape p = [] \<longleftrightarrow> p = []"
  by (cases p) auto

lemma scanPlain_glob_escape: "scanPlain False (glob_escape p) = (glob_escape p, [])"
proof (induction p)
  case (Cons c p)
  then show ?case
    by (cases "glob_escape p") (auto simp: glob_meta_def split: if_splits)
qed simp

lemma scanChunk_glob_escape:
  "scanChunk (glob_escape p) = (False, glob_escape p, [])"
proof -
  have "dropWhile (\<lambda>c. c = CHR ''*'') (glob_escape p) = glob_escape p"
    by (cases p) (auto simp: glob_meta_def)
  then show ?thesis by (simp add: scanChunk_def scanPlain_glob_escape)
qed

lemma glob_match_escape: "glob_match (glob_escape p) name = Some (name = p)"
proof (cases "p = []")
  case True
  then show ?thesis by (simp add: glob_match.simps)
next
  case False
  have nil: "glob_match [] t = Some (t = [])" "checkRest [] = Some False" for t
    by (simp_all add: glob_match.simps checkRest.simps)
  show ?thesis
    using False
    by (subst glob_match.simps)
      (auto simp: scanChunk_glob_escape matchChunk_glob_escape nil prefix_def)
qed

end
