(* ===== verification/Auto_Publish.thy ===== *)
theory Auto_Publish
  imports Glob Push
begin

text \<open>
  The auto-publish rules: \<open>internal/autopublish/rules.go\<close> (what a rule covers and what the
  rules decide for a repository), \<open>file.go\<close> (\<open>validateRules\<close>), \<open>repositories.go\<close> (the
  repository of a session, the recorded repositories and the one an install may touch),
  \<open>internal/village/collectives.go\<close> (\<open>IsCollectiveID\<close>) and the plan of a push,
  \<open>cmd/peasant/cmd_push_auto_publish.go\<close>.

  What the code asks of the machine is the argument \<open>Env\<close>: the home directory, symbolic
  links, the working directory, directories and files, and git. So are the two functions of
  the external schema package it calls: \<open>RemoteLabel\<close>, which reads a remote into
  \<open>host:path\<close>, and the request validation. Paths are POSIX paths.
\<close>

section \<open>Rules, repositories and the machine\<close>

datatype RuleKind = RuleFolder | RuleRemote | RuleOther string

record Rule =
  rID :: string
  rKind :: RuleKind
  rMatch :: string
  rEvents :: "string list"
  rCollectives :: "string list"

record Repository =
  repoRoot :: string
  repoMainRoot :: string
  repoGone :: string
  repoRemote :: string
  repoOrigin :: string

record RuleRequest =
  reqKind :: RuleKind
  reqMatch :: string
  reqEvents :: "string list"
  reqCollectives :: "string list"

record Env =
  envHome :: "string option"
  envCwd :: "string option"
  envEvalSymlinks :: "string \<Rightarrow> string option"
  envIsDir :: "string \<Rightarrow> bool"
  envReadFile :: "string \<Rightarrow> string option"
  envGitRoot :: "string \<Rightarrow> string option"
  envRemoteURL :: "string \<Rightarrow> string"
  envOriginURL :: "string \<Rightarrow> string"
  envRemoteLabel :: "string \<Rightarrow> string option"
  envRequestValid :: "RuleRequest \<Rightarrow> bool"

section \<open>Folder globs\<close>

definition splitPath :: "string \<Rightarrow> string list" where
  "splitPath p = filter (\<lambda>segment. segment \<noteq> []) (split_char slash p)"

text \<open>\<open>None\<close> is an error.\<close>

definition folderSegments :: "Env \<Rightarrow> string \<Rightarrow> string list option" where
  "folderSegments env pattern =
     (let pattern = trim_space pattern;
          absolute = (\<lambda>p. if is_abs p then Some (splitPath (path_clean p)) else None)
      in if pattern = ''~'' \<or> prefix ''~/'' pattern then
           (case envHome env of
              None \<Rightarrow> None
            | Some home \<Rightarrow> absolute (path_join [home, trim_prefix pattern ''~'']))
         else absolute pattern)"

fun matchSegments :: "string list \<Rightarrow> string list \<Rightarrow> bool" where
  "matchSegments [] path = (path = [])"
| "matchSegments (p # ps) path =
     (if p = ''**'' then list_ex (\<lambda>skip. matchSegments ps (drop skip path)) [0..<Suc (length path)]
      else case path of
             [] \<Rightarrow> False
           | x # xs \<Rightarrow> glob_match p x = Some True \<and> matchSegments ps xs)"

definition literalPrefix :: "string list \<Rightarrow> nat" where
  "literalPrefix segments = length (takeWhile (\<lambda>s. \<not> list_ex glob_meta s) segments)"

text \<open>The second loop of \<open>resolveLiteralPrefix\<close>, from \<open>literal\<close> segments downwards.\<close>

fun resolveFrom :: "Env \<Rightarrow> string list \<Rightarrow> nat \<Rightarrow> string list" where
  "resolveFrom env segments 0 = segments"
| "resolveFrom env segments (Suc n) =
     (case envEvalSymlinks env (slash # join ''/'' (take (Suc n) segments)) of
        Some real \<Rightarrow> splitPath real @ drop (Suc n) segments
      | None \<Rightarrow> resolveFrom env segments n)"

definition resolveLiteralPrefix :: "Env \<Rightarrow> string list \<Rightarrow> string list" where
  "resolveLiteralPrefix env segments = resolveFrom env segments (literalPrefix segments)"

definition folderMatches :: "Env \<Rightarrow> string \<Rightarrow> string \<Rightarrow> bool" where
  "folderMatches env pattern root =
     (if trim_space root = [] then False
      else case folderSegments env pattern of
             None \<Rightarrow> False
           | Some segments \<Rightarrow>
               let path = splitPath (path_clean root);
                   resolved = resolveLiteralPrefix env segments
               in matchSegments segments path \<or> (resolved \<noteq> segments \<and> matchSegments resolved path))"

text \<open>
  The inner loop of \<open>FolderMatch\<close> ranges over code points: \<open>WriteRune\<close> writes the bytes of
  a decoded one again, and the replacement character U+FFFD for a byte that starts none.
\<close>

function escapeSegment :: "string \<Rightarrow> string" where
  "escapeSegment s =
     (if s = [] then []
      else let w = snd (decode_rune s)
           in (if w = 1 \<and> glob_meta (hd s) then [backslash] else []) @
              (if bad_rune s then [CHR 0xEF, CHR 0xBF, CHR 0xBD] else take w s) @
              escapeSegment (drop w s))"
  by pat_completeness auto
termination
  by (relation "measure length") (use drop_rune_shorter in auto)

declare escapeSegment.simps [simp del]

definition FolderMatch :: "string \<Rightarrow> string" where
  "FolderMatch root = slash # join ''/'' (map escapeSegment (splitPath (path_clean root)))"

section \<open>Remote patterns\<close>

definition isPort :: "string \<Rightarrow> bool" where
  "isPort rest =
     (case cut_char slash rest of
        (port, found) \<Rightarrow> found \<noteq> None \<and> port \<noteq> [] \<and> list_all (\<lambda>c. CHR ''0'' \<le> c \<and> c \<le> CHR ''9'') port)"

definition remotePatternLabel :: "Env \<Rightarrow> string \<Rightarrow> string option" where
  "remotePatternLabel env pattern =
     (let pattern = trim_space pattern;
          pattern =
            (if \<not> sublist ''://'' pattern \<and> CHR ''@'' \<notin> set pattern then
               (case cut_char (CHR '':'') pattern of
                  (host, Some rest) \<Rightarrow>
                    if host \<noteq> [] \<and> slash \<notin> set host \<and> \<not> isPort rest then ''git@'' @ pattern else pattern
                | (_, None) \<Rightarrow> pattern)
             else pattern)
      in map_option to_lower (envRemoteLabel env pattern))"

definition remoteMatches :: "Env \<Rightarrow> string \<Rightarrow> string \<Rightarrow> bool" where
  "remoteMatches env pattern remote =
     (case envRemoteLabel env remote of
        None \<Rightarrow> False
      | Some label \<Rightarrow>
          (case remotePatternLabel env pattern of
             None \<Rightarrow> False
           | Some want \<Rightarrow> glob_match want (to_lower label) = Some True))"

definition RemoteMatch :: "Env \<Rightarrow> string \<Rightarrow> string" where
  "RemoteMatch env remote =
     (case envRemoteLabel env remote of
        None \<Rightarrow> []
      | Some label \<Rightarrow>
          (case cut_char (CHR '':'') label of
             (host, repoPath) \<Rightarrow> host @ ''/'' @ (case repoPath of None \<Rightarrow> [] | Some p \<Rightarrow> p)))"

section \<open>Validation\<close>

datatype match_error =
    FolderUnreadable
  | FolderSegmentMalformed string
  | RemoteUnreadable
  | RemoteMalformed
  | RemoteDoubleStar
  | RemoteNoRepository
  | KindUnknown

definition validateMatch :: "Env \<Rightarrow> RuleKind \<Rightarrow> string \<Rightarrow> match_error option" where
  "validateMatch env kind match =
     (case kind of
        RuleFolder \<Rightarrow>
          (case folderSegments env match of
             None \<Rightarrow> Some FolderUnreadable
           | Some segments \<Rightarrow>
               map_option FolderSegmentMalformed (List.find (\<lambda>s. glob_match s [] = None) segments))
      | RuleRemote \<Rightarrow>
          (case remotePatternLabel env match of
             None \<Rightarrow> Some RemoteUnreadable
           | Some label \<Rightarrow>
               if glob_match label [] = None then Some RemoteMalformed
               else if sublist ''**'' match then Some RemoteDoubleStar
               else if slash \<notin> set (case snd (cut_char (CHR '':'') label) of None \<Rightarrow> [] | Some p \<Rightarrow> p)
               then Some RemoteNoRepository
               else None)
      | RuleOther _ \<Rightarrow> Some KindUnknown)"

text \<open>\<open>CollectiveIDPattern\<close>: hexadecimal groups of 8, 4, 4, 4 and 12 lower-case digits.\<close>

definition hex_lower :: "char \<Rightarrow> bool" where
  "hex_lower c = (CHR ''0'' \<le> c \<and> c \<le> CHR ''9'' \<or> CHR ''a'' \<le> c \<and> c \<le> CHR ''f'')"

definition IsCollectiveID :: "string \<Rightarrow> bool" where
  "IsCollectiveID s =
     (map length (split_char (CHR ''-'') s) = [8, 4, 4, 4, 12] \<and>
      list_all (list_all hex_lower) (split_char (CHR ''-'') s))"

datatype rule_error =
    RuleIDMalformed string
  | RuleRequestInvalid string
  | RuleMatchInvalid string match_error
  | RuleCollectiveInvalid string string
  | RuleListedTwice string

definition Request :: "Rule \<Rightarrow> RuleRequest" where
  "Request r = \<lparr> reqKind = rKind r, reqMatch = rMatch r, reqEvents = rEvents r, reqCollectives = rCollectives r \<rparr>"

definition RuleFromRequest :: "string \<Rightarrow> RuleRequest \<Rightarrow> Rule" where
  "RuleFromRequest ident request =
     \<lparr> rID = ident, rKind = reqKind request, rMatch = reqMatch request, rEvents = reqEvents request,
       rCollectives = reqCollectives request \<rparr>"

definition validateRule :: "Env \<Rightarrow> Rule \<Rightarrow> rule_error option" where
  "validateRule env r =
     (if trim_space (rID r) = [] \<or> trim_space (rID r) \<noteq> rID r \<or> list_ex (\<lambda>c. c \<in> set ''/?#'') (rID r)
      then Some (RuleIDMalformed (rID r))
      else if \<not> envRequestValid env (Request r) then Some (RuleRequestInvalid (rID r))
      else case validateMatch env (rKind r) (rMatch r) of
             Some e \<Rightarrow> Some (RuleMatchInvalid (rID r) e)
           | None \<Rightarrow> map_option (RuleCollectiveInvalid (rID r))
                       (List.find (\<lambda>c. \<not> IsCollectiveID c) (rCollectives r)))"

text \<open>The loop of \<open>validateRules\<close>, with the identifiers seen so far.\<close>

fun validateRulesFrom :: "Env \<Rightarrow> string list \<Rightarrow> Rule list \<Rightarrow> rule_error option" where
  "validateRulesFrom env ids [] = None"
| "validateRulesFrom env ids (rule # rules) =
     (case validateRule env rule of
        Some e \<Rightarrow> Some e
      | None \<Rightarrow>
          if rID rule \<in> set ids then Some (RuleListedTwice (rID rule))
          else validateRulesFrom env (rID rule # ids) rules)"

definition validateRules :: "Env \<Rightarrow> Rule list \<Rightarrow> rule_error option" where
  "validateRules env rules = validateRulesFrom env [] rules"

section \<open>What a rule covers\<close>

text \<open>The loop over a directory that is gone and the folders above it, up to the root.\<close>

function goneMatches :: "Env \<Rightarrow> string \<Rightarrow> string \<Rightarrow> bool" where
  "goneMatches env match dir =
     (if dir = [] \<or> dir = path_dir dir then False
      else folderMatches env match dir \<or> goneMatches env match (path_dir dir))"
  by pat_completeness auto
termination
proof (relation "measure (\<lambda>(_, _, dir). 2 * length dir + (if dir = ''.'' then 0 else 1))", goal_cases)
  case (2 env match dir)
  then show ?case using path_dir_smaller [of dir] by auto
qed simp

declare goneMatches.simps [simp del]

definition Covers :: "Env \<Rightarrow> Rule \<Rightarrow> Repository \<Rightarrow> bool" where
  "Covers env r repo =
     (case rKind r of
        RuleFolder \<Rightarrow>
          folderMatches env (rMatch r) (repoRoot repo) \<or>
          (repoMainRoot repo \<noteq> [] \<and> folderMatches env (rMatch r) (repoMainRoot repo)) \<or>
          goneMatches env (rMatch r) (repoGone repo)
      | RuleRemote \<Rightarrow>
          remoteMatches env (rMatch r) (repoRemote repo) \<or> remoteMatches env (rMatch r) (repoOrigin repo)
      | RuleOther _ \<Rightarrow> False)"

section \<open>What the rules decide\<close>

record RulesDecision =
  dRules :: "string list"
  dCollectives :: "string list"
  dEvents :: "string list"
  dPaused :: "string list"

datatype Outcome = Unbound | Paused | Bound

definition emptyDecision :: RulesDecision where
  "emptyDecision = \<lparr> dRules = [], dCollectives = [], dEvents = [], dPaused = [] \<rparr>"

definition Covered :: "RulesDecision \<Rightarrow> bool" where
  "Covered d = (dRules d \<noteq> [] \<or> dPaused d \<noteq> [])"

definition decisionOutcome :: "RulesDecision \<Rightarrow> Outcome" where
  "decisionOutcome d = (if dRules d \<noteq> [] then Bound else if dPaused d \<noteq> [] then Paused else Unbound)"

text \<open>The append-when-absent of the two inner loops.\<close>

definition addOnce :: "'a list \<Rightarrow> 'a list \<Rightarrow> 'a list" where
  "addOnce = foldl (\<lambda>out x. if x \<in> set out then out else out @ [x])"

definition decideRule :: "Env \<Rightarrow> Repository \<Rightarrow> string \<Rightarrow> RulesDecision \<Rightarrow> Rule \<Rightarrow> RulesDecision" where
  "decideRule env repo event decision rule =
     (if \<not> Covers env rule repo then decision
      else if rEvents rule = [] then decision\<lparr> dPaused := dPaused decision @ [rID rule] \<rparr>
      else if event \<noteq> [] \<and> event \<notin> set (rEvents rule) then decision
      else decision\<lparr> dRules := dRules decision @ [rID rule],
                     dCollectives := addOnce (dCollectives decision) (rCollectives rule),
                     dEvents := addOnce (dEvents decision) (rEvents rule) \<rparr>)"

definition DecideForEvent :: "Env \<Rightarrow> Rule list \<Rightarrow> Repository \<Rightarrow> string \<Rightarrow> RulesDecision" where
  "DecideForEvent env rules repo event = foldl (decideRule env repo event) emptyDecision rules"

definition Decide :: "Env \<Rightarrow> Rule list \<Rightarrow> Repository \<Rightarrow> RulesDecision" where
  "Decide env rules repo = DecideForEvent env rules repo []"

section \<open>Repositories\<close>

text \<open>\<open>filepath.Abs\<close>; \<open>None\<close> when the working directory is unknown.\<close>

definition path_abs :: "Env \<Rightarrow> string \<Rightarrow> string option" where
  "path_abs env dir =
     (if is_abs dir then Some (path_clean dir)
      else map_option (\<lambda>cwd. path_join [cwd, dir]) (envCwd env))"

definition resolveRoot :: "Env \<Rightarrow> string \<Rightarrow> string option" where
  "resolveRoot env dir =
     (if trim_space dir = [] then None
      else case path_abs env dir of
             None \<Rightarrow> None
           | Some absolute \<Rightarrow> if \<not> envIsDir env absolute then None else envGitRoot env absolute)"

definition readRemotes :: "Env \<Rightarrow> string \<Rightarrow> string \<times> string" where
  "readRemotes env root = (envRemoteURL env root, envOriginURL env root)"

definition mainRoot :: "Env \<Rightarrow> string \<Rightarrow> string" where
  "mainRoot env root =
     (case envReadFile env (path_join [root, ''.git'']) of
        None \<Rightarrow> []
      | Some raw \<Rightarrow>
          let text = trim_space raw
          in if \<not> prefix ''gitdir:'' text then []
             else let gitdir = trim_space (drop 7 text);
                      gitdir = (if is_abs gitdir then gitdir else path_join [root, gitdir])
                  in case cut_string ''/.git/worktrees/'' (path_clean gitdir) of
                       None \<Rightarrow> []
                     | Some (main, _) \<Rightarrow> main)"

definition Resolve :: "Env \<Rightarrow> string \<Rightarrow> bool \<Rightarrow> Repository option" where
  "Resolve env dir remotes =
     (case resolveRoot env dir of
        None \<Rightarrow> None
      | Some root \<Rightarrow>
          let (remote, origin) = (if remotes then readRemotes env root else ([], []))
          in Some \<lparr> repoRoot = root, repoMainRoot = mainRoot env root, repoGone = [],
                    repoRemote = remote, repoOrigin = origin \<rparr>)"

definition SessionRepository :: "Env \<Rightarrow> string \<Rightarrow> string \<Rightarrow> bool \<Rightarrow> Repository" where
  "SessionRepository env dir recordedRemote remotes =
     (if trim_space dir = []
      then \<lparr> repoRoot = [], repoMainRoot = [], repoGone = [], repoRemote = recordedRemote, repoOrigin = recordedRemote \<rparr>
      else case Resolve env dir remotes of
             None \<Rightarrow> \<lparr> repoRoot = [], repoMainRoot = [], repoGone = dir, repoRemote = recordedRemote,
                       repoOrigin = recordedRemote \<rparr>
           | Some repo \<Rightarrow> repo)"

text \<open>
  The keys of the set \<open>roots\<close> are kept once each; the result is sorted by root, so the
  order in which the set is ranged over does not show. Cancellation of the context is not
  modelled.
\<close>

definition recordedRoot :: "Env \<Rightarrow> string \<Rightarrow> string option" where
  "recordedRoot env dir =
     map_option (\<lambda>root. let main = mainRoot env root in if main \<noteq> [] then main else root) (resolveRoot env dir)"

definition Recorded :: "Env \<Rightarrow> 'e + string list \<Rightarrow> 'e + Repository list" where
  "Recorded env recordedDirectories =
     (case recordedDirectories of
        Inl e \<Rightarrow> Inl e
      | Inr dirs \<Rightarrow>
          Inr (sort_key repoRoot
            (map (\<lambda>root. let (remote, origin) = readRemotes env root
                         in \<lparr> repoRoot = root, repoMainRoot = [], repoGone = [], repoRemote = remote, repoOrigin = origin \<rparr>)
              (remdups (List.map_filter (recordedRoot env) dirs)))))"

definition covered :: "Env \<Rightarrow> Rule \<Rightarrow> Repository list \<Rightarrow> Repository list" where
  "covered env rule repositories = filter (Covers env rule) repositories"

text \<open>\<open>None\<close> is \<open>ErrNotCovered\<close>.\<close>

definition coveredTarget :: "Env \<Rightarrow> Rule \<Rightarrow> string \<Rightarrow> Repository list \<Rightarrow> Repository option" where
  "coveredTarget env rule path recorded =
     List.find (\<lambda>repo. path_clean (repoRoot repo) = path_clean path) (covered env rule recorded)"

section \<open>The plan of a push\<close>

record autoPublishPlan =
  apPinned :: "string list option"
  apCollectives :: "(string \<times> string list) list"
  apRules :: "string list"
  apHeld :: "(string \<times> string) list"
  apUnbound :: nat
  apPublicHeld :: "string list option"

definition emptyPlan :: autoPublishPlan where
  "emptyPlan = \<lparr> apPinned = None, apCollectives = [], apRules = [], apHeld = [], apUnbound = 0,
     apPublicHeld = None \<rparr>"

definition bound :: "autoPublishPlan \<Rightarrow> bool" where
  "bound p = (apCollectives p \<noteq> [] \<or> apHeld p \<noteq> [])"

definition heldPublic :: "autoPublishPlan \<Rightarrow> string \<Rightarrow> bool" where
  "heldPublic p ident = (case apPublicHeld p of None \<Rightarrow> False | Some held \<Rightarrow> ident \<in> set held)"

type_synonym repositoryCache = "((string \<times> string) \<times> Repository) list"

definition repositoryOf ::
  "Env \<Rightarrow> bool \<Rightarrow> repositoryCache \<Rightarrow> PushSessionRow \<Rightarrow> Repository \<times> repositoryCache" where
  "repositoryOf env remotes repositories row =
     (let key = (prProjectPath row, prGitRemote row)
      in case map_of repositories key of
           Some repo \<Rightarrow> (repo, repositories)
         | None \<Rightarrow>
             let repo = SessionRepository env (prProjectPath row) (prGitRemote row) remotes
             in (repo, AList.update key repo repositories))"

definition pin :: "string \<Rightarrow> autoPublishPlan \<Rightarrow> autoPublishPlan" where
  "pin sid plan = plan\<lparr> apPinned := map_option (List.insert sid) (apPinned plan) \<rparr>"

definition heldReason :: "RulesDecision \<Rightarrow> string" where
  "heldReason decision =
     ''auto-publish rule '' @ join '', '' (dPaused decision) @
     '' covers it and names no hook event, so it is paused and publishes nothing; restore its events in hooks.yaml, or publish by hand from /share''"

definition planDecided :: "bool \<Rightarrow> autoPublishPlan \<Rightarrow> string \<Rightarrow> RulesDecision \<Rightarrow> autoPublishPlan" where
  "planDecided requireRule plan sid decision =
     (case decisionOutcome decision of
        Unbound \<Rightarrow>
          let plan = plan\<lparr> apUnbound := apUnbound plan + 1 \<rparr>
          in if requireRule then plan else pin sid plan
      | Paused \<Rightarrow> plan\<lparr> apHeld := AList.update sid (heldReason decision) (apHeld plan) \<rparr>
      | Bound \<Rightarrow>
          (pin sid plan)\<lparr> apCollectives := AList.update sid (dCollectives decision) (apCollectives plan),
                          apRules := addOnce (apRules plan) (dRules decision) \<rparr>)"

definition planRow ::
  "Env \<Rightarrow> Rule list \<Rightarrow> bool \<Rightarrow> string \<Rightarrow> bool \<Rightarrow> repositoryCache \<times> autoPublishPlan \<Rightarrow> PushSessionRow \<Rightarrow>
   repositoryCache \<times> autoPublishPlan" where
  "planRow env rules requireRule event remotes st row =
     (case st of (repositories, plan) \<Rightarrow>
        let (repo, repositories) = repositoryOf env remotes repositories row
        in (repositories, planDecided requireRule plan (prSessionID row) (DecideForEvent env rules repo event)))"

text \<open>
  \<open>loaded\<close> is the answer of \<open>Load\<close>, \<open>queried\<close> the one of the candidate query: an error or
  the rules, an error or the rows.
\<close>

definition planAutoPublish ::
  "Env \<Rightarrow> 'e + Rule list \<Rightarrow> 'e + PushSessionRow list \<Rightarrow> PipelineConfig \<Rightarrow> bool \<Rightarrow> string \<Rightarrow> 'e + autoPublishPlan" where
  "planAutoPublish env loaded queried runCfg requireRule event =
     (case loaded of
        Inl e \<Rightarrow> Inl e
      | Inr rules \<Rightarrow>
          if rules = [] then Inr (if requireRule then emptyPlan\<lparr> apPinned := Some [] \<rparr> else emptyPlan)
          else case queried of
                 Inl e \<Rightarrow> Inl e
               | Inr rows \<Rightarrow>
                   let candidates = fst (NarrowCandidates rows runCfg);
                       remotes = list_ex (\<lambda>rule. rKind rule = RuleRemote) rules;
                       plan = snd (foldl (planRow env rules requireRule event remotes)
                                ([], emptyPlan\<lparr> apPinned := Some [] \<rparr>) candidates)
                   in Inr (if bound plan then plan else plan\<lparr> apUnbound := 0 \<rparr>))"

section \<open>Escaping\<close>

lemma decode_rune_ascii: "byte a < 128 \<Longrightarrow> decode_rune (a # r) = (byte a, 1)"
  by (simp add: decode_rune_def)

lemma decode_rune_wide:
  assumes "128 \<le> byte a"
  shows "decode_rune (a # r) = (rune_error, 1) \<or>
    (\<exists>v w. decode_rune (a # r) = (v, Suc w) \<and> 0 < w \<and> w \<le> length r \<and> (\<forall>i < w. 128 \<le> byte (r ! i)))"
proof -
  let ?two = "194 \<le> byte a \<and> byte a \<le> 223 \<and> length r \<ge> 1 \<and> tail_byte (r ! 0)"
  let ?three = "224 \<le> byte a \<and> byte a \<le> 239 \<and> length r \<ge> 2 \<and>
    continuation (if byte a = 224 then 160 else 128) (if byte a = 237 then 159 else 191) (r ! 0) \<and> tail_byte (r ! 1)"
  let ?four = "240 \<le> byte a \<and> byte a \<le> 244 \<and> length r \<ge> 3 \<and>
    continuation (if byte a = 240 then 144 else 128) (if byte a = 244 then 143 else 191) (r ! 0) \<and>
    tail_byte (r ! 1) \<and> tail_byte (r ! 2)"
  have nat1: "(\<forall>i < (1::nat). P i) \<longleftrightarrow> P 0" for P by auto
  have nat2: "(\<forall>i < (2::nat). P i) \<longleftrightarrow> P 0 \<and> P 1" for P by (auto simp: less_2_cases_iff)
  have nat3: "(\<forall>i < (3::nat). P i) \<longleftrightarrow> P 0 \<and> P 1 \<and> P 2" for P
    by (auto simp: numeral_3_eq_3 numeral_2_eq_2 less_Suc_eq)
  have lead: "128 \<le> byte c" if "continuation (if x then l else 128) h c" and "128 \<le> l" for x l h c
    using that by (auto simp: continuation_def split: if_splits)
  consider (two) ?two | (three) "\<not> ?two" ?three | (four) "\<not> ?two" "\<not> ?three" ?four
    | (bad) "\<not> ?two" "\<not> ?three" "\<not> ?four" by blast
  then show ?thesis
  proof cases
    case two
    then have "snd (decode_rune (a # r)) = Suc 1" by (simp add: decode_rune_def)
    moreover have "128 \<le> byte (r ! 0)" using two by (simp add: continuation_def)
    ultimately show ?thesis using two by (intro disjI2 exI [of _ "fst (decode_rune (a # r))"] exI [of _ "1 :: nat"]) (simp add: prod_eq_iff nat1)
  next
    case three
    then have "snd (decode_rune (a # r)) = Suc 2" by (simp add: decode_rune_def)
    moreover have "128 \<le> byte (r ! 0)" using three lead [of "byte a = 224" 160 _ "r ! 0"] by (elim conjE) simp
    moreover have "128 \<le> byte (r ! 1)" using three by (simp add: continuation_def)
    ultimately show ?thesis using three by (intro disjI2 exI [of _ "fst (decode_rune (a # r))"] exI [of _ "2 :: nat"]) (simp add: prod_eq_iff nat2)
  next
    case four
    then have "snd (decode_rune (a # r)) = Suc 3" by (simp add: decode_rune_def)
    moreover have "128 \<le> byte (r ! 0)" using four lead [of "byte a = 240" 144 _ "r ! 0"] by (elim conjE) simp
    moreover have "128 \<le> byte (r ! 1)" and "128 \<le> byte (r ! 2)" using four by (simp_all add: continuation_def)
    ultimately show ?thesis using four by (intro disjI2 exI [of _ "fst (decode_rune (a # r))"] exI [of _ "3 :: nat"]) (simp add: prod_eq_iff nat3)
  next
    case bad
    with assms have "decode_rune (a # r) = (rune_error, 1)" by (simp add: decode_rune_def)
    then show ?thesis by blast
  qed
qed

lemma glob_meta_ascii: "glob_meta c \<Longrightarrow> byte c < 128"
  unfolding glob_meta_def by (elim disjE; hypsubst; code_simp)

lemma glob_escape_append [simp]: "glob_escape (a @ b) = glob_escape a @ glob_escape b"
  by (induction a) auto

lemma glob_escape_plain: "\<forall>c \<in> set s. \<not> glob_meta c \<Longrightarrow> glob_escape s = s"
  by (induction s) auto

text \<open>On valid UTF-8 the loop over code points escapes each byte with a meaning.\<close>

lemma escapeSegment_valid: "valid_utf8 s \<Longrightarrow> escapeSegment s = glob_escape s"
proof (induction s rule: valid_utf8.induct)
  case (1 s)
  show ?case
  proof (cases s)
    case Nil
    then show ?thesis by (simp add: escapeSegment.simps)
  next
    case (Cons a r)
    let ?w = "snd (decode_rune s)"
    have good: "\<not> bad_rune s" and "valid_utf8 (drop ?w s)"
      using 1(2) Cons valid_utf8.simps [of s] by (auto simp del: drop_Suc_Cons split: if_split_asm)
    with 1(1) Cons have IH: "escapeSegment (drop ?w s) = glob_escape (drop ?w s)" by simp
    show ?thesis
    proof (cases "byte a < 128")
      case True
      with Cons good IH show ?thesis by (simp add: escapeSegment.simps [of "a # r"] decode_rune_ascii)
    next
      case False
      with good Cons obtain v w where w: "decode_rune s = (v, Suc w)" "0 < w" "w \<le> length r"
        "\<forall>i < w. 128 \<le> byte (r ! i)"
        using decode_rune_wide [of a r] by (auto simp: bad_rune_def)
      have "\<forall>c \<in> set (take w r). \<not> glob_meta c"
        using w glob_meta_ascii by (fastforce simp: in_set_conv_nth)
      then have "glob_escape (take w r) = take w r" by (rule glob_escape_plain)
      moreover have "glob_escape r = glob_escape (take w r) @ glob_escape (drop w r)"
        by (metis append_take_drop_id glob_escape_append)
      moreover have "\<not> glob_meta a" using False glob_meta_ascii by blast
      ultimately show ?thesis
        using Cons good IH w by (simp add: escapeSegment.simps [of "a # r"])
    qed
  qed
qed

section \<open>Folder globs\<close>

definition root_path :: "string list \<Rightarrow> string" where
  "root_path segs = slash # join ''/'' segs"

lemma splitPath_root_path [simp]:
  "\<forall>s \<in> set segs. normal_seg s \<Longrightarrow> splitPath (root_path segs) = segs"
proof -
  assume n: "\<forall>s \<in> set segs. normal_seg s"
  then have keep: "filter (\<lambda>s. s \<noteq> []) segs = segs" by (induction segs) (auto simp: normal_seg_def)
  show ?thesis
  proof (cases "segs = []")
    case False
    moreover from n have "\<forall>s \<in> set segs. slash \<notin> set s" by (simp add: normal_seg_def)
    ultimately have "split_char slash (root_path segs) = [] # segs" by (simp add: root_path_def)
    with keep show ?thesis by (simp add: splitPath_def)
  qed (simp add: splitPath_def root_path_def)
qed

lemma path_clean_root_path [simp]:
  assumes "\<forall>s \<in> set segs. normal_seg s"
  shows "path_clean (root_path segs) = root_path segs"
proof -
  have split: "split_char slash (root_path segs) = [] # (if segs = [] then [[]] else segs)"
    using assms by (auto simp: root_path_def normal_seg_def)
  have "clean_segments True ([] # (if segs = [] then [[]] else segs)) = segs"
    using assms by (auto simp: clean_segments_def foldl_clean_normal)
  then show ?thesis
    using split by (simp add: path_clean_def is_abs_def root_path_def)
qed

text \<open>A clean absolute path is the root followed by ordinary names.\<close>

lemma path_clean_abs_segments:
  assumes "is_abs p"
  shows "path_clean p = root_path (splitPath (path_clean p)) \<and> (\<forall>s \<in> set (splitPath (path_clean p)). normal_seg s)"
proof -
  let ?segs = "clean_segments True (split_char slash p)"
  have "clean_inv True (rev ?segs)" by (rule clean_inv_segments) (auto dest: split_char_no_sep)
  then have n: "\<forall>s \<in> set ?segs. normal_seg s" by (auto simp: clean_inv_def)
  have "path_clean p = root_path ?segs" using assms by (simp add: path_clean_abs root_path_def)
  with n show ?thesis by simp
qed

lemma root_path_inj:
  "\<forall>s \<in> set a. normal_seg s \<Longrightarrow> \<forall>s \<in> set b. normal_seg s \<Longrightarrow> root_path a = root_path b \<longleftrightarrow> a = b"
  by (metis splitPath_root_path)

lemma glob_escape_normal: "normal_seg s \<Longrightarrow> normal_seg (glob_escape s)"
proof -
  have dots: "glob_escape s = ''.'' \<Longrightarrow> s = ''.''" "glob_escape s = ''..'' \<Longrightarrow> s = ''..''"
    by (cases s; cases "tl s"; auto split: if_splits)+
  have sl: "slash \<in> set (glob_escape s) \<Longrightarrow> slash \<in> set s"
    by (induction s) (auto split: if_splits)
  assume "normal_seg s"
  with dots sl show ?thesis by (auto simp: normal_seg_def)
qed

lemma glob_escape_root_path: "glob_escape (root_path segs) = root_path (map glob_escape segs)"
proof -
  have "glob_escape (join ''/'' segs) = join ''/'' (map glob_escape segs)"
    by (induction segs rule: induct_list012) (auto simp: glob_meta_def)
  then show ?thesis by (simp add: root_path_def glob_meta_def)
qed

lemma glob_escape_not_stars: "glob_escape s \<noteq> ''**''"
  by (cases s) (auto simp: glob_meta_def)

lemma matchSegments_escaped: "matchSegments (map glob_escape segs) path \<longleftrightarrow> path = segs"
  by (induction segs arbitrary: path) (auto simp: glob_escape_not_stars glob_match_escape split: list.split)

text \<open>Without symbolic links on the machine nothing is resolved.\<close>

definition no_symlinks :: "Env \<Rightarrow> bool" where
  "no_symlinks env \<longleftrightarrow> (\<forall>p q. envEvalSymlinks env p = Some q \<longrightarrow> q = p)"

lemma resolveFrom_no_symlinks:
  assumes "no_symlinks env" and "\<forall>s \<in> set segs. normal_seg s" and "n \<le> length segs"
  shows "resolveFrom env segs n = segs"
  using assms(3)
proof (induction n)
  case (Suc n)
  have "splitPath (root_path (take (Suc n) segs)) = take (Suc n) segs"
    using assms(2) by (intro splitPath_root_path) (auto dest: in_set_takeD)
  then have "splitPath (slash # join ''/'' (take (Suc n) segs)) = take (Suc n) segs"
    by (simp add: root_path_def)
  moreover have "real = slash # join ''/'' (take (Suc n) segs)"
    if "envEvalSymlinks env (slash # join ''/'' (take (Suc n) segs)) = Some real" for real
    using that assms(1) by (auto simp: no_symlinks_def)
  ultimately show ?case using Suc by (auto split: option.split)
qed simp

lemma resolve_no_symlinks:
  "no_symlinks env \<Longrightarrow> \<forall>s \<in> set segs. normal_seg s \<Longrightarrow> resolveLiteralPrefix env segs = segs"
  unfolding resolveLiteralPrefix_def literalPrefix_def
  by (rule resolveFrom_no_symlinks) (auto simp: length_takeWhile_le)

lemma strip_first_split: "strip_first ps s = Some r \<Longrightarrow> \<exists>p \<in> set ps. s = p @ r"
  by (induction ps s rule: strip_first.induct) (auto simp: prefix_def split: if_splits)

lemma trim_seqs_keeps:
  "c \<in> set s \<Longrightarrow> \<forall>p \<in> set ps. c \<notin> set p \<Longrightarrow> c \<in> set (trim_seqs ps s)"
proof (induction ps s rule: trim_seqs.induct)
  case (1 ps s)
  show ?case
  proof (cases "strip_first ps s")
    case (Some r)
    then have "c \<in> set r" using strip_first_split [OF Some] 1(2,3) by auto
    with 1 Some show ?thesis by (simp add: trim_seqs.simps [of ps s])
  qed (use 1 in \<open>simp add: trim_seqs_fixed\<close>)
qed

lemma slash_not_space: "\<forall>p \<in> set space_seqs. slash \<notin> set p"
  by (simp add: space_seqs_def)

lemma trim_left_space_abs: "is_abs p \<Longrightarrow> trim_left_space p = p"
proof -
  assume "is_abs p"
  then obtain r where p: "p = slash # r" by (cases p) (auto simp: is_abs_def)
  have "strip_first space_seqs p = None"
    using p by (intro strip_first_hd) (auto simp: space_seqs_def)
  then show ?thesis by (simp add: trim_left_space_def trim_seqs_fixed)
qed

lemma trim_space_abs: "is_abs p \<Longrightarrow> trim_space p = trim_right_space p"
  by (simp add: trim_space_def trim_left_space_abs)

lemma trim_space_abs_nonempty: "is_abs p \<Longrightarrow> trim_space p \<noteq> []"
proof -
  assume a: "is_abs p"
  then have "slash \<in> set (rev p)" by (cases p) (auto simp: is_abs_def)
  then have "slash \<in> set (trim_seqs (map rev space_seqs) (rev p))"
    using slash_not_space by (intro trim_seqs_keeps) auto
  with a show ?thesis by (auto simp: trim_space_abs trim_right_space_def)
qed

lemma trim_right_space_fixed_iff:
  "trim_right_space s = s \<longleftrightarrow> (\<forall>p \<in> set space_seqs. \<not> suffix p s)"
proof -
  have ne: "\<forall>p \<in> set space_seqs. p \<noteq> []" by (simp add: space_seqs_def)
  have "trim_right_space s = s \<longleftrightarrow> trim_seqs (map rev space_seqs) (rev s) = rev s"
    by (metis rev_rev_ident trim_right_space_def)
  also have "\<dots> \<longleftrightarrow> strip_first (map rev space_seqs) (rev s) = None"
    by (metis strip_first_trim_seqs trim_seqs_fixed)
  also have "\<dots> \<longleftrightarrow> (\<forall>p \<in> set space_seqs. \<not> suffix p s)"
    using ne by (auto simp: strip_first_Some_iff suffix_to_prefix)
  finally show ?thesis .
qed

lemma glob_meta_backslash [simp]: "glob_meta backslash"
  by (simp add: glob_meta_def)

lemma glob_escape_fixed: "\<forall>c \<in> set (glob_escape s). \<not> glob_meta c \<Longrightarrow> glob_escape s = s"
proof (induction s)
  case (Cons c s)
  then show ?case by (cases "glob_meta c") simp_all
qed simp

lemma suffix_glob_escape:
  "glob_escape s = a @ p \<Longrightarrow> \<forall>c \<in> set p. \<not> glob_meta c \<Longrightarrow> suffix p s"
proof (induction s arbitrary: a)
  case (Cons c s)
  show ?case
  proof (cases "a = [] \<or> glob_meta c \<and> a = [backslash]")
    case True
    with Cons.prems have "\<not> glob_meta c" by (auto split: if_splits)
    with True Cons.prems have p: "p = c # glob_escape s" by auto
    then have "\<forall>x \<in> set (glob_escape s). \<not> glob_meta x" using Cons.prems by auto
    then have "glob_escape s = s" by (rule glob_escape_fixed)
    with p show ?thesis by simp
  next
    case False
    then obtain a' where "glob_escape s = a' @ p"
      using Cons.prems by (auto simp: Cons_eq_append_conv split: if_splits)
    then show ?thesis using Cons by (simp add: suffix_Cons)
  qed
qed simp

lemma trim_space_glob_escape:
  assumes "is_abs p" and "trim_space p = p"
  shows "trim_space (glob_escape p) = glob_escape p"
proof -
  have "\<forall>q \<in> set space_seqs. \<forall>c \<in> set q. \<not> glob_meta c"
    by (simp add: space_seqs_def glob_meta_def)
  moreover have "\<forall>q \<in> set space_seqs. \<not> suffix q p"
    using assms by (simp add: trim_space_abs trim_right_space_fixed_iff)
  ultimately have "trim_right_space (glob_escape p) = glob_escape p"
    unfolding trim_right_space_fixed_iff using suffix_glob_escape unfolding suffix_def by blast
  moreover have "is_abs (glob_escape p)" using assms by (cases p) (auto simp: is_abs_def glob_meta_def)
  ultimately show ?thesis by (simp add: trim_space_abs)
qed

lemma trim_space_blank:
  assumes "is_abs p" and "trim_space p = p"
  shows "trim_space (p @ '' '') = p"
proof -
  have a: "is_abs (p @ '' '')" using assms(1) by (cases p) (auto simp: is_abs_def)
  have "strip_first (map rev space_seqs) (CHR '' '' # rev p) = Some (rev p)"
    by (simp add: space_seqs_def)
  then have "trim_right_space (p @ '' '') = trim_right_space p"
    by (simp add: trim_right_space_def trim_seqs.simps [of _ "CHR '' '' # rev p"])
  with assms a show ?thesis by (simp add: trim_space_abs)
qed

lemma FolderMatch_glob_escape:
  assumes "is_abs root" and "\<forall>s \<in> set (splitPath (path_clean root)). valid_utf8 s"
  shows "FolderMatch root = glob_escape (path_clean root)"
proof -
  have "map escapeSegment (splitPath (path_clean root)) = map glob_escape (splitPath (path_clean root))"
    using assms(2) by (simp add: escapeSegment_valid)
  then have "FolderMatch root = root_path (map glob_escape (splitPath (path_clean root)))"
    unfolding FolderMatch_def root_path_def by (rule arg_cong)
  also have "\<dots> = glob_escape (path_clean root)"
    using path_clean_abs_segments [OF assms(1)] glob_escape_root_path by metis
  finally show ?thesis .
qed

text \<open>A pattern that reads as the escape of a clean absolute path names that path only.\<close>

lemma folderMatches_escaped:
  assumes "trim_space pattern = glob_escape (path_clean p)" and "is_abs p"
    and "no_symlinks env" and "is_abs other"
  shows "folderMatches env pattern other \<longleftrightarrow> path_clean other = path_clean p"
proof -
  let ?segs = "splitPath (path_clean p)"
  let ?esc = "map glob_escape ?segs"
  have p: "path_clean p = root_path ?segs" and n: "\<forall>s \<in> set ?segs. normal_seg s"
    using path_clean_abs_segments [OF assms(2)] by blast+
  have ne: "\<forall>s \<in> set ?esc. normal_seg s" using n glob_escape_normal by auto
  have pat: "trim_space pattern = root_path ?esc"
    using assms(1) p glob_escape_root_path by metis
  then have "folderSegments env pattern = Some (splitPath (path_clean (root_path ?esc)))"
    unfolding folderSegments_def Let_def pat by (simp add: is_abs_def root_path_def)
  with ne have "folderSegments env pattern = Some ?esc" by simp
  moreover have "resolveLiteralPrefix env ?esc = ?esc" by (rule resolve_no_symlinks [OF assms(3) ne])
  ultimately have "folderMatches env pattern other \<longleftrightarrow> splitPath (path_clean other) = ?segs"
    using trim_space_abs_nonempty [OF assms(4)]
    by (simp add: folderMatches_def matchSegments_escaped del: matchSegments.simps)
  also have "\<dots> \<longleftrightarrow> path_clean other = path_clean p"
    using path_clean_abs_segments [OF assms(4)] p by metis
  finally show ?thesis .
qed

lemma folderMatches_FolderMatch:
  assumes "is_abs root" and "\<forall>s \<in> set (splitPath (path_clean root)). valid_utf8 s"
    and "trim_space (path_clean root) = path_clean root"
    and "no_symlinks env" and "is_abs other"
  shows "folderMatches env (FolderMatch root) other \<longleftrightarrow> path_clean other = path_clean root"
  using assms
  by (intro folderMatches_escaped) (simp_all add: FolderMatch_glob_escape trim_space_glob_escape)

text \<open>
  \<open>FolderMatch root\<close> is a glob that names exactly the directory: on a machine without
  symbolic links, a folder rule with this pattern matches another absolute path exactly
  when both clean to the same path, whatever glob characters the names hold. The names are
  valid UTF-8 and the path does not end in white space.
\<close>

theorem FolderMatch_exact:
  assumes "is_abs root" and "\<forall>s \<in> set (splitPath (path_clean root)). valid_utf8 s"
    and "trim_space (path_clean root) = path_clean root"
    and "no_symlinks env" and "is_abs other"
  shows "folderMatches env (FolderMatch root) other \<longleftrightarrow> path_clean other = path_clean root"
  using assms by (rule folderMatches_FolderMatch)

text \<open>
  A directory whose name ends in a space gets a glob that names its sibling instead.
  \<open>folderSegments\<close> trims white space around the pattern, so the trailing space of the last
  name is lost: the rule made for \<open>p\<close> followed by a space covers \<open>p\<close>, and never the
  directory it was made for.
\<close>

theorem FolderMatch_trailing_space:
  assumes "is_abs root" and "\<forall>s \<in> set (splitPath (path_clean root)). valid_utf8 s"
    and "path_clean root = p @ '' ''" and "is_abs p" and "path_clean p = p" and "trim_space p = p"
    and "no_symlinks env" and "is_abs other"
  shows "folderMatches env (FolderMatch root) other \<longleftrightarrow> path_clean other = p"
proof -
  have "FolderMatch root = glob_escape p @ '' ''"
    using assms(1-3) by (simp add: FolderMatch_glob_escape glob_meta_def)
  moreover have "is_abs (glob_escape p)" using assms(4) by (cases p) (auto simp: is_abs_def glob_meta_def)
  ultimately have "trim_space (FolderMatch root) = glob_escape (path_clean p)"
    using assms by (simp add: trim_space_blank trim_space_glob_escape)
  from folderMatches_escaped [OF this assms(4,7,8)] show ?thesis by (simp add: assms(5))
qed

text \<open>A machine with one repository, for the examples.\<close>

definition exampleEnv :: Env where
  "exampleEnv = \<lparr> envHome = Some ''/home/ann'', envCwd = Some ''/'', envEvalSymlinks = (\<lambda>p. Some p),
     envIsDir = (\<lambda>p. p = ''/work/app''), envReadFile = (\<lambda>p. None),
     envGitRoot = (\<lambda>p. if p = ''/work/app'' then Some ''/work/app'' else None),
     envRemoteURL = (\<lambda>p. ''git@github.com:ann/app.git''), envOriginURL = (\<lambda>p. ''git@github.com:ann/app.git''),
     envRemoteLabel = (\<lambda>r. if r = ''git@github.com:ann/app.git'' then Some ''github.com:ann/app'' else None),
     envRequestValid = (\<lambda>r. True) \<rparr>"

lemma no_symlinks_example: "no_symlinks exampleEnv"
  by (simp add: no_symlinks_def exampleEnv_def)

lemma valid_utf8_ascii: "list_all (\<lambda>c. byte c < 128) s \<Longrightarrow> valid_utf8 s"
proof (induction s)
  case (Cons a s)
  then have "decode_rune (a # s) = (byte a, 1)" by (simp add: decode_rune_ascii)
  moreover from this Cons have "\<not> bad_rune (a # s)" by (simp add: bad_rune_def rune_error_def)
  ultimately show ?case using Cons by (simp add: valid_utf8.simps [of "a # s"])
qed (simp add: valid_utf8.simps)

lemma example_names_valid: "valid_utf8 ''work''" "valid_utf8 ''a*b''" "valid_utf8 ''a ''" "valid_utf8 ''app''"
  by (rule valid_utf8_ascii, code_simp)+

lemma example_folder_facts:
  "is_abs ''/work/a*b''" "path_clean ''/work/a*b'' = ''/work/a*b''"
  "splitPath ''/work/a*b'' = [''work'', ''a*b'']"
  "trim_space ''/work/a*b'' = ''/work/a*b''" "is_abs ''/work/aXb''" "path_clean ''/work/aXb'' = ''/work/aXb''"
  by code_simp+

theorem FolderMatch_exact_witness:
  "folderMatches exampleEnv (FolderMatch ''/work/a*b'') ''/work/a*b'' \<and>
   \<not> folderMatches exampleEnv (FolderMatch ''/work/a*b'') ''/work/aXb''"
  using FolderMatch_exact [of "''/work/a*b''" exampleEnv "''/work/a*b''"]
    FolderMatch_exact [of "''/work/a*b''" exampleEnv "''/work/aXb''"]
  by (simp add: example_folder_facts example_names_valid no_symlinks_example)

lemma example_space_facts:
  "is_abs ''/work/a ''" "path_clean ''/work/a '' = ''/work/a ''" "splitPath ''/work/a '' = [''work'', ''a '']"
  "is_abs ''/work/a''" "path_clean ''/work/a'' = ''/work/a''" "trim_space ''/work/a'' = ''/work/a''"
  by code_simp+

theorem FolderMatch_trailing_space_witness:
  "folderMatches exampleEnv (FolderMatch ''/work/a '') ''/work/a'' \<and>
   \<not> folderMatches exampleEnv (FolderMatch ''/work/a '') ''/work/a ''"
  using FolderMatch_trailing_space [of "''/work/a ''" "''/work/a''" exampleEnv "''/work/a''"]
    FolderMatch_trailing_space [of "''/work/a ''" "''/work/a''" exampleEnv "''/work/a ''"]
  by (simp add: example_space_facts example_names_valid no_symlinks_example)

section \<open>A directory that is gone\<close>

lemma take_prefix_iff: "(\<exists>n. 0 < n \<and> n \<le> length d \<and> take n d = r) \<longleftrightarrow> r \<noteq> [] \<and> prefix r d"
proof
  assume "\<exists>n. 0 < n \<and> n \<le> length d \<and> take n d = r"
  then obtain n where "0 < n" "n \<le> length d" "r = take n d" by blast
  then show "r \<noteq> [] \<and> prefix r d" by (cases d) (auto simp: take_is_prefix)
next
  assume "r \<noteq> [] \<and> prefix r d"
  then have "0 < length r" "length r \<le> length d" "take (length r) d = r"
    by (auto simp: prefix_def)
  then show "\<exists>n. 0 < n \<and> n \<le> length d \<and> take n d = r" by blast
qed

lemma path_dir_root_path:
  assumes "\<forall>s \<in> set (segs @ [x]). normal_seg s"
  shows "path_dir (root_path (segs @ [x])) = root_path segs"
proof -
  have "join ''/'' (segs @ [x]) = (if segs = [] then x else join ''/'' segs @ slash # x)"
    by (induction segs rule: induct_list012) auto
  then have eq: "root_path (segs @ [x]) = (if segs = [] then [] else root_path segs) @ slash # x"
    by (simp add: root_path_def)
  have "slash \<notin> set x" using assms by (simp add: normal_seg_def)
  with eq have "path_dir (root_path (segs @ [x])) = path_clean ((if segs = [] then [] else root_path segs) @ ''/'')"
    by (simp add: path_dir_def cut_last_char_append)
  also have "\<dots> = path_clean (root_path segs)"
  proof (cases "segs = []")
    case False
    then have "split_char slash (root_path segs @ ''/'') = split_char slash (root_path segs) @ [[]]"
      by (simp add: split_char_snoc)
    with False show ?thesis by (simp add: path_clean_def clean_segments_def is_abs_def root_path_def)
  qed (simp add: root_path_def)
  also have "\<dots> = root_path segs" using assms by simp
  finally show ?thesis .
qed

lemma root_path_length: "root_path segs \<noteq> []"
  by (simp add: root_path_def)

text \<open>The loop visits the directory and every folder above it, except the root itself.\<close>

lemma goneMatches_root_path:
  assumes "\<forall>s \<in> set segs. normal_seg s"
  shows "goneMatches env match (root_path segs) \<longleftrightarrow>
    (\<exists>n. 0 < n \<and> n \<le> length segs \<and> folderMatches env match (root_path (take n segs)))"
  using assms
proof (induction segs rule: rev_induct)
  case Nil
  have "path_dir (root_path []) = root_path []" by code_simp
  then show ?case by (simp add: goneMatches.simps [of _ _ "root_path []"])
next
  case (snoc x segs)
  then have dir: "path_dir (root_path (segs @ [x])) = root_path segs"
    by (intro path_dir_root_path)
  moreover have "root_path (segs @ [x]) \<noteq> root_path segs"
    using snoc.prems root_path_inj [of "segs @ [x]" segs] by simp
  ultimately have step: "goneMatches env match (root_path (segs @ [x])) \<longleftrightarrow>
      folderMatches env match (root_path (segs @ [x])) \<or> goneMatches env match (root_path segs)"
    using root_path_length goneMatches.simps [of env match "root_path (segs @ [x])"] by simp
  have "(\<exists>n. 0 < n \<and> n \<le> length (segs @ [x]) \<and> folderMatches env match (root_path (take n (segs @ [x])))) \<longleftrightarrow>
      folderMatches env match (root_path (segs @ [x])) \<or>
      (\<exists>n. 0 < n \<and> n \<le> length segs \<and> folderMatches env match (root_path (take n segs)))"
    by (auto simp: le_Suc_eq)
  with step snoc show ?case by simp
qed

text \<open>
  A session whose directory is gone. With a folder rule made for \<open>root\<close>, the repository
  whose directory \<open>dir\<close> no longer exists is covered exactly when \<open>dir\<close> is \<open>root\<close> or lies
  below it, name by name; a rule for the file system root itself covers no gone directory.
\<close>

theorem Covers_gone_iff:
  assumes "is_abs root" and "\<forall>s \<in> set (splitPath (path_clean root)). valid_utf8 s"
    and "trim_space (path_clean root) = path_clean root" and "no_symlinks env"
    and "is_abs dir" and "path_clean dir = dir"
    and "rKind r = RuleFolder" and "rMatch r = FolderMatch root"
    and "repo = SessionRepository env dir remote remotes" and "Resolve env dir remotes = None"
  shows "Covers env r repo \<longleftrightarrow>
    splitPath (path_clean root) \<noteq> [] \<and> prefix (splitPath (path_clean root)) (splitPath dir)"
proof -
  let ?root = "splitPath (path_clean root)" and ?dir = "splitPath dir"
  have d: "dir = root_path ?dir" "\<forall>s \<in> set ?dir. normal_seg s"
    using path_clean_abs_segments [OF assms(5)] assms(6) by simp_all
  have r: "path_clean root = root_path ?root" "\<forall>s \<in> set ?root. normal_seg s"
    using path_clean_abs_segments [OF assms(1)] by blast+
  have match: "folderMatches env (FolderMatch root) (root_path (take n ?dir)) \<longleftrightarrow> take n ?dir = ?root" for n
  proof -
    have n: "\<forall>s \<in> set (take n ?dir). normal_seg s" using d(2) by (auto dest: in_set_takeD)
    have "is_abs (root_path (take n ?dir))" by (simp add: root_path_def is_abs_def)
    then have "folderMatches env (FolderMatch root) (root_path (take n ?dir)) \<longleftrightarrow>
        path_clean (root_path (take n ?dir)) = path_clean root"
      using assms(1-4) by (intro folderMatches_FolderMatch)
    then show ?thesis using n r root_path_inj by (metis path_clean_root_path)
  qed
  have "Covers env r repo \<longleftrightarrow> goneMatches env (FolderMatch root) dir"
    using assms trim_space_abs_nonempty [OF assms(5)]
    by (simp add: Covers_def SessionRepository_def folderMatches_def)
  also have "\<dots> \<longleftrightarrow> (\<exists>n. 0 < n \<and> n \<le> length ?dir \<and> take n ?dir = ?root)"
    using goneMatches_root_path [OF d(2), of env "FolderMatch root"] d(1) match by simp
  also have "\<dots> \<longleftrightarrow> ?root \<noteq> [] \<and> prefix ?root ?dir"
    by (rule take_prefix_iff)
  finally show ?thesis .
qed

definition exampleRule :: Rule where
  "exampleRule = \<lparr> rID = ''r1'', rKind = RuleFolder, rMatch = FolderMatch ''/work'', rEvents = [''pre-push''],
     rCollectives = [''c1''] \<rparr>"

lemma example_gone_facts:
  "is_abs ''/work''" "path_clean ''/work'' = ''/work''" "splitPath ''/work'' = [''work'']"
  "trim_space ''/work'' = ''/work''" "is_abs ''/work/old''" "path_clean ''/work/old'' = ''/work/old''"
  "splitPath ''/work/old'' = [''work'', ''old'']" "Resolve exampleEnv ''/work/old'' False = None"
  by code_simp+

theorem Covers_gone_iff_witness:
  "Covers exampleEnv exampleRule (SessionRepository exampleEnv ''/work/old'' [] False)"
  using Covers_gone_iff [of "''/work''" exampleEnv "''/work/old''" exampleRule
      "SessionRepository exampleEnv ''/work/old'' [] False" "[]" False]
  by (simp add: example_gone_facts example_names_valid no_symlinks_example exampleRule_def)

section \<open>Decisions\<close>

definition publishes :: "Env \<Rightarrow> Repository \<Rightarrow> string \<Rightarrow> Rule \<Rightarrow> bool" where
  "publishes env repo event rule \<longleftrightarrow>
     Covers env rule repo \<and> rEvents rule \<noteq> [] \<and> (event = [] \<or> event \<in> set (rEvents rule))"

definition pauses :: "Env \<Rightarrow> Repository \<Rightarrow> Rule \<Rightarrow> bool" where
  "pauses env repo rule \<longleftrightarrow> Covers env rule repo \<and> rEvents rule = []"

lemma addOnce_set [simp]: "set (addOnce out xs) = set out \<union> set xs"
  by (induction xs arbitrary: out) (auto simp: addOnce_def)

lemma addOnce_distinct [simp]: "distinct (addOnce out xs) \<longleftrightarrow> distinct out"
proof (induction xs arbitrary: out)
  case (Cons x xs)
  have "addOnce out (x # xs) = addOnce (if x \<in> set out then out else out @ [x]) xs"
    by (simp add: addOnce_def)
  with Cons show ?case by auto
qed (simp add: addOnce_def)

lemma decide_fold:
  fixes env repo event rules d
  defines "d' \<equiv> foldl (decideRule env repo event) d rules"
  shows "dRules d' = dRules d @ map rID (filter (publishes env repo event) rules)"
    and "dPaused d' = dPaused d @ map rID (filter (pauses env repo) rules)"
    and "set (dCollectives d') = set (dCollectives d) \<union> \<Union> (set ` rCollectives ` set (filter (publishes env repo event) rules))"
    and "distinct (dCollectives d') \<longleftrightarrow> distinct (dCollectives d)"
    and "set (dEvents d') = set (dEvents d) \<union> \<Union> (set ` rEvents ` set (filter (publishes env repo event) rules))"
    and "distinct (dEvents d') \<longleftrightarrow> distinct (dEvents d)"
  unfolding d'_def
  by (induction rules arbitrary: d) (auto simp: decideRule_def publishes_def pauses_def)

lemmas DecideForEvent_facts =
  decide_fold [of env repo event emptyDecision, folded DecideForEvent_def, unfolded emptyDecision_def, simplified]
  for env repo event

lemma outcome_iffs:
  "decisionOutcome (DecideForEvent env rules repo event) = Bound \<longleftrightarrow> (\<exists>rule \<in> set rules. publishes env repo event rule)"
  "decisionOutcome (DecideForEvent env rules repo event) = Paused \<longleftrightarrow>
     \<not> (\<exists>rule \<in> set rules. publishes env repo event rule) \<and> (\<exists>rule \<in> set rules. pauses env repo rule)"
  by (auto simp: decisionOutcome_def DecideForEvent_facts filter_empty_conv)


text \<open>
  A repository that rules cover can still be \<^const>\<open>Unbound\<close>. When every covering rule
  names events and none names the one asked for, the decision lists no rule and no paused
  rule, so \<open>Covered\<close> answers no and the outcome says that no rule covers the repository.
\<close>

theorem covered_by_other_event_unbound:
  assumes "rule \<in> set rules" and "Covers env rule repo" and "event \<noteq> []"
    and "\<forall>r \<in> set rules. Covers env r repo \<longrightarrow> rEvents r \<noteq> [] \<and> event \<notin> set (rEvents r)"
  shows "decisionOutcome (DecideForEvent env rules repo event) = Unbound \<and>
    \<not> Covered (DecideForEvent env rules repo event) \<and> decisionOutcome (Decide env rules repo) = Bound"
proof -
  have "dRules (DecideForEvent env rules repo event) = []" and "dPaused (DecideForEvent env rules repo event) = []"
    using assms(3,4) by (auto simp: DecideForEvent_facts filter_empty_conv publishes_def pauses_def)
  moreover have "publishes env repo [] rule" using assms(1,2,4) by (simp add: publishes_def)
  ultimately show ?thesis
    using assms(1) by (auto simp: decisionOutcome_def Covered_def Decide_def DecideForEvent_facts filter_empty_conv)
qed

lemma example_covers:
  "Covers exampleEnv exampleRule (SessionRepository exampleEnv ''/work/old'' [] False)"
proof -
  have dirs: "path_dir ''/work/old'' = ''/work''" "path_dir ''/work'' = ''/''" "trim_space ''/work/old'' \<noteq> []"
    by code_simp+
  have "folderMatches exampleEnv (FolderMatch ''/work'') ''/work''"
    by (subst folderMatches_FolderMatch) (simp_all add: example_gone_facts example_names_valid no_symlinks_example)
  then have "goneMatches exampleEnv (FolderMatch ''/work'') ''/work/old''"
    using dirs goneMatches.simps [of _ _ "''/work/old''"] goneMatches.simps [of _ _ "''/work''"] by simp
  with dirs show ?thesis by (simp add: Covers_def exampleRule_def SessionRepository_def example_gone_facts)
qed

theorem covered_by_other_event_unbound_witness:
  "decisionOutcome (DecideForEvent exampleEnv [exampleRule]
     (SessionRepository exampleEnv ''/work/old'' [] False) ''post-commit'') = Unbound"
  using covered_by_other_event_unbound [of exampleRule "[exampleRule]" exampleEnv
      "SessionRepository exampleEnv ''/work/old'' [] False" "''post-commit''"] example_covers
  by (simp add: exampleRule_def)

section \<open>Plans\<close>

text \<open>The cache holds only what reading the repository again would give.\<close>

definition sessionRepo :: "Env \<Rightarrow> bool \<Rightarrow> PushSessionRow \<Rightarrow> Repository" where
  "sessionRepo env remotes row = SessionRepository env (prProjectPath row) (prGitRemote row) remotes"

definition cache_ok :: "Env \<Rightarrow> bool \<Rightarrow> repositoryCache \<Rightarrow> bool" where
  "cache_ok env remotes cache \<longleftrightarrow>
     (\<forall>path remote repo. map_of cache (path, remote) = Some repo \<longrightarrow> repo = SessionRepository env path remote remotes)"

lemma repositoryOf_cached:
  assumes "cache_ok env remotes cache"
  shows "fst (repositoryOf env remotes cache row) = sessionRepo env remotes row \<and>
    cache_ok env remotes (snd (repositoryOf env remotes cache row))"
  using assms
  by (auto simp: repositoryOf_def cache_ok_def sessionRepo_def update_conv' Let_def split: option.split)

definition planStep :: "Env \<Rightarrow> Rule list \<Rightarrow> bool \<Rightarrow> string \<Rightarrow> bool \<Rightarrow> autoPublishPlan \<Rightarrow> PushSessionRow \<Rightarrow> autoPublishPlan" where
  "planStep env rules requireRule event remotes plan row =
     planDecided requireRule plan (prSessionID row) (DecideForEvent env rules (sessionRepo env remotes row) event)"

lemma plan_fold_cached:
  assumes "cache_ok env remotes cache"
  shows "snd (foldl (planRow env rules requireRule event remotes) (cache, plan) rows) =
    foldl (planStep env rules requireRule event remotes) plan rows"
  using assms
proof (induction rows arbitrary: cache plan)
  case (Cons row rows)
  obtain repo cache' where r: "repositoryOf env remotes cache row = (repo, cache')" by fastforce
  with repositoryOf_cached [OF Cons.prems, of row]
  have "repo = sessionRepo env remotes row" and "cache_ok env remotes cache'" by simp_all
  with r Cons.IH show ?case by (simp add: planRow_def planStep_def)
qed simp

definition rowOutcome :: "Env \<Rightarrow> Rule list \<Rightarrow> string \<Rightarrow> bool \<Rightarrow> PushSessionRow \<Rightarrow> Outcome" where
  "rowOutcome env rules event remotes row =
     decisionOutcome (DecideForEvent env rules (sessionRepo env remotes row) event)"

lemma planStep_pinned:
  "apPinned plan = Some P \<Longrightarrow>
   \<exists>P'. apPinned (planStep env rules requireRule event remotes plan row) = Some P' \<and>
     set P' = set P \<union> (if rowOutcome env rules event remotes row = Bound \<or>
       rowOutcome env rules event remotes row = Unbound \<and> \<not> requireRule then {prSessionID row} else {})"
  by (cases "rowOutcome env rules event remotes row")
    (auto simp: planStep_def planDecided_def rowOutcome_def pin_def Let_def)

lemma planStep_held:
  "fst ` set (apHeld (planStep env rules requireRule event remotes plan row)) =
   fst ` set (apHeld plan) \<union> (if rowOutcome env rules event remotes row = Paused then {prSessionID row} else {})"
  by (cases "rowOutcome env rules event remotes row")
    (auto simp: planStep_def planDecided_def rowOutcome_def pin_def Let_def dom_update)

lemma plan_fold_pinned:
  "apPinned plan = Some P \<Longrightarrow>
   \<exists>P'. apPinned (foldl (planStep env rules requireRule event remotes) plan rows) = Some P' \<and>
     set P' = set P \<union> {prSessionID row | row. row \<in> set rows \<and> (rowOutcome env rules event remotes row = Bound \<or>
       rowOutcome env rules event remotes row = Unbound \<and> \<not> requireRule)}"
proof (induction rows arbitrary: plan P)
  case (Cons row rows)
  from planStep_pinned [OF Cons.prems] obtain P1
    where P1: "apPinned (planStep env rules requireRule event remotes plan row) = Some P1"
      "set P1 = set P \<union> (if rowOutcome env rules event remotes row = Bound \<or>
       rowOutcome env rules event remotes row = Unbound \<and> \<not> requireRule then {prSessionID row} else {})" by blast
  from Cons.IH [OF P1(1)] obtain P' where
    "apPinned (foldl (planStep env rules requireRule event remotes) plan (row # rows)) = Some P'"
    "set P' = set P1 \<union> {prSessionID row | row. row \<in> set rows \<and> (rowOutcome env rules event remotes row = Bound \<or>
       rowOutcome env rules event remotes row = Unbound \<and> \<not> requireRule)}" by auto
  with P1(2) show ?case by (intro exI [of _ P']) auto
qed simp

lemma plan_fold_held:
  "fst ` set (apHeld (foldl (planStep env rules requireRule event remotes) plan rows)) =
   fst ` set (apHeld plan) \<union> {prSessionID row | row. row \<in> set rows \<and> rowOutcome env rules event remotes row = Paused}"
  by (induction rows arbitrary: plan) (auto simp: planStep_held)

lemma planAutoPublish_fold:
  assumes "planAutoPublish env (Inr rules) (Inr rows) runCfg requireRule event = Inr plan" and "rules \<noteq> []"
  shows "\<exists>u. plan = (foldl (planStep env rules requireRule event (list_ex (\<lambda>rule. rKind rule = RuleRemote) rules))
    (emptyPlan\<lparr> apPinned := Some [] \<rparr>) (fst (NarrowCandidates rows runCfg)))\<lparr> apUnbound := u \<rparr>"
proof -
  let ?remotes = "list_ex (\<lambda>rule. rKind rule = RuleRemote) rules"
  let ?plan = "foldl (planStep env rules requireRule event ?remotes)
    (emptyPlan\<lparr> apPinned := Some [] \<rparr>) (fst (NarrowCandidates rows runCfg))"
  have "cache_ok env ?remotes []" by (simp add: cache_ok_def)
  then have folded: "snd (foldl (planRow env rules requireRule event ?remotes) ([], emptyPlan\<lparr> apPinned := Some [] \<rparr>)
      (fst (NarrowCandidates rows runCfg))) = ?plan" by (rule plan_fold_cached)
  have "plan = (if bound ?plan then ?plan else ?plan\<lparr> apUnbound := 0 \<rparr>)"
    using assms(1) unfolding planAutoPublish_def Let_def sum.case if_not_P [OF assms(2)] folded by simp
  then have "plan = ?plan\<lparr> apUnbound := (if bound ?plan then apUnbound ?plan else 0) \<rparr>" by simp
  then show ?thesis by blast
qed


text \<open>When a rule is required, exactly what a rule publishes is pinned.\<close>

lemma plan_pinned_published:
  assumes "planAutoPublish env (Inr rules) (Inr rows) runCfg True event = Inr plan"
  shows "\<exists>P. apPinned plan = Some P \<and> set P =
    {prSessionID row | row. row \<in> set (fst (NarrowCandidates rows runCfg)) \<and> (\<exists>rule \<in> set rules. publishes env
      (sessionRepo env (list_ex (\<lambda>rule. rKind rule = RuleRemote) rules) row) event rule)}"
proof (cases "rules = []")
  case True
  with assms show ?thesis by (auto simp: planAutoPublish_def)
next
  case False
  let ?remotes = "list_ex (\<lambda>rule. rKind rule = RuleRemote) rules"
  obtain u where plan: "plan = (foldl (planStep env rules True event ?remotes)
    (emptyPlan\<lparr> apPinned := Some [] \<rparr>) (fst (NarrowCandidates rows runCfg)))\<lparr> apUnbound := u \<rparr>"
    using planAutoPublish_fold [OF assms False] by blast
  have "apPinned (emptyPlan\<lparr> apPinned := Some [] \<rparr>) = Some []" by simp
  from plan_fold_pinned [OF this, of env rules True event ?remotes "fst (NarrowCandidates rows runCfg)"]
  show ?thesis by (simp add: plan rowOutcome_def outcome_iffs)
qed

definition exampleRemoteRule :: Rule where
  "exampleRemoteRule = \<lparr> rID = ''r2'', rKind = RuleRemote, rMatch = ''git@github.com:ann/app.git'',
     rEvents = [''pre-push''], rCollectives = [''c1''] \<rparr>"

lemma example_remote_covers:
  "publishes exampleEnv (sessionRepo exampleEnv True (exampleRow i)) ''pre-push'' exampleRemoteRule"
proof -
  have label: "remotePatternLabel exampleEnv ''git@github.com:ann/app.git'' = Some ''github.com:ann/app''"
    "envRemoteLabel exampleEnv ''git@github.com:ann/app.git'' = Some ''github.com:ann/app''" by code_simp+
  have "glob_escape ''github.com:ann/app'' = ''github.com:ann/app''" by code_simp
  then have "glob_match ''github.com:ann/app'' ''github.com:ann/app'' = Some True"
    using glob_match_escape [of "''github.com:ann/app''" "''github.com:ann/app''"] by simp
  moreover have "to_lower ''github.com:ann/app'' = ''github.com:ann/app''" by code_simp
  ultimately have "remoteMatches exampleEnv ''git@github.com:ann/app.git'' ''git@github.com:ann/app.git''"
    by (simp add: remoteMatches_def label)
  moreover have "SessionRepository exampleEnv ''/work/app'' [] True =
      \<lparr> repoRoot = ''/work/app'', repoMainRoot = [], repoGone = [], repoRemote = ''git@github.com:ann/app.git'',
        repoOrigin = ''git@github.com:ann/app.git'' \<rparr>" by code_simp
  ultimately show ?thesis
    by (simp add: publishes_def Covers_def sessionRepo_def exampleRemoteRule_def exampleRow_def)
qed

lemma example_plan:
  "\<exists>plan. planAutoPublish exampleEnv (Inr [exampleRule]) (Inr [exampleRow ''root'']) exampleRun True ''pre-push'' =
     (Inr plan :: unit + autoPublishPlan)"
  by (simp add: planAutoPublish_def Let_def)


section \<open>The rules file\<close>

interpretation rules: dup_checked_loop
  "\<lambda>seen i rules. validateRulesFrom env (map fst seen) rules" rID "\<lambda>rule. validateRule env rule = None"
  by unfold_locales (auto simp: map_of_eq_None_iff split: option.split)

text \<open>
  \<open>validateRules\<close> accepts a rules file exactly when every rule is valid on its own and no
  two rules share an identifier.
\<close>

theorem validateRules_accepts_iff:
  "validateRules env rules = None \<longleftrightarrow>
     list_all (\<lambda>rule. validateRule env rule = None) rules \<and> distinct (map rID rules)"
  using rules.accepts_iff [of env rules] by (simp add: validateRules_def list_all_iff)

text \<open>
  Hooks are installed only in recorded repositories. The target of an install is one of
  the recorded repositories, at the path asked for, covered by the rule; and every recorded
  repository is a root that git reported for a recorded directory that exists, or the main
  worktree of one. They are listed once each, in the order of their roots.
\<close>

theorem coveredTarget_recorded:
  assumes "Recorded env (Inr dirs) = Inr recorded" and "coveredTarget env rule path recorded = Some repo"
  shows "repo \<in> set recorded \<and> path_clean (repoRoot repo) = path_clean path \<and> Covers env rule repo \<and>
    (\<exists>dir \<in> set dirs. recordedRoot env dir = Some (repoRoot repo)) \<and>
    sorted (map repoRoot recorded) \<and> distinct (map repoRoot recorded)"
proof -
  let ?roots = "remdups (List.map_filter (recordedRoot env) dirs)"
  let ?repo = "\<lambda>root. \<lparr> repoRoot = root, repoMainRoot = [], repoGone = [],
    repoRemote = envRemoteURL env root, repoOrigin = envOriginURL env root \<rparr>"
  have rec: "recorded = sort_key repoRoot (map ?repo ?roots)"
    using assms(1) by (simp add: Recorded_def readRemotes_def)
  have roots: "set ?roots = {root. \<exists>dir \<in> set dirs. recordedRoot env dir = Some root}"
    by (auto simp: map_filter_def intro!: image_eqI)
  have "repo \<in> set (covered env rule recorded)" and "path_clean (repoRoot repo) = path_clean path"
    using assms(2) by (auto simp: coveredTarget_def find_Some_iff in_set_conv_nth)
  moreover from this(1) have "repo \<in> set recorded" and "Covers env rule repo" by (simp_all add: covered_def)
  moreover from this(1) rec have "repoRoot repo \<in> set ?roots" by auto
  moreover have "distinct (map repoRoot recorded)"
  proof -
    have "mset (map repoRoot recorded) = mset (map repoRoot (map ?repo ?roots))"
      by (simp add: rec multiset.map_comp)
    moreover have "distinct (map repoRoot (map ?repo ?roots))" by (simp add: comp_def)
    ultimately show ?thesis using mset_eq_imp_distinct_iff by blast
  qed
  ultimately show ?thesis using roots rec by auto
qed

definition exampleRepository :: Repository where
  "exampleRepository = \<lparr> repoRoot = ''/work/app'', repoMainRoot = [], repoGone = [],
     repoRemote = ''git@github.com:ann/app.git'', repoOrigin = ''git@github.com:ann/app.git'' \<rparr>"

lemma example_app_facts:
  "is_abs ''/work/app''" "path_clean ''/work/app'' = ''/work/app''" "splitPath ''/work/app'' = [''work'', ''app'']"
  "trim_space ''/work/app'' = ''/work/app''" "path_clean ''/work/app/'' = ''/work/app''"
  by code_simp+

lemma example_app_covered:
  "folderMatches exampleEnv (FolderMatch ''/work/app'') ''/work/app''"
  by (subst folderMatches_FolderMatch) (simp_all add: example_app_facts example_names_valid no_symlinks_example)

lemma example_recorded:
  "Recorded exampleEnv (Inr [''/work/app'', ''/gone''] :: unit + string list) = Inr [exampleRepository]"
  by code_simp

lemma example_target:
  "coveredTarget exampleEnv (exampleRule\<lparr> rMatch := FolderMatch ''/work/app'' \<rparr>) ''/work/app/'' [exampleRepository] =
   Some exampleRepository"
  by (simp add: coveredTarget_def covered_def Covers_def exampleRule_def exampleRepository_def example_app_facts
      example_app_covered)

theorem coveredTarget_recorded_witness:
  "\<exists>dir \<in> set [''/work/app'', ''/gone'']. recordedRoot exampleEnv dir = Some (repoRoot exampleRepository)"
  using coveredTarget_recorded [OF example_recorded example_target] by blast

end
