(* ===== verification/Evidence.thy ===== *)
theory Evidence
  imports Go_Base
begin

text \<open>
  The table both producers of discovery candidates keep: for every piece of identity text,
  the identities seen with it and whether one of them was not proven. The locale is the
  contract of such a table; its client lemma says when a text stands for one proven
  identity. The projection and the push command provide it.
\<close>

locale identity_table =
  fixes add :: "'t \<Rightarrow> string \<Rightarrow> 'i \<Rightarrow> bool \<Rightarrow> 't"
    and get :: "'t \<Rightarrow> string \<Rightarrow> ('i set \<times> bool) option"
    and none :: 't
  assumes get_none: "get none n = None"
    and get_add: "k \<noteq> [] \<Longrightarrow> get (add t k i p) n =
      (if n = k then Some (case get t n of None \<Rightarrow> ({i}, \<not> p) | Some (S, u) \<Rightarrow> (insert i S, u \<or> \<not> p))
       else get t n)"
begin

lemma fold_get:
  assumes "n \<noteq> []"
  shows "get (foldl (\<lambda>t (k, i, p). if k \<noteq> [] then add t k i p else t) none evs) n =
    (if n \<in> fst ` set evs then Some ({i. \<exists>p. (n, i, p) \<in> set evs}, \<exists>i. (n, i, False) \<in> set evs) else None)"
proof (induction evs rule: rev_induct)
  case Nil
  then show ?case by (simp add: get_none)
next
  case (snoc ev evs)
  obtain k i p where ev: "ev = (k, i, p)" by (cases ev)
  show ?case
  proof (cases "k = n")
    case False
    with snoc ev assms show ?thesis by (auto simp: get_add)
  next
    case True
    have ids: "{j. \<exists>q. (n, j, q) \<in> set (evs @ [ev])} = insert i {j. \<exists>q. (n, j, q) \<in> set evs}"
      and bad: "(\<exists>j. (n, j, False) \<in> set (evs @ [ev])) \<longleftrightarrow> (\<exists>j. (n, j, False) \<in> set evs) \<or> \<not> p"
      using True ev by auto
    show ?thesis
    proof (cases "n \<in> fst ` set evs")
      case in_evs: True
      with snoc True ev assms ids bad show ?thesis by (simp add: get_add)
    next
      case False
      then have "{j. \<exists>q. (n, j, q) \<in> set evs} = {}" and "\<not> (\<exists>j. (n, j, False) \<in> set evs)"
        by (force simp: image_iff)+
      with False snoc True ev assms ids bad show ?thesis by (simp add: get_add)
    qed
  qed
qed

lemma unique_iff:
  assumes "n \<noteq> []" and "n \<in> fst ` set evs"
    and "get (foldl (\<lambda>t (k, i, p). if k \<noteq> [] then add t k i p else t) none evs) n = Some (S, u)"
  shows "\<not> u \<and> card S = 1 \<longleftrightarrow> (\<exists>j. \<forall>i p. (n, i, p) \<in> set evs \<longrightarrow> i = j \<and> p)"
proof -
  have S: "S = {i. \<exists>p. (n, i, p) \<in> set evs}" and u: "u \<longleftrightarrow> (\<exists>i. (n, i, False) \<in> set evs)"
    using fold_get [OF assms(1), of evs] assms(2,3) by simp_all
  have "S \<noteq> {}" using assms(2) S by force
  have "card S = 1 \<longleftrightarrow> (\<exists>j. S = {j})" by (simp add: card_1_singleton_iff)
  also have "\<dots> \<longleftrightarrow> (\<exists>j. \<forall>i p. (n, i, p) \<in> set evs \<longrightarrow> i = j)"
    using \<open>S \<noteq> {}\<close> unfolding S by (intro iff_exI) blast
  finally show ?thesis using u by (metis (full_types))
qed

end

end
