(* ===== verification/Session_List.thy ===== *)
theory Session_List
  imports Go_Base
begin

text \<open>
  The list of sessions a command reads from \<^verbatim>\<open>--sessions-from\<close>:
  \<open>internal/clicontract/sessions.go\<close> and \<open>review.go\<close>.

  \<open>json.Decoder.Decode\<close> is an argument: the first value of the input and the input after it,
  or \<open>None\<close> for a syntax error. A value keeps the keys of an object in the order of the text,
  repeated ones included, as the token reader of \<open>decodeObject\<close> sees them. The texts of the
  errors are the constructors of a datatype.
\<close>

section \<open>Review statuses\<close>

datatype ReviewStatus = ReviewClean | ReviewFindings | ReviewError

fun reviewText :: "ReviewStatus \<Rightarrow> string" where
  "reviewText ReviewClean = ''clean''"
| "reviewText ReviewFindings = ''findings''"
| "reviewText ReviewError = ''error''"

definition AllReviewStatuses :: "ReviewStatus list" where
  "AllReviewStatuses = [ReviewClean, ReviewFindings, ReviewError]"

definition NewReviewStatus :: "string \<Rightarrow> ReviewStatus option" where
  "NewReviewStatus raw = List.find (\<lambda>s. reviewText s = raw) AllReviewStatuses"

record DroppedSession =
  dsID :: string
  dsStatus :: ReviewStatus

record SessionList =
  slIDs :: "string list"
  slDropped :: "DroppedSession list"

record parsedSession =
  psID :: string
  psStatus :: "ReviewStatus option"

record sessionWarning =
  swCode :: string
  swSessionID :: string
  swMessage :: string

definition Warnings :: "SessionList \<Rightarrow> sessionWarning list" where
  "Warnings l =
     map (\<lambda>d. \<lparr> swCode = ''session_refused'', swSessionID = dsID d,
       swMessage = ''left out of this run: its review status is '' @ reviewText (dsStatus d) @
         '', and only a clean session passes through a review document'' \<rparr>) (slDropped l)"

section \<open>Values and errors\<close>

datatype json =
  JNull
| JBool bool
| JNumber string
| JString string
| JArray "json list"
| JObject "(string \<times> json) list"

datatype listError =
  ReadFailed
| SyntaxError
| TrailingContent nat
| NotAnObject
| RepeatedKey string
| KeyCase string string
| NoSessionsKey
| SessionsNotArray
| MissingKey string
| NotAString string
| IDsDisagree string string
| ReviewFinding
| NoIDKey
| EmptyID
| StatusStripped
| StatusNotString
| UnknownStatus string
| NotASession
| AtIndex nat listError
| AtLine nat listError
| HoldsSpace string
| LooksLikeJSON string
| NoCleanSessions "DroppedSession list"
| NoSessionIDs

type_synonym decoder = "string \<Rightarrow> (json \<times> string) option"

text \<open>\<open>json.Unmarshal\<close> into a string: null leaves the empty string.\<close>

fun unmarshalString :: "json \<Rightarrow> string option" where
  "unmarshalString (JString s) = Some s"
| "unmarshalString JNull = Some []"
| "unmarshalString _ = None"

section \<open>One entry\<close>

definition knownKeys :: "string list" where
  "knownKeys = [''id'', ''session_id'', ''sessionId'', ''status'', ''sessions'', ''findings'', ''entryIndex'', ''kind'', ''rule'']"

text \<open>
  \<open>strings.EqualFold\<close> against a key of ASCII letters: two code points outside ASCII fold to
  an ASCII letter, the long s and the Kelvin sign.
\<close>

fun fold_key :: "string \<Rightarrow> string" where
  "fold_key [] = []"
| "fold_key (c # s) =
     (if c = CHR 0xC5 \<and> prefix [CHR 0xBF] s then CHR ''s'' # fold_key (drop 1 s)
      else if c = CHR 0xE2 \<and> prefix [CHR 0x84, CHR 0xAA] s then CHR ''k'' # fold_key (drop 2 s)
      else lower_char c # fold_key s)"

definition caseVariant :: "string \<Rightarrow> string option" where
  "caseVariant key = List.find (\<lambda>known. key \<noteq> known \<and> fold_key key = fold_key known) knownKeys"

fun decodeKeys :: "(string \<times> json) list \<Rightarrow> (string \<times> json) list \<Rightarrow> listError + (string \<rightharpoonup> json)" where
  "decodeKeys object [] = Inr (map_of object)"
| "decodeKeys object ((key, value) # rest) =
     (if key \<in> fst ` set object then Inl (RepeatedKey key)
      else case caseVariant key of
             Some known \<Rightarrow> Inl (KeyCase key known)
           | None \<Rightarrow> decodeKeys ((key, value) # object) rest)"

fun decodeObject :: "json \<Rightarrow> listError + (string \<rightharpoonup> json)" where
  "decodeObject (JObject entries) = decodeKeys [] entries"
| "decodeObject _ = Inl NotAnObject"

definition idKeys :: "string list" where
  "idKeys = [''id'', ''session_id'', ''sessionId'']"

fun readIDKeys :: "(string \<rightharpoonup> json) \<Rightarrow> string option \<Rightarrow> string list \<Rightarrow> listError + string option" where
  "readIDKeys object named [] = Inr named"
| "readIDKeys object named (key # keys) =
     (case object key of
        None \<Rightarrow> readIDKeys object named keys
      | Some value \<Rightarrow>
          (case unmarshalString value of
             None \<Rightarrow> Inl (NotAString key)
           | Some raw \<Rightarrow>
               let given = trim_space raw
               in (case named of
                     Some i \<Rightarrow> if given \<noteq> i then Inl (IDsDisagree i given) else readIDKeys object (Some given) keys
                   | None \<Rightarrow> readIDKeys object (Some given) keys)))"

definition nonEmptyID :: "string \<Rightarrow> listError + string" where
  "nonEmptyID raw = (let i = trim_space raw in if i = [] then Inl EmptyID else Inr i)"

definition newReviewedSession :: "string \<Rightarrow> string \<Rightarrow> listError + parsedSession" where
  "newReviewedSession rawID rawStatus =
     (case nonEmptyID rawID of
        Inl e \<Rightarrow> Inl e
      | Inr i \<Rightarrow>
          (case NewReviewStatus rawStatus of
             None \<Rightarrow> Inl (UnknownStatus rawStatus)
           | Some status \<Rightarrow> Inr \<lparr> psID = i, psStatus = Some status \<rparr>))"

definition statusOfObject :: "(string \<rightharpoonup> json) \<Rightarrow> string \<Rightarrow> listError + parsedSession" where
  "statusOfObject object i =
     (let camel = object ''sessionId'' \<noteq> None
      in case object ''status'' of
           None \<Rightarrow> if object ''findings'' \<noteq> None then Inl StatusStripped else Inr \<lparr> psID = i, psStatus = None \<rparr>
         | Some rawStatus \<Rightarrow>
             (case unmarshalString rawStatus of
                None \<Rightarrow> if camel then Inl StatusNotString else Inr \<lparr> psID = i, psStatus = None \<rparr>
              | Some status \<Rightarrow>
                  if NewReviewStatus status = None \<and> \<not> camel \<and> object ''findings'' = None
                  then Inr \<lparr> psID = i, psStatus = None \<rparr>
                  else newReviewedSession i status))"

definition sessionFromObject :: "(string \<rightharpoonup> json) \<Rightarrow> listError + parsedSession" where
  "sessionFromObject object =
     (case readIDKeys object None idKeys of
        Inl e \<Rightarrow> Inl e
      | Inr named \<Rightarrow>
          if object ''entryIndex'' \<noteq> None then Inl ReviewFinding
          else if object ''kind'' \<noteq> None \<and> object ''rule'' \<noteq> None then Inl ReviewFinding
          else case named of
                 None \<Rightarrow> Inl NoIDKey
               | Some i \<Rightarrow> if i = [] then Inl EmptyID else statusOfObject object i)"

fun sessionFromElement :: "json \<Rightarrow> listError + parsedSession" where
  "sessionFromElement (JString s) = map_sum id (\<lambda>i. \<lparr> psID = i, psStatus = None \<rparr>) (nonEmptyID s)"
| "sessionFromElement (JObject entries) =
     (case decodeObject (JObject entries) of Inl e \<Rightarrow> Inl e | Inr object \<Rightarrow> sessionFromObject object)"
| "sessionFromElement _ = Inl NotASession"

definition reviewEntry :: "json \<Rightarrow> listError + parsedSession" where
  "reviewEntry element =
     (case decodeObject element of
        Inl e \<Rightarrow> Inl e
      | Inr object \<Rightarrow>
          if object ''sessionId'' = None then Inl (MissingKey ''sessionId'')
          else if object ''status'' = None then Inl (MissingKey ''status'')
          else sessionFromObject object)"

section \<open>The three shapes of an input\<close>

fun readEntries :: "('a \<Rightarrow> listError + parsedSession) \<Rightarrow> nat \<Rightarrow> 'a list \<Rightarrow> listError + parsedSession list" where
  "readEntries f index [] = Inr []"
| "readEntries f index (x # xs) =
     (case f x of
        Inl e \<Rightarrow> Inl (AtIndex index e)
      | Inr session \<Rightarrow> map_sum id ((#) session) (readEntries f (Suc index) xs))"

definition newlines :: "string \<Rightarrow> nat" where
  "newlines s = count_list s (CHR 0x0A)"

definition refuseTrailingContent :: "string \<Rightarrow> string \<Rightarrow> listError option" where
  "refuseTrailingContent data rest =
     (let extra = trim_space rest
      in if extra = [] then None
         else
           let offset = length data - length rest + length (takeWhile (\<lambda>c. c \<noteq> hd extra) rest)
           in Some (TrailingContent (newlines (take offset data) + 1)))"

fun elementsOf :: "json \<Rightarrow> json list option" where
  "elementsOf (JArray xs) = Some xs"
| "elementsOf JNull = Some []"
| "elementsOf _ = None"

definition readJSONSessionIDs :: "decoder \<Rightarrow> string \<Rightarrow> listError + parsedSession list" where
  "readJSONSessionIDs decode data =
     (case decode data of
        None \<Rightarrow> Inl SyntaxError
      | Some (value, rest) \<Rightarrow>
          (case elementsOf value of
             None \<Rightarrow> Inl SyntaxError
           | Some elements \<Rightarrow>
               (case refuseTrailingContent data rest of
                  Some e \<Rightarrow> Inl e
                | None \<Rightarrow> readEntries sessionFromElement 0 elements)))"

definition readReviewDocument :: "decoder \<Rightarrow> string \<Rightarrow> listError + parsedSession list" where
  "readReviewDocument decode data =
     (case decode data of
        None \<Rightarrow> Inl SyntaxError
      | Some (value, rest) \<Rightarrow>
          (case refuseTrailingContent data rest of
             Some e \<Rightarrow> Inl e
           | None \<Rightarrow>
               (case decodeObject value of
                  Inl e \<Rightarrow> Inl (AtLine 1 e)
                | Inr document \<Rightarrow>
                    (case document ''sessions'' of
                       None \<Rightarrow> Inl NoSessionsKey
                     | Some (JArray elements) \<Rightarrow> readEntries reviewEntry 0 elements
                     | Some _ \<Rightarrow> Inl SessionsNotArray))))"

text \<open>
  The lines of \<open>bufio.Scanner\<close>: what follows the last line break is a line only when it is not
  empty, and a line loses one carriage return at its end. The buffer holds the whole input, so
  no line is too long.
\<close>

definition scanLines :: "string \<Rightarrow> string list" where
  "scanLines data =
     (let parts = split_char (CHR 0x0A) data;
          parts = (if last parts = [] then butlast parts else parts)
      in map (trim_suffix [CHR 0x0D]) parts)"

definition holdsSpace :: "string \<Rightarrow> bool" where
  "holdsSpace s = list_ex (\<lambda>seq. sublist seq s) space_seqs"

fun readLines :: "nat \<Rightarrow> string list \<Rightarrow> listError + parsedSession list" where
  "readLines line [] = Inr []"
| "readLines line (raw # rest) =
     (let txt = trim_space raw
      in if txt = [] \<or> prefix ''#'' txt then readLines (Suc line) rest
         else if holdsSpace txt then Inl (AtLine line (HoldsSpace txt))
         else if hd txt \<in> set ''[]{}'' \<union> {CHR 0x22} then Inl (AtLine line (LooksLikeJSON txt))
         else map_sum id ((#) \<lparr> psID = txt, psStatus = None \<rparr>) (readLines (Suc line) rest))"

definition readTextSessionIDs :: "string \<Rightarrow> listError + parsedSession list" where
  "readTextSessionIDs data = readLines 1 (scanLines data)"

section \<open>The list\<close>

definition dedupe :: "string list \<Rightarrow> string list" where
  "dedupe ids = foldl (\<lambda>out i. if i \<in> set out then out else out @ [i]) [] ids"

definition dropSession :: "DroppedSession list \<Rightarrow> parsedSession \<Rightarrow> DroppedSession list" where
  "dropSession dropped session =
     (case psStatus session of
        None \<Rightarrow> dropped
      | Some status \<Rightarrow>
          if status = ReviewClean \<or> psID session \<in> dsID ` set dropped then dropped
          else dropped @ [\<lparr> dsID = psID session, dsStatus = status \<rparr>])"

definition splitByStatus :: "parsedSession list \<Rightarrow> SessionList" where
  "splitByStatus parsed =
     (let dropped = foldl dropSession [] parsed
      in \<lparr> slIDs = dedupe (map psID (filter (\<lambda>s. psID s \<notin> dsID ` set dropped) parsed)), slDropped = dropped \<rparr>)"

definition parseSessions :: "decoder \<Rightarrow> string \<Rightarrow> listError + parsedSession list" where
  "parseSessions decode data =
     (let trimmed = trim_left_space data
      in if prefix ''['' trimmed then readJSONSessionIDs decode data
         else if prefix ''{'' trimmed then readReviewDocument decode data
         else readTextSessionIDs data)"

definition ReadSessionList :: "decoder \<Rightarrow> string option \<Rightarrow> listError + SessionList" where
  "ReadSessionList decode input =
     (case input of
        None \<Rightarrow> Inl ReadFailed
      | Some data \<Rightarrow>
          (case parseSessions decode data of
             Inl e \<Rightarrow> Inl e
           | Inr parsed \<Rightarrow>
               let l = splitByStatus parsed
               in if slIDs l \<noteq> [] then Inr l
                  else if slDropped l \<noteq> [] then Inl (NoCleanSessions (slDropped l))
                  else Inl NoSessionIDs))"

definition ReadSessionIDs :: "decoder \<Rightarrow> string option \<Rightarrow> listError + string list" where
  "ReadSessionIDs decode input = map_sum id slIDs (ReadSessionList decode input)"

section \<open>The flag\<close>

text \<open>
  What a command line gives: the value of the flag when it was given, which of the other
  selectors were given, the files that can be opened, with \<open>None\<close> for one whose content cannot
  be read, and standard input.
\<close>

record command =
  cmSessionsFrom :: "string option"
  cmChanged :: "string set"
  cmFiles :: "string \<rightharpoonup> string option"
  cmStdin :: "string option"

datatype usageError =
  ConflictingFlags string
| OpenFailed string
| NoCleanNamed "DroppedSession list"
| NamesNoSession
| BadInput listError

definition conflictingSelectors :: "string list" where
  "conflictingSelectors = [''session'', ''all'']"

definition usageOf :: "listError \<Rightarrow> usageError" where
  "usageOf e =
     (case e of
        NoCleanSessions dropped \<Rightarrow> NoCleanNamed dropped
      | NoSessionIDs \<Rightarrow> NamesNoSession
      | _ \<Rightarrow> BadInput e)"

definition ReadSessionsFrom :: "decoder \<Rightarrow> command \<Rightarrow> usageError + SessionList option" where
  "ReadSessionsFrom decode cmd =
     (case cmSessionsFrom cmd of
        None \<Rightarrow> Inr None
      | Some source \<Rightarrow>
          (case (if source = ''-'' then Some (cmStdin cmd) else cmFiles cmd source) of
             None \<Rightarrow> Inl (OpenFailed source)
           | Some input \<Rightarrow> map_sum usageOf Some (ReadSessionList decode input)))"

definition ResolveSessionsFrom :: "decoder \<Rightarrow> command \<Rightarrow> usageError + SessionList option" where
  "ResolveSessionsFrom decode cmd =
     (if cmSessionsFrom cmd = None then Inr None
      else case List.find (\<lambda>other. other \<in> cmChanged cmd) conflictingSelectors of
             Some other \<Rightarrow> Inl (ConflictingFlags other)
           | None \<Rightarrow> ReadSessionsFrom decode cmd)"


section \<open>What an entry gives\<close>

lemma reviewText_inj [simp]: "reviewText a = reviewText b \<longleftrightarrow> a = b"
  by (cases a; cases b) simp_all

lemma NewReviewStatus_text [simp]: "NewReviewStatus (reviewText st) = Some st"
  by (cases st) (simp_all add: NewReviewStatus_def AllReviewStatuses_def)

lemma decodeKeys_Inr:
  "decodeKeys object entries = Inr m \<Longrightarrow> distinct (map fst object) \<Longrightarrow>
     distinct (map fst entries) \<and> fst ` set object \<inter> fst ` set entries = {} \<and> m = map_of (rev entries @ object)"
proof (induction object entries rule: decodeKeys.induct)
  case (2 object key val rest)
  then have new: "key \<notin> fst ` set object" and run: "decodeKeys ((key, val) # object) rest = Inr m" and var: "caseVariant key = None"
    by (auto split: if_splits option.splits)
  from "2.IH" [OF new var run] "2.prems"(2) new show ?case by auto
qed simp

lemma decodeObject_Inr:
  assumes "decodeObject j = Inr m"
  obtains entries where "j = JObject entries" and "distinct (map fst entries)" and "m = map_of entries"
proof (cases j)
  case (JObject entries)
  with assms decodeKeys_Inr [of "[]" entries m] have "distinct (map fst entries)" "m = map_of (rev entries)" by auto
  moreover from this(1) have "map_of (rev entries) = map_of entries" by (subst map_of_inject_set) (simp_all add: rev_map [symmetric])
  ultimately show thesis using that JObject by simp
qed (use assms in auto)

lemma readIDKeys_Inr:
  "readIDKeys object named keys = Inr (Some i) \<Longrightarrow>
     (\<forall>k \<in> set keys. \<forall>raw. object k = Some (JString raw) \<longrightarrow> trim_space raw = i) \<and> (\<forall>j. named = Some j \<longrightarrow> j = i) \<and>
     (trim_space i = i \<or> named = Some i)"
proof (induction keys arbitrary: named)
  case (Cons key keys)
  show ?case
  proof (cases "object key")
    case None
    with Cons.prems have "readIDKeys object named keys = Inr (Some i)" by simp
    from Cons.IH [OF this] None show ?thesis by simp
  next
    case (Some v)
    then obtain raw where raw: "unmarshalString v = Some raw" using Cons.prems by (auto split: option.splits)
    with Some Cons.prems have run: "readIDKeys object (Some (trim_space raw)) keys = Inr (Some i)" and same: "named = None \<or> named = Some (trim_space raw)"
      by (auto simp: Let_def split: option.splits if_splits)
    from Cons.IH [OF run] have rest: "\<forall>k \<in> set keys. \<forall>raw. object k = Some (JString raw) \<longrightarrow> trim_space raw = i" and i: "trim_space raw = i"
      by simp_all
    have "trim_space r = i" if "object key = Some (JString r)" for r using that raw Some i by simp
    with rest have "\<forall>k \<in> set (key # keys). \<forall>raw. object k = Some (JString raw) \<longrightarrow> trim_space raw = i" by simp
    moreover have "trim_space i = i" unfolding i [symmetric] by (rule trim_space_idem)
    ultimately show ?thesis using same i by blast
  qed
qed simp

lemma newReviewedSession_Inr:
  "newReviewedSession i raw = Inr s \<Longrightarrow> psID s = trim_space i \<and> (\<exists>st. NewReviewStatus raw = Some st \<and> psStatus s = Some st)"
  by (auto simp: newReviewedSession_def nonEmptyID_def Let_def split: if_splits option.splits)

lemma sessionFromObject_Inr:
  assumes "sessionFromObject object = Inr s"
  shows "psID s \<noteq> []"
    and "k \<in> set idKeys \<Longrightarrow> object k = Some (JString raw) \<Longrightarrow> trim_space raw = psID s"
    and "object ''status'' = Some (JString (reviewText st)) \<Longrightarrow> psStatus s = Some st"
    and "object ''sessionId'' \<noteq> None \<Longrightarrow> object ''status'' \<noteq> None \<Longrightarrow> psStatus s \<noteq> None"
proof -
  obtain i where ids: "readIDKeys object None idKeys = Inr (Some i)" and i: "i \<noteq> []" and st: "statusOfObject object i = Inr s"
    using assms by (auto simp: sessionFromObject_def split: sum.splits if_splits option.splits)
  have trim: "trim_space i = i" using readIDKeys_Inr [OF ids] by simp
  then have "psID s = i" using st
    by (auto simp: statusOfObject_def Let_def dest!: newReviewedSession_Inr split: option.splits if_splits)
  with i show "psID s \<noteq> []" and "k \<in> set idKeys \<Longrightarrow> object k = Some (JString raw) \<Longrightarrow> trim_space raw = psID s"
    using readIDKeys_Inr [OF ids] by auto
  show "object ''status'' = Some (JString (reviewText st)) \<Longrightarrow> psStatus s = Some st" for st
    using st by (auto simp: statusOfObject_def Let_def dest!: newReviewedSession_Inr)
  show "object ''sessionId'' \<noteq> None \<Longrightarrow> object ''status'' \<noteq> None \<Longrightarrow> psStatus s \<noteq> None"
    using st by (auto simp: statusOfObject_def Let_def dest!: newReviewedSession_Inr split: option.splits if_splits)
qed

lemma readEntries_Inr: "readEntries f n xs = Inr ss \<Longrightarrow> list_all2 (\<lambda>x s. f x = Inr s) xs ss"
proof (induction f n xs arbitrary: ss rule: readEntries.induct)
  case (2 f n x xs)
  then show ?case by (cases "f x"; cases "readEntries f (Suc n) xs") auto
qed simp

section \<open>The list of a parsed input\<close>

lemma dedupe_props: "distinct (dedupe ids)" "set (dedupe ids) = set ids" "distinct ids \<Longrightarrow> dedupe ids = ids"
proof -
  have d: "distinct out \<Longrightarrow> distinct (foldl (\<lambda>out i. if i \<in> set out then out else out @ [i]) out ids)" for out
    by (induction ids arbitrary: out) auto
  have s: "set (foldl (\<lambda>out i. if i \<in> set out then out else out @ [i]) out ids) = set out \<union> set ids" for out
    by (induction ids arbitrary: out) auto
  have k: "distinct (out @ ids) \<Longrightarrow> foldl (\<lambda>out i. if i \<in> set out then out else out @ [i]) out ids = out @ ids" for out
    by (induction ids arbitrary: out) auto
  show "distinct (dedupe ids)" "set (dedupe ids) = set ids" "distinct ids \<Longrightarrow> dedupe ids = ids"
    unfolding dedupe_def using d [of "[]"] s [of "[]"] k [of "[]"] by simp_all
qed

definition refused :: "parsedSession \<Rightarrow> bool" where
  "refused s \<longleftrightarrow> psStatus s \<noteq> None \<and> psStatus s \<noteq> Some ReviewClean"

lemma dropSession_fold:
  "dsID ` set (foldl dropSession dropped parsed) = dsID ` set dropped \<union> psID ` {s \<in> set parsed. refused s}"
proof (induction parsed arbitrary: dropped)
  case (Cons s parsed)
  have "dsID ` set (dropSession dropped s) = dsID ` set dropped \<union> (if refused s then {psID s} else {})"
    by (auto simp: dropSession_def refused_def split: option.splits)
  moreover have "{x \<in> set (s # parsed). refused x} = (if refused s then {s} else {}) \<union> {x \<in> set parsed. refused x}" by auto
  ultimately show ?case unfolding foldl.simps Cons.IH by auto
qed simp

lemma splitByStatus_sets:
  "dsID ` set (slDropped (splitByStatus parsed)) = psID ` {s \<in> set parsed. refused s}"
  "set (slIDs (splitByStatus parsed)) = psID ` set parsed - psID ` {s \<in> set parsed. refused s}"
  "distinct (slIDs (splitByStatus parsed))"
  using dropSession_fold [of "[]" parsed] by (auto simp: splitByStatus_def Let_def dedupe_props)

lemma ReadSessionList_Inr:
  assumes "ReadSessionList decode (Some data) = Inr l"
  obtains parsed where "parseSessions decode data = Inr parsed" and "l = splitByStatus parsed"
  using assms by (auto simp: ReadSessionList_def Let_def split: sum.splits if_splits)

lemma sessionFromObject_trim: "sessionFromObject object = Inr s \<Longrightarrow> trim_space (psID s) = psID s"
proof -
  assume "sessionFromObject object = Inr s"
  then obtain i where ids: "readIDKeys object None idKeys = Inr (Some i)" and st: "statusOfObject object i = Inr s"
    by (auto simp: sessionFromObject_def split: sum.splits if_splits option.splits)
  have "trim_space i = i" using readIDKeys_Inr [OF ids] by simp
  then show ?thesis using st
    by (auto simp: statusOfObject_def Let_def dest!: newReviewedSession_Inr split: option.splits if_splits)
qed

lemma sessionFromElement_trim: "sessionFromElement x = Inr s \<Longrightarrow> trim_space (psID s) = psID s"
proof (cases x)
  case (JString raw)
  assume "sessionFromElement x = Inr s"
  with JString show ?thesis by (auto simp: nonEmptyID_def Let_def split: if_splits)
next
  case (JObject entries)
  assume "sessionFromElement x = Inr s"
  with JObject show ?thesis using sessionFromObject_trim by (cases "decodeObject x") auto
qed auto

lemma readLines_trim: "readLines n raws = Inr ss \<Longrightarrow> s \<in> set ss \<Longrightarrow> trim_space (psID s) = psID s"
proof (induction raws arbitrary: n ss)
  case (Cons raw raws)
  show ?case
  proof (cases "trim_space raw = [] \<or> prefix ''#'' (trim_space raw)")
    case True
    then show ?thesis using Cons by (auto simp: Let_def)
  next
    case False
    with Cons.prems(1) obtain rest where rest: "readLines (Suc n) raws = Inr rest" and ss: "ss = \<lparr> psID = trim_space raw, psStatus = None \<rparr> # rest"
      by (auto simp: Let_def map_sum_def split: if_splits sum.splits)
    from Cons.IH [OF rest] Cons.prems(2) ss show ?thesis by auto
  qed
qed simp

lemma list_all2_member: "list_all2 R xs ys \<Longrightarrow> x \<in> set xs \<Longrightarrow> \<exists>y \<in> set ys. R x y"
  by (induction rule: list_all2_induct) auto

lemma readEntries_trim:
  assumes "readEntries f n xs = Inr ss" and "s \<in> set ss" and "\<And>x s. f x = Inr s \<Longrightarrow> trim_space (psID s) = psID s"
  shows "trim_space (psID s) = psID s"
  using readEntries_Inr [OF assms(1)] assms(2,3) by (auto simp: list_all2_conv_all_nth in_set_conv_nth)

section \<open>Properties\<close>

text \<open>The entries of a JSON input, before anything is checked.\<close>

definition jsonEntries :: "decoder \<Rightarrow> string \<Rightarrow> json list" where
  "jsonEntries decode data =
     (if prefix ''['' (trim_left_space data)
      then (case decode data of Some (JArray xs, _) \<Rightarrow> xs | _ \<Rightarrow> [])
      else if prefix ''{'' (trim_left_space data)
      then (case decode data of
              Some (JObject entries, _) \<Rightarrow> (case map_of entries ''sessions'' of Some (JArray xs) \<Rightarrow> xs | _ \<Rightarrow> [])
            | _ \<Rightarrow> [])
      else [])"

definition namesSession :: "(string \<times> json) list \<Rightarrow> string \<Rightarrow> bool" where
  "namesSession entries i \<longleftrightarrow> (\<exists>k \<in> set idKeys. \<exists>raw. (k, JString raw) \<in> set entries \<and> trim_space raw = i)"

lemma entry_Inr:
  assumes "sessionFromElement (JObject entries) = Inr s"
  shows "namesSession entries i \<Longrightarrow> psID s = i"
    and "(''status'', JString (reviewText st)) \<in> set entries \<Longrightarrow> psStatus s = Some st"
proof -
  obtain m where m: "decodeObject (JObject entries) = Inr m" and s: "sessionFromObject m = Inr s"
    using assms by (cases "decodeObject (JObject entries)") auto
  obtain d: "distinct (map fst entries)" and m: "m = map_of entries" using decodeObject_Inr [OF m] by auto
  show "namesSession entries i \<Longrightarrow> psID s = i"
    using sessionFromObject_Inr(2) [OF s] d unfolding namesSession_def m by (metis map_of_is_SomeI)
  show "(''status'', JString (reviewText st)) \<in> set entries \<Longrightarrow> psStatus s = Some st"
    using sessionFromObject_Inr(3) [OF s] d unfolding m by (metis map_of_is_SomeI)
qed

lemma reviewEntry_Inr:
  assumes "reviewEntry x = Inr s"
  shows "sessionFromElement x = Inr s" and "psStatus s \<noteq> None"
proof -
  obtain m where m: "decodeObject x = Inr m" "sessionFromObject m = Inr s" "m ''sessionId'' \<noteq> None" "m ''status'' \<noteq> None"
    using assms by (auto simp: reviewEntry_def split: sum.splits if_splits)
  then show "psStatus s \<noteq> None" using sessionFromObject_Inr(4) [OF m(2-4)] by blast
  from decodeObject_Inr [OF m(1)] obtain entries where "x = JObject entries" .
  with m show "sessionFromElement x = Inr s" by simp
qed

lemma parseSessions_trim:
  assumes "parseSessions decode data = Inr parsed" and "s \<in> set parsed"
  shows "trim_space (psID s) = psID s"
proof -
  from assms(1) consider n xs where "readEntries sessionFromElement n xs = Inr parsed" | n xs where "readEntries reviewEntry n xs = Inr parsed"
    | n raws where "readLines n raws = Inr parsed"
    by (auto simp: parseSessions_def Let_def readJSONSessionIDs_def readReviewDocument_def readTextSessionIDs_def
      split: if_splits option.splits sum.splits json.splits)
  then show ?thesis
  proof cases
    case 1
    then show ?thesis using assms(2) sessionFromElement_trim by (rule readEntries_trim)
  next
    case 2
    then show ?thesis using assms(2) sessionFromElement_trim [OF reviewEntry_Inr(1)] by (rule readEntries_trim)
  next
    case 3
    then show ?thesis using assms(2) by (rule readLines_trim)
  qed
qed

lemma parseSessions_entries:
  assumes "parseSessions decode data = Inr parsed" and "x \<in> set (jsonEntries decode data)"
  obtains s where "s \<in> set parsed" and "sessionFromElement x = Inr s"
    and "prefix ''{'' (trim_left_space data) \<Longrightarrow> psStatus s \<noteq> None"
proof (cases "prefix ''['' (trim_left_space data)")
  case True
  then obtain xs rest where "decode data = Some (JArray xs, rest)" "x \<in> set xs"
    using assms(2) by (cases "decode data") (auto simp: jsonEntries_def split: json.splits prod.splits)
  moreover from this True have "list_all2 (\<lambda>x s. sessionFromElement x = Inr s) xs parsed"
    using assms(1) by (auto simp: parseSessions_def readJSONSessionIDs_def split: option.splits dest: readEntries_Inr)
  ultimately obtain s where "s \<in> set parsed" "sessionFromElement x = Inr s" by (blast dest: list_all2_member)
  moreover have "\<not> prefix ''{'' (trim_left_space data)" using True by (cases "trim_left_space data") auto
  ultimately show thesis using that by blast
next
  case False
  then have curly: "prefix ''{'' (trim_left_space data)" using assms(2) by (cases "prefix ''{'' (trim_left_space data)") (simp_all add: jsonEntries_def)
  with False obtain entries xs rest where e: "decode data = Some (JObject entries, rest)" "map_of entries ''sessions'' = Some (JArray xs)" "x \<in> set xs"
    using assms(2) by (cases "decode data") (auto simp: jsonEntries_def split: option.splits json.splits prod.splits dest: sym [of "Some _"])
  from False curly e(1) assms(1) obtain m where m: "decodeObject (JObject entries) = Inr m"
    by (auto simp: parseSessions_def readReviewDocument_def split: option.splits sum.splits)
  then have "m ''sessions'' = Some (JArray xs)" using e(2) by (elim decodeObject_Inr) simp
  with m have "list_all2 (\<lambda>x s. reviewEntry x = Inr s) xs parsed"
    using False curly e(1) assms(1) by (auto simp: parseSessions_def readReviewDocument_def split: option.splits dest: readEntries_Inr)
  then obtain s where "s \<in> set parsed" "reviewEntry x = Inr s" using e(3) by (blast dest: list_all2_member)
  then show thesis using that reviewEntry_Inr by blast
qed

lemma refused_entry_dropped:
  assumes "ReadSessionList decode (Some data) = Inr l" and "JObject entries \<in> set (jsonEntries decode data)"
    and "namesSession entries i" and "(''status'', JString (reviewText st)) \<in> set entries" and "st \<noteq> ReviewClean"
  shows "i \<in> dsID ` set (slDropped l)"
proof -
  obtain parsed where run: "parseSessions decode data = Inr parsed" and l: "l = splitByStatus parsed"
    by (rule ReadSessionList_Inr [OF assms(1)])
  obtain s where "s \<in> set parsed" "sessionFromElement (JObject entries) = Inr s"
    using parseSessions_entries [OF run assms(2)] .
  moreover from entry_Inr [OF this(2)] assms(3,4) have "psID s = i" "psStatus s = Some st" by blast+
  ultimately show ?thesis using assms(5) unfolding l splitByStatus_sets by (auto simp: refused_def image_iff)
qed

lemma ReadSessionList_disjoint:
  assumes "ReadSessionList decode (Some data) = Inr l"
  shows "dsID ` set (slDropped l) \<inter> set (slIDs l) = {}" and "slIDs l \<noteq> []" and "distinct (slIDs l)"
    and "i \<in> set (slIDs l) \<Longrightarrow> trim_space i = i"
proof -
  obtain parsed where run: "parseSessions decode data = Inr parsed" and l: "l = splitByStatus parsed"
    by (rule ReadSessionList_Inr [OF assms])
  show "dsID ` set (slDropped l) \<inter> set (slIDs l) = {}" "distinct (slIDs l)"
    unfolding l splitByStatus_sets(1,2) using splitByStatus_sets(3) by blast+
  show "slIDs l \<noteq> []" using assms by (auto simp: ReadSessionList_def Let_def split: sum.splits if_splits)
  show "i \<in> set (slIDs l) \<Longrightarrow> trim_space i = i"
    unfolding l splitByStatus_sets using parseSessions_trim [OF run] by auto
qed

text \<open>
  C12: Only clean sessions flow out of a review. Whatever shape an input has, a session that is
  read from it is in no entry of the input with a status other than clean, under whatever key
  the entry names it; the list is not empty and names each session once. A session that some
  entry reports as not clean is among those left out.
\<close>

theorem ReadSessionList_clean:
  assumes "ReadSessionList decode (Some data) = Inr l"
  shows "slIDs l \<noteq> [] \<and> distinct (slIDs l) \<and>
    (\<forall>i \<in> set (slIDs l). \<forall>entries st. JObject entries \<in> set (jsonEntries decode data) \<and> namesSession entries i \<and>
       (''status'', JString (reviewText st)) \<in> set entries \<longrightarrow> st = ReviewClean) \<and>
    (\<forall>entries i st. JObject entries \<in> set (jsonEntries decode data) \<and> namesSession entries i \<and>
       (''status'', JString (reviewText st)) \<in> set entries \<and> st \<noteq> ReviewClean \<longrightarrow> i \<in> dsID ` set (slDropped l))"
  using ReadSessionList_disjoint [OF assms] refused_entry_dropped [OF assms] by (intro conjI ballI allI impI; (elim conjE)?) blast+

definition exampleReview :: decoder where
  "exampleReview _ = Some (JObject [(''sessions'', JArray
     [JObject [(''sessionId'', JString ''a''), (''status'', JString ''clean'')],
      JObject [(''sessionId'', JString ''b''), (''status'', JString ''findings'')],
      JObject [(''sessionId'', JString '' b ''), (''status'', JString ''clean'')]])], [])"

theorem ReadSessionList_clean_witness:
  "\<exists>l. ReadSessionList exampleReview (Some ''{}'') = Inr l \<and> slIDs l = [''a''] \<and> ''b'' \<in> dsID ` set (slDropped l)"
proof -
  define l where "l = \<lparr> slIDs = [''a''], slDropped = [\<lparr> dsID = ''b'', dsStatus = ReviewFindings \<rparr>] \<rparr>"
  have run: "ReadSessionList exampleReview (Some ''{}'') = Inr l" unfolding l_def by code_simp
  have e: "JObject [(''sessionId'', JString ''b''), (''status'', JString ''findings'')] \<in> set (jsonEntries exampleReview ''{}'')" by code_simp
  have n: "namesSession [(''sessionId'', JString ''b''), (''status'', JString ''findings'')] ''b''"
  proof -
    have "trim_space ''b'' = ''b''" by code_simp
    then show ?thesis by (auto simp: namesSession_def idKeys_def)
  qed
  have st: "(''status'', JString (reviewText ReviewFindings)) \<in> set [(''sessionId'', JString ''b''), (''status'', JString ''findings'')]" by simp
  have "ReviewFindings \<noteq> ReviewClean" by simp
  with e n st have "''b'' \<in> dsID ` set (slDropped l)"
    by (intro ReadSessionList_clean [OF run, THEN conjunct2, THEN conjunct2, THEN conjunct2, THEN spec, THEN spec, THEN spec, THEN mp] conjI)
  with run show ?thesis by (auto simp: l_def)
qed

text \<open>
  The rule of a parsed input: the sessions that are read are those no entry reports as not
  clean. When there are none the input is refused, as a review without a clean session or as
  an input that names no session, so a list never widens to every session.
\<close>

theorem ReadSessionList_rule:
  assumes "parseSessions decode data = Inr parsed"
  shows "(\<forall>l. ReadSessionList decode (Some data) = Inr l \<longrightarrow>
      set (slIDs l) = {i. (\<exists>s \<in> set parsed. psID s = i) \<and> \<not> (\<exists>s \<in> set parsed. psID s = i \<and> refused s)}) \<and>
    (ReadSessionList decode (Some data) = Inl NoSessionIDs \<longleftrightarrow> parsed = []) \<and>
    ((\<exists>dropped. ReadSessionList decode (Some data) = Inl (NoCleanSessions dropped)) \<longleftrightarrow>
      parsed \<noteq> [] \<and> (\<forall>s \<in> set parsed. \<exists>t \<in> set parsed. psID t = psID s \<and> refused t))"
proof -
  let ?l = "splitByStatus parsed"
  have run: "ReadSessionList decode (Some data) = (if slIDs ?l \<noteq> [] then Inr ?l
      else if slDropped ?l \<noteq> [] then Inl (NoCleanSessions (slDropped ?l)) else Inl NoSessionIDs)"
    using assms by (simp add: ReadSessionList_def Let_def)
  have ids: "slIDs ?l = [] \<longleftrightarrow> (\<forall>s \<in> set parsed. \<exists>t \<in> set parsed. psID t = psID s \<and> refused t)"
    unfolding set_empty [symmetric] splitByStatus_sets Diff_eq_empty_iff image_subset_iff image_iff Bex_def mem_Collect_eq
    by (simp only: conj_ac eq_commute)
  have dropped: "slDropped ?l = [] \<longleftrightarrow> \<not> (\<exists>s \<in> set parsed. refused s)"
    unfolding set_empty [symmetric] image_is_empty [of dsID, symmetric] splitByStatus_sets by auto
  have set: "set (slIDs ?l) = {i. (\<exists>s \<in> set parsed. psID s = i) \<and> \<not> (\<exists>s \<in> set parsed. psID s = i \<and> refused s)}"
    unfolding splitByStatus_sets by auto (metis (mono_tags) image_eqI mem_Collect_eq)
  show ?thesis unfolding run
  proof (intro conjI allI impI)
    show "((if slIDs ?l \<noteq> [] then Inr ?l else if slDropped ?l \<noteq> [] then Inl (NoCleanSessions (slDropped ?l)) else Inl NoSessionIDs) =
        Inl NoSessionIDs) \<longleftrightarrow> parsed = []" using ids dropped by (cases parsed) auto
    show "(\<exists>dropped. (if slIDs ?l \<noteq> [] then Inr ?l else if slDropped ?l \<noteq> [] then Inl (NoCleanSessions (slDropped ?l)) else Inl NoSessionIDs) =
        Inl (NoCleanSessions dropped)) \<longleftrightarrow> parsed \<noteq> [] \<and> (\<forall>s \<in> set parsed. \<exists>t \<in> set parsed. psID t = psID s \<and> refused t)"
      using ids dropped by (cases parsed) auto
  qed (use set in \<open>auto split: if_splits\<close>)
qed

theorem ReadSessionList_rule_witness:
  "ReadSessionList exampleReview (Some ''# none'') = Inl NoSessionIDs"
proof -
  have "parseSessions exampleReview ''# none'' = Inr []" by code_simp
  from ReadSessionList_rule [OF this] show ?thesis by blast
qed

text \<open>Text that a list of one identifier per line may hold.\<close>

definition lineID :: "string \<Rightarrow> bool" where
  "lineID i \<longleftrightarrow> i \<noteq> [] \<and> \<not> holdsSpace i \<and> hd i \<notin> set ''#[]{}'' \<union> {CHR 0x22}"

definition printLines :: "string list \<Rightarrow> string" where
  "printLines ids = concat (map (\<lambda>i. i @ [CHR 0x0A]) ids)"

lemma space_seqs_newline: "seq \<in> set space_seqs \<Longrightarrow> CHR 0x0A \<in> set seq \<Longrightarrow> seq = [CHR 0x0A]"
  unfolding space_seqs_def by auto

lemma holdsSpace_no_strip:
  assumes "\<not> holdsSpace s"
  shows "strip_first space_seqs s = None" and "strip_first (map rev space_seqs) (rev s) = None"
  using assms by (auto simp: holdsSpace_def list_ex_iff strip_first_Some_iff suffix_to_prefix [symmetric])

lemma lineID_trim: "lineID i \<Longrightarrow> trim_space i = i"
  using holdsSpace_no_strip [of i]
  by (simp add: lineID_def trim_space_def trim_left_space_def trim_right_space_def trim_seqs_fixed)

lemma lineID_no_break: "lineID i \<Longrightarrow> CHR 0x0A \<notin> set i"
proof
  assume "lineID i" and "CHR 0x0A \<in> set i"
  then obtain ys zs where "i = ys @ [CHR 0x0A] @ zs" using split_list [of "CHR 0x0A" i] by auto
  then have "sublist [CHR 0x0A] i" unfolding sublist_def by blast
  moreover have "[CHR 0x0A] \<in> set space_seqs" by (simp add: space_seqs_def)
  ultimately have "holdsSpace i" unfolding holdsSpace_def list_ex_iff by blast
  then show False using \<open>lineID i\<close> by (simp add: lineID_def)
qed

lemma split_printLines: "\<forall>i \<in> set ids. CHR 0x0A \<notin> set i \<Longrightarrow> split_char (CHR 0x0A) (printLines ids) = ids @ [[]]"
  by (induction ids) (simp_all add: printLines_def split_char_append)

lemma lineID_no_return: "lineID i \<Longrightarrow> trim_suffix [CHR 0x0D] i = i"
proof -
  assume "lineID i"
  moreover have "[CHR 0x0D] \<in> set space_seqs" by (simp add: space_seqs_def)
  ultimately have "\<not> suffix [CHR 0x0D] i" by (auto simp: lineID_def holdsSpace_def list_ex_iff)
  then show ?thesis by (simp add: trim_suffix_def)
qed

lemma readLines_ids: "\<forall>i \<in> set ids. lineID i \<Longrightarrow> readLines n ids = Inr (map (\<lambda>i. \<lparr> psID = i, psStatus = None \<rparr>) ids)"
proof (induction ids arbitrary: n)
  case (Cons i ids)
  then have "lineID i" "trim_space i = i" by (simp_all add: lineID_trim)
  moreover from this have "\<not> prefix ''#'' i" by (cases i) (auto simp: lineID_def)
  ultimately show ?case using Cons by (simp add: lineID_def)
qed simp

lemma trim_left_printLines:
  assumes "\<forall>i \<in> set ids. lineID i"
  shows "trim_left_space (printLines ids) = printLines ids"
proof (cases ids)
  case (Cons i rest)
  have "\<not> prefix seq (printLines ids)" if seq: "seq \<in> set space_seqs" for seq
  proof
    assume "prefix seq (printLines ids)"
    then have pre: "prefix seq (i @ CHR 0x0A # printLines rest)" by (simp add: Cons printLines_def)
    show False
    proof (cases "prefix seq i")
      case True
      then show False using assms seq Cons by (auto simp: lineID_def holdsSpace_def list_ex_iff)
    next
      case False
      with pre obtain us where "seq = i @ us" "prefix us (CHR 0x0A # printLines rest)" "us \<noteq> []" by (auto simp: prefix_append)
      then have "CHR 0x0A \<in> set seq" by (cases us) auto
      from space_seqs_newline [OF seq this] \<open>seq = i @ us\<close> have "i = [] \<or> i = [CHR 0x0A]" using \<open>us \<noteq> []\<close> by (cases i) auto
      moreover have "lineID i" using assms Cons by simp
      ultimately show False using lineID_no_break [of i] by (auto simp: lineID_def)
    qed
  qed
  then show ?thesis by (simp add: trim_left_space_def trim_seqs_fixed strip_first_Some_iff)
qed (simp add: printLines_def trim_left_space_def trim_seqs_fixed strip_first_Some_iff)

text \<open>
  A list written with one identifier per line is read back as it was written, repeated
  identifiers once, whatever the decoder of JSON does.
\<close>

theorem ReadSessionList_lines:
  assumes "ids \<noteq> []" and "\<forall>i \<in> set ids. lineID i"
  shows "ReadSessionList decode (Some (printLines ids)) = Inr \<lparr> slIDs = dedupe ids, slDropped = [] \<rparr>"
proof -
  have nl: "\<forall>i \<in> set ids. CHR 0x0A \<notin> set i" using assms(2) lineID_no_break by blast
  have "map (trim_suffix [CHR 0x0D]) ids = ids" using assms(2) by (simp add: map_idI lineID_no_return)
  then have lines: "scanLines (printLines ids) = ids" by (simp add: scanLines_def split_printLines [OF nl] Let_def)
  obtain i rest where ids: "ids = i # rest" using assms(1) by (cases ids) auto
  then have "lineID i" using assms(2) by simp
  then have "\<not> prefix ''['' (printLines ids)" "\<not> prefix ''{'' (printLines ids)"
    unfolding ids printLines_def by (cases i; auto simp: lineID_def)+
  then have "parseSessions decode (printLines ids) = Inr (map (\<lambda>i. \<lparr> psID = i, psStatus = None \<rparr>) ids)"
    using readLines_ids [OF assms(2)] by (simp add: parseSessions_def trim_left_printLines [OF assms(2)] readTextSessionIDs_def lines)
  moreover have "foldl dropSession [] (map (\<lambda>i. \<lparr> psID = i, psStatus = None \<rparr>) ids) = []"
    by (induction ids) (simp_all add: dropSession_def)
  moreover have "dedupe ids \<noteq> []" using dedupe_props(2) [of ids] assms(1) by (metis set_empty)
  ultimately show ?thesis by (simp add: ReadSessionList_def splitByStatus_def comp_def Let_def)
qed

theorem ReadSessionList_lines_witness:
  "ReadSessionList exampleReview (Some (printLines [''s-1'', ''s-2'', ''s-1''])) = Inr \<lparr> slIDs = dedupe [''s-1'', ''s-2'', ''s-1''], slDropped = [] \<rparr>"
proof (rule ReadSessionList_lines)
  show "\<forall>i \<in> set [''s-1'', ''s-2'', ''s-1'']. lineID i" unfolding lineID_def by code_simp
qed simp

text \<open>
  Every list the flag gives is read from one source alone: with another selector the command
  is refused, and a list that comes back names at least one session.
\<close>

theorem ResolveSessionsFrom_alone:
  assumes "ResolveSessionsFrom decode cmd = Inr r"
  shows "(r = None \<longleftrightarrow> cmSessionsFrom cmd = None) \<and>
    (\<forall>l. r = Some l \<longrightarrow> set conflictingSelectors \<inter> cmChanged cmd = {} \<and> slIDs l \<noteq> [] \<and>
       (\<exists>source input. cmSessionsFrom cmd = Some source \<and> (if source = ''-'' then cmStdin cmd = input else cmFiles cmd source = Some input) \<and>
          ReadSessionList decode input = Inr l))"
proof (cases "cmSessionsFrom cmd")
  case None
  then show ?thesis using assms by (simp add: ResolveSessionsFrom_def)
next
  case (Some source)
  then have none: "List.find (\<lambda>other. other \<in> cmChanged cmd) conflictingSelectors = None" and run: "ReadSessionsFrom decode cmd = Inr r"
    using assms by (auto simp: ResolveSessionsFrom_def split: option.splits)
  from run Some obtain input l where "(if source = ''-'' then Some (cmStdin cmd) else cmFiles cmd source) = Some input"
    "ReadSessionList decode input = Inr l" "r = Some l"
    by (auto simp: ReadSessionsFrom_def map_sum_def split: option.splits sum.splits)
  moreover from this(2) have "slIDs l \<noteq> []"
    by (auto simp: ReadSessionList_def Let_def split: option.splits sum.splits if_splits)
  moreover have "set conflictingSelectors \<inter> cmChanged cmd = {}" using none by (auto simp: find_None_iff)
  ultimately show ?thesis using Some by (auto split: if_splits)
qed

end
