(* ===== verification/Push_Selection.thy ===== *)
theory Push_Selection
  imports Push Evidence Session_List
begin

text \<open>
  How a push command chooses sessions before the pipeline runs: the candidates of the
  saved selection with their clone multiplicity (\<open>cmd/peasant/selection_candidates.go\<close>), the
  decisions of the saved selection (\<open>preparePushSelection\<close> in \<open>cmd_push.go\<close>), and the
  sessions named on the command line with their subagent trees
  (\<open>cmd_push_selection.go\<close>).

  The path resolver and the store's answers are arguments. \<open>None\<close> is a panic of the remote
  normaliser. Cancellation of the context is not modelled.
\<close>

section \<open>Candidates of the saved selection\<close>

record selectionCandidateInput =
  inHarness :: string
  inGitRemote :: string
  inProjectName :: string
  inProjectHash :: string
  inProjectPath :: string
  inBranch :: string
  inSessionID :: string

datatype selectionPhysicalIdentityKind =
    selectionIdentityResolvedPath | selectionIdentityParentFallback | selectionIdentityUnavailable

record selectionPhysicalIdentity =
  piHarness :: string
  piKind :: selectionPhysicalIdentityKind
  piValue :: string

record selectionEvidenceSet =
  evIdentities :: "selectionPhysicalIdentity set"
  evUnproven :: bool

text \<open>The resolver: \<open>None\<close> is a nil resolver; its answer \<open>None\<close> is an error.\<close>

type_synonym path_resolver = "(string \<Rightarrow> string option) option"

definition resolveSelectionPath ::
  "path_resolver \<Rightarrow> string \<Rightarrow> (string \<times> string) list \<times> string list \<Rightarrow> string \<times> (string \<times> string) list \<times> string list" where
  "resolveSelectionPath resolver raw st =
     (case st of (resolved, failed) \<Rightarrow>
        (case resolver of
           None \<Rightarrow> ([], st)
         | Some resolve \<Rightarrow>
             if raw = [] then ([], st)
             else case map_of resolved raw of
                    Some path \<Rightarrow> (path, st)
                  | None \<Rightarrow>
                      if raw \<in> set failed then ([], st)
                      else case resolve raw of
                             None \<Rightarrow> ([], (resolved, raw # failed))
                           | Some path \<Rightarrow>
                               if path = [] then ([], (resolved, raw # failed))
                               else (path, (AList.update raw path resolved, failed))))"

text \<open>The first loop: the clone path of every input, with the two caches.\<close>

fun resolvePaths ::
  "path_resolver \<Rightarrow> (string \<times> string) list \<times> string list \<Rightarrow> selectionCandidateInput list \<Rightarrow> string list" where
  "resolvePaths resolver st [] = []"
| "resolvePaths resolver st (input # inputs) =
     (let (path, st) = resolveSelectionPath resolver (inProjectPath input) st
      in path # resolvePaths resolver st inputs)"

definition selectionCandidateIdentity ::
  "selectionCandidateInput \<Rightarrow> string \<Rightarrow> selectionPhysicalIdentity \<times> bool" where
  "selectionCandidateIdentity input clonePath =
     (if clonePath \<noteq> [] then
        (\<lparr> piHarness = inHarness input, piKind = selectionIdentityResolvedPath, piValue = clonePath \<rparr>, True)
      else if inProjectHash input \<noteq> [] then
        (\<lparr> piHarness = inHarness input, piKind = selectionIdentityParentFallback, piValue = inProjectHash input \<rparr>, False)
      else
        (\<lparr> piHarness = inHarness input, piKind = selectionIdentityUnavailable, piValue = inSessionID input \<rparr>, False))"

type_synonym evidenceSets = "(string \<times> selectionEvidenceSet) list"

definition addSelectionEvidence ::
  "evidenceSets \<Rightarrow> string \<Rightarrow> selectionPhysicalIdentity \<Rightarrow> bool \<Rightarrow> evidenceSets" where
  "addSelectionEvidence sets value ident proven =
     (let s = (case map_of sets value of
                 None \<Rightarrow> \<lparr> evIdentities = {}, evUnproven = False \<rparr>
               | Some s \<Rightarrow> s);
          s = s\<lparr> evIdentities := insert ident (evIdentities s) \<rparr>
      in AList.update value (if proven then s else s\<lparr> evUnproven := True \<rparr>) sets)"

definition selectionMultiplicity :: "string \<Rightarrow> evidenceSets \<Rightarrow> DiscoveryIdentityMultiplicity" where
  "selectionMultiplicity value sets =
     (if value = [] then DiscoveryIdentityUnique
      else case map_of sets value of
             None \<Rightarrow> DiscoveryIdentityAmbiguous
           | Some s \<Rightarrow>
               if evUnproven s \<or> card (evIdentities s) \<noteq> 1
               then DiscoveryIdentityAmbiguous else DiscoveryIdentityUnique)"

text \<open>The body of the second loop, for one input, its clone path and its normalised remote.\<close>

definition recordEvidence ::
  "evidenceSets \<times> evidenceSets \<Rightarrow> (selectionCandidateInput \<times> string \<times> string) \<Rightarrow> evidenceSets \<times> evidenceSets" where
  "recordEvidence st item =
     (case (st, item) of ((remotes, names), (input, clonePath, remote)) \<Rightarrow>
        let (ident, proven) = selectionCandidateIdentity input clonePath;
            name = NormalizeProjectNameForMatch (inProjectName input)
        in (if remote \<noteq> [] then addSelectionEvidence remotes remote ident proven else remotes,
            if name \<noteq> [] then addSelectionEvidence names name ident proven else names))"

definition prepareSelectionCandidates ::
  "path_resolver \<Rightarrow> selectionCandidateInput list \<Rightarrow> DiscoveryCandidate list option" where
  "prepareSelectionCandidates resolver inputs =
     (let paths = resolvePaths resolver ([], []) inputs
      in do {
        remotes \<leftarrow> those (map (\<lambda>input. NormalizeRemoteForMatch (inGitRemote input)) inputs);
        let items = zip inputs (zip paths remotes);
            (remoteEvidence, nameEvidence) = foldl recordEvidence ([], []) items
        in Some (map (\<lambda>(input, clonePath, remote).
             \<lparr> cHarness = inHarness input, cGitRemote = inGitRemote input, cProjectName = inProjectName input,
               cClonePath = clonePath, cBranch = inBranch input, cSessionID = inSessionID input,
               cRemoteMultiplicity = selectionMultiplicity remote remoteEvidence,
               cNameMultiplicity =
                 selectionMultiplicity (NormalizeProjectNameForMatch (inProjectName input)) nameEvidence \<rparr>) items)
      })"

definition selectionInput :: "PushSessionRow \<Rightarrow> selectionCandidateInput" where
  "selectionInput row =
     \<lparr> inHarness = prModelHarness row, inGitRemote = prGitRemote row, inProjectName = prProjectName row,
       inProjectHash = prProjectHash row, inProjectPath = prProjectPath row,
       inBranch = (case prGitBranch row of None \<Rightarrow> [] | Some b \<Rightarrow> b), inSessionID = prSessionID row \<rparr>"

text \<open>A later row with the same session identifier overwrites the decision of an earlier one.\<close>

definition preparePushSelection ::
  "'e + PushSessionRow list \<Rightarrow> SelectionMatcher \<Rightarrow> path_resolver \<Rightarrow> ('e + SessionSelection) option" where
  "preparePushSelection pushable matcher resolver =
     (case pushable of
        Inl e \<Rightarrow> Some (Inl e)
      | Inr rows \<Rightarrow> do {
          candidates \<leftarrow> prepareSelectionCandidates resolver (map selectionInput rows);
          decisions \<leftarrow> those (map (MatchBranchCandidate matcher) candidates);
          Some (Inr (foldl (\<lambda>out (candidate, d). AList.update (cSessionID candidate) d out) []
            (zip candidates decisions)))
        })"

section \<open>Named sessions and their subagent trees\<close>

text \<open>
  The loop over the named identifiers; the refusal of an empty identifier is a value of its
  own, as is the refusal of the list that \<open>--sessions-from\<close> names.
\<close>

datatype 'e named_error = EmptySessionID | ListRefused 'e

fun mergeNamed :: "string list \<Rightarrow> string list \<Rightarrow> 'e named_error + string list" where
  "mergeNamed ids [] = Inr ids"
| "mergeNamed ids (raw # rest) =
     (let ident = trim_space raw
      in if ident = [] then Inl EmptySessionID
         else if ident \<in> set ids then mergeNamed ids rest
         else mergeNamed (ids @ [ident]) rest)"

record explicitSelection =
  exIDs :: "string list"
  exWarnings :: "sessionWarning list"

text \<open>
  The values of \<open>--session\<close> and whether the flag was given, and what reading
  \<open>--sessions-from\<close> returned: its identifiers and warnings, with \<open>None\<close> for a flag that was
  not given. The result is \<open>None\<close> where the code reports that no session was named.
\<close>

definition resolveExplicitSelection ::
  "string list \<Rightarrow> bool \<Rightarrow> 'e + (string list \<times> sessionWarning list) option \<Rightarrow> 'e named_error + explicitSelection option" where
  "resolveExplicitSelection named changed fromList =
     (case fromList of
        Inl e \<Rightarrow> Inl (ListRefused e)
      | Inr listed \<Rightarrow>
          (if listed = None \<and> \<not> changed then Inr None
           else
             let (listIDs, warnings) = (case listed of None \<Rightarrow> ([], []) | Some l \<Rightarrow> l)
             in case mergeNamed [] (named @ listIDs) of
                  Inl e \<Rightarrow> Inl e
                | Inr ids \<Rightarrow> Inr (Some \<lparr> exIDs = ids, exWarnings = filter (\<lambda>w. swSessionID w \<notin> set ids) warnings \<rparr>)))"

lemma mergeNamed_Inr:
  "mergeNamed ids raws = (Inr r :: 'e named_error + string list) \<Longrightarrow> set r = set ids \<union> trim_space ` set raws \<and> (distinct ids \<longrightarrow> distinct r)"
proof (induction raws arbitrary: ids)
  case (Cons raw raws)
  show ?case
  proof (cases "trim_space raw \<in> set ids")
    case True
    with Cons.prems have "mergeNamed ids raws = (Inr r :: 'e named_error + string list)" by (auto simp: Let_def split: if_splits)
    from Cons.IH [OF this] True show ?thesis by auto
  next
    case False
    with Cons.prems have "mergeNamed (ids @ [trim_space raw]) raws = (Inr r :: 'e named_error + string list)" by (auto simp: Let_def split: if_splits)
    from Cons.IH [OF this] False show ?thesis by auto
  qed
qed simp

record selectedSession =
  ssID :: string
  ssParent :: string

record expandState =
  xsSeen :: "string list"
  xsSessions :: "selectedSession list"
  xsOmitted :: "(string \<times> nat) list"

datatype 'e expand_error = ChildrenUnread string 'e | NestsTooDeep string

definition maxSubagentDepth :: nat where
  "maxSubagentDepth = 64"

definition visitChild ::
  "string list \<Rightarrow> bool \<Rightarrow> string \<Rightarrow> nat \<Rightarrow> string list \<times> expandState \<Rightarrow> string \<Rightarrow>
   'e expand_error + (string list \<times> expandState)" where
  "visitChild direct withoutSubagents root depth acc child =
     (case acc of (nxt, st) \<Rightarrow>
        if child \<in> set direct \<or> child \<in> set (xsSeen st) then Inr acc
        else if depth > maxSubagentDepth then Inl (NestsTooDeep root)
        else
          let st = st\<lparr> xsSeen := child # xsSeen st \<rparr>;
              nxt = nxt @ [child]
          in if withoutSubagents then
               Inr (nxt, st\<lparr> xsOmitted :=
                 AList.update root (Suc (case map_of (xsOmitted st) root of None \<Rightarrow> 0 | Some n \<Rightarrow> n)) (xsOmitted st) \<rparr>)
             else Inr (nxt, st\<lparr> xsSessions := xsSessions st @ [\<lparr> ssID = child, ssParent = root \<rparr>] \<rparr>))"

fun fold_res :: "('s \<Rightarrow> 'x \<Rightarrow> 'e + 's) \<Rightarrow> 's \<Rightarrow> 'x list \<Rightarrow> 'e + 's" where
  "fold_res f s [] = Inr s"
| "fold_res f s (x # xs) = (case f s x of Inl e \<Rightarrow> Inl e | Inr s' \<Rightarrow> fold_res f s' xs)"

definition visitParent ::
  "(string \<Rightarrow> 'e + string list) \<Rightarrow> string list \<Rightarrow> bool \<Rightarrow> string \<Rightarrow> nat \<Rightarrow>
   string list \<times> expandState \<Rightarrow> string \<Rightarrow> 'e expand_error + (string list \<times> expandState)" where
  "visitParent childrenOf direct withoutSubagents root depth acc ident =
     (case childrenOf ident of
        Inl e \<Rightarrow> Inl (ChildrenUnread ident e)
      | Inr children \<Rightarrow> fold_res (visitChild direct withoutSubagents root depth) acc children)"

abbreviation visitLevel ::
  "(string \<Rightarrow> 'e + string list) \<Rightarrow> string list \<Rightarrow> bool \<Rightarrow> string \<Rightarrow> nat \<Rightarrow>
   expandState \<Rightarrow> string list \<Rightarrow> 'e expand_error + (string list \<times> expandState)" where
  "visitLevel childrenOf direct withoutSubagents root depth st level \<equiv>
     fold_res (visitParent childrenOf direct withoutSubagents root depth) ([], st) level"

lemma fold_res_invariant:
  assumes "\<And>s x s'. P s \<Longrightarrow> x \<in> set xs \<Longrightarrow> f s x = Inr s' \<Longrightarrow> P s'"
    and "P s" and "fold_res f s xs = Inr s'"
  shows "P s'"
  using assms
proof (induction xs arbitrary: s)
  case (Cons x xs)
  from Cons.prems(3) obtain t where fst: "f s x = Inr t" and rest: "fold_res f t xs = Inr s'"
    by (auto split: sum.splits)
  have "P t" using Cons.prems(1) [OF Cons.prems(2) _ fst] by simp
  show ?case by (rule Cons.IH [OF _ \<open>P t\<close> rest]) (use Cons.prems(1) in auto)
qed simp

lemma visitLevel_deep:
  fixes childrenOf :: "string \<Rightarrow> 'e + string list"
  assumes "visitLevel childrenOf direct withoutSubagents root depth st level = Inr (nxt, st')"
    and "depth > maxSubagentDepth"
  shows "nxt = []"
proof -
  have child: "fst acc' = []" if "fst acc = []" "visitChild direct withoutSubagents root depth acc c = (Inr acc' :: 'e expand_error + _)"
    for acc acc' c
    using that assms(2) by (auto simp: visitChild_def split: prod.splits if_splits)
  have "fst acc' = []" if "fst acc = []" "visitParent childrenOf direct withoutSubagents root depth acc ident = Inr acc'"
    for acc acc' ident
  proof (cases "childrenOf ident")
    case (Inr children)
    with that(2) have run: "fold_res (visitChild direct withoutSubagents root depth) acc children = (Inr acc' :: 'e expand_error + _)"
      by (simp add: visitParent_def)
    show ?thesis
      by (rule fold_res_invariant [where P = "\<lambda>acc. fst acc = []", OF _ that(1) run]) (rule child)
  qed (use that in \<open>simp add: visitParent_def\<close>)
  then have "fst (nxt, st') = []"
    by (rule fold_res_invariant [where P = "\<lambda>acc. fst acc = []", OF _ _ assms(1)]) simp_all
  then show ?thesis by simp
qed

text \<open>The level loop ends: a level below the depth bound is the last one.\<close>

function expandLevels ::
  "(string \<Rightarrow> 'e + string list) \<Rightarrow> string list \<Rightarrow> bool \<Rightarrow> string \<Rightarrow> nat \<Rightarrow>
   expandState \<Rightarrow> string list \<Rightarrow> 'e expand_error + expandState" where
  "expandLevels childrenOf direct withoutSubagents root depth st level =
     (if level = [] then Inr st
      else case visitLevel childrenOf direct withoutSubagents root depth st level of
             Inl e \<Rightarrow> Inl e
           | Inr (nxt, st') \<Rightarrow> expandLevels childrenOf direct withoutSubagents root (Suc depth) st' nxt)"
  by pat_completeness auto
termination
proof (relation "measure (\<lambda>(_, _, _, _, depth, _, level). if level = [] then 0 else Suc (66 - depth))", goal_cases)
  case (2 childrenOf direct withoutSubagents root depth st level acc nxt st')
  then have "visitLevel childrenOf direct withoutSubagents root depth st level = Inr (nxt, st')" by simp
  then have "nxt = [] \<or> depth \<le> 64"
    using visitLevel_deep [of childrenOf direct withoutSubagents root depth st level nxt st']
    by (auto simp: maxSubagentDepth_def)
  with 2 show ?case by auto
qed simp

declare expandLevels.simps [simp del]

definition expandRoot ::
  "(string \<Rightarrow> 'e + string list) \<Rightarrow> string list \<Rightarrow> bool \<Rightarrow> expandState \<Rightarrow> string \<Rightarrow> 'e expand_error + expandState" where
  "expandRoot childrenOf direct withoutSubagents st root =
     expandLevels childrenOf direct withoutSubagents root 1
       (st\<lparr> xsSessions := xsSessions st @ [\<lparr> ssID = root, ssParent = [] \<rparr>], xsSeen := root # xsSeen st \<rparr>) [root]"

definition emptyExpand :: expandState where
  "emptyExpand = \<lparr> xsSeen = [], xsSessions = [], xsOmitted = [] \<rparr>"

definition expandSubagents ::
  "(string \<Rightarrow> 'e + string list) \<Rightarrow> string list \<Rightarrow> bool \<Rightarrow> 'e expand_error + expandState" where
  "expandSubagents childrenOf requested withoutSubagents =
     fold_res (expandRoot childrenOf requested withoutSubagents) emptyExpand requested"

definition selectedIDs :: "expandState \<Rightarrow> string list" where
  "selectedIDs e = map ssID (xsSessions e)"

definition inheritance :: "expandState \<Rightarrow> (string \<times> string) list" where
  "inheritance e =
     foldl (\<lambda>out s. if ssParent s \<noteq> [] then AList.update (ssID s) (ssParent s) out else out) [] (xsSessions e)"

text \<open>The requested sessions the store does not hold, and those it holds.\<close>

definition unknownSessions :: "'e + string list \<Rightarrow> string list \<Rightarrow> 'e + (string list \<times> string list)" where
  "unknownSessions stored ids =
     (case stored of Inl e \<Rightarrow> Inl e | Inr known \<Rightarrow> Inr (filter (\<lambda>ident. ident \<notin> set known) ids, known))"

section \<open>Multiplicity over the whole cohort\<close>

definition resolvedPath :: "path_resolver \<Rightarrow> string \<Rightarrow> string" where
  "resolvedPath resolver raw =
     (case resolver of None \<Rightarrow> [] | Some resolve \<Rightarrow>
        if raw = [] then [] else case resolve raw of None \<Rightarrow> [] | Some path \<Rightarrow> path)"

text \<open>The two caches hold only what the resolver answers.\<close>

definition caches_ok :: "path_resolver \<Rightarrow> (string \<times> string) list \<times> string list \<Rightarrow> bool" where
  "caches_ok resolver st \<longleftrightarrow>
     (\<forall>raw path. map_of (fst st) raw = Some path \<longrightarrow> path = resolvedPath resolver raw) \<and>
     (\<forall>raw \<in> set (snd st). resolvedPath resolver raw = [])"

lemma resolveSelectionPath_cached:
  assumes "caches_ok resolver st" and "resolveSelectionPath resolver raw st = (path, st')"
  shows "path = resolvedPath resolver raw \<and> caches_ok resolver st'"
proof (cases resolver)
  case None
  with assms show ?thesis by (auto simp: resolveSelectionPath_def resolvedPath_def)
next
  case (Some resolve)
  obtain resolved failed where st: "st = (resolved, failed)" by (cases st)
  consider "raw = []" | p where "raw \<noteq> []" "map_of resolved raw = Some p"
    | "raw \<noteq> []" "map_of resolved raw = None" "raw \<in> set failed"
    | "raw \<noteq> []" "map_of resolved raw = None" "raw \<notin> set failed" by fastforce
  then show ?thesis
  proof cases
    case 1
    then have "resolvedPath resolver raw = []" by (simp add: resolvedPath_def split: option.split)
    with 1 assms Some st show ?thesis by (simp add: resolveSelectionPath_def)
  next
    case (2 p)
    with assms(1) st have "p = resolvedPath resolver raw" by (simp add: caches_ok_def)
    with 2 assms Some st show ?thesis by (auto simp: resolveSelectionPath_def)
  next
    case 3
    with assms(1) st have "resolvedPath resolver raw = []" by (simp add: caches_ok_def)
    with 3 assms Some st show ?thesis by (simp add: resolveSelectionPath_def)
  next
    case 4
    then have "resolvedPath resolver raw = (case resolve raw of None \<Rightarrow> [] | Some p \<Rightarrow> p)"
      using Some by (simp add: resolvedPath_def)
    with 4 assms Some st show ?thesis
      by (cases "resolve raw") (auto simp: resolveSelectionPath_def caches_ok_def update_conv' split: if_splits)
  qed
qed

lemma resolvePaths_map:
  "caches_ok resolver st \<Longrightarrow> resolvePaths resolver st inputs = map (\<lambda>i. resolvedPath resolver (inProjectPath i)) inputs"
proof (induction inputs arbitrary: st)
  case (Cons input inputs)
  obtain path st' where r: "resolveSelectionPath resolver (inProjectPath input) st = (path, st')"
    by (cases "resolveSelectionPath resolver (inProjectPath input) st")
  from resolveSelectionPath_cached [OF Cons.prems r] r Cons.IH [of st'] show ?case by simp
qed simp

interpretation selection: identity_table
  addSelectionEvidence "\<lambda>t n. map_option (\<lambda>s. (evIdentities s, evUnproven s)) (map_of t n)" "[]"
  by unfold_locales (auto simp: addSelectionEvidence_def update_conv' Let_def split: option.split)

definition remoteText :: "selectionCandidateInput \<Rightarrow> string" where
  "remoteText input = (case NormalizeRemoteForMatch (inGitRemote input) of None \<Rightarrow> [] | Some r \<Rightarrow> r)"

definition nameText :: "selectionCandidateInput \<Rightarrow> string" where
  "nameText input = NormalizeProjectNameForMatch (inProjectName input)"

text \<open>Who an input is: its identity, and whether it is proven by a resolved path.\<close>

definition inputIdentity :: "path_resolver \<Rightarrow> selectionCandidateInput \<Rightarrow> selectionPhysicalIdentity \<times> bool" where
  "inputIdentity resolver input = selectionCandidateIdentity input (resolvedPath resolver (inProjectPath input))"

definition evidenceOf ::
  "path_resolver \<Rightarrow> (selectionCandidateInput \<Rightarrow> string) \<Rightarrow> selectionCandidateInput list \<Rightarrow>
   (string \<times> selectionPhysicalIdentity \<times> bool) list" where
  "evidenceOf resolver key inputs = map (\<lambda>input. (key input, inputIdentity resolver input)) inputs"

abbreviation evidenceTable ::
  "evidenceSets \<Rightarrow> (string \<times> selectionPhysicalIdentity \<times> bool) list \<Rightarrow> evidenceSets" where
  "evidenceTable \<equiv> foldl (\<lambda>t (k, i, p). if k \<noteq> [] then addSelectionEvidence t k i p else t)"

lemma recordEvidence_fold:
  "foldl recordEvidence (remotes, names) (map (\<lambda>i. (i, resolvedPath resolver (inProjectPath i), remoteText i)) inputs) =
   (evidenceTable remotes (evidenceOf resolver remoteText inputs),
    evidenceTable names (evidenceOf resolver nameText inputs))"
proof (induction inputs arbitrary: remotes names)
  case (Cons input inputs)
  obtain ident proven where "inputIdentity resolver input = (ident, proven)" by fastforce
  with Cons show ?case
    by (simp add: recordEvidence_def evidenceOf_def inputIdentity_def nameText_def Let_def)
qed (simp add: evidenceOf_def)

lemma selectionMultiplicity_iff:
  assumes "input \<in> set inputs"
  shows "selectionMultiplicity (key input) (evidenceTable [] (evidenceOf resolver key inputs)) = DiscoveryIdentityUnique \<longleftrightarrow>
    key input = [] \<or> (\<exists>ident. \<forall>other \<in> set inputs. key other = key input \<longrightarrow> inputIdentity resolver other = (ident, True))"
proof (cases "key input = []")
  case False
  let ?evs = "evidenceOf resolver key inputs" and ?n = "key input"
  have evs: "(?n, i, p) \<in> set ?evs \<longleftrightarrow> (\<exists>other \<in> set inputs. key other = ?n \<and> inputIdentity resolver other = (i, p))"
    for i p by (auto simp: evidenceOf_def image_iff prod_eq_iff; metis)
  have mem: "?n \<in> fst ` set ?evs" using assms by (force simp: evidenceOf_def)
  with selection.fold_get [OF False, of ?evs] obtain s where s: "map_of (evidenceTable [] ?evs) ?n = Some s" by auto
  then have "\<not> evUnproven s \<and> card (evIdentities s) = 1 \<longleftrightarrow>
      (\<exists>j. \<forall>i p. (?n, i, p) \<in> set ?evs \<longrightarrow> i = j \<and> p)"
    using selection.unique_iff [OF False mem] by simp
  also have "\<dots> \<longleftrightarrow> (\<exists>ident. \<forall>other \<in> set inputs. key other = ?n \<longrightarrow> inputIdentity resolver other = (ident, True))"
    unfolding evs by (intro iff_exI) (auto simp: prod_eq_iff)
  finally have "(\<exists>ident. \<forall>other \<in> set inputs. key other = ?n \<longrightarrow> inputIdentity resolver other = (ident, True)) \<longleftrightarrow>
      \<not> evUnproven s \<and> card (evIdentities s) = 1" ..
  moreover have "selectionMultiplicity ?n (evidenceTable [] ?evs) = DiscoveryIdentityUnique \<longleftrightarrow>
      \<not> evUnproven s \<and> card (evIdentities s) = 1"
    using False s by (simp add: selectionMultiplicity_def)
  ultimately show ?thesis using False by simp
qed (simp add: selectionMultiplicity_def)

lemma zip_map_maps: "zip xs (zip (map f xs) (map g xs)) = map (\<lambda>x. (x, f x, g x)) xs"
  by (induction xs) auto

lemma prepareSelectionCandidates_map:
  assumes "prepareSelectionCandidates resolver inputs = Some cands"
  shows "cands = map (\<lambda>input.
     \<lparr> cHarness = inHarness input, cGitRemote = inGitRemote input, cProjectName = inProjectName input,
       cClonePath = resolvedPath resolver (inProjectPath input), cBranch = inBranch input,
       cSessionID = inSessionID input,
       cRemoteMultiplicity =
         selectionMultiplicity (remoteText input) (evidenceTable [] (evidenceOf resolver remoteText inputs)),
       cNameMultiplicity =
         selectionMultiplicity (nameText input) (evidenceTable [] (evidenceOf resolver nameText inputs)) \<rparr>) inputs"
proof -
  obtain remotes where remotes: "those (map (\<lambda>input. NormalizeRemoteForMatch (inGitRemote input)) inputs) = Some remotes"
    using assms by (auto simp: prepareSelectionCandidates_def Let_def bind_eq_Some_conv)
  then have "list_all2 (\<lambda>input r. NormalizeRemoteForMatch (inGitRemote input) = Some r) inputs remotes"
    by (rule those_map_SomeD)
  then have "remotes = map remoteText inputs"
    by (induction rule: list_all2_induct) (simp_all add: remoteText_def)
  moreover have "resolvePaths resolver ([], []) inputs = map (\<lambda>i. resolvedPath resolver (inProjectPath i)) inputs"
    by (rule resolvePaths_map) (simp add: caches_ok_def)
  ultimately show ?thesis
    using assms remotes
    by (simp add: prepareSelectionCandidates_def Let_def zip_map_maps recordEvidence_fold nameText_def comp_def
        del: those.simps)
qed

text \<open>
  One clone, however many sessions. Every input becomes the candidate at its place, with
  the path the resolver gives, whatever the caches held. Its remote counts as unique
  exactly when it has no matching text or every input with the same text, of any harness,
  resolves to one and the same physical clone; one input whose path does not resolve makes
  the text ambiguous for all. The project name follows the same rule.
\<close>

theorem prepareSelectionCandidates_multiplicity:
  assumes "prepareSelectionCandidates resolver inputs = Some cands" and "i < length inputs"
  shows "length cands = length inputs \<and> cSessionID (cands ! i) = inSessionID (inputs ! i) \<and>
    cClonePath (cands ! i) = resolvedPath resolver (inProjectPath (inputs ! i)) \<and>
    (cRemoteMultiplicity (cands ! i) = DiscoveryIdentityUnique \<longleftrightarrow>
       remoteText (inputs ! i) = [] \<or>
       (\<exists>ident. \<forall>other \<in> set inputs. remoteText other = remoteText (inputs ! i) \<longrightarrow>
          inputIdentity resolver other = (ident, True))) \<and>
    (cNameMultiplicity (cands ! i) = DiscoveryIdentityUnique \<longleftrightarrow>
       nameText (inputs ! i) = [] \<or>
       (\<exists>ident. \<forall>other \<in> set inputs. nameText other = nameText (inputs ! i) \<longrightarrow>
          inputIdentity resolver other = (ident, True)))"
proof -
  have mem: "inputs ! i \<in> set inputs" using assms(2) by simp
  show ?thesis
    using assms(2) by (simp add: prepareSelectionCandidates_map [OF assms(1)] selectionMultiplicity_iff [OF mem])
qed

section \<open>Subagent trees\<close>

lemma fold_res_append:
  "fold_res g s (xs @ ys) = (case fold_res g s xs of Inl e \<Rightarrow> Inl e | Inr s' \<Rightarrow> fold_res g s' ys)"
  by (induction xs arbitrary: s) (auto split: sum.split)

text \<open>With a store that answers, a level is one pass over the children of its sessions.\<close>

lemma visitLevel_concat:
  "fold_res (visitParent (\<lambda>i. Inr (f i) :: 'e + string list) direct w root depth) acc level =
   fold_res (visitChild direct w root depth) acc (concat (map f level))"
proof (induction level arbitrary: acc)
  case (Cons a level)
  then show ?case by (simp add: visitParent_def fold_res_append split: sum.split)
qed simp

lemma visitChild_skip:
  "c \<in> set direct \<or> c \<in> set (xsSeen st) \<Longrightarrow> visitChild direct w root depth (nxt, st) c = Inr (nxt, st)"
  by (simp add: visitChild_def)

lemma visitChild_deep:
  "c \<notin> set direct \<Longrightarrow> c \<notin> set (xsSeen st) \<Longrightarrow> maxSubagentDepth < depth \<Longrightarrow>
   visitChild direct w root depth (nxt, st) c = Inl (NestsTooDeep root)"
  by (simp add: visitChild_def)

lemma visitChild_new:
  "c \<notin> set direct \<Longrightarrow> c \<notin> set (xsSeen st) \<Longrightarrow> \<not> maxSubagentDepth < depth \<Longrightarrow>
   \<exists>st1. visitChild direct w root depth (nxt, st) c = Inr (nxt @ [c], st1) \<and> xsSeen st1 = c # xsSeen st \<and>
     (\<not> w \<longrightarrow> xsSessions st1 = xsSessions st @ [\<lparr> ssID = c, ssParent = root \<rparr>])"
  by (cases w) (simp_all add: visitChild_def Let_def)

lemma visitChildren:
  assumes "fold_res (visitChild direct w root depth) (nxt, st) cs = (Inr (nxt', st') :: 'e expand_error + _)"
  shows "\<exists>new. nxt' = nxt @ new \<and> set (xsSeen st') = set (xsSeen st) \<union> set new \<and> distinct new \<and>
    set new \<inter> (set direct \<union> set (xsSeen st)) = {} \<and> set new \<subseteq> set cs \<and>
    set cs \<subseteq> set direct \<union> set (xsSeen st') \<and>
    (\<not> w \<longrightarrow> xsSessions st' = xsSessions st @ map (\<lambda>c. \<lparr> ssID = c, ssParent = root \<rparr>) new)"
  using assms
proof (induction cs arbitrary: nxt st)
  case (Cons c cs)
  show ?case
  proof (cases "c \<in> set direct \<or> c \<in> set (xsSeen st)")
    case True
    with Cons.prems have "fold_res (visitChild direct w root depth) (nxt, st) cs = (Inr (nxt', st') :: 'e expand_error + _)"
      by (simp add: visitChild_skip)
    from Cons.IH [OF this] True show ?thesis by fastforce
  next
    case False
    with Cons.prems have "\<not> maxSubagentDepth < depth" by (auto simp: visitChild_deep)
    with False visitChild_new [of c direct st depth w root nxt] obtain st1 where
      step: "visitChild direct w root depth (nxt, st) c = (Inr (nxt @ [c], st1) :: 'e expand_error + _)"
      and st1: "xsSeen st1 = c # xsSeen st"
        "\<not> w \<longrightarrow> xsSessions st1 = xsSessions st @ [\<lparr> ssID = c, ssParent = root \<rparr>]" by blast
    with Cons.prems have rest: "fold_res (visitChild direct w root depth) (nxt @ [c], st1) cs =
      (Inr (nxt', st') :: 'e expand_error + _)" by simp
    from Cons.IH [OF rest] obtain new where "nxt' = (nxt @ [c]) @ new" "set (xsSeen st') = set (xsSeen st1) \<union> set new"
      "distinct new" "set new \<inter> (set direct \<union> set (xsSeen st1)) = {}" "set new \<subseteq> set cs"
      "set cs \<subseteq> set direct \<union> set (xsSeen st')"
      "\<not> w \<longrightarrow> xsSessions st' = xsSessions st1 @ map (\<lambda>c. \<lparr> ssID = c, ssParent = root \<rparr>) new" by blast
    with st1 False show ?thesis by (intro exI [of _ "c # new"]) auto
  qed
qed auto

definition child_rel :: "(string \<Rightarrow> string list) \<Rightarrow> (string \<times> string) set" where
  "child_rel f = {(a, b). b \<in> set (f a)}"

text \<open>
  The levels of one root: the sessions added are new, descend from the root, and all
  children of the level and of the added sessions end up seen or were named directly.
\<close>

lemma expandLevels_adds:
  assumes "expandLevels (\<lambda>i. Inr (f i) :: 'e + string list) direct w root depth st level = Inr st'"
    and "\<forall>a \<in> set level. (root, a) \<in> (child_rel f)\<^sup>*"
  shows "\<exists>new. set (xsSeen st') = set (xsSeen st) \<union> set new \<and> distinct new \<and>
    set new \<inter> (set direct \<union> set (xsSeen st)) = {} \<and> (\<forall>c \<in> set new. (root, c) \<in> (child_rel f)\<^sup>+) \<and>
    (\<forall>a \<in> set level \<union> set new. set (f a) \<subseteq> set direct \<union> set (xsSeen st')) \<and>
    (\<not> w \<longrightarrow> xsSessions st' = xsSessions st @ map (\<lambda>c. \<lparr> ssID = c, ssParent = root \<rparr>) new)"
  using assms
proof (induction "66 - depth" arbitrary: depth st level rule: less_induct)
  case less
  show ?case
  proof (cases "level = []")
    case True
    with less.prems show ?thesis by (intro exI [of _ "[]"]) (simp add: expandLevels.simps)
  next
    case False
    let ?f = "\<lambda>i. Inr (f i) :: 'e + string list"
    from False less.prems(1) obtain nxt st1
      where lvl: "visitLevel ?f direct w root depth st level = Inr (nxt, st1)"
        and rest: "expandLevels ?f direct w root (Suc depth) st1 nxt = Inr st'"
      using expandLevels.simps [of ?f direct w root depth st level] by (auto split: sum.splits)
    from visitChildren [OF lvl [unfolded visitLevel_concat]] obtain new1 where
      new1: "nxt = new1" "set (xsSeen st1) = set (xsSeen st) \<union> set new1" "distinct new1"
      "set new1 \<inter> (set direct \<union> set (xsSeen st)) = {}" "set new1 \<subseteq> set (concat (map f level))"
      "set (concat (map f level)) \<subseteq> set direct \<union> set (xsSeen st1)"
      "\<not> w \<longrightarrow> xsSessions st1 = xsSessions st @ map (\<lambda>c. \<lparr> ssID = c, ssParent = root \<rparr>) new1" by auto
    have desc1: "\<forall>c \<in> set new1. (root, c) \<in> (child_rel f)\<^sup>+"
    proof
      fix c assume "c \<in> set new1"
      with new1(5) obtain a where "a \<in> set level" "(a, c) \<in> child_rel f" by (auto simp: child_rel_def)
      with less.prems(2) show "(root, c) \<in> (child_rel f)\<^sup>+" by (meson rtrancl_into_trancl1)
    qed
    show ?thesis
    proof (cases "nxt = []")
      case True
      with rest new1 have "st' = st1" "new1 = []" by (simp_all add: expandLevels.simps)
      with new1 show ?thesis by (intro exI [of _ "[]"]) auto
    next
      case False
      then have "depth \<le> 64" using visitLevel_deep [OF lvl] by (fastforce simp: maxSubagentDepth_def not_less)
      then have shrink: "66 - Suc depth < 66 - depth" by simp
      have "\<forall>a \<in> set nxt. (root, a) \<in> (child_rel f)\<^sup>*"
        using desc1 new1(1) by (auto intro: trancl_into_rtrancl)
      from less.hyps [OF shrink rest this] obtain new where
        "set (xsSeen st') = set (xsSeen st1) \<union> set new" "distinct new"
        "set new \<inter> (set direct \<union> set (xsSeen st1)) = {}" "\<forall>c \<in> set new. (root, c) \<in> (child_rel f)\<^sup>+"
        "\<forall>a \<in> set nxt \<union> set new. set (f a) \<subseteq> set direct \<union> set (xsSeen st')"
        "\<not> w \<longrightarrow> xsSessions st' = xsSessions st1 @ map (\<lambda>c. \<lparr> ssID = c, ssParent = root \<rparr>) new"
        by blast
      with new1 desc1 show ?thesis by (intro exI [of _ "new1 @ new"]) auto
    qed
  qed
qed

text \<open>What holds after some of the requested roots are expanded.\<close>

definition expandInv :: "(string \<Rightarrow> string list) \<Rightarrow> string list \<Rightarrow> string list \<Rightarrow> expandState \<Rightarrow> bool" where
  "expandInv f requested done st \<longleftrightarrow>
     set (map ssID (xsSessions st)) = set (xsSeen st) \<and> distinct (map ssID (xsSessions st)) \<and>
     set (xsSeen st) \<inter> set requested = set done \<and>
     (\<forall>a \<in> set (xsSeen st). set (f a) \<subseteq> set requested \<union> set (xsSeen st)) \<and>
     (\<forall>s \<in> set (xsSessions st).
        (if ssID s \<in> set requested then ssParent s = []
         else ssParent s \<in> set requested \<and> (ssParent s, ssID s) \<in> (child_rel f)\<^sup>+))"

lemma expandRoot_inv:
  assumes "expandInv f requested done st" and "root \<in> set requested" and "root \<notin> set done"
    and "expandRoot (\<lambda>i. Inr (f i) :: 'e + string list) requested False st root = Inr st'"
  shows "expandInv f requested (done @ [root]) st'"
proof -
  let ?st = "st\<lparr> xsSessions := xsSessions st @ [\<lparr> ssID = root, ssParent = [] \<rparr>], xsSeen := root # xsSeen st \<rparr>"
  have "expandLevels (\<lambda>i. Inr (f i) :: 'e + string list) requested False root 1 ?st [root] = Inr st'"
    using assms(4) by (simp add: expandRoot_def)
  from expandLevels_adds [OF this] obtain new where
    new: "set (xsSeen st') = insert root (set (xsSeen st)) \<union> set new" "distinct new"
    "set new \<inter> (set requested \<union> insert root (set (xsSeen st))) = {}"
    "\<forall>c \<in> set new. (root, c) \<in> (child_rel f)\<^sup>+"
    "\<forall>a \<in> insert root (set new). set (f a) \<subseteq> set requested \<union> set (xsSeen st')"
    "xsSessions st' = xsSessions st @ \<lparr> ssID = root, ssParent = [] \<rparr> # map (\<lambda>c. \<lparr> ssID = c, ssParent = root \<rparr>) new"
    by auto
  have old: "set (map ssID (xsSessions st)) = set (xsSeen st)" "distinct (map ssID (xsSessions st))"
    "set (xsSeen st) \<inter> set requested = set done"
    "\<forall>a \<in> set (xsSeen st). set (f a) \<subseteq> set requested \<union> set (xsSeen st)"
    "\<forall>s \<in> set (xsSessions st). if ssID s \<in> set requested then ssParent s = []
         else ssParent s \<in> set requested \<and> (ssParent s, ssID s) \<in> (child_rel f)\<^sup>+"
    using assms(1) unfolding expandInv_def by blast+
  have ids: "map ssID (xsSessions st') = map ssID (xsSessions st) @ root # new"
    by (simp add: new(6) comp_def)
  have fresh: "root \<notin> set (xsSeen st)" using assms(2,3) old(3) by blast
  have "set (map ssID (xsSessions st')) = set (xsSeen st')" using ids old(1) new(1) by auto
  moreover have "distinct (map ssID (xsSessions st'))" using ids old(1,2) new(2,3) fresh by auto
  moreover have "set (xsSeen st') \<inter> set requested = set (done @ [root])" using old(3) new(1,3) assms(2) by auto
  moreover have "\<forall>a \<in> set (xsSeen st'). set (f a) \<subseteq> set requested \<union> set (xsSeen st')"
    using old(4) new(1,5) by blast
  moreover have "\<forall>s \<in> set (xsSessions st'). if ssID s \<in> set requested then ssParent s = []
      else ssParent s \<in> set requested \<and> (ssParent s, ssID s) \<in> (child_rel f)\<^sup>+"
    using old(5) new(3,4,6) assms(2) by auto
  ultimately show ?thesis unfolding expandInv_def by blast
qed

lemma expand_fold_inv:
  assumes "fold_res (expandRoot (\<lambda>i. Inr (f i) :: 'e + string list) requested False) st roots = Inr st'"
    and "expandInv f requested done st" and "set roots \<subseteq> set requested" and "distinct (done @ roots)"
  shows "expandInv f requested (done @ roots) st'"
  using assms
proof (induction roots arbitrary: st "done")
  case (Cons root roots)
  then obtain st1 where step: "expandRoot (\<lambda>i. Inr (f i) :: 'e + string list) requested False st root = Inr st1"
    and rest: "fold_res (expandRoot (\<lambda>i. Inr (f i) :: 'e + string list) requested False) st1 roots = Inr st'"
    by (auto split: sum.splits)
  have "expandInv f requested (done @ [root]) st1"
    by (rule expandRoot_inv [OF Cons.prems(2) _ _ step]) (use Cons.prems in auto)
  from Cons.IH [OF rest this] Cons.prems show ?case by simp
qed simp

lemma expandSubagents_inv:
  assumes "expandSubagents (\<lambda>i. Inr (f i) :: 'e + string list) requested False = Inr st" and "distinct requested"
  shows "expandInv f requested requested st"
proof -
  have "expandInv f requested [] emptyExpand" by (simp add: expandInv_def emptyExpand_def)
  from expand_fold_inv [OF assms(1) [unfolded expandSubagents_def] this] assms(2) show ?thesis by simp
qed

lemma inheritance_SomeD:
  "map_of (inheritance st) i = Some p \<Longrightarrow> \<exists>s \<in> set (xsSessions st). ssID s = i \<and> ssParent s = p \<and> p \<noteq> []"
proof -
  have "map_of (foldl (\<lambda>out s. if ssParent s \<noteq> [] then AList.update (ssID s) (ssParent s) out else out) [] ss) i = Some p \<Longrightarrow>
      \<exists>s \<in> set ss. ssID s = i \<and> ssParent s = p \<and> p \<noteq> []" for ss
    by (induction ss rule: rev_induct) (auto simp: update_conv' split: if_splits)
  then show "map_of (inheritance st) i = Some p \<Longrightarrow> ?thesis" by (simp add: inheritance_def)
qed

text \<open>
  An inherited selection comes from a named session the subagent session descends from.
\<close>

lemma inheritance_from_named:
  assumes "expandSubagents (\<lambda>i. Inr (f i) :: 'e + string list) requested False = Inr st" and "distinct requested"
    and "map_of (inheritance st) i = Some p"
  shows "p \<in> set requested \<and> (p, i) \<in> (child_rel f)\<^sup>+ \<and> i \<notin> set requested"
proof -
  obtain s where s: "s \<in> set (xsSessions st)" "ssID s = i" "ssParent s = p" "p \<noteq> []"
    using inheritance_SomeD [OF assms(3)] by blast
  have "if ssID s \<in> set requested then ssParent s = []
      else ssParent s \<in> set requested \<and> (ssParent s, ssID s) \<in> (child_rel f)\<^sup>+"
    using expandSubagents_inv [OF assms(1,2)] s(1) unfolding expandInv_def by blast
  with s show ?thesis by (auto split: if_splits)
qed

text \<open>
  C10: The whole tree travels. When the subagent sessions are read and the tree is not too deep,
  the sessions of the run are exactly the requested ones and everything that descends from
  them, each once; cycles in the stored parent links do no harm. A session has no parent
  entry exactly when it was named, and every other one is listed under a named session it
  descends from.
\<close>

theorem expandSubagents_closure:
  assumes "expandSubagents (\<lambda>i. Inr (f i) :: 'e + string list) requested False = Inr st" and "distinct requested" and "[] \<notin> set requested"
  shows "set (selectedIDs st) = (child_rel f)\<^sup>* `` set requested \<and> distinct (selectedIDs st) \<and>
    (\<forall>s \<in> set (xsSessions st). (ssParent s = [] \<longleftrightarrow> ssID s \<in> set requested) \<and>
       (ssParent s \<noteq> [] \<longrightarrow> ssParent s \<in> set requested \<and> (ssParent s, ssID s) \<in> (child_rel f)\<^sup>+))"
proof -
  have inv: "expandInv f requested requested st" by (rule expandSubagents_inv [OF assms(1,2)])
  let ?S = "set (xsSeen st)"
  have ids: "set (map ssID (xsSessions st)) = ?S" and dist: "distinct (map ssID (xsSessions st))"
    and req: "?S \<inter> set requested = set requested"
    and closed: "\<forall>a \<in> ?S. set (f a) \<subseteq> set requested \<union> ?S"
    and par: "\<forall>s \<in> set (xsSessions st). if ssID s \<in> set requested then ssParent s = []
         else ssParent s \<in> set requested \<and> (ssParent s, ssID s) \<in> (child_rel f)\<^sup>+"
    using inv unfolding expandInv_def by blast+
  have "child_rel f `` ?S \<subseteq> ?S" using closed req by (auto simp: child_rel_def)
  then have "(child_rel f)\<^sup>* `` ?S \<subseteq> ?S" by (simp add: Image_closed_trancl)
  then have "(child_rel f)\<^sup>* `` set requested \<subseteq> ?S" using req by blast
  moreover have "?S \<subseteq> (child_rel f)\<^sup>* `` set requested"
  proof
    fix x assume "x \<in> ?S"
    then have "x \<in> ssID ` set (xsSessions st)" using ids by simp
    then obtain s where "s \<in> set (xsSessions st)" "ssID s = x" by blast
    with par have "x \<in> set requested \<or> ssParent s \<in> set requested \<and> (ssParent s, x) \<in> (child_rel f)\<^sup>*"
      by (auto intro: trancl_into_rtrancl split: if_splits)
    then show "x \<in> (child_rel f)\<^sup>* `` set requested" by blast
  qed
  ultimately have "?S = (child_rel f)\<^sup>* `` set requested" by blast
  moreover have "(ssParent s = [] \<longleftrightarrow> ssID s \<in> set requested) \<and>
      (ssParent s \<noteq> [] \<longrightarrow> ssParent s \<in> set requested \<and> (ssParent s, ssID s) \<in> (child_rel f)\<^sup>+)"
    if "s \<in> set (xsSessions st)" for s
    using par that assms(3) by (cases "ssID s \<in> set requested") auto
  ultimately show ?thesis using ids dist by (simp add: selectedIDs_def)
qed

lemma visitChildren_succeeds:
  assumes "depth \<le> maxSubagentDepth \<or> set cs \<subseteq> set direct \<union> set (xsSeen st)"
  shows "\<exists>acc. fold_res (visitChild direct w root depth) (nxt, st) cs = (Inr acc :: 'e expand_error + _)"
  using assms
proof (induction cs arbitrary: nxt st)
  case (Cons c cs)
  show ?case
  proof (cases "c \<in> set direct \<or> c \<in> set (xsSeen st)")
    case True
    with Cons.prems have "depth \<le> maxSubagentDepth \<or> set cs \<subseteq> set direct \<union> set (xsSeen st)" by auto
    from Cons.IH [OF this] True show ?thesis by (simp add: visitChild_skip)
  next
    case False
    with Cons.prems have shallow: "\<not> maxSubagentDepth < depth" by auto
    with False visitChild_new [of c direct st depth w root nxt] obtain st1 where
      "visitChild direct w root depth (nxt, st) c = (Inr (nxt @ [c], st1) :: 'e expand_error + _)" by blast
    with Cons.IH [of st1 "nxt @ [c]"] shallow show ?thesis by simp
  qed
qed simp

text \<open>
  A root whose descendants all lie in a set of at most 64 sessions is expanded: a level is
  only reached through one new session per level above it.
\<close>

lemma expandLevels_succeeds:
  assumes "finite D" and "card D \<le> maxSubagentDepth" and "\<forall>a \<in> D. set (f a) \<subseteq> D" and "set (f root) \<subseteq> D"
    and "set level \<subseteq> insert root D" and "S \<subseteq> D" and "S \<subseteq> set (xsSeen st)" and "level = [] \<or> depth \<le> Suc (card S)"
  shows "\<exists>st'. expandLevels (\<lambda>i. Inr (f i) :: 'e + string list) direct w root depth st level = Inr st'"
  using assms(5-)
proof (induction "66 - depth" arbitrary: depth st level S rule: less_induct)
  case less
  let ?f = "\<lambda>i. Inr (f i) :: 'e + string list"
  show ?case
  proof (cases "level = []")
    case True
    then show ?thesis by (simp add: expandLevels.simps)
  next
    case False
    let ?cs = "concat (map f level)"
    have cs: "set ?cs \<subseteq> D" using less.prems(1) assms(3,4) by fastforce
    have "finite S" using less.prems(2) assms(1) finite_subset by blast
    have "depth \<le> maxSubagentDepth \<or> set ?cs \<subseteq> set direct \<union> set (xsSeen st)"
    proof (rule ccontr)
      assume "\<not> ?thesis"
      then obtain c where "maxSubagentDepth < depth" "c \<in> D" "c \<notin> set (xsSeen st)" using cs by auto
      with less.prems(2,3) have "insert c S \<subseteq> D" "c \<notin> S" by auto
      then have "Suc (card S) \<le> card D"
        using \<open>finite S\<close> card_mono [OF assms(1), of "insert c S"] by simp
      with assms(2) less.prems(4) False \<open>maxSubagentDepth < depth\<close> show False by simp
    qed
    then obtain nxt st1 where lvl: "fold_res (visitChild direct w root depth) ([], st) ?cs =
        (Inr (nxt, st1) :: 'e expand_error + _)"
      using visitChildren_succeeds [of depth ?cs direct st w root "[]"] by (metis surj_pair)
    then have vis: "visitLevel ?f direct w root depth st level = Inr (nxt, st1)" by (simp add: visitLevel_concat)
    from visitChildren [OF lvl] obtain added where "nxt = [] @ added" "set (xsSeen st1) = set (xsSeen st) \<union> set added"
      "set added \<inter> (set direct \<union> set (xsSeen st)) = {}" "set added \<subseteq> set ?cs" by blast
    then have new: "set (xsSeen st1) = set (xsSeen st) \<union> set nxt"
      "set nxt \<inter> set (xsSeen st) = {}" "set nxt \<subseteq> D" using cs by auto
    have "\<exists>st'. expandLevels ?f direct w root (Suc depth) st1 nxt = Inr st'"
    proof (cases "nxt = []")
      case True
      then show ?thesis by (simp add: expandLevels.simps)
    next
      case nxt: False
      then have "\<not> maxSubagentDepth < depth" using visitLevel_deep [OF vis] by blast
      then have "66 - Suc depth < 66 - depth" by (simp add: maxSubagentDepth_def)
      moreover have "S \<union> set nxt \<subseteq> D" "S \<union> set nxt \<subseteq> set (xsSeen st1)" using less.prems(2,3) new by auto
      moreover have "Suc (card S) \<le> card (S \<union> set nxt)"
      proof -
        from nxt obtain x where x: "x \<in> set nxt" by (cases nxt) auto
        then have "x \<notin> S" using new(2) less.prems(3) by auto
        with \<open>finite S\<close> have "card (insert x S) = Suc (card S)" by simp
        then show ?thesis using card_mono [of "S \<union> set nxt" "insert x S"] x \<open>finite S\<close> by auto
      qed
      ultimately show ?thesis
        using less.hyps [of "Suc depth" nxt "S \<union> set nxt" st1] new(3) less.prems(4) False by auto
    qed
    with vis False show ?thesis using expandLevels.simps [of ?f direct w root depth st level] by simp
  qed
qed

text \<open>
  C11: A tree is refused only for its depth: when every requested session has at most 64
  descendants, however they are linked, the expansion succeeds.
\<close>

theorem expandSubagents_succeeds:
  assumes "\<forall>r \<in> set requested. finite ((child_rel f)\<^sup>+ `` {r}) \<and> card ((child_rel f)\<^sup>+ `` {r}) \<le> maxSubagentDepth"
  shows "\<exists>st. expandSubagents (\<lambda>i. Inr (f i) :: 'e + string list) requested w = Inr st"
proof -
  have root: "\<exists>st'. expandRoot (\<lambda>i. Inr (f i) :: 'e + string list) requested w st r = Inr st'"
    if "r \<in> set requested" for st r
  proof -
    let ?D = "(child_rel f)\<^sup>+ `` {r}"
    have "\<forall>a \<in> ?D. set (f a) \<subseteq> ?D" by (auto simp: child_rel_def intro: trancl_into_trancl)
    moreover have "set (f r) \<subseteq> ?D" by (auto simp: child_rel_def)
    ultimately show ?thesis
      unfolding expandRoot_def by (intro expandLevels_succeeds [of ?D f r "[r]" "{}"]) (use assms that in auto)
  qed
  have "\<exists>st'. fold_res (expandRoot (\<lambda>i. Inr (f i) :: 'e + string list) requested w) st roots = Inr st'"
    if "set roots \<subseteq> set requested" for st roots
    using that
  proof (induction roots arbitrary: st)
    case (Cons r roots)
    then obtain st1 where "expandRoot (\<lambda>i. Inr (f i) :: 'e + string list) requested w st r = Inr st1"
      using root [of r st] by auto
    with Cons show ?case by simp
  qed simp
  then show ?thesis by (simp add: expandSubagents_def)
qed

definition exampleChildren :: "string \<Rightarrow> string list" where
  "exampleChildren i = (if i = ''a'' then [''b'', ''c''] else if i = ''b'' then [''a'', ''c''] else [])"

lemma example_descendants: "(child_rel exampleChildren)\<^sup>+ `` {''a''} \<subseteq> {''a'', ''b'', ''c''}"
  by (auto dest!: tranclD2 simp: child_rel_def exampleChildren_def split: if_splits)

theorem expandSubagents_succeeds_witness:
  "\<exists>st. expandSubagents (\<lambda>i. Inr (exampleChildren i) :: unit + string list) [''a''] False = Inr st"
proof -
  have "finite ((child_rel exampleChildren)\<^sup>+ `` {''a''})" using example_descendants finite_subset by blast
  moreover have "card ((child_rel exampleChildren)\<^sup>+ `` {''a''}) \<le> card {''a'', ''b'', ''c''}"
    using example_descendants by (intro card_mono) auto
  ultimately show ?thesis
    by (intro expandSubagents_succeeds) (simp add: maxSubagentDepth_def)
qed

lemma example_expanded:
  "expandSubagents (\<lambda>i. Inr (exampleChildren i) :: unit + string list) [''a''] False =
   Inr \<lparr> xsSeen = [''c'', ''b'', ''a''], xsSessions = [\<lparr> ssID = ''a'', ssParent = [] \<rparr>,
     \<lparr> ssID = ''b'', ssParent = ''a'' \<rparr>, \<lparr> ssID = ''c'', ssParent = ''a'' \<rparr>], xsOmitted = [] \<rparr>"
  by code_simp

theorem expandSubagents_closure_witness:
  "\<exists>st. expandSubagents (\<lambda>i. Inr (exampleChildren i) :: unit + string list) [''a''] False = Inr st \<and>
     ''c'' \<in> set (selectedIDs st) \<and> distinct (selectedIDs st)"
proof -
  obtain st where st: "expandSubagents (\<lambda>i. Inr (exampleChildren i) :: unit + string list) [''a''] False = Inr st"
    using example_expanded by blast
  have "(''a'', ''c'') \<in> child_rel exampleChildren" by (simp add: child_rel_def exampleChildren_def)
  with expandSubagents_closure [OF st] st show ?thesis by auto
qed

section \<open>The decisions of the saved selection\<close>

lemma map_of_update_fold:
  "map_of (foldl (\<lambda>out (c, d). AList.update (key c) d out) out xs) k =
   (case map_of (rev (map (\<lambda>(c, d). (key c, d)) xs)) k of None \<Rightarrow> map_of out k | Some d \<Rightarrow> Some d)"
  by (induction xs arbitrary: out) (auto simp: update_conv' map_add_def split: option.split)

lemma map_key_zip: "length cs = length ds \<Longrightarrow> map (\<lambda>(c, d). key c) (zip cs ds) = map key cs"
  by (induction rule: list_induct2) auto

lemma map_of_update_fold_distinct:
  assumes "length cs = length ds" and "distinct (map key cs)" and "i < length cs"
  shows "map_of (foldl (\<lambda>out (c, d). AList.update (key c) d out) [] (zip cs ds)) (key (cs ! i)) = Some (ds ! i)"
proof -
  let ?xs = "map (\<lambda>(c, d). (key c, d)) (zip cs ds)"
  have "map fst ?xs = map key cs"
    using map_key_zip [OF assms(1)] by (simp add: comp_def split_def)
  then have d: "distinct (map fst (rev ?xs))" using assms(2) by (metis distinct_rev rev_map)
  have "(key (cs ! i), ds ! i) \<in> set ?xs" using assms by (force simp: set_zip)
  with d have "map_of (rev ?xs) (key (cs ! i)) = Some (ds ! i)" by (simp add: map_of_is_SomeI)
  then show ?thesis by (simp add: map_of_update_fold)
qed

text \<open>
  Every stored session gets the matcher's own decision. When the decisions of a run are
  prepared from stored rows with distinct identifiers, the decision of each row is what the
  matcher says of the candidate made from it, with the multiplicity of the whole cohort,
  and whatever the matcher excludes is never decided yes.
\<close>

lemma preparePushSelection_row:
  assumes "preparePushSelection (Inr rows) matcher resolver = Some (Inr sel)"
    and "distinct (map prSessionID rows)" and "i < length rows"
  shows "\<exists>cands. prepareSelectionCandidates resolver (map selectionInput rows) = Some cands \<and>
    cSessionID (cands ! i) = prSessionID (rows ! i) \<and>
    MatchBranchCandidate matcher (cands ! i) = Some (Push.Decision (Some sel) (prSessionID (rows ! i))) \<and>
    (ExcludesCandidate matcher (cands ! i) \<longrightarrow> Push.Decision (Some sel) (prSessionID (rows ! i)) = BranchMatchNo)"
proof -
  obtain cands ds where c: "prepareSelectionCandidates resolver (map selectionInput rows) = Some cands"
    and ds: "those (map (MatchBranchCandidate matcher) cands) = Some ds"
    and sel: "sel = foldl (\<lambda>out (c, d). AList.update (cSessionID c) d out) [] (zip cands ds)"
    using assms(1) by (auto simp: preparePushSelection_def bind_eq_Some_conv)
  have all: "list_all2 (\<lambda>c d. MatchBranchCandidate matcher c = Some d) cands ds"
    using ds by (rule those_map_SomeD)
  have ids: "map cSessionID cands = map prSessionID rows"
    by (simp add: prepareSelectionCandidates_map [OF c] selectionInput_def comp_def)
  then have len: "length cands = length rows" by (metis length_map)
  have id_i: "cSessionID (cands ! i) = prSessionID (rows ! i)" using ids assms(3) len by (metis nth_map)
  have m: "MatchBranchCandidate matcher (cands ! i) = Some (ds ! i)"
    using all assms(3) len by (simp add: list_all2_conv_all_nth)
  have "map_of sel (cSessionID (cands ! i)) = Some (ds ! i)"
    unfolding sel by (rule map_of_update_fold_distinct)
      (use all len assms(2,3) ids in \<open>auto simp: list_all2_lengthD\<close>)
  then have dec: "Push.Decision (Some sel) (prSessionID (rows ! i)) = ds ! i"
    using id_i by (simp add: Push.Decision_def)
  have "ds ! i = BranchMatchNo" if "ExcludesCandidate matcher (cands ! i)"
  proof -
    from m obtain z where z: "decideCandidate matcher (cands ! i) storedPolicy = Some z" "dMatch z = ds ! i"
      by (auto simp: MatchBranchCandidate_def)
    from decideCandidate_excluded [OF that z(1)] z(2) show ?thesis by (simp add: decisionNo_def)
  qed
  then show ?thesis using c id_i m dec by (intro exI [of _ cands]) simp
qed

lemma preparePushSelection_excluded:
  assumes "preparePushSelection (Inr rows) matcher resolver = Some (Inr sel)"
    and "distinct (map prSessionID rows)" and "i < length rows"
    and "prepareSelectionCandidates resolver (map selectionInput rows) = Some cands"
    and "ExcludesCandidate matcher (cands ! i)"
  shows "Push.Decision (Some sel) (prSessionID (rows ! i)) = BranchMatchNo"
  using preparePushSelection_row [OF assms(1-3)] assms(4,5) by auto

definition exampleSelectionInputs :: "selectionCandidateInput list" where
  "exampleSelectionInputs = map (\<lambda>(path, sid).
     \<lparr> inHarness = ''codex'', inGitRemote = ''git@github.com:acme/app.git'', inProjectName = ''app'',
       inProjectHash = ''h'', inProjectPath = path, inBranch = ''main'', inSessionID = sid \<rparr>)
     [(''/w/one'', ''s1''), (''/w/two'', ''s2'')]"

lemma example_candidates_prepared:
  "\<exists>cands. prepareSelectionCandidates (Some Some) exampleSelectionInputs = Some cands"
proof -
  have "\<not> Option.is_none (prepareSelectionCandidates (Some Some) exampleSelectionInputs)" by code_simp
  then show ?thesis by (auto simp: Option.is_none_def)
qed

theorem prepareSelectionCandidates_multiplicity_witness:
  "\<exists>cands. prepareSelectionCandidates (Some Some) exampleSelectionInputs = Some cands \<and>
     cNameMultiplicity (cands ! 0) \<noteq> DiscoveryIdentityUnique"
proof -
  obtain cands where c: "prepareSelectionCandidates (Some Some) exampleSelectionInputs = Some cands"
    using example_candidates_prepared by blast
  have len: "0 < length exampleSelectionInputs" by (simp add: exampleSelectionInputs_def)
  let ?a = "exampleSelectionInputs ! 0" and ?b = "exampleSelectionInputs ! 1"
  have "?a \<in> set exampleSelectionInputs" "?b \<in> set exampleSelectionInputs"
    by (simp_all add: exampleSelectionInputs_def)
  moreover have "nameText ?a = ''app''" "nameText ?b = ''app''"
    "inputIdentity (Some Some) ?a \<noteq> inputIdentity (Some Some) ?b" by code_simp+
  ultimately have "\<not> (nameText ?a = [] \<or> (\<exists>ident. \<forall>other \<in> set exampleSelectionInputs. nameText other = nameText ?a \<longrightarrow>
      inputIdentity (Some Some) other = (ident, True)))" by (metis list.discI)
  with prepareSelectionCandidates_multiplicity [OF c len] c show ?thesis by metis
qed

lemma example_selection_prepared:
  "\<exists>sel. preparePushSelection (Inr [exampleRow ''s1''] :: unit + PushSessionRow list) exampleMatcher None = Some (Inr sel)"
proof -
  have "(case preparePushSelection (Inr [exampleRow ''s1''] :: unit + PushSessionRow list) exampleMatcher None of
      Some (Inr _) \<Rightarrow> True | _ \<Rightarrow> False)" by code_simp
  then show ?thesis by (auto split: option.splits sum.splits)
qed

end
