(* ===== verification/Push_Plan.thy ===== *)
theory Push_Plan
  imports Auto_Publish Upload Push_Selection
begin

text \<open>
  The plan a push reports for the sessions it was given by name:
  \<open>cmd/peasant/cmd_push_selection.go\<close> from \<open>explicitSharePlan\<close> on. A verdict restates what the
  run decided; the counts of the summary are a tally of the verdicts.

  The share step's name is a constant of the external schema package, so it is a field of
  the inputs. \<open>None\<close> of \<open>explainRequested\<close> is the panic of an index out of range.
\<close>

section \<open>Verdicts\<close>

datatype PlanVerdict =
    PlanWillPublish | PlanWillUpdate | PlanUnchanged | PlanHeld | PlanExcluded | PlanNotReady | PlanUnknown
  | PlanFailed

datatype PlanReason =
    ReasonNotInStore | ReasonOutsideRepository | ReasonHarnessMismatch | ReasonBranchSelectionExcl
  | ReasonNeedsIngest | ReasonCohortNotReady | ReasonLatestAttemptKept | ReasonUnchangedContent | ReasonTranscriptIsPublic
  | ReasonNoMetrics | ReasonNoModelReply

record stepResult =
  stStep :: string
  stCollectiveID :: "string option"
  stOutcome :: string
  stReason :: string

record planShare =
  shCollectiveID :: string
  shStep :: string
  shWould :: string
  shOutcome :: string
  shReason :: string

record planFields =
  pfSessionID :: string
  pfVerdict :: PlanVerdict
  pfReason :: "PlanReason option"
  pfDetail :: string
  pfTitle :: string
  pfSelectedBy :: string
  pfNext :: string
  pfShares :: "planShare list"
  pfInheritedFrom :: string
  pfSubagentsOmitted :: nat

datatype planEntry = PlanEntry (peFields: planFields) (peSubagents: "planEntry list")

record planInputs =
  inSelection :: expandState
  inKnown :: "string list"
  inResult :: "PushResult option"
  inRunCfg :: PipelineConfig
  inCfg :: "(PushMethod \<times> string list) option"
  inAutoPublish :: autoPublishPlan
  inCollectives :: "string list"
  inRefs :: "string list"
  inShared :: "(string \<times> stepResult list) list"
  inDryRun :: bool
  inAddCollective :: string

definition newFields :: "string \<Rightarrow> PlanVerdict \<Rightarrow> PlanReason option \<Rightarrow> planFields" where
  "newFields ident verdict reason =
     \<lparr> pfSessionID = ident, pfVerdict = verdict, pfReason = reason, pfDetail = [], pfTitle = [], pfSelectedBy = [],
       pfNext = [], pfShares = [], pfInheritedFrom = [], pfSubagentsOmitted = 0 \<rparr>"

definition explicitSharePlan :: "string list \<Rightarrow> string list \<Rightarrow> autoPublishPlan" where
  "explicitSharePlan ids collectives =
     emptyPlan\<lparr> apPinned := Some (foldl (\<lambda>out i. List.insert i out) [] ids),
                apCollectives := foldl (\<lambda>out i. AList.update i collectives out) [] ids,
                apPublicHeld := Some [] \<rparr>"

definition harnessAdmitted :: "PushSessionRow \<Rightarrow> PipelineConfig \<Rightarrow> (PushMethod \<times> string list) option \<Rightarrow> bool" where
  "harnessAdmitted row runCfg cfg =
     (if pcSourceProvider runCfg \<noteq> [] then prModelHarness row = pcSourceProvider runCfg
      else case cfg of
             None \<Rightarrow> True
           | Some (method, sources) \<Rightarrow>
               if \<not> pcForce runCfg \<and> method = PushMethodBySource then prModelHarness row \<in> set sources else True)"

definition sharedBy :: "planInputs \<Rightarrow> (string \<times> stepResult list) list" where
  "sharedBy inp = foldl (\<lambda>out (ident, steps). AList.update ident steps out) [] (inShared inp)"

definition planShares :: "string \<Rightarrow> planInputs \<Rightarrow> planShare list" where
  "planShares ident inp =
     (let steps = (case map_of (sharedBy inp) ident of None \<Rightarrow> [] | Some steps \<Rightarrow> steps);
          outcomes = foldl (\<lambda>out step. case stCollectiveID step of
              Some c \<Rightarrow> if stStep step = inAddCollective inp then AList.update c step out else out
            | None \<Rightarrow> out) [] steps;
          share = (\<lambda>c. \<lparr> shCollectiveID = c, shStep = inAddCollective inp, shWould = ''share'', shOutcome = [], shReason = [] \<rparr>)
      in map (\<lambda>c. case map_of outcomes c of
             Some step \<Rightarrow>
               if \<not> inDryRun inp then (share c)\<lparr> shOutcome := stOutcome step, shReason := stReason step \<rparr> else share c
           | None \<Rightarrow> share c)
         (inCollectives inp))"

text \<open>The entry of a session the pipeline considered.\<close>

definition explainResult :: "string \<Rightarrow> planInputs \<Rightarrow> SessionPushResult \<Rightarrow> planFields" where
  "explainResult ident inp sr =
     (let entry = (newFields ident PlanFailed None)\<lparr> pfTitle := srTitle sr,
            pfInheritedFrom := (case SelectionInheritedFrom (inRunCfg inp) ident of None \<Rightarrow> [] | Some root \<Rightarrow> root) \<rparr>
      in case srStatus sr of
           PushStatusNew \<Rightarrow> entry\<lparr> pfVerdict := PlanWillPublish, pfShares := planShares ident inp \<rparr>
         | PushStatusUpdated \<Rightarrow> entry\<lparr> pfVerdict := PlanWillUpdate, pfShares := planShares ident inp \<rparr>
         | PushStatusSkipped \<Rightarrow>
             entry\<lparr> pfVerdict := PlanUnchanged, pfReason := Some ReasonUnchangedContent,
               pfNext := (if inRefs inp \<noteq> []
                          then ''peasant village share '' @ ident @ '' --collective '' @ join '' --collective '' (inRefs inp)
                          else []) \<rparr>
         | PushStatusHeld \<Rightarrow>
             entry\<lparr> pfVerdict := PlanHeld, pfDetail := srHeldReason sr,
               pfReason := (if heldPublic (inAutoPublish inp) ident then Some ReasonTranscriptIsPublic else None) \<rparr>
         | PushStatusError \<Rightarrow>
             (case srNotReady sr of
                Some NotReadyLatestAttemptKept \<Rightarrow>
                  entry\<lparr> pfVerdict := PlanNotReady, pfReason := Some ReasonLatestAttemptKept,
                    pfDetail := ''a newer incomplete attempt is kept beside the last-good transcript; re-index the complete source, or publish the last-good with --last-good'' \<rparr>
              | Some NotReadyNoModelReply \<Rightarrow>
                  entry\<lparr> pfVerdict := PlanNotReady, pfReason := Some ReasonNoModelReply,
                    pfDetail := ''the session never reached a model: it holds no assistant reply, only setup or local commands, so its source names no model; peasant online requires one and re-indexing cannot add it; leave the session out of the push'' \<rparr>
              | Some NotReadyNeedsIngest \<Rightarrow>
                  entry\<lparr> pfVerdict := PlanNotReady, pfReason := Some ReasonNeedsIngest,
                    pfDetail := ''run `peasant harvest --session '' @ ident @ '' --force` to re-index this session from its source, then retry'' \<rparr>
              | None \<Rightarrow> entry\<lparr> pfVerdict := PlanFailed, pfDetail := srError sr \<rparr>))"

text \<open>The entry of a session the pipeline did not reach: the filters, in the order of the run.\<close>

definition explainUnreached :: "string \<Rightarrow> planInputs \<Rightarrow> PushSessionRow \<Rightarrow> planFields" where
  "explainUnreached ident inp row =
     (let run = inRunCfg inp;
          pinnedOut = (case pcPinnedSessionIDs run of None \<Rightarrow> False | Some pinned \<Rightarrow> ident \<notin> pinned);
          held = (case map_of (apHeld (inAutoPublish inp)) ident of None \<Rightarrow> [] | Some reason \<Rightarrow> reason)
      in if \<not> harnessAdmitted row run (inCfg inp) then newFields ident PlanExcluded (Some ReasonHarnessMismatch)
         else if pinnedOut \<and> held \<noteq> [] then (newFields ident PlanHeld None)\<lparr> pfDetail := held \<rparr>
         else if pinnedOut then
           (newFields ident PlanExcluded None)\<lparr> pfDetail :=
             ''no auto-publish rule binds it, and this run publishes only sessions a rule binds'' \<rparr>
         else if pcSelection run \<noteq> None \<and> Push.Decision (pcSelection run) ident \<noteq> BranchMatchYes then
           (newFields ident PlanExcluded (Some ReasonBranchSelectionExcl))\<lparr> pfDetail :=
             (case SelectionInheritedFrom run ident of
                None \<Rightarrow> []
              | Some root \<Rightarrow> ''its own branch is outside the saved selection, and it follows its parent '' @ root @ [CHR 0x27] @
                  ''s selection only when this run sends that parent; the parent is not sent'') \<rparr>
         else if \<not> Admits (pcRepository run) (prProjectHash row) then
           newFields ident PlanExcluded (Some ReasonOutsideRepository)
         else
           (newFields ident PlanFailed None)\<lparr> pfDetail :=
             ''the run stopped before it reached this session, for example at its time budget or on an earlier error; nothing was sent for it; retry the push'' \<rparr>)"

definition explainOne ::
  "string \<Rightarrow> planInputs \<Rightarrow> (string \<times> PushSessionRow) list \<Rightarrow> (string \<times> SessionPushResult) list \<Rightarrow> planFields" where
  "explainOne ident inp rows results =
     (if ident \<notin> set (inKnown inp) then newFields ident PlanUnknown (Some ReasonNotInStore)
      else case map_of results ident of
             Some sr \<Rightarrow> explainResult ident inp sr
           | None \<Rightarrow>
               (case map_of rows ident of
                  None \<Rightarrow>
                    (newFields ident PlanNotReady (Some ReasonNoMetrics))\<lparr> pfDetail :=
                      ''the session has no computed metrics yet; run `peasant harvest --session '' @ ident @ ''`, then retry'' \<rparr>
                | Some row \<Rightarrow> explainUnreached ident inp row))"

definition rowsByID :: "PushSessionRow list \<Rightarrow> (string \<times> PushSessionRow) list" where
  "rowsByID rows = foldl (\<lambda>out row. AList.update (prSessionID row) row out) [] rows"

definition resultsByID :: "PushResult option \<Rightarrow> (string \<times> SessionPushResult) list" where
  "resultsByID result =
     (case result of None \<Rightarrow> []
      | Some r \<Rightarrow> foldl (\<lambda>out sr. AList.update (srSessionID sr) sr out) [] (resSessions r))"

fun addSubagent :: "planEntry \<Rightarrow> planEntry \<Rightarrow> planEntry" where
  "addSubagent sub (PlanEntry pf subs) = PlanEntry pf (subs @ [sub])"

text \<open>
  One iteration of \<open>explainRequested\<close>: the entries so far and the index of the named ones. A
  parent that has no index reads as the zero value.
\<close>

definition explainSelected ::
  "(string \<Rightarrow> planFields) \<Rightarrow> expandState \<Rightarrow> planEntry list \<times> (string \<times> nat) list \<Rightarrow> selectedSession \<Rightarrow>
   (planEntry list \<times> (string \<times> nat) list) option" where
  "explainSelected explain sel acc selected =
     (case acc of (entries, idx) \<Rightarrow>
        let entry = explain (ssID selected)
        in if ssParent selected = [] then
             let entry = entry\<lparr> pfSelectedBy := ''request'',
                   pfSubagentsOmitted := (case map_of (xsOmitted sel) (ssID selected) of None \<Rightarrow> 0 | Some n \<Rightarrow> n) \<rparr>
             in Some (entries @ [PlanEntry entry []], AList.update (ssID selected) (length entries) idx)
           else
             let parent = (case map_of idx (ssParent selected) of None \<Rightarrow> 0 | Some i \<Rightarrow> i)
             in if parent < length entries
                then Some (entries[parent := addSubagent (PlanEntry (entry\<lparr> pfSelectedBy := ''parent'' \<rparr>) []) (entries ! parent)], idx)
                else None)"

definition explainRequested :: "'e + PushSessionRow list \<Rightarrow> planInputs \<Rightarrow> ('e + planEntry list) option" where
  "explainRequested pushable inp =
     (case pushable of
        Inl e \<Rightarrow> Some (Inl e)
      | Inr rows \<Rightarrow>
          map_option (\<lambda>(entries, _). Inr entries)
            (fold_opt (explainSelected (\<lambda>i. explainOne i inp (rowsByID rows) (resultsByID (inResult inp))) (inSelection inp))
              ([], []) (xsSessions (inSelection inp))))"

section \<open>Counts\<close>

record pushCounts =
  cNew :: nat
  cUpdated :: nat
  cSkipped :: nat
  cErrors :: nat
  cHeld :: nat
  cNotReady :: nat
  cExcluded :: nat
  cUnknownSession :: nat
  cFromPlan :: bool

definition countVerdict :: "PlanVerdict \<Rightarrow> pushCounts \<Rightarrow> pushCounts" where
  "countVerdict v c =
     (case v of
        PlanWillPublish \<Rightarrow> c\<lparr> cNew := cNew c + 1 \<rparr>
      | PlanWillUpdate \<Rightarrow> c\<lparr> cUpdated := cUpdated c + 1 \<rparr>
      | PlanUnchanged \<Rightarrow> c\<lparr> cSkipped := cSkipped c + 1 \<rparr>
      | PlanHeld \<Rightarrow> c\<lparr> cHeld := cHeld c + 1 \<rparr>
      | PlanFailed \<Rightarrow> c\<lparr> cErrors := cErrors c + 1 \<rparr>
      | PlanNotReady \<Rightarrow> c\<lparr> cNotReady := cNotReady c + 1 \<rparr>
      | PlanExcluded \<Rightarrow> c\<lparr> cExcluded := cExcluded c + 1 \<rparr>
      | PlanUnknown \<Rightarrow> c\<lparr> cUnknownSession := cUnknownSession c + 1 \<rparr>)"

fun countEntry :: "pushCounts \<Rightarrow> planEntry \<Rightarrow> pushCounts" where
  "countEntry c (PlanEntry pf subs) = foldl countEntry (countVerdict (pfVerdict pf) c) subs"

definition noCounts :: pushCounts where
  "noCounts = \<lparr> cNew = 0, cUpdated = 0, cSkipped = 0, cErrors = 0, cHeld = 0, cNotReady = 0, cExcluded = 0,
     cUnknownSession = 0, cFromPlan = False \<rparr>"

definition countsOfPlan :: "planEntry list \<Rightarrow> pushCounts" where
  "countsOfPlan entries = foldl countEntry (noCounts\<lparr> cFromPlan := True \<rparr>) entries"

definition countsOfResult :: "PushResult \<Rightarrow> pushCounts" where
  "countsOfResult result =
     noCounts\<lparr> cNew := resNew result, cUpdated := resUpdated result, cSkipped := resSkipped result,
       cErrors := resErrors result, cHeld := resHeld result \<rparr>"

definition runCounts :: "PushResult \<Rightarrow> planEntry list option \<Rightarrow> pushCounts" where
  "runCounts result plan = (case plan of None \<Rightarrow> countsOfResult result | Some entries \<Rightarrow> countsOfPlan entries)"

definition countsTotal :: "pushCounts \<Rightarrow> nat" where
  "countsTotal c = cNew c + cUpdated c + cSkipped c + cErrors c + cHeld c + cNotReady c + cExcluded c + cUnknownSession c"

fun planSize :: "planEntry \<Rightarrow> nat" where
  "planSize (PlanEntry pf subs) = Suc (sum_list (map planSize subs))"

lemma countsTotal_countVerdict [simp]: "countsTotal (countVerdict v c) = Suc (countsTotal c)"
  by (cases v) (simp_all add: countVerdict_def countsTotal_def)

lemma countsTotal_countEntry: "countsTotal (countEntry c e) = countsTotal c + planSize e"
proof (induction c e rule: countEntry.induct)
  case (1 c pf subs)
  have "countsTotal (foldl countEntry c' xs) = countsTotal c' + sum_list (map planSize xs)"
    if "set xs \<subseteq> set subs" for c' xs
    using that
  proof (induction xs arbitrary: c')
    case (Cons x xs)
    then have "countsTotal (countEntry c' x) = countsTotal c' + planSize x" using 1 by simp
    with Cons show ?case by simp
  qed simp
  then show ?case by simp
qed

lemma countsTotal_fold: "countsTotal (foldl countEntry c es) = countsTotal c + sum_list (map planSize es)"
  by (induction es arbitrary: c) (simp_all add: countsTotal_countEntry)

lemma countsOfPlan_total: "countsTotal (countsOfPlan entries) = sum_list (map planSize entries)"
proof -
  have "countsTotal (noCounts\<lparr> cFromPlan := True \<rparr>) = 0" by (simp add: countsTotal_def noCounts_def)
  then show ?thesis unfolding countsOfPlan_def countsTotal_fold by simp
qed

section \<open>One entry per session\<close>

text \<open>Every subagent session comes after the named session it is listed under.\<close>

fun parents_first :: "string list \<Rightarrow> selectedSession list \<Rightarrow> bool" where
  "parents_first named [] = True"
| "parents_first named (s # ss) =
     (if ssParent s = [] then parents_first (ssID s # named) ss
      else ssParent s \<in> set named \<and> parents_first named ss)"

lemma parents_first_mono: "parents_first named ss \<Longrightarrow> set named \<subseteq> set named' \<Longrightarrow> parents_first named' ss"
proof (induction ss arbitrary: named named')
  case (Cons s ss)
  have sub: "set (ssID s # named) \<subseteq> set (ssID s # named')" using Cons.prems(2) by auto
  show ?case
  proof (cases "ssParent s = []")
    case True
    with Cons.prems(1) have "parents_first (ssID s # named) ss" by simp
    with True Cons.IH [OF this sub] show ?thesis by simp
  next
    case False
    with Cons.prems(1) have "parents_first named ss" "ssParent s \<in> set named" by simp_all
    with False Cons.IH [OF _ Cons.prems(2)] Cons.prems(2) show ?thesis by auto
  qed
qed simp

lemma parents_first_append:
  "parents_first named xs \<Longrightarrow> parents_first [] ys \<Longrightarrow> parents_first named (xs @ ys)"
  by (induction xs arbitrary: named) (auto intro: parents_first_mono)

lemma expand_parents_first:
  assumes "fold_res (expandRoot (\<lambda>i. Inr (f i) :: 'e + string list) requested False) st roots = Inr st'"
    and "parents_first [] (xsSessions st)" and "[] \<notin> set roots"
  shows "parents_first [] (xsSessions st')"
  using assms
proof (induction roots arbitrary: st)
  case (Cons root roots)
  from Cons.prems(1) obtain st1 where step: "expandRoot (\<lambda>i. Inr (f i) :: 'e + string list) requested False st root = Inr st1"
    and rest: "fold_res (expandRoot (\<lambda>i. Inr (f i) :: 'e + string list) requested False) st1 roots = Inr st'"
    by (auto split: sum.splits)
  from expandLevels_adds [OF step [unfolded expandRoot_def]] obtain new where
    st1: "xsSessions st1 = xsSessions st @ \<lparr> ssID = root, ssParent = [] \<rparr> # map (\<lambda>c. \<lparr> ssID = c, ssParent = root \<rparr>) new"
    by auto
  have "parents_first [root] (map (\<lambda>c. \<lparr> ssID = c, ssParent = root \<rparr>) xs)" for xs
    using Cons.prems(3) by (induction xs) auto
  then have "parents_first [] (xsSessions st1)"
    unfolding st1 using Cons.prems(2) by (intro parents_first_append) simp_all
  with Cons.IH [OF rest] Cons.prems(3) show ?case by simp
qed simp

definition entriesInv :: "string list \<Rightarrow> planEntry list \<times> (string \<times> nat) list \<Rightarrow> bool" where
  "entriesInv named acc \<longleftrightarrow> (\<forall>i \<in> set named. \<exists>n. map_of (snd acc) i = Some n \<and> n < length (fst acc))"

lemma planSize_addSubagent: "planSize (addSubagent sub e) = planSize e + planSize sub"
  by (cases e) simp

lemma explainSelected_step:
  assumes "entriesInv named acc" and "ssParent s = [] \<or> ssParent s \<in> set named"
  shows "\<exists>acc'. explainSelected explain sel acc s = Some acc' \<and>
    entriesInv (if ssParent s = [] then ssID s # named else named) acc' \<and>
    sum_list (map planSize (fst acc')) = Suc (sum_list (map planSize (fst acc)))"
proof (cases "ssParent s = []")
  case True
  obtain entries idx where acc: "acc = (entries, idx)" by (cases acc)
  with True assms(1) show ?thesis
    by (auto simp: explainSelected_def Let_def entriesInv_def update_conv' intro: less_SucI)
next
  case False
  obtain entries idx where acc: "acc = (entries, idx)" by (cases acc)
  with False assms obtain n where n: "map_of idx (ssParent s) = Some n" "n < length entries"
    by (auto simp: entriesInv_def)
  let ?sub = "PlanEntry ((explain (ssID s))\<lparr> pfSelectedBy := ''parent'' \<rparr>) []"
  have run: "explainSelected explain sel acc s = Some (entries[n := addSubagent ?sub (entries ! n)], idx)"
    using False n acc by (simp add: explainSelected_def)
  have "sum_list (map planSize (entries[n := addSubagent ?sub (entries ! n)])) = Suc (sum_list (map planSize entries))"
    using n(2) by (simp add: map_update sum_list_update planSize_addSubagent member_le_sum_list)
  with run assms(1) False acc show ?thesis by (simp add: entriesInv_def)
qed

lemma explain_fold:
  assumes "entriesInv named acc" and "parents_first named ss"
  shows "\<exists>acc'. fold_opt (explainSelected explain sel) acc ss = Some acc' \<and>
    sum_list (map planSize (fst acc')) = length ss + sum_list (map planSize (fst acc))"
  using assms
proof (induction ss arbitrary: acc named)
  case (Cons s ss)
  let ?named = "if ssParent s = [] then ssID s # named else named"
  have "ssParent s = [] \<or> ssParent s \<in> set named" and rest: "parents_first ?named ss"
    using Cons.prems(2) by (auto split: if_splits)
  from explainSelected_step [OF Cons.prems(1) this(1)] obtain acc1 where
    step: "explainSelected explain sel acc s = Some acc1" "entriesInv ?named acc1"
      "sum_list (map planSize (fst acc1)) = Suc (sum_list (map planSize (fst acc)))" by blast
  from Cons.IH [OF step(2) rest] step show ?case by auto
qed simp

text \<open>
  The plan covers the request. For sessions named on the command line, expanded with their
  subagent trees, the plan is computed without an index out of range, and its counts add up
  to the number of sessions of the run: every named and every pulled-in session has exactly
  one entry, counted under exactly one verdict.
\<close>

theorem explainRequested_counts:
  assumes "expandSubagents (\<lambda>i. Inr (f i) :: 'e + string list) requested False = Inr sel" and "[] \<notin> set requested"
    and "inSelection inp = sel"
  shows "\<exists>entries. explainRequested (Inr rows :: 'f + PushSessionRow list) inp = Some (Inr entries) \<and>
    countsTotal (countsOfPlan entries) = length (selectedIDs sel)"
proof -
  have order: "parents_first [] (xsSessions sel)"
    by (rule expand_parents_first [OF assms(1) [unfolded expandSubagents_def] _ assms(2)]) (simp add: emptyExpand_def)
  have "entriesInv [] ([], [])" by (simp add: entriesInv_def)
  from explain_fold [OF this order, of "\<lambda>i. explainOne i inp (rowsByID rows) (resultsByID (inResult inp))" sel]
  obtain acc where "fold_opt (explainSelected (\<lambda>i. explainOne i inp (rowsByID rows) (resultsByID (inResult inp))) sel)
      ([], []) (xsSessions sel) = Some acc" "sum_list (map planSize (fst acc)) = length (xsSessions sel)"
    by auto
  then show ?thesis
    by (cases acc) (simp add: explainRequested_def assms(3) countsOfPlan_total selectedIDs_def)
qed

definition exampleInputs :: "expandState \<Rightarrow> planInputs" where
  "exampleInputs sel = \<lparr> inSelection = sel, inKnown = [''root'', ''child''], inResult = Some emptyResult,
     inRunCfg = exampleRun, inCfg = None, inAutoPublish = emptyPlan, inCollectives = [], inRefs = [], inShared = [],
     inDryRun = False, inAddCollective = ''add'' \<rparr>"

theorem explainRequested_counts_witness:
  "\<exists>sel entries. explainRequested (Inr [] :: unit + PushSessionRow list) (exampleInputs sel) = Some (Inr entries) \<and>
     countsTotal (countsOfPlan entries) = 3"
proof -
  obtain sel where sel: "expandSubagents (\<lambda>i. Inr (exampleChildren i) :: unit + string list) [''a''] False = Inr sel"
    and three: "length (selectedIDs sel) = 3"
    by (simp add: example_expanded selectedIDs_def)
  have "inSelection (exampleInputs sel) = sel" by (simp add: exampleInputs_def)
  from explainRequested_counts [OF sel _ this] three show ?thesis by fastforce
qed

section \<open>The plan and the run\<close>

text \<open>What the plan says of a session that was not reached, and no selection is inherited.\<close>

lemma explainOne_unreached:
  "ident \<in> set (inKnown inp) \<Longrightarrow> map_of results ident = None \<Longrightarrow> map_of rows ident = Some row \<Longrightarrow>
   explainOne ident inp rows results = explainUnreached ident inp row"
  by (simp add: explainOne_def)

lemma explainUnreached_failed_iff:
  "pfVerdict (explainUnreached ident inp row) = PlanFailed \<longleftrightarrow>
     harnessAdmitted row (inRunCfg inp) (inCfg inp) \<and>
     (case pcPinnedSessionIDs (inRunCfg inp) of None \<Rightarrow> True | Some pinned \<Rightarrow> ident \<in> pinned) \<and>
     Push.Decision (pcSelection (inRunCfg inp)) ident = BranchMatchYes \<and>
     Admits (pcRepository (inRunCfg inp)) (prProjectHash row)"
  by (auto simp: explainUnreached_def newFields_def Push.Decision_def Let_def split: option.splits)

lemma kept_iff:
  "row \<in> set (fst (NarrowCandidates ss c)) \<longleftrightarrow>
     row \<in> set ss \<and> passesFilters c row \<and> selectionDecision c (prSessionID row) = BranchMatchYes \<and>
     (case SelectionInheritedFrom c (prSessionID row) of
        None \<Rightarrow> True
      | Some root \<Rightarrow> \<exists>r \<in> set ss. passesFilters c r \<and> selectionDecision c (prSessionID r) = BranchMatchYes \<and> prSessionID r = root)"
proof (cases "pcInheritSelection c = []")
  case True
  then have "SelectionInheritedFrom c sid = None" for sid by (simp add: SelectionInheritedFrom_def)
  with True show ?thesis by (auto simp: NarrowCandidates_filters dropInheritedWithoutRoot_def)
next
  case False
  then show ?thesis
    by (auto simp: NarrowCandidates_filters dropInheritedWithoutRoot_def Let_def image_iff split: option.splits)
qed

text \<open>
  C38: The plan restates the run. Take a known session the run did not reach, whose row the
  harness filter admits and that the run was asked for. If it inherits no selection, then
  the plan says that the run stopped before it exactly when the narrowing of the run keeps
  it; every other verdict stands for a session the run leaves out.
\<close>

theorem explainOne_agrees_with_run:
  assumes "ident \<in> set (inKnown inp)" and "map_of results ident = None" and "map_of rows ident = Some row"
    and "prSessionID row = ident" and "row \<in> set candidates"
    and "harnessAdmitted row (inRunCfg inp) (inCfg inp)"
    and "pcFilterSessionIDs (inRunCfg inp) = Some ids" and "ident \<in> set ids"
    and "SelectionInheritedFrom (inRunCfg inp) ident = None"
  shows "pfVerdict (explainOne ident inp rows results) = PlanFailed \<longleftrightarrow>
    row \<in> set (fst (NarrowCandidates candidates (inRunCfg inp)))"
  unfolding explainOne_unreached [OF assms(1-3)] explainUnreached_failed_iff kept_iff
  using assms by (auto simp: passesFilters_def selectionDecision_def split: option.splits)

text \<open>
  C39: The plan contradicts the run for inherited selections. A subagent session that the
  narrowing keeps because its root is kept, but that the run did not reach, is reported as
  excluded by the saved selection, with the explanation that its parent is not sent.
\<close>

theorem inherited_unreached_reported_excluded:
  assumes "ident \<in> set (inKnown inp)" and "map_of results ident = None" and "map_of rows ident = Some row"
    and "prSessionID row = ident" and "row \<in> set (fst (NarrowCandidates candidates (inRunCfg inp)))"
    and "harnessAdmitted row (inRunCfg inp) (inCfg inp)"
    and "SelectionInheritedFrom (inRunCfg inp) ident = Some root"
  shows "pfVerdict (explainOne ident inp rows results) = PlanExcluded \<and>
    pfReason (explainOne ident inp rows results) = Some ReasonBranchSelectionExcl \<and>
    root \<in> prSessionID ` set (fst (NarrowCandidates candidates (inRunCfg inp)))"
proof -
  have own: "Push.Decision (pcSelection (inRunCfg inp)) ident \<noteq> BranchMatchYes"
    and rt: "Push.Decision (pcSelection (inRunCfg inp)) root = BranchMatchYes"
      "SelectionInheritedFrom (inRunCfg inp) root = None"
    using root_decision [OF assms(7)] by blast+
  from own have "pcSelection (inRunCfg inp) \<noteq> None" by (cases "pcSelection (inRunCfg inp)") (simp_all add: Push.Decision_def)
  moreover have pass: "passesFilters (inRunCfg inp) row"
    and root: "\<exists>r \<in> set candidates. passesFilters (inRunCfg inp) r \<and>
      selectionDecision (inRunCfg inp) (prSessionID r) = BranchMatchYes \<and> prSessionID r = root"
    using assms(4,5,7) by (simp_all add: kept_iff)
  ultimately have verdict: "pfVerdict (explainUnreached ident inp row) = PlanExcluded"
    "pfReason (explainUnreached ident inp row) = Some ReasonBranchSelectionExcl"
    using own assms(4,6) by (auto simp: explainUnreached_def newFields_def passesFilters_def Let_def split: option.splits)
  from root obtain r where "r \<in> set (fst (NarrowCandidates candidates (inRunCfg inp)))" "prSessionID r = root"
    using rt(2) by (auto simp: kept_iff)
  with verdict show ?thesis unfolding explainOne_unreached [OF assms(1-3)] by auto
qed

lemma example_run_facts:
  "exampleRow ''child'' \<in> set (fst (NarrowCandidates (map exampleRow [''root'', ''child'']) exampleRun))"
  "exampleRow ''root'' \<in> set (map exampleRow [''root'', ''child''])"
  "SelectionInheritedFrom exampleRun ''child'' = Some ''root''" "SelectionInheritedFrom exampleRun ''root'' = None"
  "map_of (rowsByID (map exampleRow [''root'', ''child''])) ''child'' = Some (exampleRow ''child'')"
  "map_of (rowsByID (map exampleRow [''root'', ''child''])) ''root'' = Some (exampleRow ''root'')"
  by code_simp+

lemma example_input_facts:
  "''child'' \<in> set (inKnown (exampleInputs sel))" "''root'' \<in> set (inKnown (exampleInputs sel))"
  "map_of (resultsByID (inResult (exampleInputs sel))) ident = None"
  "inRunCfg (exampleInputs sel) = exampleRun" "harnessAdmitted row exampleRun (inCfg (exampleInputs sel))"
  "prSessionID (exampleRow i) = i"
  by (simp_all add: exampleInputs_def resultsByID_def emptyResult_def harnessAdmitted_def exampleRun_def exampleRow_def)

theorem inherited_unreached_reported_excluded_witness:
  "pfVerdict (explainOne ''child'' (exampleInputs emptyExpand) (rowsByID (map exampleRow [''root'', ''child'']))
     (resultsByID (inResult (exampleInputs emptyExpand)))) = PlanExcluded"
  using inherited_unreached_reported_excluded [of "''child''" "exampleInputs emptyExpand"
      "resultsByID (inResult (exampleInputs emptyExpand))" "rowsByID (map exampleRow [''root'', ''child''])"
      "exampleRow ''child''" "map exampleRow [''root'', ''child'']" "''root''"]
  by (simp only: example_input_facts example_run_facts simp_thms)

definition exampleNamed :: planInputs where
  "exampleNamed = (exampleInputs emptyExpand)\<lparr> inRunCfg := exampleRun\<lparr> pcFilterSessionIDs := Some [''root''] \<rparr> \<rparr>"

lemma example_named_facts:
  "''root'' \<in> set (inKnown exampleNamed)" "map_of (resultsByID (inResult exampleNamed)) ident = None"
  "harnessAdmitted row (inRunCfg exampleNamed) (inCfg exampleNamed)"
  "pcFilterSessionIDs (inRunCfg exampleNamed) = Some [''root'']" "''root'' \<in> set [''root'']"
  by (simp_all add: exampleNamed_def exampleInputs_def resultsByID_def emptyResult_def harnessAdmitted_def exampleRun_def)

lemma example_named_inherit: "SelectionInheritedFrom (inRunCfg exampleNamed) ''root'' = None"
  by code_simp

theorem explainOne_agrees_with_run_witness:
  "(pfVerdict (explainOne ''root'' exampleNamed (rowsByID (map exampleRow [''root'', ''child'']))
     (resultsByID (inResult exampleNamed))) = PlanFailed) =
   (exampleRow ''root'' \<in> set (fst (NarrowCandidates (map exampleRow [''root'', ''child'']) (inRunCfg exampleNamed))))"
  by (rule explainOne_agrees_with_run [OF example_named_facts(1,2) example_run_facts(6) example_input_facts(6)
        example_run_facts(2) example_named_facts(3,4,5) example_named_inherit])

end
