(* ===== verification/Tarjan.thy ===== *)
theory Tarjan
  imports Go_Base "HOL-Library.Monad_Syntax"
begin

text \<open>
  \<open>tarjanSCC\<close> of \<open>internal/codegraph/layering.go\<close>: Tarjan's strongly connected components of the
  import graph. The closure's shared variables are the record \<open>tarjan\<close>; the stack is kept
  with its top first. The recursion of \<open>strongconnect\<close> carries fuel, one unit per nested call;
  \<open>None\<close> is fuel that ran out or the panic of an empty stack, and the main theorem shows that
  neither happens.
\<close>

section \<open>The algorithm\<close>

type_synonym adjacency = "(string \<times> string list) list"

definition successors :: "adjacency \<Rightarrow> string \<Rightarrow> string list" where
  "successors adj v = (case map_of adj v of None \<Rightarrow> [] | Some ws \<Rightarrow> ws)"

text \<open>A Go map of integers answers zero for a missing key.\<close>

definition at_key :: "(string \<rightharpoonup> nat) \<Rightarrow> string \<Rightarrow> nat" where
  "at_key m k = (case m k of None \<Rightarrow> 0 | Some n \<Rightarrow> n)"

record tarjan =
  tIndex :: "string \<rightharpoonup> nat"
  tLow :: "string \<rightharpoonup> nat"
  tOnStack :: "string set"
  tStack :: "string list"
  tCounter :: nat
  tSccs :: "string list list"

definition openVertex :: "string \<Rightarrow> tarjan \<Rightarrow> tarjan" where
  "openVertex v st =
     st\<lparr> tIndex := (tIndex st)(v \<mapsto> tCounter st), tLow := (tLow st)(v \<mapsto> tCounter st),
         tCounter := tCounter st + 1, tStack := v # tStack st, tOnStack := insert v (tOnStack st) \<rparr>"

definition visitSuccessor ::
  "(string \<Rightarrow> tarjan \<Rightarrow> tarjan option) \<Rightarrow> string \<Rightarrow> tarjan \<Rightarrow> string \<Rightarrow> tarjan option" where
  "visitSuccessor connect v st w =
     (case tIndex st w of
        None \<Rightarrow> do {
          st \<leftarrow> connect w st;
          Some (if at_key (tLow st) w < at_key (tLow st) v
                then st\<lparr> tLow := (tLow st)(v \<mapsto> at_key (tLow st) w) \<rparr> else st)
        }
      | Some i \<Rightarrow>
          Some (if w \<in> tOnStack st \<and> i < at_key (tLow st) v then st\<lparr> tLow := (tLow st)(v \<mapsto> i) \<rparr> else st))"

fun popUntil :: "string \<Rightarrow> string list \<Rightarrow> (string list \<times> string list) option" where
  "popUntil v [] = None"
| "popUntil v (w # rest) =
     (if w = v then Some ([w], rest)
      else map_option (\<lambda>(members, below). (w # members, below)) (popUntil v rest))"

definition closeVertex :: "string \<Rightarrow> tarjan \<Rightarrow> tarjan option" where
  "closeVertex v st =
     (if at_key (tLow st) v = at_key (tIndex st) v then do {
        (members, below) \<leftarrow> popUntil v (tStack st);
        Some (st\<lparr> tStack := below, tOnStack := tOnStack st - set members, tSccs := tSccs st @ [sort members] \<rparr>)
      } else Some st)"

primrec strongconnect :: "nat \<Rightarrow> adjacency \<Rightarrow> string \<Rightarrow> tarjan \<Rightarrow> tarjan option" where
  "strongconnect 0 adj v st = None"
| "strongconnect (Suc fuel) adj v st = do {
     st \<leftarrow> fold_opt (visitSuccessor (strongconnect fuel adj) v) (openVertex v st) (successors adj v);
     closeVertex v st
   }"

definition tarjanStart :: tarjan where
  "tarjanStart = \<lparr> tIndex = Map.empty, tLow = Map.empty, tOnStack = {}, tStack = [], tCounter = 0, tSccs = [] \<rparr>"

definition tarjanFuel :: "string list \<Rightarrow> adjacency \<Rightarrow> nat" where
  "tarjanFuel vertices adj = length vertices + sum_list (map (\<lambda>(_, ws). length ws) adj)"

definition visitRoot :: "nat \<Rightarrow> adjacency \<Rightarrow> tarjan \<Rightarrow> string \<Rightarrow> tarjan option" where
  "visitRoot fuel adj st v = (case tIndex st v of None \<Rightarrow> strongconnect fuel adj v st | Some _ \<Rightarrow> Some st)"

definition tarjanSCC :: "string list \<Rightarrow> adjacency \<Rightarrow> string list list option" where
  "tarjanSCC vertices adj =
     map_option tSccs (fold_opt (visitRoot (tarjanFuel vertices adj) adj) tarjanStart vertices)"

section \<open>Strongly connected components\<close>

definition arcs :: "adjacency \<Rightarrow> (string \<times> string) set" where
  "arcs adj = {(u, w). w \<in> set (successors adj u)}"

definition mutual :: "adjacency \<Rightarrow> string \<Rightarrow> string \<Rightarrow> bool" where
  "mutual adj x y \<longleftrightarrow> (x, y) \<in> (arcs adj)\<^sup>* \<and> (y, x) \<in> (arcs adj)\<^sup>*"

definition component :: "adjacency \<Rightarrow> string set \<Rightarrow> bool" where
  "component adj C \<longleftrightarrow> (\<exists>x. C = {y. mutual adj x y})"

lemma mutual_refl [simp]: "mutual adj x x" by (simp add: mutual_def)

lemma mutual_sym: "mutual adj x y \<Longrightarrow> mutual adj y x" by (simp add: mutual_def)

lemma mutual_trans: "mutual adj x y \<Longrightarrow> mutual adj y z \<Longrightarrow> mutual adj x z"
  by (auto simp: mutual_def intro: rtrancl_trans)

lemma component_iff: "component adj C \<Longrightarrow> x \<in> C \<Longrightarrow> y \<in> C \<longleftrightarrow> mutual adj x y"
  by (auto simp: component_def intro: mutual_sym mutual_trans)

text \<open>The components emitted so far: each complete, none pointing to one emitted later.\<close>

definition emitted :: "adjacency \<Rightarrow> string list list \<Rightarrow> bool" where
  "emitted adj sccs \<longleftrightarrow> distinct (concat sccs) \<and> (\<forall>C \<in> set sccs. component adj (set C) \<and> sorted C) \<and>
     (\<forall>i < length sccs. \<forall>x \<in> set (sccs ! i). \<forall>y \<in> set (successors adj x). \<exists>j \<le> i. y \<in> set (sccs ! j))"

lemma in_concat_nth: "x \<in> set (concat xss) \<longleftrightarrow> (\<exists>i < length xss. x \<in> set (xss ! i))"
  by (auto simp: set_conv_nth [of xss])

lemma distinct_concat_index:
  "distinct (concat xss) \<Longrightarrow> i < length xss \<Longrightarrow> j < length xss \<Longrightarrow> x \<in> set (xss ! i) \<Longrightarrow> x \<in> set (xss ! j) \<Longrightarrow> i = j"
proof (induction xss arbitrary: i j)
  case (Cons ys xss)
  have "x \<notin> set (xss ! k)" if "x \<in> set ys" "k < length xss" for k
    using Cons.prems(1) that in_concat_nth [of x xss] by auto
  with Cons show ?case by (cases i; cases j) auto
qed simp

lemma emitted_closed:
  assumes "emitted adj sccs" and "x \<in> set (concat sccs)" and "(x, y) \<in> (arcs adj)\<^sup>*"
  shows "y \<in> set (concat sccs)"
  using assms(3,2)
proof (induction rule: rtrancl_induct)
  case (step y z)
  then obtain i where "i < length sccs" "y \<in> set (sccs ! i)" by (auto simp only: in_concat_nth)
  moreover have "z \<in> set (successors adj y)" using step by (simp add: arcs_def)
  ultimately obtain j where "j \<le> i" "z \<in> set (sccs ! j)" using assms(1) unfolding emitted_def by blast
  with \<open>i < length sccs\<close> show ?case by (metis in_concat_nth le_less_trans)
qed

lemma emitted_snoc:
  assumes "emitted adj sccs" and "component adj (set C)" and "distinct C" and "sorted C" and "set C \<inter> set (concat sccs) = {}"
    and "\<And>x y. x \<in> set C \<Longrightarrow> y \<in> set (successors adj x) \<Longrightarrow> y \<in> set C \<or> y \<in> set (concat sccs)"
  shows "emitted adj (sccs @ [C])"
proof -
  have "\<exists>j \<le> i. y \<in> set ((sccs @ [C]) ! j)"
    if "i < length (sccs @ [C])" "x \<in> set ((sccs @ [C]) ! i)" and succ: "y \<in> set (successors adj x)" for i x y
  proof (cases "i < length sccs")
    case True
    then have "x \<in> set (sccs ! i)" using that(2) by (simp add: nth_append)
    then obtain j where "j \<le> i" "y \<in> set (sccs ! j)" using assms(1) True succ unfolding emitted_def by blast
    then show ?thesis using True by (intro exI [of _ j]) (simp add: nth_append)
  next
    case False
    then have i: "i = length sccs" and "x \<in> set C" using that by (auto simp: nth_append)
    from assms(6) [OF this(2) succ] show ?thesis
    proof
      assume "y \<in> set (concat sccs)"
      then obtain j where "j < length sccs" "y \<in> set (sccs ! j)" by (auto simp only: in_concat_nth)
      then show ?thesis using i by (intro exI [of _ j]) (simp add: nth_append)
    qed (use i in \<open>auto intro!: exI [of _ i]\<close>)
  qed
  then show ?thesis using assms unfolding emitted_def by (auto simp: nth_append)
qed


section \<open>The invariant\<close>

text \<open>
  \<open>G\<close> is the set of vertices whose calls are still running. Every vertex on the stack reaches
  a running one below it; the stack grows upwards along paths; a finished vertex has only
  visited successors.
\<close>

abbreviation num :: "tarjan \<Rightarrow> string \<Rightarrow> nat" where
  "num st \<equiv> at_key (tIndex st)"

definition tarjanInv :: "adjacency \<Rightarrow> string set \<Rightarrow> tarjan \<Rightarrow> bool" where
  "tarjanInv adj G st \<longleftrightarrow>
     (\<forall>x \<in> dom (tIndex st). num st x < tCounter st) \<and>
     sorted_wrt (\<lambda>x y. num st y < num st x) (tStack st) \<and>
     tOnStack st = set (tStack st) \<and>
     dom (tIndex st) = set (tStack st) \<union> set (concat (tSccs st)) \<and>
     set (tStack st) \<inter> set (concat (tSccs st)) = {} \<and>
     G \<subseteq> set (tStack st) \<and>
     (\<forall>x \<in> dom (tIndex st) - G. set (successors adj x) \<subseteq> dom (tIndex st)) \<and>
     (\<forall>x \<in> set (tStack st). \<forall>y \<in> set (tStack st). num st x \<le> num st y \<longrightarrow> (x, y) \<in> (arcs adj)\<^sup>*) \<and>
     (\<forall>y \<in> set (tStack st). \<exists>x \<in> G. num st x \<le> num st y \<and> (y, x) \<in> (arcs adj)\<^sup>*) \<and>
     emitted adj (tSccs st)"

lemma tarjanInvD:
  assumes "tarjanInv adj G st"
  shows "\<And>x. x \<in> dom (tIndex st) \<Longrightarrow> num st x < tCounter st"
    and "sorted_wrt (\<lambda>x y. num st y < num st x) (tStack st)"
    and "tOnStack st = set (tStack st)"
    and "dom (tIndex st) = set (tStack st) \<union> set (concat (tSccs st))"
    and "set (tStack st) \<inter> set (concat (tSccs st)) = {}"
    and "G \<subseteq> set (tStack st)"
    and "\<And>x. x \<in> dom (tIndex st) \<Longrightarrow> x \<notin> G \<Longrightarrow> set (successors adj x) \<subseteq> dom (tIndex st)"
    and "\<And>x y. x \<in> set (tStack st) \<Longrightarrow> y \<in> set (tStack st) \<Longrightarrow> num st x \<le> num st y \<Longrightarrow> (x, y) \<in> (arcs adj)\<^sup>*"
    and "\<And>y. y \<in> set (tStack st) \<Longrightarrow> \<exists>x \<in> G. num st x \<le> num st y \<and> (y, x) \<in> (arcs adj)\<^sup>*"
    and "emitted adj (tSccs st)"
  using assms unfolding tarjanInv_def by (blast+)

text \<open>What is kept between two states of one run.\<close>

definition grows :: "adjacency \<Rightarrow> string \<Rightarrow> tarjan \<Rightarrow> tarjan \<Rightarrow> bool" where
  "grows adj v st st' \<longleftrightarrow>
     tIndex st \<subseteq>\<^sub>m tIndex st' \<and> v \<in> dom (tIndex st') \<and> num st' v = tCounter st \<and>
     (\<forall>x \<in> dom (tIndex st). tLow st' x = tLow st x) \<and>
     dom (tIndex st') \<subseteq> dom (tIndex st) \<union> (arcs adj)\<^sup>* `` {v}"

lemma num_mono: "tIndex st \<subseteq>\<^sub>m tIndex st' \<Longrightarrow> x \<in> dom (tIndex st) \<Longrightarrow> num st' x = num st x"
  by (auto simp: at_key_def map_le_def dom_def)

text \<open>What a call of \<open>strongconnect\<close> achieves.\<close>

definition connected :: "adjacency \<Rightarrow> string set \<Rightarrow> string \<Rightarrow> tarjan \<Rightarrow> tarjan \<Rightarrow> bool" where
  "connected adj G v st st' \<longleftrightarrow>
     tarjanInv adj G st' \<and> grows adj v st st' \<and>
     (at_key (tLow st') v = num st' v \<or>
      (\<exists>y \<in> set (tStack st). num st' y = at_key (tLow st') v \<and> (v, y) \<in> (arcs adj)\<^sup>*)) \<and>
     (\<exists>new. tStack st' = new @ tStack st \<and>
        (\<forall>x \<in> set new. \<forall>y \<in> set (tStack st). (x, y) \<in> arcs adj \<longrightarrow> at_key (tLow st') v \<le> num st' y))"

text \<open>The loop over the successors of \<open>v\<close>, after those in \<open>seen\<close>; \<open>st\<close> is the state before the call.\<close>

definition visiting :: "adjacency \<Rightarrow> string set \<Rightarrow> string \<Rightarrow> tarjan \<Rightarrow> string set \<Rightarrow> tarjan \<Rightarrow> bool" where
  "visiting adj G v st seen st' \<longleftrightarrow>
     tarjanInv adj (insert v G) st' \<and> grows adj v st st' \<and>
     at_key (tLow st') v \<le> num st' v \<and>
     (\<exists>y \<in> set (tStack st'). num st' y = at_key (tLow st') v \<and> (v, y) \<in> (arcs adj)\<^sup>*) \<and>
     seen \<subseteq> dom (tIndex st') \<and>
     (\<forall>w \<in> seen. w \<in> set (tStack st) \<longrightarrow> at_key (tLow st') v \<le> num st' w) \<and>
     (\<exists>new. tStack st' = new @ v # tStack st \<and>
        (\<forall>x \<in> set new. \<forall>y \<in> set (tStack st). (x, y) \<in> arcs adj \<longrightarrow> at_key (tLow st') v \<le> num st' y))"

lemma at_key_upd [simp]: "at_key (m(k \<mapsto> n)) x = (if x = k then n else at_key m x)"
  by (simp add: at_key_def)

lemma at_key_Some [simp]: "m k = Some n \<Longrightarrow> at_key m k = n"
  by (simp add: at_key_def)

lemma open_visiting:
  assumes inv: "tarjanInv adj G st" and white: "tIndex st v = None" and reach: "\<forall>g \<in> G. (g, v) \<in> (arcs adj)\<^sup>*"
  shows "visiting adj G v st {} (openVertex v st)"
proof -
  note D = tarjanInvD [OF inv]
  let ?st = "openVertex v st"
  have sel: "tIndex ?st = (tIndex st)(v \<mapsto> tCounter st)" "tLow ?st = (tLow st)(v \<mapsto> tCounter st)"
    "tCounter ?st = Suc (tCounter st)" "tStack ?st = v # tStack st" "tOnStack ?st = insert v (tOnStack st)"
    "tSccs ?st = tSccs st" by (simp_all add: openVertex_def)
  have vnot: "v \<notin> dom (tIndex st)" using white by auto
  then have vst: "v \<notin> set (tStack st)" "v \<notin> set (concat (tSccs st))" using D(4) by auto
  have old: "num ?st x = num st x" if "x \<in> dom (tIndex st)" for x using that vnot by (auto simp: sel)
  have stk: "x \<in> dom (tIndex st)" if "x \<in> set (tStack st)" for x using that D(4) by blast
  have numv: "num ?st v = tCounter st" by (simp add: sel)
  have 1: "\<forall>x \<in> dom (tIndex ?st). num ?st x < tCounter ?st"
    using D(1) by (auto simp: sel less_Suc_eq)
  have 2: "sorted_wrt (\<lambda>x y. num ?st y < num ?st x) (tStack ?st)"
  proof -
    have "sorted_wrt (\<lambda>x y. num ?st y < num ?st x) (tStack st)"
      using D(2) by (rule sorted_wrt_mono_rel [rotated]) (simp add: old stk)
    moreover have "num ?st y < num ?st v" if "y \<in> set (tStack st)" for y
      using D(1) [OF stk [OF that]] by (simp only: old [OF stk [OF that]] numv)
    ultimately show ?thesis by (simp add: sel(4))
  qed
  have 7: "\<forall>x \<in> dom (tIndex ?st) - insert v G. set (successors adj x) \<subseteq> dom (tIndex ?st)"
    using D(7) by (auto simp: sel)
  have up: "(x, v) \<in> (arcs adj)\<^sup>*" if "x \<in> set (tStack st)" for x
    using D(9) [OF that] reach by (meson rtrancl_trans)
  have 8: "\<forall>x \<in> set (tStack ?st). \<forall>y \<in> set (tStack ?st). num ?st x \<le> num ?st y \<longrightarrow> (x, y) \<in> (arcs adj)\<^sup>*"
  proof (intro ballI impI)
    fix x y assume *: "x \<in> set (tStack ?st)" "y \<in> set (tStack ?st)" "num ?st x \<le> num ?st y"
    consider "x = v" "y = v" | "x = v" "y \<in> set (tStack st)" | "x \<in> set (tStack st)" "y = v"
      | "x \<in> set (tStack st)" "y \<in> set (tStack st)" using * by (auto simp: sel(4))
    then show "(x, y) \<in> (arcs adj)\<^sup>*"
    proof cases
      case 2
      with *(3) D(1) [OF stk [OF 2(2)]] show ?thesis by (simp only: numv old [OF stk [OF 2(2)]])
    next
      case 4
      with *(3) show ?thesis using D(8) by (simp only: old [OF stk])
    qed (use up in auto)
  qed
  have 9: "\<forall>y \<in> set (tStack ?st). \<exists>x \<in> insert v G. num ?st x \<le> num ?st y \<and> (y, x) \<in> (arcs adj)\<^sup>*"
  proof
    fix y assume "y \<in> set (tStack ?st)"
    then consider "y = v" | "y \<in> set (tStack st)" by (auto simp: sel(4))
    then show "\<exists>x \<in> insert v G. num ?st x \<le> num ?st y \<and> (y, x) \<in> (arcs adj)\<^sup>*"
    proof cases
      case 2
      then obtain x where "x \<in> G" "num st x \<le> num st y" "(y, x) \<in> (arcs adj)\<^sup>*" using D(9) by blast
      moreover have "x \<in> dom (tIndex st)" using \<open>x \<in> G\<close> D(6) stk by blast
      ultimately show ?thesis using old [OF stk [OF 2]] old by (intro bexI [of _ x]) simp_all
    qed auto
  qed
  have "tarjanInv adj (insert v G) ?st"
    unfolding tarjanInv_def using 1 2 7 8 9 D(3-6,10) vst by (auto simp: sel)
  moreover have "grows adj v st ?st" using vnot by (auto simp: grows_def sel map_le_def)
  ultimately show ?thesis unfolding visiting_def by (auto simp: sel)
qed


lemma tarjanInv_low [simp]: "tarjanInv adj G (st\<lparr> tLow := L \<rparr>) = tarjanInv adj G st"
  by (cases st) (simp add: tarjanInv_def)

lemma grows_low:
  "grows adj v st st' \<Longrightarrow> (\<And>x. x \<in> dom (tIndex st) \<Longrightarrow> L x = tLow st' x) \<Longrightarrow> grows adj v st (st'\<lparr> tLow := L \<rparr>)"
  by (simp add: grows_def)

lemma lower_visiting:
  assumes "visiting adj G v st seen st'" and "w \<in> set (tStack st')" and "num st' w = n" and "n \<le> at_key (tLow st') v"
    and "(v, w) \<in> (arcs adj)\<^sup>*" and "tIndex st v = None"
  shows "visiting adj G v st seen (st'\<lparr> tLow := (tLow st')(v \<mapsto> n) \<rparr>)"
proof -
  let ?t = "st'\<lparr> tLow := (tLow st')(v \<mapsto> n) \<rparr>"
  have "tarjanInv adj (insert v G) ?t" using assms(1) by (simp add: visiting_def)
  moreover have "grows adj v st ?t" using assms(1,6) by (intro grows_low) (auto simp: visiting_def)
  moreover have low: "n \<le> k" if "at_key (tLow st') v \<le> k" for k using that assms(4) by simp
  moreover obtain new where "tStack st' = new @ v # tStack st"
    "\<forall>x \<in> set new. \<forall>y \<in> set (tStack st). (x, y) \<in> arcs adj \<longrightarrow> at_key (tLow st') v \<le> num st' y"
    using assms(1) by (auto simp: visiting_def)
  ultimately show ?thesis using assms(1-3,5) unfolding visiting_def
    by (intro conjI exI [of _ new] bexI [of _ w]) simp_all
qed

lemma visit_known:
  assumes vis: "visiting adj G v st seen st'" and known: "tIndex st' w = Some i" and succ: "(v, w) \<in> arcs adj"
    and white: "tIndex st v = None"
  shows "\<exists>st''. visitSuccessor connect v st' w = Some st'' \<and> visiting adj G v st (insert w seen) st''"
proof -
  have inv: "tarjanInv adj (insert v G) st'" and gr: "grows adj v st st'" using vis by (simp_all add: visiting_def)
  have num: "num st' w = i" using known by simp
  have stk: "tOnStack st' = set (tStack st')" by (rule tarjanInvD(3) [OF inv])
  have old: "set (tStack st) \<subseteq> set (tStack st')" using vis by (auto simp: visiting_def)
  have add: "visiting adj G v st (insert w seen) t"
    if "visiting adj G v st seen t" "w \<in> dom (tIndex t)" "w \<in> set (tStack st) \<longrightarrow> at_key (tLow t) v \<le> num t w" for t
    using that unfolding visiting_def by blast
  show ?thesis
  proof (cases "w \<in> tOnStack st' \<and> i < at_key (tLow st') v")
    case True
    then have "visiting adj G v st seen (st'\<lparr> tLow := (tLow st')(v \<mapsto> i) \<rparr>)"
      using stk num succ white by (intro lower_visiting [OF vis, of w]) auto
    then have "visiting adj G v st (insert w seen) (st'\<lparr> tLow := (tLow st')(v \<mapsto> i) \<rparr>)"
      by (rule add) (use known in auto)
    then show ?thesis using True known by (simp add: visitSuccessor_def)
  next
    case False
    then have "visiting adj G v st (insert w seen) st'"
      using stk old num known by (intro add [OF vis]) (auto simp: not_less)
    moreover have "visitSuccessor connect v st' w = Some st'" using False known by (auto simp: visitSuccessor_def)
    ultimately show ?thesis by blast
  qed
qed

lemma visit_white:
  assumes vis: "visiting adj G v st seen st'" and new: "tIndex st' w = None" and succ: "(v, w) \<in> arcs adj"
    and white: "tIndex st v = None" and run: "connect w st' = Some t" and conn: "connected adj (insert v G) w st' t"
  shows "\<exists>st''. visitSuccessor connect v st' w = Some st'' \<and> visiting adj G v st (insert w seen) st''"
proof -
  have inv: "tarjanInv adj (insert v G) st'" and gr: "grows adj v st st'" using vis by (simp_all add: visiting_def)
  have inv': "tarjanInv adj (insert v G) t" and gr': "grows adj w st' t" using conn by (simp_all add: connected_def)
  have v: "v \<in> dom (tIndex st')" using gr by (simp add: grows_def)
  have keep: "num t x = num st' x" if "x \<in> dom (tIndex st')" for x
    using gr' that by (intro num_mono) (simp_all add: grows_def)
  have lowv: "at_key (tLow t) v = at_key (tLow st') v" using gr' v by (simp add: grows_def at_key_def)
  have dom: "set (tStack st') \<subseteq> dom (tIndex st')" using tarjanInvD(4) [OF inv] by blast
  obtain new where stk': "tStack st' = new @ v # tStack st"
    and edges': "\<forall>x \<in> set new. \<forall>y \<in> set (tStack st). (x, y) \<in> arcs adj \<longrightarrow> at_key (tLow st') v \<le> num st' y"
    using vis by (auto simp: visiting_def)
  obtain more where stk: "tStack t = more @ tStack st'"
    and edges: "\<forall>x \<in> set more. \<forall>y \<in> set (tStack st'). (x, y) \<in> arcs adj \<longrightarrow> at_key (tLow t) w \<le> num t y"
    using conn by (auto simp: connected_def)
  have fresh: "w \<notin> set (tStack st)" using new dom stk' by auto
  have grt: "grows adj v st t"
  proof -
    have "(arcs adj)\<^sup>* `` {w} \<subseteq> (arcs adj)\<^sup>* `` {v}" using succ by (auto intro: converse_rtrancl_into_rtrancl)
    moreover have "dom (tIndex st) \<subseteq> dom (tIndex st')" using gr by (auto simp: grows_def dest: map_le_implies_dom_le)
    moreover have "tLow t x = tLow st x" if "x \<in> dom (tIndex st)" for x
    proof -
      have "x \<in> dom (tIndex st')" using that calculation(2) by blast
      with that gr gr' show ?thesis unfolding grows_def by simp
    qed
    moreover have "tIndex st \<subseteq>\<^sub>m tIndex t" using gr gr' by (auto simp: grows_def intro: map_le_trans)
    moreover have "v \<in> dom (tIndex t)" using v gr' by (auto simp: grows_def dest!: map_le_implies_dom_le)
    moreover have "dom (tIndex t) \<subseteq> dom (tIndex st) \<union> (arcs adj)\<^sup>* `` {v}"
      using gr gr' calculation(1) unfolding grows_def by blast
    ultimately show ?thesis using gr keep [OF v] unfolding grows_def by auto
  qed
  define low where "low = min (at_key (tLow t) w) (at_key (tLow st') v)"
  have numw: "num st' v < num t w"
    using tarjanInvD(1) [OF inv v] gr' by (simp add: grows_def)
  have target: "\<exists>y \<in> set (tStack t). num t y = low \<and> (v, y) \<in> (arcs adj)\<^sup>*"
  proof (cases "at_key (tLow t) w < at_key (tLow st') v")
    case True
    then have "at_key (tLow t) w \<noteq> num t w" using vis numw by (auto simp: visiting_def)
    then obtain y where "y \<in> set (tStack st')" "num t y = at_key (tLow t) w" "(w, y) \<in> (arcs adj)\<^sup>*"
      using conn by (auto simp: connected_def)
    moreover have "(v, y) \<in> (arcs adj)\<^sup>*" using succ calculation(3) by (rule converse_rtrancl_into_rtrancl)
    ultimately show ?thesis using True stk by (intro bexI [of _ y]) (simp_all add: low_def)
  next
    case False
    obtain y where "y \<in> set (tStack st')" "num st' y = at_key (tLow st') v" "(v, y) \<in> (arcs adj)\<^sup>*"
      using vis by (auto simp: visiting_def)
    moreover have "num t y = num st' y" using dom keep calculation(1) by blast
    ultimately show ?thesis using False stk by (intro bexI [of _ y]) (simp_all add: low_def)
  qed
  have seen: "insert w seen \<subseteq> dom (tIndex t)"
  proof -
    have "dom (tIndex st') \<subseteq> dom (tIndex t)" and "w \<in> dom (tIndex t)"
      using gr' by (simp_all add: grows_def map_le_implies_dom_le)
    with vis show ?thesis unfolding visiting_def by blast
  qed
  have seen_low: "low \<le> num t x" if "x \<in> insert w seen" "x \<in> set (tStack st)" for x
  proof -
    have "x \<in> set (tStack st')" using that(2) stk' by simp
    then have "num t x = num st' x" using dom keep by blast
    then show ?thesis using that fresh vis by (auto simp: visiting_def low_def)
  qed
  have edge_low: "low \<le> num t y" if "x \<in> set (more @ new)" "y \<in> set (tStack st)" "(x, y) \<in> arcs adj" for x y
  proof -
    have "y \<in> set (tStack st')" using that(2) stk' by simp
    then have "num t y = num st' y" using dom keep by blast
    moreover have "at_key (tLow t) w \<le> num t y" if "x \<in> set more"
      using that edges \<open>y \<in> set (tStack st')\<close> \<open>(x, y) \<in> arcs adj\<close> by blast
    ultimately show ?thesis using that edges' by (auto simp: low_def min_le_iff_disj)
  qed
  have "visiting adj G v st (insert w seen) (t\<lparr> tLow := L \<rparr>)"
    if "at_key L v = low" "\<And>x. x \<noteq> v \<Longrightarrow> L x = tLow t x" for L
  proof -
    have "low \<le> num t v" using vis keep [OF v] by (auto simp: visiting_def low_def)
    moreover have "grows adj v st (t\<lparr> tLow := L \<rparr>)" using grt
    proof (rule grows_low)
      show "L x = tLow t x" if "x \<in> dom (tIndex st)" for x using that white by (intro \<open>\<And>x. x \<noteq> v \<Longrightarrow> L x = tLow t x\<close>) auto
    qed
    ultimately show ?thesis unfolding visiting_def using inv' target seen seen_low edge_low that(1) stk stk'
      by (intro conjI exI [of _ "more @ new"]) auto
  qed
  note result = this
  have lows: "visitSuccessor connect v st' w = Some (t\<lparr> tLow := if at_key (tLow t) w < at_key (tLow t) v
      then (tLow t)(v \<mapsto> at_key (tLow t) w) else tLow t \<rparr>)"
    using new run by (simp add: visitSuccessor_def)
  show ?thesis
    by (rule exI, rule conjI [OF lows], rule result) (auto simp: low_def lowv)
qed


lemma popUntil_append: "v \<notin> set new \<Longrightarrow> popUntil v (new @ v # old) = Some (new @ [v], old)"
  by (induction new) auto

lemma sorted_num_distinct: "sorted_wrt (\<lambda>x y. f y < (f x :: nat)) xs \<Longrightarrow> distinct xs"
  by (induction xs) auto

lemma close_connected:
  assumes vis: "visiting adj G v st (set (successors adj v)) st'" and inv0: "tarjanInv adj G st"
    and reach: "\<forall>g \<in> G. (g, v) \<in> (arcs adj)\<^sup>*" and white: "tIndex st v = None"
  shows "\<exists>st''. closeVertex v st' = Some st'' \<and> connected adj G v st st''"
proof -
  have inv: "tarjanInv adj (insert v G) st'" and gr: "grows adj v st st'" using vis by (simp_all add: visiting_def)
  note D = tarjanInvD [OF inv]
  obtain new where stk: "tStack st' = new @ v # tStack st"
    and edges: "\<forall>x \<in> set new. \<forall>y \<in> set (tStack st). (x, y) \<in> arcs adj \<longrightarrow> at_key (tLow st') v \<le> num st' y"
    using vis by (auto simp: visiting_def)
  have above: "num st' v < num st' x" if "x \<in> set new" for x
    using D(2) that by (auto simp: stk sorted_wrt_append)
  have below: "num st' y < num st' v" if "y \<in> set (tStack st)" for y
    using D(2) that by (auto simp: stk sorted_wrt_append)
  have G: "G \<subseteq> set (tStack st)" by (rule tarjanInvD(6) [OF inv0])
  have vG: "v \<notin> G" using G below by blast
  have newG: "x \<notin> insert v G" if "x \<in> set new" for x using above [OF that] below G by force
  have vdom: "v \<in> dom (tIndex st')" using gr by (simp add: grows_def)
  have succs: "set (successors adj x) \<subseteq> dom (tIndex st')" if "x \<in> dom (tIndex st')" "x \<notin> G" for x
    using that D(7) vis by (cases "x = v") (auto simp: visiting_def)
  have out: "at_key (tLow st') v \<le> num st' y"
    if "x \<in> set (new @ [v])" "(x, y) \<in> arcs adj" "y \<in> set (tStack st)" for x y
    using that edges vis by (auto simp: visiting_def arcs_def)
  show ?thesis
  proof (cases "at_key (tLow st') v = num st' v")
    case True
    let ?C = "new @ [v]"
    let ?st = "st'\<lparr> tStack := tStack st, tOnStack := tOnStack st' - set ?C, tSccs := tSccs st' @ [sort ?C] \<rparr>"
    have vnew: "v \<notin> set new" using above by blast
    have dist: "distinct (tStack st')"
      using D(2) by (rule sorted_num_distinct)
    have inside: "y \<in> set ?C \<or> y \<in> set (concat (tSccs st'))" if "x \<in> set ?C" "y \<in> set (successors adj x)" for x y
    proof -
      have "x \<in> dom (tIndex st')" "x \<notin> G" using that(1) D(4) stk vG newG by auto
      then have "y \<in> dom (tIndex st')" using succs that(2) by blast
      moreover have "y \<notin> set (tStack st)"
        using out [OF that(1), of y] that(2) True below by (fastforce simp: arcs_def)
      ultimately show ?thesis using D(4) stk by auto
    qed
    have comp: "set ?C = {y. mutual adj v y}"
    proof (intro equalityI subsetI CollectI)
      fix x assume x: "x \<in> set ?C"
      then have xs: "x \<in> set (tStack st')" and vs: "v \<in> set (tStack st')" by (auto simp: stk)
      have "num st' v \<le> num st' x" using x above by fastforce
      then have "(v, x) \<in> (arcs adj)\<^sup>*" by (rule D(8) [OF vs xs])
      moreover obtain g where "g \<in> insert v G" "(x, g) \<in> (arcs adj)\<^sup>*" using D(9) [OF xs] by blast
      ultimately show "mutual adj v x" using reach by (auto simp: mutual_def intro: rtrancl_trans)
    next
      fix y assume "y \<in> {y. mutual adj v y}"
      then have vy: "(v, y) \<in> (arcs adj)\<^sup>*" and yv: "(y, v) \<in> (arcs adj)\<^sup>*" by (auto simp: mutual_def)
      from vy have "y \<in> set ?C \<or> y \<in> set (concat (tSccs st'))"
      proof (induction rule: rtrancl_induct)
        case (step a b)
        then show ?case using inside [of a b] emitted_closed [OF D(10), of a b] by (auto simp: arcs_def)
      qed simp
      moreover have "y \<notin> set (concat (tSccs st'))"
        using emitted_closed [OF D(10) _ yv] D(5) stk by auto
      ultimately show "y \<in> set ?C" by blast
    qed
    have em: "emitted adj (tSccs st' @ [sort ?C])"
    proof (rule emitted_snoc [OF D(10)])
      show "component adj (set (sort ?C))" unfolding component_def using comp by (intro exI [of _ v]) simp
      show "set (sort ?C) \<inter> set (concat (tSccs st')) = {}" using D(5) by (auto simp: stk)
    qed (use dist inside in \<open>auto simp: stk\<close>)
    have "tarjanInv adj G ?st"
      unfolding tarjanInv_def
    proof (intro conjI)
      show "\<forall>y \<in> set (tStack ?st). \<exists>x \<in> G. num ?st x \<le> num ?st y \<and> (y, x) \<in> (arcs adj)\<^sup>*"
      proof
        fix y assume "y \<in> set (tStack ?st)"
        then have y: "y \<in> set (tStack st)" by simp
        then obtain x where "x \<in> insert v G" "num st' x \<le> num st' y" "(y, x) \<in> (arcs adj)\<^sup>*"
          using D(9) [of y] stk by auto
        moreover have "x \<noteq> v" using calculation(2) below [OF y] by auto
        ultimately show "\<exists>x \<in> G. num ?st x \<le> num ?st y \<and> (y, x) \<in> (arcs adj)\<^sup>*" by auto
      qed
    qed (use D(1-5,8) G succs em stk dist in \<open>auto simp: sorted_wrt_append\<close>)
    moreover have "grows adj v st ?st" using gr by (simp add: grows_def)
    ultimately have "connected adj G v st ?st" using True by (simp add: connected_def)
    moreover have "closeVertex v st' = Some ?st" using True vnew by (simp add: closeVertex_def stk popUntil_append)
    ultimately show ?thesis by blast
  next
    case False
    then have less: "at_key (tLow st') v < num st' v" using vis by (auto simp: visiting_def)
    obtain y where y: "y \<in> set (tStack st')" "num st' y = at_key (tLow st') v" "(v, y) \<in> (arcs adj)\<^sup>*"
      using vis by (auto simp: visiting_def)
    then have yold: "y \<in> set (tStack st)" using less above stk by force
    have low: "\<exists>x \<in> G. num st' x \<le> num st' z \<and> (z, x) \<in> (arcs adj)\<^sup>*" if z: "z \<in> set (tStack st')" for z
    proof -
      obtain x where x: "x \<in> insert v G" "num st' x \<le> num st' z" "(z, x) \<in> (arcs adj)\<^sup>*" using D(9) [OF z] by blast
      obtain g where g: "g \<in> insert v G" "num st' g \<le> num st' y" "(y, g) \<in> (arcs adj)\<^sup>*" using D(9) [OF y(1)] by blast
      then have "g \<in> G" using below [OF yold] by auto
      show ?thesis
      proof (cases "x = v")
        case True
        have "num st' g \<le> num st' z" using g(2) y(2) less x(2) True by simp
        then show ?thesis using \<open>g \<in> G\<close> x(3) y(3) g(3) True by (blast intro: rtrancl_trans)
      qed (use x in blast)
    qed
    have "tarjanInv adj G st'"
      unfolding tarjanInv_def using D(1-6,8,10) succs low G by (intro conjI) (auto simp: stk)
    then have "connected adj G v st st'"
      unfolding connected_def using gr y yold out stk by (intro conjI exI [of _ "new @ [v]"]) auto
    then show ?thesis using False by (simp add: closeVertex_def)
  qed
qed


lemma visit_all:
  assumes call: "\<And>w s. tarjanInv adj (insert v G) s \<Longrightarrow> tIndex s w = None \<Longrightarrow> \<forall>g \<in> insert v G. (g, w) \<in> (arcs adj)\<^sup>* \<Longrightarrow>
      w \<in> U \<Longrightarrow> card (U - dom (tIndex s)) \<le> fuel \<Longrightarrow> \<exists>s'. connect w s = Some s' \<and> connected adj (insert v G) w s s'"
    and "finite U" and "v \<in> U" and "set (successors adj v) \<subseteq> U" and "\<forall>g \<in> G. (g, v) \<in> (arcs adj)\<^sup>*"
    and "tIndex st v = None" and "card (U - dom (tIndex st)) \<le> Suc fuel"
    and "visiting adj G v st seen st'" and "set ws \<subseteq> set (successors adj v)"
  shows "\<exists>st''. fold_opt (visitSuccessor connect v) st' ws = Some st'' \<and> visiting adj G v st (seen \<union> set ws) st''"
  using assms(8,9)
proof (induction ws arbitrary: seen st')
  case (Cons w ws)
  have succ: "(v, w) \<in> arcs adj" and "w \<in> U" using Cons.prems(2) assms(4) by (auto simp: arcs_def)
  have gr: "grows adj v st st'" and inv: "tarjanInv adj (insert v G) st'" using Cons.prems(1) by (simp_all add: visiting_def)
  have "\<exists>s. visitSuccessor connect v st' w = Some s \<and> visiting adj G v st (insert w seen) s"
  proof (cases "tIndex st' w")
    case None
    have "U - dom (tIndex st') \<subset> U - dom (tIndex st)"
      using gr assms(3,6) by (auto simp: grows_def dest!: map_le_implies_dom_le)
    then have "card (U - dom (tIndex st')) \<le> fuel" using psubset_card_mono [OF finite_Diff [OF assms(2)]] assms(7)
      by (metis less_Suc_eq_le order_less_le_trans)
    moreover have "\<forall>g \<in> insert v G. (g, w) \<in> (arcs adj)\<^sup>*" using assms(5) succ by (auto intro: rtrancl_into_rtrancl)
    ultimately obtain t where "connect w st' = Some t" "connected adj (insert v G) w st' t"
      using call [OF inv None _ \<open>w \<in> U\<close>] by blast
    then show ?thesis by (rule visit_white [OF Cons.prems(1) None succ assms(6)])
  qed (rule visit_known [OF Cons.prems(1) _ succ assms(6)])
  then obtain s where s: "visitSuccessor connect v st' w = Some s" "visiting adj G v st (insert w seen) s" by blast
  from Cons.IH [OF s(2)] Cons.prems(2) s(1) show ?case by simp
qed simp

lemma strongconnect_connected:
  assumes "finite U" and "\<forall>x \<in> U. set (successors adj x) \<subseteq> U"
    and "tarjanInv adj G st" and "tIndex st v = None" and "\<forall>g \<in> G. (g, v) \<in> (arcs adj)\<^sup>*" and "v \<in> U"
    and "card (U - dom (tIndex st)) \<le> fuel"
  shows "\<exists>st'. strongconnect fuel adj v st = Some st' \<and> connected adj G v st st'"
  using assms(3-)
proof (induction fuel arbitrary: G v st)
  case 0
  then show ?case using assms(1) by auto
next
  case (Suc fuel)
  have "\<exists>st'. fold_opt (visitSuccessor (strongconnect fuel adj) v) (openVertex v st) (successors adj v) = Some st' \<and>
      visiting adj G v st ({} \<union> set (successors adj v)) st'"
    by (rule visit_all [OF Suc.IH assms(1) Suc.prems(4) _ Suc.prems(3,2,5) open_visiting [OF Suc.prems(1-3)]])
      (use assms(2) Suc.prems(4) in auto)
  then obtain st' where fold: "fold_opt (visitSuccessor (strongconnect fuel adj) v) (openVertex v st) (successors adj v) = Some st'"
    and vis: "visiting adj G v st (set (successors adj v)) st'" by auto
  from close_connected [OF vis Suc.prems(1,3,2)] fold show ?case by simp
qed

section \<open>The result\<close>

text \<open>
  Between two roots no call is running, so the stack is empty: \<open>tarjanInv adj {}\<close> says that
  the visited vertices are the emitted ones.
\<close>

lemma idle_stack: "tarjanInv adj {} st \<Longrightarrow> tStack st = []"
  using tarjanInvD(9) by (cases "tStack st") fastforce+

lemma roots_connected:
  assumes "finite U" and "\<forall>x \<in> U. set (successors adj x) \<subseteq> U" and "card U \<le> fuel" and "set vs \<subseteq> U"
    and "tarjanInv adj {} st" and "dom (tIndex st) = (arcs adj)\<^sup>* `` R"
  shows "\<exists>st'. fold_opt (visitRoot fuel adj) st vs = Some st' \<and> tarjanInv adj {} st' \<and>
    dom (tIndex st') = (arcs adj)\<^sup>* `` (R \<union> set vs)"
  using assms(4-)
proof (induction vs arbitrary: st R)
  case (Cons v vs)
  have "\<exists>s. visitRoot fuel adj st v = Some s \<and> tarjanInv adj {} s \<and> dom (tIndex s) = (arcs adj)\<^sup>* `` (insert v R)"
  proof (cases "tIndex st v")
    case None
    have "card (U - dom (tIndex st)) \<le> fuel" using card_mono [OF assms(1), of "U - dom (tIndex st)"] assms(3) by auto
    then obtain s where s: "strongconnect fuel adj v st = Some s" "connected adj {} v st s"
      using strongconnect_connected [OF assms(1,2) Cons.prems(2) None] Cons.prems(1) by auto
    have inv: "tarjanInv adj {} s" and gr: "grows adj v st s" using s(2) by (simp_all add: connected_def)
    have "set (concat (tSccs s)) = dom (tIndex s)" using tarjanInvD(4) [OF inv] idle_stack [OF inv] by simp
    then have "(arcs adj)\<^sup>* `` dom (tIndex s) \<subseteq> dom (tIndex s)"
      using emitted_closed [OF tarjanInvD(10) [OF inv]] by blast
    moreover have "v \<in> dom (tIndex s)" "dom (tIndex st) \<subseteq> dom (tIndex s)"
      using gr by (simp_all add: grows_def map_le_implies_dom_le)
    moreover have "dom (tIndex s) \<subseteq> dom (tIndex st) \<union> (arcs adj)\<^sup>* `` {v}" using gr by (simp add: grows_def)
    ultimately have "dom (tIndex s) = (arcs adj)\<^sup>* `` insert v R" using Cons.prems(3) by blast
    then show ?thesis using s(1) inv None by (simp add: visitRoot_def)
  next
    case (Some i)
    then have "v \<in> (arcs adj)\<^sup>* `` R" using Cons.prems(3) by blast
    then have "(arcs adj)\<^sup>* `` insert v R = (arcs adj)\<^sup>* `` R" by (auto intro: rtrancl_trans)
    then show ?thesis using Some Cons.prems by (simp add: visitRoot_def)
  qed
  then obtain s where s: "visitRoot fuel adj st v = Some s" "tarjanInv adj {} s" "dom (tIndex s) = (arcs adj)\<^sup>* `` (insert v R)"
    by blast
  from Cons.IH [OF _ s(2,3)] Cons.prems(1) s(1) show ?case by simp
qed simp

lemma successors_mem: "w \<in> set (successors adj x) \<Longrightarrow> \<exists>e \<in> set adj. w \<in> set (snd e)"
  by (cases "map_of adj x") (force simp: successors_def dest: map_of_SomeD)+

lemma card_universe:
  "card (set vertices \<union> (\<Union>(u, ws) \<in> set adj. set ws)) \<le> tarjanFuel vertices adj"
proof -
  have "card (\<Union>(u, ws) \<in> set adj. set ws) \<le> sum_list (map (\<lambda>(_, ws). length ws) adj)"
  proof (induction adj)
    case (Cons a adj)
    have "card (set (snd a) \<union> (\<Union>(u, ws) \<in> set adj. set ws)) \<le> card (set (snd a)) + card (\<Union>(u, ws) \<in> set adj. set ws)"
      by (rule card_Un_le)
    with Cons card_length [of "snd a"] show ?case by (simp add: case_prod_beta)
  qed simp
  then show ?thesis using card_Un_le [of "set vertices" "\<Union>(u, ws) \<in> set adj. set ws"] card_length [of vertices]
    unfolding tarjanFuel_def by linarith
qed

lemma tarjanSCC_emits:
  "\<exists>sccs. tarjanSCC vertices adj = Some sccs \<and> set (concat sccs) = (arcs adj)\<^sup>* `` set vertices \<and> emitted adj sccs"
proof -
  let ?U = "set vertices \<union> (\<Union>(u, ws) \<in> set adj. set ws)"
  have closed: "\<forall>x \<in> ?U. set (successors adj x) \<subseteq> ?U"
    using successors_mem by fastforce
  have start: "tarjanInv adj {} tarjanStart" by (simp add: tarjanInv_def tarjanStart_def emitted_def)
  have dom: "dom (tIndex tarjanStart) = (arcs adj)\<^sup>* `` {}" by (simp add: tarjanStart_def)
  have sub: "set vertices \<subseteq> ?U" by simp
  have fin: "finite ?U" by auto
  from roots_connected [OF fin closed card_universe sub start dom] obtain st'
    where st': "fold_opt (visitRoot (tarjanFuel vertices adj) adj) tarjanStart vertices = Some st'"
      "tarjanInv adj {} st'" "dom (tIndex st') = (arcs adj)\<^sup>* `` set vertices" by auto
  from tarjanInvD(4,10) [OF st'(2)] idle_stack [OF st'(2)] st'(1,3) show ?thesis
    by (simp add: tarjanSCC_def)
qed


lemma emitted_order:
  assumes "emitted adj sccs" and "i < length sccs" and "j < length sccs" and "x \<in> set (sccs ! i)" and "y \<in> set (sccs ! j)"
    and "(x, y) \<in> (arcs adj)\<^sup>*"
  shows "j \<le> i"
proof -
  have "\<exists>k \<le> i. y \<in> set (sccs ! k)"
    using assms(6)
  proof (induction rule: rtrancl_induct)
    case base
    then show ?case using assms(4) by blast
  next
    case (step y z)
    then obtain k where k: "k \<le> i" "y \<in> set (sccs ! k)" by blast
    moreover have "z \<in> set (successors adj y)" using step by (simp add: arcs_def)
    ultimately obtain l where "l \<le> k" "z \<in> set (sccs ! l)" using assms(1,2) unfolding emitted_def
      by (meson le_less_trans)
    then show ?case using k by (auto intro: le_trans)
  qed
  then obtain k where k: "k \<le> i" "y \<in> set (sccs ! k)" by blast
  have "distinct (concat sccs)" using assms(1) by (simp add: emitted_def)
  then have "k = j" using distinct_concat_index assms(2,3,5) k by (metis le_less_trans)
  then show ?thesis using k(1) by simp
qed

text \<open>
  C28: The strongly connected components. The algorithm always returns: each list is one whole
  component of the graph in sorted order, the lists partition what the vertices reach, and a
  component is emitted only after every component it reaches.
\<close>

theorem tarjanSCC_correct:
  "\<exists>sccs. tarjanSCC vertices adj = Some sccs \<and> set (concat sccs) = (arcs adj)\<^sup>* `` set vertices \<and> distinct (concat sccs) \<and>
     (\<forall>C \<in> set sccs. sorted C \<and> (\<exists>x. set C = {y. mutual adj x y})) \<and>
     (\<forall>i < length sccs. \<forall>j < length sccs.
        (\<exists>x \<in> set (sccs ! i). \<exists>y \<in> set (sccs ! j). (x, y) \<in> (arcs adj)\<^sup>*) \<longrightarrow> j \<le> i)"
proof -
  obtain sccs where "tarjanSCC vertices adj = Some sccs" "set (concat sccs) = (arcs adj)\<^sup>* `` set vertices"
    "emitted adj sccs" using tarjanSCC_emits by blast
  then show ?thesis using emitted_order [of adj sccs] by (auto simp: emitted_def component_def)
qed

definition exampleImports :: adjacency where
  "exampleImports = [(''cmd/app'', [''internal/a'']), (''internal/a'', [''internal/b'']),
     (''internal/b'', [''internal/a'', ''internal/c''])]"

lemma example_sccs:
  "tarjanSCC [''cmd/app'', ''internal/a'', ''internal/b'', ''internal/c''] exampleImports =
     Some [[''internal/c''], [''internal/a'', ''internal/b''], [''cmd/app'']]"
  by code_simp

theorem tarjanSCC_correct_witness:
  "\<not> (''internal/c'', ''cmd/app'') \<in> (arcs exampleImports)\<^sup>* \<and> (\<exists>x. {''internal/a'', ''internal/b''} = {y. mutual exampleImports x y})"
proof -
  let ?sccs = "[[''internal/c''], [''internal/a'', ''internal/b''], [''cmd/app'']]"
  have "(\<forall>C \<in> set ?sccs. sorted C \<and> (\<exists>x. set C = {y. mutual exampleImports x y})) \<and>
     (\<forall>i < length ?sccs. \<forall>j < length ?sccs.
        (\<exists>x \<in> set (?sccs ! i). \<exists>y \<in> set (?sccs ! j). (x, y) \<in> (arcs exampleImports)\<^sup>*) \<longrightarrow> j \<le> i)"
    using tarjanSCC_correct [of "[''cmd/app'', ''internal/a'', ''internal/b'', ''internal/c'']" exampleImports] example_sccs by auto
  then have "(\<exists>x. set [''internal/a'', ''internal/b''] = {y. mutual exampleImports x y})"
    and "\<And>i j. i < 3 \<Longrightarrow> j < 3 \<Longrightarrow> (\<exists>x \<in> set (?sccs ! i). \<exists>y \<in> set (?sccs ! j). (x, y) \<in> (arcs exampleImports)\<^sup>*) \<Longrightarrow> j \<le> i"
    by auto
  from this(1) this(2) [of 0 2] show ?thesis by auto
qed

end
