(* ===== verification/Code_Layering.thy ===== *)
theory Code_Layering
  imports Tarjan "HOL-Library.AList" "HOL-Library.Product_Lexorder"
begin

text \<open>
  The layers of the import graph: \<open>layerPackages\<close> of \<open>internal/codegraph/layering.go\<close> with the
  edge and violation types of \<open>graph.go\<close> and the sort order of \<open>diff.go\<close>.

  The loops that fill a map are folds. Every index the code computes from \<open>sccOf\<close> is below the
  number of components, except when there is no component at all: then the first edge makes
  the read of its component panic, which is \<open>None\<close> of \<open>layerComponents\<close>.
\<close>

section \<open>Edges and violations\<close>

record Edge =
  eFrom :: string
  eTo :: string
  eCount :: nat

datatype ViolationKind = ViolationCycle | ViolationWrongWay

record Violation =
  vKind :: ViolationKind
  vFrom :: string
  vTo :: string

fun violationKindText :: "ViolationKind \<Rightarrow> string" where
  "violationKindText ViolationCycle = ''cycle''"
| "violationKindText ViolationWrongWay = ''wrong_way''"

definition violationKey :: "Violation \<Rightarrow> string \<times> string \<times> string" where
  "violationKey v = (violationKindText (vKind v), vFrom v, vTo v)"

definition sortViolations :: "Violation list \<Rightarrow> Violation list" where
  "sortViolations vs = sort_key violationKey vs"

definition topSegment :: "string \<Rightarrow> string" where
  "topSegment p = fst (cut_char slash p)"

definition cmdDirName :: string where
  "cmdDirName = ''cmd''"

section \<open>Layers\<close>

definition adjacencyOf :: "Edge list \<Rightarrow> adjacency" where
  "adjacencyOf edges = foldl (\<lambda>adj e. AList.update (eFrom e) (successors adj (eFrom e) @ [eTo e]) adj) [] edges"

text \<open>The maps that give every member of the \<open>i\<close>-th component the value \<open>f i\<close>.\<close>

definition assignAll :: "(nat \<Rightarrow> nat) \<Rightarrow> (string \<rightharpoonup> nat) \<Rightarrow> nat \<times> string list \<Rightarrow> (string \<rightharpoonup> nat)" where
  "assignAll f m p = (case p of (i, members) \<Rightarrow> foldl (\<lambda>m x. m(x \<mapsto> f i)) m members)"

definition perMember :: "(nat \<Rightarrow> nat) \<Rightarrow> string list list \<Rightarrow> string \<rightharpoonup> nat" where
  "perMember f sccs = foldl (assignAll f) Map.empty (enumerate 0 sccs)"

definition sccOf :: "string list list \<Rightarrow> string \<rightharpoonup> nat" where
  "sccOf sccs = perMember (\<lambda>i. i) sccs"

definition cycleViolations :: "string list list \<Rightarrow> Edge list \<Rightarrow> Violation list" where
  "cycleViolations sccs edges =
     (let scc = at_key (sccOf sccs)
      in map (\<lambda>e. \<lparr> vKind = ViolationCycle, vFrom = eFrom e, vTo = eTo e \<rparr>)
           (filter (\<lambda>e. scc (eFrom e) = scc (eTo e) \<and> length (sccs ! scc (eFrom e)) > 1) edges))"

definition condensedSuccs :: "(nat \<times> nat list) list \<Rightarrow> nat \<Rightarrow> nat list" where
  "condensedSuccs condensed i = (case map_of condensed i of None \<Rightarrow> [] | Some js \<Rightarrow> js)"

definition condense :: "(string \<Rightarrow> nat) \<Rightarrow> Edge list \<Rightarrow> (nat \<times> nat list) list" where
  "condense scc edges =
     foldl (\<lambda>condensed e.
       if scc (eFrom e) = scc (eTo e) then condensed
       else AList.update (scc (eFrom e)) (List.insert (scc (eTo e)) (condensedSuccs condensed (scc (eFrom e)))) condensed)
     [] edges"

definition relaxEdge :: "nat \<Rightarrow> nat list \<Rightarrow> nat \<Rightarrow> nat list" where
  "relaxEdge i layers succ = (if layers ! i + 1 > layers ! succ then layers[succ := layers ! i + 1] else layers)"

definition relaxFrom :: "(nat \<Rightarrow> nat list) \<Rightarrow> nat list \<Rightarrow> nat \<Rightarrow> nat list" where
  "relaxFrom succs layers i = foldl (relaxEdge i) layers (sort (succs i))"

definition relaxLayers :: "(nat \<Rightarrow> nat list) \<Rightarrow> nat \<Rightarrow> nat list" where
  "relaxLayers succs n = foldl (relaxFrom succs) (replicate n 0) (rev [0..<n])"

definition pinCmd :: "string list list \<Rightarrow> nat list \<Rightarrow> nat list" where
  "pinCmd sccs layers = map2 (\<lambda>members layer. if list_ex (\<lambda>m. topSegment m = cmdDirName) members then 0 else layer) sccs layers"

definition wrongWayViolations :: "(string \<Rightarrow> nat) \<Rightarrow> nat list \<Rightarrow> Edge list \<Rightarrow> Violation list" where
  "wrongWayViolations scc layers edges =
     map (\<lambda>e. \<lparr> vKind = ViolationWrongWay, vFrom = eFrom e, vTo = eTo e \<rparr>)
       (filter (\<lambda>e. scc (eFrom e) \<noteq> scc (eTo e) \<and> layers ! scc (eTo e) \<le> layers ! scc (eFrom e)) edges)"

definition componentLayers :: "string list list \<Rightarrow> Edge list \<Rightarrow> nat list" where
  "componentLayers sccs edges =
     pinCmd sccs (relaxLayers (condensedSuccs (condense (at_key (sccOf sccs)) edges)) (length sccs))"

definition layerComponents :: "string list list \<Rightarrow> Edge list \<Rightarrow> ((string \<rightharpoonup> nat) \<times> Violation list) option" where
  "layerComponents sccs edges =
     (if sccs = [] \<and> edges \<noteq> [] then None
      else
        let layers = componentLayers sccs edges
        in Some (perMember (\<lambda>i. layers ! i) sccs,
                 sortViolations (cycleViolations sccs edges @ wrongWayViolations (at_key (sccOf sccs)) layers edges)))"

definition layerPackages :: "string list \<Rightarrow> Edge list \<Rightarrow> ((string \<rightharpoonup> nat) \<times> Violation list) option" where
  "layerPackages pkgs edges = do {
     sccs \<leftarrow> tarjanSCC pkgs (adjacencyOf edges);
     layerComponents sccs edges
   }"

section \<open>The maps\<close>

lemma set_map_filter_cong:
  "(\<And>e. e \<in> set xs \<Longrightarrow> P e = Q e) \<Longrightarrow> set (map f (filter P xs)) = {f e | e. e \<in> set xs \<and> Q e}"
  by auto

lemma successors_adjacencyOf: "successors (adjacencyOf edges) u = map eTo (filter (\<lambda>e. eFrom e = u) edges)"
proof -
  have "successors (foldl (\<lambda>adj e. AList.update (eFrom e) (successors adj (eFrom e) @ [eTo e]) adj) adj edges) u =
      successors adj u @ map eTo (filter (\<lambda>e. eFrom e = u) edges)" for adj
  proof (induction edges arbitrary: adj)
    case (Cons e edges)
    show ?case unfolding foldl_Cons Cons by (auto simp: successors_def update_conv')
  qed simp
  from this [of "[]"] show ?thesis by (simp add: adjacencyOf_def successors_def)
qed

lemma arcs_adjacencyOf: "arcs (adjacencyOf edges) = {(eFrom e, eTo e) | e. e \<in> set edges}"
  by (auto simp: arcs_def successors_adjacencyOf)

lemma foldl_upd_const: "foldl (\<lambda>m x. m(x \<mapsto> n)) m xs = (\<lambda>y. if y \<in> set xs then Some n else m y)"
  by (induction xs arbitrary: m) auto

lemma assignAll_eq: "assignAll f m (i, members) = (\<lambda>y. if y \<in> set members then Some (f i) else m y)"
  by (simp add: assignAll_def foldl_upd_const)

lemma perMember_fold:
  "x \<notin> set (concat sccs) \<Longrightarrow> foldl (assignAll f) m (enumerate k sccs) x = m x"
  "distinct (concat sccs) \<Longrightarrow> i < length sccs \<Longrightarrow> x \<in> set (sccs ! i) \<Longrightarrow>
     foldl (assignAll f) m (enumerate k sccs) x = Some (f (k + i))"
proof -
  show none: "x \<notin> set (concat sccs) \<Longrightarrow>
      foldl (assignAll f) m (enumerate k sccs) x = m x" for sccs k m
    by (induction sccs arbitrary: k m) (auto simp: assignAll_eq)
  show "distinct (concat sccs) \<Longrightarrow> i < length sccs \<Longrightarrow> x \<in> set (sccs ! i) \<Longrightarrow>
     foldl (assignAll f) m (enumerate k sccs) x = Some (f (k + i))"
  proof (induction sccs arbitrary: k i m)
    case (Cons C sccs)
    show ?case
    proof (cases i)
      case 0
      then have "x \<in> set C" "x \<notin> set (concat sccs)" using Cons.prems by auto
      then show ?thesis using 0 none [of sccs] by (simp add: assignAll_eq)
    next
      case (Suc j)
      then show ?thesis using Cons.IH [of j] Cons.prems by simp
    qed
  qed simp
qed

lemma perMember_Some:
  "distinct (concat sccs) \<Longrightarrow> i < length sccs \<Longrightarrow> x \<in> set (sccs ! i) \<Longrightarrow> perMember f sccs x = Some (f i)"
  using perMember_fold(2) [of sccs i x f Map.empty 0] by (simp add: perMember_def)

lemma dom_perMember: "distinct (concat sccs) \<Longrightarrow> dom (perMember f sccs) = set (concat sccs)"
proof (intro equalityI subsetI)
  fix x assume d: "distinct (concat sccs)" and "x \<in> dom (perMember f sccs)"
  then show "x \<in> set (concat sccs)"
    using perMember_fold(1) [of x sccs f Map.empty 0] unfolding perMember_def by (metis domIff)
next
  fix x assume d: "distinct (concat sccs)" and "x \<in> set (concat sccs)"
  then obtain i where "i < length sccs" "x \<in> set (sccs ! i)" by (auto simp only: in_concat_nth)
  from perMember_Some [OF d this, of f] show "x \<in> dom (perMember f sccs)" by blast
qed

lemma sccOf_eq: "distinct (concat sccs) \<Longrightarrow> i < length sccs \<Longrightarrow> x \<in> set (sccs ! i) \<Longrightarrow> at_key (sccOf sccs) x = i"
  by (simp add: sccOf_def perMember_Some)

text \<open>The successors of a component.\<close>

lemma condensedSuccs_condense:
  "set (condensedSuccs (condense scc edges) i) = {scc (eTo e) | e. e \<in> set edges \<and> scc (eFrom e) = i \<and> scc (eTo e) \<noteq> i}"
proof -
  let ?step = "\<lambda>condensed e. if scc (eFrom e) = scc (eTo e) then condensed
       else AList.update (scc (eFrom e)) (List.insert (scc (eTo e)) (condensedSuccs condensed (scc (eFrom e)))) condensed"
  have "set (condensedSuccs (foldl ?step c edges) i) =
      set (condensedSuccs c i) \<union> {scc (eTo e) | e. e \<in> set edges \<and> scc (eFrom e) = i \<and> scc (eTo e) \<noteq> i}" for c
  proof (induction edges arbitrary: c)
    case (Cons e edges)
    have "set (condensedSuccs (?step c e) i) = set (condensedSuccs c i) \<union>
        (if scc (eFrom e) = i \<and> scc (eTo e) \<noteq> i then {scc (eTo e)} else {})"
      by (auto simp: condensedSuccs_def update_conv')
    then show ?case unfolding foldl_Cons Cons by auto
  qed simp
  from this [of "[]"] show ?thesis by (simp add: condense_def condensedSuccs_def)
qed

section \<open>Relaxation\<close>

text \<open>
  The loop relaxes the components from the last emitted one down. When an arc of the
  condensation always leads to a smaller index, a component has its final layer when its own
  turn comes; every arc then leads at least one layer down, and no layer is larger than an
  assignment with that property needs.
\<close>

lemma relaxEdge_props [simp]: "length (relaxEdge i layers j) = length layers"
  by (simp add: relaxEdge_def)

lemma relaxEdge_nth: "k < length layers \<Longrightarrow> j < length layers \<Longrightarrow>
    relaxEdge i layers j ! k = (if k = j then max (layers ! j) (layers ! i + 1) else layers ! k)"
  by (simp add: relaxEdge_def)

lemma foldl_relaxEdge:
  assumes "\<forall>j \<in> set js. j < i" and "i < length layers"
  shows "length (foldl (relaxEdge i) layers js) = length layers \<and>
    (\<forall>k < length layers. foldl (relaxEdge i) layers js ! k = (if k \<in> set js then max (layers ! k) (layers ! i + 1) else layers ! k))"
  using assms
proof (induction js arbitrary: layers)
  case (Cons j js)
  let ?l = "relaxEdge i layers j"
  have j: "j < i" "j < length layers" using Cons.prems by auto
  then have nth: "?l ! k = (if k = j then max (layers ! j) (layers ! i + 1) else layers ! k)" if "k < length layers" for k
    using that by (simp add: relaxEdge_nth)
  have "?l ! i = layers ! i" using nth [of i] j Cons.prems(2) by simp
  with Cons.IH [of ?l] Cons.prems nth show ?case by auto
qed simp

lemma relaxFrom_nth:
  assumes "\<forall>j \<in> set (succs i). j < i" and "i < length layers"
  shows "length (relaxFrom succs layers i) = length layers"
    and "k < length layers \<Longrightarrow>
      relaxFrom succs layers i ! k = (if k \<in> set (succs i) then max (layers ! k) (layers ! i + 1) else layers ! k)"
  using foldl_relaxEdge [of "sort (succs i)" i layers] assms by (simp_all add: relaxFrom_def)

lemma relax_down:
  assumes "\<And>i j. i < n \<Longrightarrow> j \<in> set (succs i) \<Longrightarrow> j < i" and "k \<le> n" and "length layers = n"
    and "\<And>i j. k \<le> i \<Longrightarrow> i < n \<Longrightarrow> j \<in> set (succs i) \<Longrightarrow> layers ! i < layers ! j"
    and "\<And>i. i < n \<Longrightarrow> layers ! i \<le> f i" and "\<And>i j. i < n \<Longrightarrow> j \<in> set (succs i) \<Longrightarrow> f i < f j"
  shows "length (foldl (relaxFrom succs) layers (rev [0..<k])) = n \<and>
    (\<forall>i < n. \<forall>j \<in> set (succs i). foldl (relaxFrom succs) layers (rev [0..<k]) ! i < foldl (relaxFrom succs) layers (rev [0..<k]) ! j) \<and>
    (\<forall>i < n. foldl (relaxFrom succs) layers (rev [0..<k]) ! i \<le> f i)"
  using assms(2-5)
proof (induction k arbitrary: layers)
  case (Suc k)
  let ?l = "relaxFrom succs layers k"
  have k: "k < length layers" "\<forall>j \<in> set (succs k). j < k" using Suc.prems(1,2) assms(1) by auto
  note nth = relaxFrom_nth [of succs k layers, OF k(2,1)]
  have "foldl (relaxFrom succs) layers (rev [0..<Suc k]) = foldl (relaxFrom succs) ?l (rev [0..<k])" by simp
  moreover have "?l ! i < ?l ! j" if i: "k \<le> i" "i < n" and j: "j \<in> set (succs i)" for i j
  proof -
    have jn: "j < n" using assms(1) [OF i(2) j] i(2) by simp
    have "i \<notin> set (succs k)" using i(1) k(2) by (meson not_less)
    then have "?l ! i = layers ! i" using nth(2) [of i] i(2) Suc.prems(2) by simp
    moreover have "layers ! i < ?l ! j"
    proof (cases "i = k")
      case True
      then show ?thesis using nth(2) [of j] j jn Suc.prems(2) by simp
    next
      case False
      then have "layers ! i < layers ! j" using Suc.prems(3) i j by simp
      then show ?thesis using nth(2) [of j] jn Suc.prems(2) by auto
    qed
    ultimately show ?thesis by simp
  qed
  moreover have "?l ! i \<le> f i" if "i < n" for i
  proof -
    have "layers ! k + 1 \<le> f i" if "i \<in> set (succs k)"
      using assms(6) [of k i] Suc.prems(4) [of k] that k(1) Suc.prems(2) by simp
    then show ?thesis using nth(2) [of i] that Suc.prems(2,4) \<open>i < n\<close> by auto
  qed
  ultimately show ?case using Suc.IH [of ?l] nth(1) Suc.prems(1,2) by simp
qed (use assms in auto)


section \<open>Layers of components in reverse topological order\<close>

text \<open>What \<open>layerPackages\<close> relies on: components that come in reverse topological order.\<close>

locale component_order =
  fixes comps :: "string list \<Rightarrow> adjacency \<Rightarrow> string list list option"
  assumes comps_emitted:
    "\<exists>sccs. comps vertices adj = Some sccs \<and> set (concat sccs) = (arcs adj)\<^sup>* `` set vertices \<and> emitted adj sccs"
begin

lemma comps_SomeD:
  "comps vertices adj = Some sccs \<Longrightarrow> set (concat sccs) = (arcs adj)\<^sup>* `` set vertices \<and> emitted adj sccs"
  using comps_emitted [of vertices adj] by auto

lemma comps_nonempty: "comps vertices adj = Some sccs \<Longrightarrow> v \<in> set vertices \<Longrightarrow> sccs \<noteq> []"
  using comps_SomeD [of vertices adj sccs] by auto

lemma comps_index:
  assumes "comps vertices adj = Some sccs" and "x \<in> (arcs adj)\<^sup>* `` set vertices"
  shows "at_key (sccOf sccs) x < length sccs" and "x \<in> set (sccs ! at_key (sccOf sccs) x)"
    and "perMember f sccs x = Some (f (at_key (sccOf sccs) x))"
proof -
  have e: "emitted adj sccs" and x: "x \<in> set (concat sccs)" using comps_SomeD [OF assms(1)] assms(2) by auto
  then have d: "distinct (concat sccs)" by (simp add: emitted_def)
  from x obtain i where i: "i < length sccs" "x \<in> set (sccs ! i)" by (auto simp only: in_concat_nth)
  from i show "at_key (sccOf sccs) x < length sccs" "x \<in> set (sccs ! at_key (sccOf sccs) x)"
    "perMember f sccs x = Some (f (at_key (sccOf sccs) x))"
    using sccOf_eq [OF d i] perMember_Some [OF d i, of f] by simp_all
qed

lemma comps_mutual:
  assumes "comps vertices adj = Some sccs" and "x \<in> (arcs adj)\<^sup>* `` set vertices"
  shows "mutual adj x y \<longleftrightarrow> y \<in> set (sccs ! at_key (sccOf sccs) x)"
proof -
  have "component adj (set (sccs ! at_key (sccOf sccs) x))"
    using comps_SomeD [OF assms(1)] comps_index(1) [OF assms] by (auto simp: emitted_def)
  from component_iff [OF this comps_index(2) [OF assms]] show ?thesis by simp
qed

lemma comps_same:
  assumes "comps vertices adj = Some sccs" and "x \<in> (arcs adj)\<^sup>* `` set vertices" and "y \<in> (arcs adj)\<^sup>* `` set vertices"
  shows "at_key (sccOf sccs) x = at_key (sccOf sccs) y \<longleftrightarrow> mutual adj x y"
proof -
  have d: "distinct (concat sccs)" using comps_SomeD [OF assms(1)] by (simp add: emitted_def)
  show ?thesis unfolding comps_mutual [OF assms(1,2)]
    using comps_index(1,2) [OF assms(1,3)] comps_index(1) [OF assms(1,2)] sccOf_eq [OF d] by metis
qed

lemma comps_down:
  assumes "comps vertices adj = Some sccs" and "x \<in> (arcs adj)\<^sup>* `` set vertices" and "(x, y) \<in> arcs adj"
  shows "at_key (sccOf sccs) y \<le> at_key (sccOf sccs) x"
proof -
  have y: "y \<in> (arcs adj)\<^sup>* `` set vertices" using assms(2,3) by (auto intro: rtrancl_into_rtrancl)
  show ?thesis
    using emitted_order [OF _ comps_index(1) [OF assms(1,2)] comps_index(1) [OF assms(1) y]
        comps_index(2) [OF assms(1,2)] comps_index(2) [OF assms(1) y]] comps_SomeD [OF assms(1)] assms(3) by auto
qed

end

interpretation tarjan: component_order tarjanSCC
  by unfold_locales (rule tarjanSCC_emits)

definition pinned :: "adjacency \<Rightarrow> string \<Rightarrow> bool" where
  "pinned adj v \<longleftrightarrow> (\<exists>m. mutual adj v m \<and> topSegment m = cmdDirName)"

lemma pinCmd_nth:
  "length layers = length sccs \<Longrightarrow> i < length sccs \<Longrightarrow>
     pinCmd sccs layers ! i = (if \<exists>m \<in> set (sccs ! i). topSegment m = cmdDirName then 0 else layers ! i)"
  by (auto simp: pinCmd_def list_ex_iff)

context component_order
begin

lemma layers_of_edges:
  assumes sccs: "comps pkgs (adjacencyOf edges) = Some sccs" and src: "\<forall>e \<in> set edges. eFrom e \<in> set pkgs"
    and f: "\<forall>e \<in> set edges. \<not> mutual (adjacencyOf edges) (eFrom e) (eTo e) \<longrightarrow> f (eFrom e) < f (eTo e)"
    and fc: "\<forall>x y. mutual (adjacencyOf edges) x y \<longrightarrow> f x = (f y :: nat)"
  shows "\<And>e. e \<in> set edges \<Longrightarrow> \<not> mutual (adjacencyOf edges) (eFrom e) (eTo e) \<Longrightarrow> \<not> pinned (adjacencyOf edges) (eTo e) \<Longrightarrow>
      componentLayers sccs edges ! at_key (sccOf sccs) (eFrom e) < componentLayers sccs edges ! at_key (sccOf sccs) (eTo e)"
    and "\<And>x. x \<in> (arcs (adjacencyOf edges))\<^sup>* `` set pkgs \<Longrightarrow> pinned (adjacencyOf edges) x \<Longrightarrow>
      componentLayers sccs edges ! at_key (sccOf sccs) x = 0"
    and "\<And>x. x \<in> (arcs (adjacencyOf edges))\<^sup>* `` set pkgs \<Longrightarrow> componentLayers sccs edges ! at_key (sccOf sccs) x \<le> f x"
proof -
  let ?adj = "adjacencyOf edges" and ?scc = "at_key (sccOf sccs)" and ?n = "length sccs"
  let ?R = "(arcs ?adj)\<^sup>* `` set pkgs" and ?succs = "condensedSuccs (condense ?scc edges)"
  let ?layers = "relaxLayers ?succs ?n"
  have ends: "eFrom e \<in> ?R" "eTo e \<in> ?R" "(eFrom e, eTo e) \<in> arcs ?adj" if "e \<in> set edges" for e
    using src that by (auto simp: arcs_adjacencyOf)
  have succ: "\<exists>e \<in> set edges. ?scc (eFrom e) = i \<and> ?scc (eTo e) = j \<and> \<not> mutual ?adj (eFrom e) (eTo e)"
    if "j \<in> set (?succs i)" for i j
  proof -
    from that obtain e where e: "e \<in> set edges" "?scc (eFrom e) = i" "?scc (eTo e) = j" "j \<noteq> i"
      by (auto simp: condensedSuccs_condense)
    then have "\<not> mutual ?adj (eFrom e) (eTo e)" using comps_same [OF sccs ends(1,2) [OF e(1)]] by simp
    with e show ?thesis by (intro bexI [of _ e]) simp_all
  qed
  have down: "j < i" if "j \<in> set (?succs i)" for i j
  proof -
    from that obtain e where e: "e \<in> set edges" "?scc (eFrom e) = i" "?scc (eTo e) = j" "j \<noteq> i"
      by (auto simp: condensedSuccs_condense)
    with comps_down [OF sccs ends(1,3) [OF e(1)]] show ?thesis by simp
  qed
  have member: "sccs ! i ! 0 \<in> set (sccs ! i)" "sccs ! i ! 0 \<in> ?R" "?scc (sccs ! i ! 0) = i" if "i < ?n" for i
  proof -
    have "component ?adj (set (sccs ! i))" "distinct (concat sccs)"
      using comps_SomeD [OF sccs] that by (auto simp: emitted_def)
    moreover have "sccs ! i \<noteq> []"
    proof
      assume "sccs ! i = []"
      with calculation(1) obtain x where "{} = {y. mutual ?adj x y}" by (auto simp: component_def)
      then show False using mutual_refl [of ?adj x] by blast
    qed
    moreover have "set (sccs ! i) \<subseteq> ?R" using comps_SomeD [OF sccs] that by (auto simp: in_concat_nth)
    ultimately show "sccs ! i ! 0 \<in> set (sccs ! i)" "sccs ! i ! 0 \<in> ?R" "?scc (sccs ! i ! 0) = i"
      using sccOf_eq [OF _ that] by (auto simp: subset_iff)
  qed
  define g where "g i = f (sccs ! i ! 0)" for i
  have g: "g (?scc x) = f x" if "x \<in> ?R" for x
    using fc comps_mutual [OF sccs that] member(1) [OF comps_index(1) [OF sccs that]] by (metis g_def)
  have gs: "g i < g j" if "j \<in> set (?succs i)" for i j
    using succ [OF that] f ends g by metis
  have relax: "length ?layers = ?n \<and> (\<forall>i < ?n. \<forall>j \<in> set (?succs i). ?layers ! i < ?layers ! j) \<and> (\<forall>i < ?n. ?layers ! i \<le> g i)"
    unfolding relaxLayers_def by (rule relax_down) (use down gs in auto)
  have pin: "componentLayers sccs edges ! ?scc x = (if pinned ?adj x then 0 else ?layers ! ?scc x)" if "x \<in> ?R" for x
    using pinCmd_nth [OF _ comps_index(1) [OF sccs that], of ?layers] relax comps_mutual [OF sccs that]
    by (auto simp: componentLayers_def pinned_def)
  show "componentLayers sccs edges ! ?scc (eFrom e) < componentLayers sccs edges ! ?scc (eTo e)"
    if e: "e \<in> set edges" and nm: "\<not> mutual ?adj (eFrom e) (eTo e)" and np: "\<not> pinned ?adj (eTo e)" for e
  proof -
    have "?scc (eTo e) \<in> set (?succs (?scc (eFrom e)))"
      using e nm comps_same [OF sccs ends(1,2) [OF e]] by (auto simp: condensedSuccs_condense)
    then have "?layers ! ?scc (eFrom e) < ?layers ! ?scc (eTo e)"
      using relax comps_index(1) [OF sccs ends(1) [OF e]] by blast
    then show ?thesis using np pin ends [OF e] by simp
  qed
  show "componentLayers sccs edges ! ?scc x = 0" if "x \<in> ?R" "pinned ?adj x" for x using pin that by simp
  show "componentLayers sccs edges ! ?scc x \<le> f x" if "x \<in> ?R" for x
  proof -
    have "?layers ! ?scc x \<le> f x" using relax g [OF that] comps_index(1) [OF sccs that] by metis
    then show ?thesis using pin [OF that] by simp
  qed
qed

lemma depth_assignment:
  assumes sccs: "comps pkgs (adjacencyOf edges) = Some sccs" and src: "\<forall>e \<in> set edges. eFrom e \<in> set pkgs"
  defines "f \<equiv> \<lambda>x. length sccs - at_key (sccOf sccs) x"
  shows "\<forall>e \<in> set edges. \<not> mutual (adjacencyOf edges) (eFrom e) (eTo e) \<longrightarrow> f (eFrom e) < f (eTo e)"
    and "\<forall>x y. mutual (adjacencyOf edges) x y \<longrightarrow> f x = f y"
proof -
  let ?adj = "adjacencyOf edges" and ?R = "(arcs (adjacencyOf edges))\<^sup>* `` set pkgs"
  show "\<forall>e \<in> set edges. \<not> mutual ?adj (eFrom e) (eTo e) \<longrightarrow> f (eFrom e) < f (eTo e)"
  proof (intro ballI impI)
    fix e assume e: "e \<in> set edges" and nm: "\<not> mutual ?adj (eFrom e) (eTo e)"
    have arc: "(eFrom e, eTo e) \<in> arcs ?adj" using e by (auto simp: arcs_adjacencyOf)
    have ends: "eFrom e \<in> ?R" "eTo e \<in> ?R" using src e arc by auto
    from comps_down [OF sccs ends(1) arc] comps_same [OF sccs ends] nm comps_index(1) [OF sccs ends(1)]
    show "f (eFrom e) < f (eTo e)" by (simp add: f_def)
  qed
  show "\<forall>x y. mutual ?adj x y \<longrightarrow> f x = f y"
  proof (intro allI impI)
    fix x y assume m: "mutual ?adj x y"
    show "f x = f y"
    proof (cases "x \<in> ?R")
      case True
      then have "y \<in> ?R" using m by (auto simp: mutual_def intro: rtrancl_trans)
      from comps_same [OF sccs True this] m show ?thesis by (simp add: f_def)
    next
      case False
      then have "y \<notin> ?R" using m by (auto simp: mutual_def intro: rtrancl_trans)
      moreover have "at_key (sccOf sccs) z = 0" if "z \<notin> ?R" for z
        using dom_perMember [of sccs "\<lambda>i. i"] that comps_SomeD [OF sccs]
        by (auto simp: at_key_def sccOf_def emitted_def domIff split: option.splits)
      ultimately show ?thesis using False by (simp add: f_def)
    qed
  qed
qed

lemma edge_layers:
  assumes "comps pkgs (adjacencyOf edges) = Some sccs" and "\<forall>e \<in> set edges. eFrom e \<in> set pkgs"
  shows "e \<in> set edges \<Longrightarrow> \<not> mutual (adjacencyOf edges) (eFrom e) (eTo e) \<Longrightarrow> \<not> pinned (adjacencyOf edges) (eTo e) \<Longrightarrow>
      componentLayers sccs edges ! at_key (sccOf sccs) (eFrom e) < componentLayers sccs edges ! at_key (sccOf sccs) (eTo e)"
    and "x \<in> (arcs (adjacencyOf edges))\<^sup>* `` set pkgs \<Longrightarrow> pinned (adjacencyOf edges) x \<Longrightarrow>
      componentLayers sccs edges ! at_key (sccOf sccs) x = 0"
  using layers_of_edges(1,2) [OF assms depth_assignment [OF assms]] by blast+

end

lemma layerPackages_eq:
  assumes "\<forall>e \<in> set edges. eFrom e \<in> set pkgs"
  obtains sccs where "tarjanSCC pkgs (adjacencyOf edges) = Some sccs"
    and "layerPackages pkgs edges = Some (perMember (\<lambda>i. componentLayers sccs edges ! i) sccs,
      sortViolations (cycleViolations sccs edges @ wrongWayViolations (at_key (sccOf sccs)) (componentLayers sccs edges) edges))"
proof -
  obtain sccs where sccs: "tarjanSCC pkgs (adjacencyOf edges) = Some sccs" using tarjan.comps_emitted by blast
  have "\<not> (sccs = [] \<and> edges \<noteq> [])"
    using tarjan.comps_nonempty [OF sccs] assms by (cases edges) auto
  then have "layerPackages pkgs edges = Some (perMember (\<lambda>i. componentLayers sccs edges ! i) sccs,
      sortViolations (cycleViolations sccs edges @ wrongWayViolations (at_key (sccOf sccs)) (componentLayers sccs edges) edges))"
    using sccs by (auto simp: layerPackages_def layerComponents_def Let_def)
  with sccs that show thesis by blast
qed

lemma edge_reported_or_layered:
  assumes "\<forall>e \<in> set edges. eFrom e \<in> set pkgs" and "layerPackages pkgs edges = Some (layerOf, violations)"
    and "e \<in> set edges" and "eFrom e \<noteq> eTo e"
  obtains i j where "layerOf (eFrom e) = Some i" and "layerOf (eTo e) = Some j"
    and "i < j \<or> (\<exists>v \<in> set violations. vFrom v = eFrom e \<and> vTo v = eTo e)"
proof -
  obtain sccs where sccs: "tarjanSCC pkgs (adjacencyOf edges) = Some sccs"
    and layerOf: "layerOf = perMember (\<lambda>i. componentLayers sccs edges ! i) sccs"
    and viol: "violations = sortViolations (cycleViolations sccs edges @ wrongWayViolations (at_key (sccOf sccs)) (componentLayers sccs edges) edges)"
    using layerPackages_eq [OF assms(1)] assms(2) by (metis fst_conv snd_conv option.inject)
  have ends: "eFrom e \<in> (arcs (adjacencyOf edges))\<^sup>* `` set pkgs" "eTo e \<in> (arcs (adjacencyOf edges))\<^sup>* `` set pkgs"
    using assms(1,3) by (auto simp: arcs_adjacencyOf)
  let ?scc = "at_key (sccOf sccs)"
  have "length (sccs ! ?scc (eFrom e)) > 1" if "?scc (eFrom e) = ?scc (eTo e)"
  proof -
    have "{eFrom e, eTo e} \<subseteq> set (sccs ! ?scc (eFrom e))" using that tarjan.comps_index(2) [OF sccs ends(1)] tarjan.comps_index(2) [OF sccs ends(2)] by simp
    from card_mono [OF finite_set this] have "card {eFrom e, eTo e} \<le> length (sccs ! ?scc (eFrom e))"
      using card_length [of "sccs ! ?scc (eFrom e)"] by (rule le_trans)
    then show ?thesis using assms(4) by simp
  qed
  then have "\<lparr> vKind = ViolationCycle, vFrom = eFrom e, vTo = eTo e \<rparr> \<in> set violations" if "?scc (eFrom e) = ?scc (eTo e)"
    using that assms(3) by (auto simp: viol sortViolations_def cycleViolations_def Let_def)
  moreover have "\<lparr> vKind = ViolationWrongWay, vFrom = eFrom e, vTo = eTo e \<rparr> \<in> set violations"
    if "?scc (eFrom e) \<noteq> ?scc (eTo e)" "componentLayers sccs edges ! ?scc (eTo e) \<le> componentLayers sccs edges ! ?scc (eFrom e)"
    using that assms(3) by (auto simp: viol sortViolations_def wrongWayViolations_def)
  ultimately have "componentLayers sccs edges ! ?scc (eFrom e) < componentLayers sccs edges ! ?scc (eTo e) \<or>
      (\<exists>v \<in> set violations. vFrom v = eFrom e \<and> vTo v = eTo e)"
    by (meson not_le Violation.select_convs(2,3))
  then show thesis
    by (rule that [OF tarjan.comps_index(3) [OF sccs ends(1), of "\<lambda>i. componentLayers sccs edges ! i", folded layerOf]
      tarjan.comps_index(3) [OF sccs ends(2), of "\<lambda>i. componentLayers sccs edges ! i", folded layerOf]])
qed

text \<open>
  C30: The layers. When every edge starts in a given package, layering always returns and gives a
  layer to exactly the packages that are reached; packages of one cycle share a layer; a
  component with a package under \<^verbatim>\<open>cmd\<close> is at layer 0; every other edge between components
  leads to a strictly larger layer.
\<close>

theorem layerPackages_layers:
  assumes "\<forall>e \<in> set edges. eFrom e \<in> set pkgs"
  shows "\<exists>layerOf violations. layerPackages pkgs edges = Some (layerOf, violations) \<and>
    dom layerOf = (arcs (adjacencyOf edges))\<^sup>* `` set pkgs \<and>
    (\<forall>x \<in> dom layerOf. \<forall>y. mutual (adjacencyOf edges) x y \<longrightarrow> layerOf y = layerOf x) \<and>
    (\<forall>x \<in> dom layerOf. pinned (adjacencyOf edges) x \<longrightarrow> layerOf x = Some 0) \<and>
    (\<forall>e \<in> set edges. \<not> mutual (adjacencyOf edges) (eFrom e) (eTo e) \<and> \<not> pinned (adjacencyOf edges) (eTo e) \<longrightarrow>
       at_key layerOf (eFrom e) < at_key layerOf (eTo e))"
proof -
  let ?adj = "adjacencyOf edges" and ?R = "(arcs (adjacencyOf edges))\<^sup>* `` set pkgs"
  obtain sccs where sccs: "tarjanSCC pkgs ?adj = Some sccs" and eq: "layerPackages pkgs edges =
      Some (perMember (\<lambda>i. componentLayers sccs edges ! i) sccs,
        sortViolations (cycleViolations sccs edges @ wrongWayViolations (at_key (sccOf sccs)) (componentLayers sccs edges) edges))"
    using layerPackages_eq [OF assms] by metis
  let ?layerOf = "perMember (\<lambda>i. componentLayers sccs edges ! i) sccs"
  have dom: "dom ?layerOf = ?R"
    using dom_perMember tarjan.comps_SomeD [OF sccs] by (simp add: emitted_def)
  have layer: "?layerOf x = Some (componentLayers sccs edges ! at_key (sccOf sccs) x)" if "x \<in> ?R" for x
    by (rule tarjan.comps_index(3) [OF sccs that])
  have "?layerOf y = ?layerOf x" if "x \<in> ?R" "mutual ?adj x y" for x y
  proof -
    have "y \<in> ?R" using that by (auto simp: mutual_def intro: rtrancl_trans)
    then show ?thesis using layer that tarjan.comps_same [OF sccs that(1), of y] by simp
  qed
  moreover have "?layerOf x = Some 0" if "x \<in> ?R" "pinned ?adj x" for x
    using layer [OF that(1)] tarjan.edge_layers(2) [OF sccs assms that] by simp
  moreover have "at_key ?layerOf (eFrom e) < at_key ?layerOf (eTo e)"
    if "e \<in> set edges" "\<not> mutual ?adj (eFrom e) (eTo e)" "\<not> pinned ?adj (eTo e)" for e
  proof -
    have "eFrom e \<in> ?R" "eTo e \<in> ?R" using assms that(1) by (auto simp: arcs_adjacencyOf)
    then show ?thesis using layer tarjan.edge_layers(1) [OF sccs assms that] by simp
  qed
  ultimately show ?thesis using eq dom by blast
qed

text \<open>
  C31: The layers are the smallest possible: any assignment that is constant on cycles and grows
  along every other edge is at least as large everywhere.
\<close>

theorem layerPackages_least:
  assumes "\<forall>e \<in> set edges. eFrom e \<in> set pkgs" and "layerPackages pkgs edges = Some (layerOf, violations)"
    and "\<forall>e \<in> set edges. \<not> mutual (adjacencyOf edges) (eFrom e) (eTo e) \<longrightarrow> f (eFrom e) < f (eTo e)"
    and "\<forall>x y. mutual (adjacencyOf edges) x y \<longrightarrow> f x = (f y :: nat)"
    and "layerOf x = Some n"
  shows "n \<le> f x"
proof -
  obtain sccs where sccs: "tarjanSCC pkgs (adjacencyOf edges) = Some sccs"
    and layerOf: "layerOf = perMember (\<lambda>i. componentLayers sccs edges ! i) sccs"
    using layerPackages_eq [OF assms(1)] assms(2) by (metis fst_conv option.inject)
  have "dom layerOf = (arcs (adjacencyOf edges))\<^sup>* `` set pkgs"
    using dom_perMember tarjan.comps_SomeD [OF sccs] by (simp add: layerOf emitted_def)
  then have "x \<in> (arcs (adjacencyOf edges))\<^sup>* `` set pkgs" using assms(5) by blast
  with tarjan.layers_of_edges(3) [OF sccs assms(1,3,4)] tarjan.comps_index(3) [OF sccs] layerOf assms(5)
  show ?thesis by (metis option.inject)
qed

text \<open>
  The violations. Cycle violations are the edges inside a component with more than one
  member; wrong-way violations are the edges between components that lead to a component with
  a package under \<^verbatim>\<open>cmd\<close>, and nothing else. The list is sorted by kind, source and target.
\<close>

theorem layerPackages_violations:
  assumes "\<forall>e \<in> set edges. eFrom e \<in> set pkgs" and "layerPackages pkgs edges = Some (layerOf, violations)"
  shows "set violations =
    {\<lparr> vKind = ViolationCycle, vFrom = eFrom e, vTo = eTo e \<rparr> | e. e \<in> set edges \<and>
       mutual (adjacencyOf edges) (eFrom e) (eTo e) \<and> (\<exists>m. m \<noteq> eFrom e \<and> mutual (adjacencyOf edges) (eFrom e) m)} \<union>
    {\<lparr> vKind = ViolationWrongWay, vFrom = eFrom e, vTo = eTo e \<rparr> | e. e \<in> set edges \<and>
       \<not> mutual (adjacencyOf edges) (eFrom e) (eTo e) \<and> pinned (adjacencyOf edges) (eTo e)} \<and>
    sorted (map violationKey violations)"
proof -
  let ?adj = "adjacencyOf edges" and ?R = "(arcs (adjacencyOf edges))\<^sup>* `` set pkgs"
  obtain sccs where sccs: "tarjanSCC pkgs ?adj = Some sccs" and viol: "violations =
      sortViolations (cycleViolations sccs edges @ wrongWayViolations (at_key (sccOf sccs)) (componentLayers sccs edges) edges)"
    using layerPackages_eq [OF assms(1)] assms(2) by (metis snd_conv option.inject)
  let ?scc = "at_key (sccOf sccs)" and ?layers = "componentLayers sccs edges"
  have ends: "eFrom e \<in> ?R" "eTo e \<in> ?R" if "e \<in> set edges" for e
    using assms(1) that by (auto simp: arcs_adjacencyOf)
  have same: "?scc (eFrom e) = ?scc (eTo e) \<longleftrightarrow> mutual ?adj (eFrom e) (eTo e)" if "e \<in> set edges" for e
    using tarjan.comps_same [OF sccs ends [OF that]] .
  have multi: "length (sccs ! ?scc x) > 1 \<longleftrightarrow> (\<exists>m. m \<noteq> x \<and> mutual ?adj x m)" if "x \<in> ?R" for x
  proof -
    have "distinct (sccs ! ?scc x)" using tarjan.comps_SomeD [OF sccs] tarjan.comps_index(1) [OF sccs that]
      by (auto simp: emitted_def distinct_concat_iff)
    then have "length (sccs ! ?scc x) = card (set (sccs ! ?scc x))" by (simp add: distinct_card)
    moreover have "set (sccs ! ?scc x) = {m. mutual ?adj x m}" using tarjan.comps_mutual [OF sccs that] by blast
    moreover have "finite {m. mutual ?adj x m}" using calculation(2) by (metis finite_set)
    ultimately show ?thesis using card_le_Suc0_iff_eq [of "{m. mutual ?adj x m}"] mutual_refl
      by (simp add: not_le [symmetric] del: One_nat_def) (metis mem_Collect_eq mutual_refl One_nat_def)
  qed
  have wrong: "?layers ! ?scc (eTo e) \<le> ?layers ! ?scc (eFrom e) \<longleftrightarrow> pinned ?adj (eTo e)"
    if "e \<in> set edges" "\<not> mutual ?adj (eFrom e) (eTo e)" for e
    using tarjan.edge_layers(1) [OF sccs assms(1) that] tarjan.edge_layers(2) [OF sccs assms(1) ends(2) [OF that(1)]]
    by (cases "pinned ?adj (eTo e)") (simp_all add: not_le)
  have "set (cycleViolations sccs edges) = {\<lparr> vKind = ViolationCycle, vFrom = eFrom e, vTo = eTo e \<rparr> | e. e \<in> set edges \<and>
       mutual ?adj (eFrom e) (eTo e) \<and> (\<exists>m. m \<noteq> eFrom e \<and> mutual ?adj (eFrom e) m)}"
    unfolding cycleViolations_def Let_def by (rule set_map_filter_cong) (simp only: same multi ends)
  moreover have "set (wrongWayViolations ?scc ?layers edges) =
    {\<lparr> vKind = ViolationWrongWay, vFrom = eFrom e, vTo = eTo e \<rparr> | e. e \<in> set edges \<and>
       \<not> mutual ?adj (eFrom e) (eTo e) \<and> pinned ?adj (eTo e)}"
    unfolding wrongWayViolations_def by (rule set_map_filter_cong) (metis same wrong)
  ultimately show ?thesis by (simp add: viol sortViolations_def)
qed


section \<open>An example\<close>

definition exampleEdges :: "Edge list" where
  "exampleEdges = map (\<lambda>(f, t). \<lparr> eFrom = f, eTo = t, eCount = 1 \<rparr>)
     [(''cmd/app'', ''internal/a''), (''internal/a'', ''internal/b''), (''internal/b'', ''internal/a''), (''internal/x'', ''cmd/app'')]"

definition examplePackages :: "string list" where
  "examplePackages = [''cmd/app'', ''internal/a'', ''internal/b'', ''internal/x'']"

lemma example_sources: "\<forall>e \<in> set exampleEdges. eFrom e \<in> set examplePackages"
  by code_simp

lemma example_layers:
  "map_option (\<lambda>(layerOf, violations). (map layerOf examplePackages, map violationKey violations))
     (layerPackages examplePackages exampleEdges) =
   Some ([Some 0, Some 2, Some 2, Some 0],
     [(''cycle'', ''internal/a'', ''internal/b''), (''cycle'', ''internal/b'', ''internal/a''),
      (''wrong_way'', ''internal/x'', ''cmd/app'')])"
  by code_simp

lemma example_arcs: "arcs (adjacencyOf exampleEdges) =
    {(''cmd/app'', ''internal/a''), (''internal/a'', ''internal/b''), (''internal/b'', ''internal/a''), (''internal/x'', ''cmd/app'')}"
proof -
  have "arcs (adjacencyOf exampleEdges) = (\<lambda>e. (eFrom e, eTo e)) ` set exampleEdges" by (auto simp: arcs_adjacencyOf)
  then show ?thesis by (simp add: exampleEdges_def)
qed

definition exampleDepth :: "string \<Rightarrow> nat" where
  "exampleDepth x = (if x = ''cmd/app'' then 1 else if x = ''internal/a'' \<or> x = ''internal/b'' then 2 else 0)"

lemma example_depth_mono: "(x, y) \<in> (arcs (adjacencyOf exampleEdges))\<^sup>* \<Longrightarrow> exampleDepth x \<le> exampleDepth y"
proof (induction rule: rtrancl_induct)
  case (step y z)
  have "\<forall>p \<in> arcs (adjacencyOf exampleEdges). exampleDepth (fst p) \<le> exampleDepth (snd p)"
    unfolding example_arcs by code_simp
  with step show ?case by force
qed simp

lemma example_depth_mutual: "mutual (adjacencyOf exampleEdges) x y \<Longrightarrow> exampleDepth x = exampleDepth y"
  using example_depth_mono by (simp add: mutual_def le_antisym)

lemma example_cycle: "mutual (adjacencyOf exampleEdges) ''internal/a'' ''internal/b''"
  by (simp add: mutual_def example_arcs r_into_rtrancl)

lemma example_acyclic: "\<not> mutual (adjacencyOf exampleEdges) ''cmd/app'' ''internal/a''"
    "\<not> mutual (adjacencyOf exampleEdges) ''internal/x'' ''cmd/app''"
  using example_depth_mutual [of "''cmd/app''" "''internal/a''"] example_depth_mutual [of "''internal/x''" "''cmd/app''"]
  by (auto simp: exampleDepth_def)

lemma example_pinned: "pinned (adjacencyOf exampleEdges) ''cmd/app''" "\<not> pinned (adjacencyOf exampleEdges) ''internal/a''"
proof -
  have "topSegment ''cmd/app'' = cmdDirName" by code_simp
  then show "pinned (adjacencyOf exampleEdges) ''cmd/app''" unfolding pinned_def using mutual_refl by blast
  have "topSegment ''internal/a'' \<noteq> cmdDirName" "topSegment ''internal/b'' \<noteq> cmdDirName" by code_simp+
  moreover have "m = ''internal/a'' \<or> m = ''internal/b''" if "mutual (adjacencyOf exampleEdges) ''internal/a'' m" for m
    using example_depth_mutual [OF that] by (auto simp: exampleDepth_def split: if_splits)
  ultimately show "\<not> pinned (adjacencyOf exampleEdges) ''internal/a''" unfolding pinned_def by blast
qed

lemma example_depth_edges:
  "\<forall>e \<in> set exampleEdges. \<not> mutual (adjacencyOf exampleEdges) (eFrom e) (eTo e) \<longrightarrow> exampleDepth (eFrom e) < exampleDepth (eTo e)"
  using example_cycle mutual_sym [OF example_cycle] by (auto simp: exampleEdges_def exampleDepth_def)

lemma example_edge_mem:
  "\<lparr> eFrom = ''cmd/app'', eTo = ''internal/a'', eCount = 1 \<rparr> \<in> set exampleEdges"
  "\<lparr> eFrom = ''internal/x'', eTo = ''cmd/app'', eCount = 1 \<rparr> \<in> set exampleEdges"
  by (simp_all add: exampleEdges_def)

lemma example_result:
  "\<exists>layerOf violations. layerPackages examplePackages exampleEdges = Some (layerOf, violations) \<and> layerOf ''internal/a'' = Some 2"
proof -
  obtain l v where lv: "layerPackages examplePackages exampleEdges = Some (l, v)" using example_layers by force
  have "map l examplePackages = [Some 0, Some 2, Some 2, Some 0]" using example_layers unfolding lv by simp
  then show ?thesis using lv by (simp add: examplePackages_def)
qed

theorem layerPackages_layers_witness:
  "\<exists>layerOf violations. layerPackages examplePackages exampleEdges = Some (layerOf, violations) \<and>
     at_key layerOf ''cmd/app'' < at_key layerOf ''internal/a''"
proof -
  from layerPackages_layers [OF example_sources] obtain l v where "layerPackages examplePackages exampleEdges = Some (l, v)"
    "\<forall>e \<in> set exampleEdges. \<not> mutual (adjacencyOf exampleEdges) (eFrom e) (eTo e) \<and>
       \<not> pinned (adjacencyOf exampleEdges) (eTo e) \<longrightarrow> at_key l (eFrom e) < at_key l (eTo e)" by blast
  with example_edge_mem(1) example_acyclic(1) example_pinned(2) show ?thesis by force
qed

theorem layerPackages_least_witness: "2 \<le> exampleDepth ''internal/a''"
proof -
  obtain l v where lv: "layerPackages examplePackages exampleEdges = Some (l, v)" "l ''internal/a'' = Some 2"
    using example_result by blast
  show ?thesis
    by (rule layerPackages_least [OF example_sources lv(1) example_depth_edges _ lv(2)]) (use example_depth_mutual in blast)
qed

theorem layerPackages_violations_witness:
  "\<exists>layerOf violations. layerPackages examplePackages exampleEdges = Some (layerOf, violations) \<and>
     \<lparr> vKind = ViolationWrongWay, vFrom = ''internal/x'', vTo = ''cmd/app'' \<rparr> \<in> set violations"
proof -
  obtain l v where lv: "layerPackages examplePackages exampleEdges = Some (l, v)" using example_result by blast
  have "\<lparr> vKind = ViolationWrongWay, vFrom = ''internal/x'', vTo = ''cmd/app'' \<rparr> \<in> set v"
    using layerPackages_violations [OF example_sources lv] example_edge_mem(2) example_acyclic(2) example_pinned(1) by force
  with lv show ?thesis by blast
qed

end
