(* ===== verification/Code_Tree.thy ===== *)
theory Code_Tree
  imports Code_Layering "HOL-Library.Multiset"
begin

text \<open>
  The node tree of a repository snapshot: \<open>internal/codegraph/builder.go\<close> up to \<open>buildTree\<close>, and
  \<open>applyLayout\<close> and \<open>assignOrder\<close> of \<open>layering.go\<close>.

  The map of node pointers is an association list from the identifier of a node to the node.
  A walk over the parents of a path that would not end, and the dereference of a node that
  is not in the map, are \<open>None\<close>; the theorems show that neither happens for the paths that
  \<open>normalizeFiles\<close> lets through. The order in which Go ranges over the map is the order of the
  list.
\<close>

section \<open>Paths\<close>

definition parentDir :: "string \<Rightarrow> string" where
  "parentDir p = (let d = path_dir p in if d = ''.'' then [] else d)"

text \<open>The loop \<open>for d := parentDir(p); d != ""; d = parentDir(d)\<close>, as the list of its values.\<close>

function ancestors :: "string \<Rightarrow> string list option" where
  "ancestors p =
     (let d = parentDir p
      in if d = [] then Some [] else if d = p then None else map_option ((#) d) (ancestors d))"
  by pat_completeness auto
termination
proof (relation "measure length", goal_cases)
  case (2 p d)
  then have "path_dir p \<noteq> p" "path_dir p \<noteq> ''.''" "d = path_dir p" by (auto simp: parentDir_def Let_def split: if_splits)
  moreover have "p \<noteq> []" using calculation by (auto simp: path_dir_def cut_last_char_def)
  ultimately show ?case using path_dir_smaller [of p] by auto
qed simp

declare ancestors.simps [simp del]

text \<open>\<open>path.Ext\<close>: the last dot of the last element and what follows it.\<close>

definition path_ext :: "string \<Rightarrow> string" where
  "path_ext p =
     (let elem = (case cut_last_char slash p of None \<Rightarrow> p | Some (_, b) \<Rightarrow> b)
      in case cut_last_char (CHR ''.'') elem of None \<Rightarrow> [] | Some (_, e) \<Rightarrow> CHR ''.'' # e)"

definition normalizeFiles :: "string list \<Rightarrow> string list" where
  "normalizeFiles files =
     sorted_list_of_set (set (filter
       (\<lambda>p. \<not> (p = [] \<or> p = ''.'' \<or> p = ''..'' \<or> is_abs p \<or> prefix ''../'' p)) (map path_clean files)))"

section \<open>Nodes\<close>

datatype NodeKind = NodeKindModule | NodeKindPackage | NodeKindFile

datatype Language = LanguageGo | LanguageTypeScript

record Node =
  nID :: string
  nParent :: string
  nKind :: NodeKind
  nName :: string
  nLanguage :: "Language option"
  nLayer :: nat
  nOrder :: nat
  nLoc :: nat
  nFileCount :: nat

record fileTree =
  tNodes :: "(string \<times> Node) list"
  tFileSet :: "string set"
  tDirSet :: "string set"
  tDirHasSource :: "string set"

definition sortedFiles :: "fileTree \<Rightarrow> string list" where
  "sortedFiles t = sorted_list_of_set (tFileSet t)"

definition languageForFile :: "string \<Rightarrow> Language option" where
  "languageForFile p =
     (let ext = to_lower (path_ext p)
      in if ext = ''.go'' then Some LanguageGo
         else if ext = ''.ts'' \<or> ext = ''.tsx'' then Some LanguageTypeScript else None)"

abbreviation newline :: char where
  "newline \<equiv> CHR 0x0A"

definition countLines :: "string \<Rightarrow> nat" where
  "countLines content =
     (if content = [] then 0
      else count_list content newline + (if last content \<noteq> newline then 1 else 0))"

section \<open>Building the tree\<close>

definition collectDirs :: "string list \<Rightarrow> string set option" where
  "collectDirs paths = fold_opt (\<lambda>dirs p. map_option (\<lambda>as. dirs \<union> set as) (ancestors p)) {} paths"

definition dirNode :: "string \<Rightarrow> Node" where
  "dirNode d =
     \<lparr> nID = d, nParent = parentDir d, nKind = (if slash \<in> set d then NodeKindPackage else NodeKindModule),
       nName = path_base d, nLanguage = None, nLayer = 0, nOrder = 0, nLoc = 0, nFileCount = 0 \<rparr>"

definition fileNode :: "string \<Rightarrow> nat \<Rightarrow> Node" where
  "fileNode p loc =
     \<lparr> nID = p, nParent = parentDir p, nKind = NodeKindFile, nName = path_base p, nLanguage = languageForFile p,
       nLayer = 0, nOrder = 0, nLoc = loc, nFileCount = 1 \<rparr>"

text \<open>An update through a node pointer: \<open>None\<close> is the nil dereference.\<close>

definition updateNode :: "string \<Rightarrow> (Node \<Rightarrow> Node) \<Rightarrow> (string \<times> Node) list \<Rightarrow> (string \<times> Node) list option" where
  "updateNode d f nodes = (case map_of nodes d of None \<Rightarrow> None | Some n \<Rightarrow> Some (AList.update d (f n) nodes))"

record treeState =
  sNodes :: "(string \<times> Node) list"
  sHasSource :: "string set"
  sDirLangs :: "(string \<times> Language list) list"

definition langsOf :: "(string \<times> Language list) list \<Rightarrow> string \<Rightarrow> Language list" where
  "langsOf dirLangs d = (case map_of dirLangs d of None \<Rightarrow> [] | Some ls \<Rightarrow> ls)"

definition rollUp :: "nat \<Rightarrow> Language option \<Rightarrow> treeState \<Rightarrow> string \<Rightarrow> treeState option" where
  "rollUp loc lang st d = do {
     nodes \<leftarrow> updateNode d (\<lambda>n. n\<lparr> nLoc := nLoc n + loc, nFileCount := nFileCount n + 1 \<rparr>) (sNodes st);
     Some (st\<lparr> sNodes := nodes,
               sDirLangs := (case lang of None \<Rightarrow> sDirLangs st
                             | Some l \<Rightarrow> AList.update d (List.insert l (langsOf (sDirLangs st) d)) (sDirLangs st)) \<rparr>)
   }"

definition addFile :: "(string \<rightharpoonup> string) \<Rightarrow> treeState \<Rightarrow> string \<Rightarrow> treeState option" where
  "addFile contents st p = do {
     let lang = languageForFile p;
     let loc = countLines (case contents p of None \<Rightarrow> [] | Some data \<Rightarrow> data);
     let dir = parentDir p;
     let st = st\<lparr> sNodes := AList.update p (fileNode p loc) (sNodes st),
                  sHasSource := (if lang \<noteq> None \<and> dir \<noteq> [] then insert dir (sHasSource st) else sHasSource st) \<rparr>;
     ups \<leftarrow> ancestors p;
     fold_opt (rollUp loc lang) st ups
   }"

definition setLanguage :: "(string \<times> Node) list \<Rightarrow> string \<times> Language list \<Rightarrow> (string \<times> Node) list option" where
  "setLanguage nodes entry =
     (case entry of
        (d, [lang]) \<Rightarrow> updateNode d (\<lambda>n. n\<lparr> nLanguage := Some lang \<rparr>) nodes
      | _ \<Rightarrow> Some nodes)"

definition buildTree :: "string list \<Rightarrow> (string \<rightharpoonup> string) \<Rightarrow> fileTree option" where
  "buildTree paths contents = do {
     dirs \<leftarrow> collectDirs paths;
     let files = set (filter (\<lambda>p. p \<notin> dirs) paths);
     let nodes = foldl (\<lambda>nodes d. AList.update d (dirNode d) nodes) [] (sorted_list_of_set dirs);
     st \<leftarrow> fold_opt (addFile contents) \<lparr> sNodes = nodes, sHasSource = {}, sDirLangs = [] \<rparr> (sorted_list_of_set files);
     nodes \<leftarrow> fold_opt setLanguage (sNodes st) (sDirLangs st);
     Some \<lparr> tNodes = nodes, tFileSet = files, tDirSet = dirs, tDirHasSource = sHasSource st \<rparr>
   }"

section \<open>Layout\<close>

definition lowerAncestor :: "nat \<Rightarrow> (string \<rightharpoonup> nat) \<Rightarrow> string \<Rightarrow> (string \<rightharpoonup> nat)" where
  "lowerAncestor layer m a =
     (case m a of None \<Rightarrow> m(a \<mapsto> layer) | Some cur \<Rightarrow> if layer < cur then m(a \<mapsto> layer) else m)"

definition minAncestors :: "(string \<rightharpoonup> nat) \<Rightarrow> string list \<Rightarrow> (string \<rightharpoonup> nat) option" where
  "minAncestors layerOf pkgs =
     fold_opt (\<lambda>m pkg. map_option (foldl (lowerAncestor (at_key layerOf pkg)) m) (ancestors pkg)) Map.empty pkgs"

definition layDir :: "(string \<rightharpoonup> nat) \<Rightarrow> (string \<rightharpoonup> nat) \<Rightarrow> (string \<times> Node) list \<Rightarrow> string \<Rightarrow> (string \<times> Node) list option" where
  "layDir layerOf minAncestor nodes d =
     updateNode d (\<lambda>n. n\<lparr> nLayer := (case layerOf d of Some l \<Rightarrow> l | None \<Rightarrow> at_key minAncestor d) \<rparr>) nodes"

definition layFile :: "(string \<times> Node) list \<Rightarrow> string \<Rightarrow> (string \<times> Node) list option" where
  "layFile nodes f = do {
     n \<leftarrow> map_of nodes f;
     layer \<leftarrow> (if nParent n \<noteq> [] then map_option nLayer (map_of nodes (nParent n)) else Some 0);
     updateNode f (\<lambda>n. n\<lparr> nLayer := layer \<rparr>) nodes
   }"

definition orderLayer :: "(string \<times> Node) list \<Rightarrow> nat \<Rightarrow> (string \<times> Node) list" where
  "orderLayer nodes layer =
     foldl (\<lambda>nodes (i, n). AList.update (nID n) (n\<lparr> nOrder := i \<rparr>) nodes) nodes
       (enumerate 0 (sort_key (\<lambda>n. (nParent n, nName n)) (filter (\<lambda>n. nLayer n = layer) (map snd nodes))))"

definition assignOrder :: "(string \<times> Node) list \<Rightarrow> (string \<times> Node) list" where
  "assignOrder nodes = foldl orderLayer nodes (sorted_list_of_set (set (map (nLayer \<circ> snd) nodes)))"

definition applyLayout :: "fileTree \<Rightarrow> Edge list \<Rightarrow> (fileTree \<times> Violation list) option" where
  "applyLayout t edges = do {
     let pkgs = sorted_list_of_set (tDirHasSource t);
     (layerOf, violations) \<leftarrow> layerPackages pkgs edges;
     minAncestor \<leftarrow> minAncestors layerOf pkgs;
     nodes \<leftarrow> fold_opt (layDir layerOf minAncestor) (tNodes t) (sorted_list_of_set (tDirSet t));
     nodes \<leftarrow> fold_opt layFile nodes (sortedFiles t);
     Some (t\<lparr> tNodes := assignOrder nodes \<rparr>, violations)
   }"


section \<open>Walks to the root\<close>

definition normal_path :: "string \<Rightarrow> bool" where
  "normal_path p \<longleftrightarrow> (\<exists>segs. segs \<noteq> [] \<and> (\<forall>s \<in> set segs. normal_seg s) \<and> p = join ''/'' segs)"

lemma normalizeFiles_normal: "p \<in> set (normalizeFiles files) \<Longrightarrow> normal_path p"
proof -
  assume "p \<in> set (normalizeFiles files)"
  then obtain f where p: "p = path_clean f" and ok: "p \<noteq> ''.''" "p \<noteq> ''..''" "\<not> is_abs p" "\<not> prefix ''../'' p"
    by (auto simp: normalizeFiles_def)
  let ?segs = "clean_segments False (split_char slash f)"
  have "\<not> is_abs f" using ok(3) p by simp
  then have eq: "p = (if ?segs = [] then ''.'' else join ''/'' ?segs)" using p by (simp add: path_clean_def Let_def)
  have "clean_inv False (rev ?segs)"
    by (rule clean_inv_segments) (auto dest: split_char_no_sep)
  then obtain ns k where "rev ?segs = ns @ replicate k ''..''" and ns: "\<forall>s \<in> set ns. normal_seg s"
    by (auto simp: clean_inv_def)
  then have segs: "?segs = replicate k ''..'' @ rev ns" by (metis rev_append rev_replicate rev_rev_ident)
  have "k = 0"
  proof (rule ccontr)
    assume "k \<noteq> 0"
    then obtain rest where "?segs = ''..'' # rest" using segs by (cases k) auto
    then show False using eq ok(2,4) by (cases rest) auto
  qed
  with segs eq ok(1) ns show ?thesis unfolding normal_path_def by (intro exI [of _ "rev ns"]) (auto split: if_splits)
qed

lemma path_clean_slash:
  assumes "p \<noteq> []"
  shows "path_clean (p @ ''/'') = path_clean p"
proof -
  have "is_abs (p @ ''/'') = is_abs p" using assms by (cases p) (auto simp: is_abs_def)
  moreover have "clean_segments r (split_char slash (p @ ''/'')) = clean_segments r (split_char slash p)" for r
    using split_char_snoc [of slash p] by (simp add: clean_segments_def)
  ultimately show ?thesis by (simp add: path_clean_def)
qed

lemma parentDir_join:
  assumes "\<forall>s \<in> set (segs @ [s]). normal_seg s"
  shows "parentDir (join ''/'' (segs @ [s])) = join ''/'' segs"
proof (cases "segs = []")
  case True
  then have "slash \<notin> set s" using assms by (simp add: normal_seg_def)
  with True show ?thesis by (simp add: parentDir_def path_dir_def cut_last_char_None)
next
  case False
  have s: "slash \<notin> set s" using assms by (simp add: normal_seg_def)
  have ne: "join ''/'' segs \<noteq> []" "join ''/'' segs \<noteq> ''.''"
  proof -
    obtain a as where a: "segs = a # as" using False by (cases segs) auto
    have "a \<noteq> []" "a \<noteq> ''.''" using assms a by (auto simp: normal_seg_def)
    then show "join ''/'' segs \<noteq> []" "join ''/'' segs \<noteq> ''.''" unfolding a by (cases as; cases a; auto)+
  qed
  have "cut_last_char slash (join ''/'' (segs @ [s])) = Some (join ''/'' segs, s)"
    using join_snoc [OF False, of "''/''" s] cut_last_char_append [OF s, of "join ''/'' segs"] by simp
  then have "path_dir (join ''/'' (segs @ [s])) = path_clean (join ''/'' segs)"
    using path_clean_slash [OF ne(1)] by (simp add: path_dir_def)
  also have "\<dots> = join ''/'' segs" using path_clean_normal [OF False] assms by simp
  finally show ?thesis using ne by (simp add: parentDir_def)
qed

lemma join_inj:
  "\<forall>s \<in> set as. normal_seg s \<Longrightarrow> \<forall>s \<in> set bs. normal_seg s \<Longrightarrow> as \<noteq> [] \<Longrightarrow> bs \<noteq> [] \<Longrightarrow> join ''/'' as = join ''/'' bs \<Longrightarrow> as = bs"
proof -
  assume as: "\<forall>s \<in> set as. normal_seg s" "as \<noteq> []" and bs: "\<forall>s \<in> set bs. normal_seg s" "bs \<noteq> []"
    and eq: "join ''/'' as = join ''/'' bs"
  have "split_char slash (join ''/'' as) = as" by (rule split_char_join) (use as in \<open>simp_all add: normal_seg_def\<close>)
  moreover have "split_char slash (join ''/'' bs) = bs" by (rule split_char_join) (use bs in \<open>simp_all add: normal_seg_def\<close>)
  ultimately show "as = bs" unfolding eq by (rule trans [OF sym])
qed

lemma join_normal_ne: "\<forall>s \<in> set segs. normal_seg s \<Longrightarrow> segs \<noteq> [] \<Longrightarrow> join ''/'' segs \<noteq> []"
proof (cases segs)
  case (Cons a as)
  moreover assume "\<forall>s \<in> set segs. normal_seg s"
  ultimately have "a \<noteq> []" by (simp add: normal_seg_def)
  then show ?thesis using Cons by (cases as) simp_all
qed simp

lemma ancestors_join:
  assumes "\<forall>s \<in> set segs. normal_seg s" and "segs \<noteq> []"
  shows "\<exists>ups. ancestors (join ''/'' segs) = Some ups \<and> distinct ups \<and>
    set ups = {join ''/'' pre | pre. strict_prefix pre segs \<and> pre \<noteq> []}"
  using assms
proof (induction segs rule: rev_induct)
  case (snoc s segs)
  have parent: "parentDir (join ''/'' (segs @ [s])) = join ''/'' segs" by (rule parentDir_join [OF snoc.prems(1)])
  show ?case
  proof (cases "segs = []")
    case True
    then have "ancestors (join ''/'' (segs @ [s])) = Some []"
      using parent by (subst ancestors.simps) simp
    moreover have "\<not> (strict_prefix pre (segs @ [s]) \<and> pre \<noteq> [])" for pre
      using True by (auto simp: strict_prefix_def prefix_Cons)
    ultimately show ?thesis by simp
  next
    case False
    have norm: "\<forall>x \<in> set segs. normal_seg x" using snoc.prems(1) by simp
    obtain ups where IH: "ancestors (join ''/'' segs) = Some ups" "distinct ups"
      "set ups = {join ''/'' pre | pre. strict_prefix pre segs \<and> pre \<noteq> []}" using snoc.IH [OF norm False] by blast
    have ne: "join ''/'' segs \<noteq> []" using norm False by (rule join_normal_ne)
    have diff: "join ''/'' segs \<noteq> join ''/'' (segs @ [s])" using join_snoc [OF False, of "''/''" s] by simp
    have "ancestors (join ''/'' (segs @ [s])) = Some (join ''/'' segs # ups)"
      using parent ne diff IH(1) by (subst ancestors.simps) simp
    moreover have "join ''/'' segs \<notin> set ups"
    proof
      assume "join ''/'' segs \<in> set ups"
      then obtain pre where "strict_prefix pre segs" "pre \<noteq> []" "join ''/'' segs = join ''/'' pre" using IH(3) by auto
      moreover have "\<forall>x \<in> set pre. normal_seg x" using calculation(1) norm by (meson set_mono_prefix strict_prefixE prefix_order.less_imp_le subsetD)
      ultimately show False using join_inj [OF norm _ False, of pre] by auto
    qed
    moreover have "set (join ''/'' segs # ups) = {join ''/'' pre | pre. strict_prefix pre (segs @ [s]) \<and> pre \<noteq> []}"
      using IH(3) False by (auto simp: strict_prefix_def)
    ultimately show ?thesis using IH(2) by (intro exI [of _ "join ''/'' segs # ups"]) simp
  qed
qed simp

lemma normal_path_ancestors:
  assumes "normal_path p"
  obtains ups where "ancestors p = Some ups" and "distinct ups" and "\<forall>d \<in> set ups. normal_path d" and "p \<notin> set ups"
    and "parentDir p = [] \<longleftrightarrow> ups = []" and "parentDir p \<noteq> [] \<Longrightarrow> parentDir p \<in> set ups"
    and "\<And>d. d \<in> set ups \<Longrightarrow> parentDir d = [] \<or> parentDir d \<in> set ups"
proof -
  obtain segs where segs: "segs \<noteq> []" "\<forall>s \<in> set segs. normal_seg s" and p: "p = join ''/'' segs"
    using assms by (auto simp: normal_path_def)
  obtain ups where ups: "ancestors p = Some ups" "distinct ups"
    "set ups = {join ''/'' pre | pre. strict_prefix pre segs \<and> pre \<noteq> []}" using ancestors_join [OF segs(2,1)] p by auto
  have sub: "\<forall>x \<in> set pre. normal_seg x" if "strict_prefix pre segs" for pre
    using segs(2) that by (auto dest: set_mono_prefix simp: strict_prefix_def)
  show thesis
  proof
    show "ancestors p = Some ups" "distinct ups" by fact+
    show "\<forall>d \<in> set ups. normal_path d" using ups(3) sub by (auto simp: normal_path_def)
    show "p \<notin> set ups" using ups(3) join_inj [OF segs(2) sub segs(1)] p by auto
    have up: "parentDir (join ''/'' pre) = join ''/'' (butlast pre)" if "pre \<noteq> []" "\<forall>x \<in> set pre. normal_seg x" for pre
      using parentDir_join [of "butlast pre" "last pre"] that by simp
    have parent: "parentDir p = join ''/'' (butlast segs)" using up [OF segs] p by simp
    have empty: "join ''/'' pre = [] \<longleftrightarrow> pre = []" if "\<forall>x \<in> set pre. normal_seg x" for pre
      using join_normal_ne [OF that] by (cases pre) simp_all
    have bl: "strict_prefix (butlast pre) pre" if "pre \<noteq> []" for pre :: "string list"
      using that by (metis append_butlast_last_id strict_prefixI')
    show mem: "parentDir p \<noteq> [] \<Longrightarrow> parentDir p \<in> set ups" using parent bl [OF segs(1)] ups(3) by auto
    show "parentDir p = [] \<longleftrightarrow> ups = []"
    proof
      show "parentDir p = []" if "ups = []" using mem that by auto
      show "ups = []" if "parentDir p = []"
      proof -
        have "ancestors p = Some []" using that by (subst ancestors.simps) simp
        with ups(1) show ?thesis by simp
      qed
    qed
    show "parentDir d = [] \<or> parentDir d \<in> set ups" if "d \<in> set ups" for d
    proof -
      from that ups(3) obtain pre where pre: "strict_prefix pre segs" "pre \<noteq> []" "d = join ''/'' pre" by auto
      then have "parentDir d = join ''/'' (butlast pre)" using up sub by simp
      moreover have "strict_prefix (butlast pre) segs" using bl [OF pre(2)] pre(1) by (rule prefix_order.less_trans)
      ultimately show ?thesis using ups(3) by (cases "butlast pre = []") auto
    qed
  qed
qed


section \<open>What the tree holds\<close>

definition liesUnder :: "string \<Rightarrow> string \<Rightarrow> bool" where
  "liesUnder d p \<longleftrightarrow> (case ancestors p of None \<Rightarrow> False | Some ups \<Rightarrow> d \<in> set ups)"

definition locOf :: "(string \<rightharpoonup> string) \<Rightarrow> string \<Rightarrow> nat" where
  "locOf contents p = countLines (case contents p of None \<Rightarrow> [] | Some data \<Rightarrow> data)"

lemma updateNode_Some:
  "map_of nodes d = Some n \<Longrightarrow>
     \<exists>nodes'. updateNode d f nodes = Some nodes' \<and> map_of nodes' = (map_of nodes)(d \<mapsto> f n)"
  by (simp add: updateNode_def update_conv')

lemma langsOf_update [simp]: "langsOf (AList.update d ls m) = (langsOf m)(d := ls)"
  by (auto simp: langsOf_def update_conv')

lemma langsOf_Nil [simp]: "langsOf [] d = []"
  by (simp add: langsOf_def)

lemma collectDirs_eq:
  assumes "\<forall>p \<in> set paths. normal_path p"
  shows "collectDirs paths = Some {d. \<exists>p \<in> set paths. liesUnder d p}"
proof -
  have "fold_opt (\<lambda>dirs p. map_option (\<lambda>as. dirs \<union> set as) (ancestors p)) D paths = Some (D \<union> {d. \<exists>p \<in> set paths. liesUnder d p})" for D
    using assms
  proof (induction paths arbitrary: D)
    case (Cons p paths)
    have "normal_path p" using Cons.prems by simp
    then obtain ups where a: "ancestors p = Some ups" by (rule normal_path_ancestors)
    have "D \<union> set ups \<union> {d. \<exists>p \<in> set paths. liesUnder d p} = D \<union> {d. \<exists>p \<in> set (p # paths). liesUnder d p}"
      using a by (auto simp: liesUnder_def)
    with Cons a show ?case by simp
  qed simp
  from this [of "{}"] show ?thesis by (simp add: collectDirs_def)
qed

abbreviation bump :: "nat \<Rightarrow> Node \<Rightarrow> Node" where
  "bump loc n \<equiv> n\<lparr> nLoc := nLoc n + loc, nFileCount := nFileCount n + 1 \<rparr>"

lemma rollUp_fold:
  assumes "distinct ups" and "\<forall>d \<in> set ups. map_of (sNodes st) d \<noteq> None"
  shows "\<exists>st'. fold_opt (rollUp loc lang) st ups = Some st' \<and> sHasSource st' = sHasSource st \<and>
    map_of (sNodes st') = (\<lambda>x. if x \<in> set ups then map_option (bump loc) (map_of (sNodes st) x) else map_of (sNodes st) x) \<and>
    langsOf (sDirLangs st') = (\<lambda>x. case lang of Some l \<Rightarrow> if x \<in> set ups then List.insert l (langsOf (sDirLangs st) x)
      else langsOf (sDirLangs st) x | None \<Rightarrow> langsOf (sDirLangs st) x) \<and>
    (distinct (map fst (sDirLangs st)) \<longrightarrow> distinct (map fst (sDirLangs st')))"
  using assms
proof (induction ups arbitrary: st)
  case (Cons d ups)
  obtain n where n: "map_of (sNodes st) d = Some n" using Cons.prems by auto
  obtain nodes where nodes: "updateNode d (bump loc) (sNodes st) = Some nodes" "map_of nodes = (map_of (sNodes st))(d \<mapsto> bump loc n)"
    using updateNode_Some [OF n] by blast
  let ?langs = "case lang of None \<Rightarrow> sDirLangs st | Some l \<Rightarrow> AList.update d (List.insert l (langsOf (sDirLangs st) d)) (sDirLangs st)"
  let ?st = "st\<lparr> sNodes := nodes, sDirLangs := ?langs \<rparr>"
  have step: "rollUp loc lang st d = Some ?st" using nodes(1) by (simp add: rollUp_def)
  have dist: "distinct ups" "d \<notin> set ups" using Cons.prems(1) by auto
  have known: "\<forall>d \<in> set ups. map_of (sNodes ?st) d \<noteq> None" using Cons.prems(2) nodes(2) dist(2) by auto
  from Cons.IH [OF dist(1) known] obtain st' where st': "fold_opt (rollUp loc lang) ?st ups = Some st'"
    "sHasSource st' = sHasSource ?st"
    "map_of (sNodes st') = (\<lambda>x. if x \<in> set ups then map_option (bump loc) (map_of (sNodes ?st) x) else map_of (sNodes ?st) x)"
    "langsOf (sDirLangs st') = (\<lambda>x. case lang of Some l \<Rightarrow> if x \<in> set ups then List.insert l (langsOf (sDirLangs ?st) x)
      else langsOf (sDirLangs ?st) x | None \<Rightarrow> langsOf (sDirLangs ?st) x)"
    "distinct (map fst (sDirLangs ?st)) \<longrightarrow> distinct (map fst (sDirLangs st'))" by blast
  have "map_of (sNodes st') x = (if x \<in> set (d # ups) then map_option (bump loc) (map_of (sNodes st) x) else map_of (sNodes st) x)" for x
    using st'(3) nodes(2) n dist(2) by auto
  moreover have "langsOf (sDirLangs st') x = (case lang of Some l \<Rightarrow> if x \<in> set (d # ups) then List.insert l (langsOf (sDirLangs st) x)
      else langsOf (sDirLangs st) x | None \<Rightarrow> langsOf (sDirLangs st) x)" for x
    using st'(4) dist(2) by (auto split: option.splits)
  moreover have "distinct (map fst (sDirLangs st)) \<longrightarrow> distinct (map fst ?langs)"
    by (auto split: option.splits intro: distinct_update)
  moreover have "distinct (map fst (sDirLangs st)) \<longrightarrow> distinct (map fst (sDirLangs st'))" using st'(5) calculation(3) by simp
  ultimately show ?case using step st'(1,2) by (intro exI [of _ st']) (simp add: fun_eq_iff)
qed (auto split: option.splits)

text \<open>The state of the loop over the files.\<close>

definition treeInv :: "(string \<rightharpoonup> string) \<Rightarrow> string set \<Rightarrow> string list \<Rightarrow> treeState \<Rightarrow> bool" where
  "treeInv contents dirs fs st \<longleftrightarrow>
     map_of (sNodes st) = (\<lambda>x. if x \<in> set fs then Some (fileNode x (locOf contents x))
       else if x \<in> dirs then Some ((dirNode x)\<lparr> nLoc := sum_list (map (locOf contents) (filter (liesUnder x) fs)),
          nFileCount := length (filter (liesUnder x) fs) \<rparr>) else None) \<and>
     sHasSource st = {parentDir p | p. p \<in> set fs \<and> languageForFile p \<noteq> None \<and> parentDir p \<noteq> []} \<and>
     (\<forall>d. set (langsOf (sDirLangs st) d) = {l. \<exists>p \<in> set fs. liesUnder d p \<and> languageForFile p = Some l} \<and>
          distinct (langsOf (sDirLangs st) d)) \<and>
     distinct (map fst (sDirLangs st))"

lemma addFile_inv:
  assumes inv: "treeInv contents dirs fs st" and p: "normal_path p" "p \<notin> dirs" "\<forall>d. liesUnder d p \<longrightarrow> d \<in> dirs"
    and fs: "\<forall>q \<in> set fs. q \<notin> dirs" and new: "p \<notin> set fs"
  shows "\<exists>st'. addFile contents st p = Some st' \<and> treeInv contents dirs (fs @ [p]) st'"
proof -
  obtain ups where ups: "ancestors p = Some ups" "distinct ups" "p \<notin> set ups" using normal_path_ancestors [OF p(1)] by metis
  have up: "liesUnder d p \<longleftrightarrow> d \<in> set ups" for d using ups(1) by (simp add: liesUnder_def)
  let ?loc = "locOf contents p" and ?lang = "languageForFile p"
  let ?st = "st\<lparr> sNodes := AList.update p (fileNode p ?loc) (sNodes st),
    sHasSource := (if ?lang \<noteq> None \<and> parentDir p \<noteq> [] then insert (parentDir p) (sHasSource st) else sHasSource st) \<rparr>"
  have nodes: "map_of (sNodes st) = (\<lambda>x. if x \<in> set fs then Some (fileNode x (locOf contents x))
       else if x \<in> dirs then Some ((dirNode x)\<lparr> nLoc := sum_list (map (locOf contents) (filter (liesUnder x) fs)),
          nFileCount := length (filter (liesUnder x) fs) \<rparr>) else None)" using inv by (simp add: treeInv_def)
  have dirs: "d \<in> dirs \<and> d \<notin> set fs \<and> d \<noteq> p" if "d \<in> set ups" for d using that p(2,3) fs up by auto
  have nodes': "map_of (sNodes ?st) = (map_of (sNodes st))(p \<mapsto> fileNode p ?loc)" by (simp add: update_conv')
  have "\<forall>d \<in> set ups. map_of (sNodes ?st) d \<noteq> None" unfolding nodes' nodes using dirs by simp
  from rollUp_fold [OF ups(2) this, of ?loc ?lang] obtain st' where st': "fold_opt (rollUp ?loc ?lang) ?st ups = Some st'"
    "sHasSource st' = sHasSource ?st"
    "map_of (sNodes st') = (\<lambda>x. if x \<in> set ups then map_option (bump ?loc) (map_of (sNodes ?st) x) else map_of (sNodes ?st) x)"
    "langsOf (sDirLangs st') = (\<lambda>x. case ?lang of Some l \<Rightarrow> if x \<in> set ups then List.insert l (langsOf (sDirLangs ?st) x)
      else langsOf (sDirLangs ?st) x | None \<Rightarrow> langsOf (sDirLangs ?st) x)"
    "distinct (map fst (sDirLangs ?st)) \<longrightarrow> distinct (map fst (sDirLangs st'))" by blast
  have run: "addFile contents st p = Some st'" using st'(1) ups(1) by (simp add: addFile_def Let_def locOf_def)
  have 1: "map_of (sNodes st') x = (if x \<in> set (fs @ [p]) then Some (fileNode x (locOf contents x))
       else if x \<in> dirs then Some ((dirNode x)\<lparr> nLoc := sum_list (map (locOf contents) (filter (liesUnder x) (fs @ [p]))),
          nFileCount := length (filter (liesUnder x) (fs @ [p])) \<rparr>) else None)" for x
    unfolding st'(3) nodes' nodes using dirs [of x] up [of x] ups(3) by (auto simp: add.commute)
  have 2: "sHasSource st' = {parentDir q | q. q \<in> set (fs @ [p]) \<and> languageForFile q \<noteq> None \<and> parentDir q \<noteq> []}"
    unfolding st'(2) using inv by (auto simp: treeInv_def)
  have 3: "set (langsOf (sDirLangs st') d) = {l. \<exists>q \<in> set (fs @ [p]). liesUnder d q \<and> languageForFile q = Some l} \<and>
      distinct (langsOf (sDirLangs st') d)" for d
    unfolding st'(4) using inv up by (auto simp: treeInv_def split: option.splits)
  have "distinct (map fst (sDirLangs st'))" using st'(5) inv by (simp add: treeInv_def)
  then have "treeInv contents dirs (fs @ [p]) st'" unfolding treeInv_def using 1 2 3 by (simp only: fun_eq_iff) blast
  with run show ?thesis by blast
qed

lemma addFile_fold:
  assumes "treeInv contents dirs fs st" and "\<forall>p \<in> set ps. normal_path p \<and> p \<notin> dirs \<and> (\<forall>d. liesUnder d p \<longrightarrow> d \<in> dirs)"
    and "\<forall>q \<in> set fs. q \<notin> dirs" and "distinct (fs @ ps)"
  shows "\<exists>st'. fold_opt (addFile contents) st ps = Some st' \<and> treeInv contents dirs (fs @ ps) st'"
  using assms
proof (induction ps arbitrary: fs st)
  case (Cons p ps)
  have "normal_path p" "p \<notin> dirs" "\<forall>d. liesUnder d p \<longrightarrow> d \<in> dirs" "p \<notin> set fs" using Cons.prems(2,4) by auto
  from addFile_inv [OF Cons.prems(1) this(1-3) Cons.prems(3) this(4)] obtain st'
    where st': "addFile contents st p = Some st'" "treeInv contents dirs (fs @ [p]) st'" by blast
  have "\<exists>st''. fold_opt (addFile contents) st' ps = Some st'' \<and> treeInv contents dirs ((fs @ [p]) @ ps) st''"
    by (rule Cons.IH [OF st'(2)]) (use Cons.prems \<open>p \<notin> dirs\<close> in auto)
  with st'(1) show ?case by simp
qed simp


lemma setLanguage_fold:
  assumes "distinct (map fst entries)" and "\<forall>e \<in> set entries. snd e \<noteq> [] \<longrightarrow> map_of nodes (fst e) \<noteq> None"
  shows "\<exists>nodes'. fold_opt setLanguage nodes entries = Some nodes' \<and>
    map_of nodes' = (\<lambda>x. case langsOf entries x of
      [l] \<Rightarrow> map_option (\<lambda>n. n\<lparr> nLanguage := Some l \<rparr>) (map_of nodes x) | _ \<Rightarrow> map_of nodes x)"
  using assms
proof (induction entries arbitrary: nodes)
  case (Cons e entries)
  obtain d ls where e: "e = (d, ls)" by (cases e)
  have d: "d \<notin> fst ` set entries" and dist: "distinct (map fst entries)" using Cons.prems(1) e by auto
  then have none: "langsOf entries d = []" by (simp add: langsOf_def map_of_eq_None_iff [THEN iffD2])
  have "\<exists>n1. setLanguage nodes e = Some n1 \<and> map_of n1 = (\<lambda>x. if x = d then (case ls of
      [l] \<Rightarrow> map_option (\<lambda>n. n\<lparr> nLanguage := Some l \<rparr>) (map_of nodes x) | _ \<Rightarrow> map_of nodes x) else map_of nodes x)"
  proof (cases "\<exists>l. ls = [l]")
    case True
    then obtain l where l: "ls = [l]" by blast
    then obtain n where n: "map_of nodes d = Some n" using Cons.prems(2) e by auto
    from updateNode_Some [OF n, of "\<lambda>n. n\<lparr> nLanguage := Some l \<rparr>"] n l show ?thesis
      by (auto simp: setLanguage_def e fun_eq_iff)
  next
    case False
    then show ?thesis by (auto simp: setLanguage_def e fun_eq_iff split: list.splits)
  qed
  then obtain n1 where n1: "setLanguage nodes e = Some n1" "map_of n1 = (\<lambda>x. if x = d then (case ls of
      [l] \<Rightarrow> map_option (\<lambda>n. n\<lparr> nLanguage := Some l \<rparr>) (map_of nodes x) | _ \<Rightarrow> map_of nodes x) else map_of nodes x)" by blast
  have "map_of n1 x = None \<longleftrightarrow> map_of nodes x = None" for x unfolding n1(2) by (auto split: list.splits)
  then have known: "\<forall>e \<in> set entries. snd e \<noteq> [] \<longrightarrow> map_of n1 (fst e) \<noteq> None" using Cons.prems(2) by simp
  from Cons.IH [OF dist known] obtain n2 where n2: "fold_opt setLanguage n1 entries = Some n2"
    "map_of n2 = (\<lambda>x. case langsOf entries x of
      [l] \<Rightarrow> map_option (\<lambda>n. n\<lparr> nLanguage := Some l \<rparr>) (map_of n1 x) | _ \<Rightarrow> map_of n1 x)" by blast
  have "langsOf (e # entries) x = (if x = d then ls else langsOf entries x)" for x by (simp add: langsOf_def e)
  then have "map_of n2 x = (case langsOf (e # entries) x of
      [l] \<Rightarrow> map_option (\<lambda>n. n\<lparr> nLanguage := Some l \<rparr>) (map_of nodes x) | _ \<Rightarrow> map_of nodes x)" for x
    using n2(2) n1(2) none by (auto split: list.splits)
  then show ?case using n1(1) n2(1) by (simp add: fun_eq_iff)
qed (simp add: langsOf_def)

definition uniformLanguage :: "Language set \<Rightarrow> Language option" where
  "uniformLanguage ls = (if ls = {LanguageGo} then Some LanguageGo else if ls = {LanguageTypeScript} then Some LanguageTypeScript else None)"

lemma singleton_language:
  assumes "set ls = L" and "distinct ls"
  shows "(case ls of [l] \<Rightarrow> f (Some l) | _ \<Rightarrow> f None) = f (uniformLanguage L)"
proof -
  have "ls = [l] \<longleftrightarrow> L = {l}" for l
  proof
    assume "L = {l}"
    then have "set ls = {l}" and "length ls = 1" using assms distinct_card [of ls] by auto
    then show "ls = [l]" by (cases ls) auto
  qed (use assms in auto)
  then have "uniformLanguage L = (case ls of [l] \<Rightarrow> Some l | _ \<Rightarrow> None)"
    unfolding uniformLanguage_def using Language.exhaust by (auto split: list.splits)
  then show ?thesis by (simp split: list.splits)
qed

lemma dirNodes_map:
  "map_of (foldl (\<lambda>nodes d. AList.update d (dirNode d) nodes) nodes ds) =
     (\<lambda>x. if x \<in> set ds then Some (dirNode x) else map_of nodes x)"
  by (induction ds arbitrary: nodes) (auto simp: update_conv' fun_eq_iff)

definition dirRollUp :: "(string \<rightharpoonup> string) \<Rightarrow> string set \<Rightarrow> string \<Rightarrow> Node" where
  "dirRollUp contents files d =
     (let below = {p \<in> files. liesUnder d p}
      in (dirNode d)\<lparr> nLoc := (\<Sum>p \<in> below. locOf contents p), nFileCount := card below,
           nLanguage := uniformLanguage {l. \<exists>p \<in> files. liesUnder d p \<and> languageForFile p = Some l} \<rparr>)"

lemma buildTree_result:
  assumes "\<forall>p \<in> set paths. normal_path p" and "distinct paths"
  defines "dirs \<equiv> {d. \<exists>p \<in> set paths. liesUnder d p}" and "files \<equiv> {p \<in> set paths. \<not> (\<exists>q \<in> set paths. liesUnder p q)}"
  shows "\<exists>t. buildTree paths contents = Some t \<and> tDirSet t = dirs \<and> tFileSet t = files \<and>
    tDirHasSource t = {parentDir p | p. p \<in> files \<and> languageForFile p \<noteq> None \<and> parentDir p \<noteq> []} \<and>
    map_of (tNodes t) = (\<lambda>x. if x \<in> files then Some (fileNode x (locOf contents x))
      else if x \<in> dirs then Some (dirRollUp contents files x) else None)"
proof -
  have findirs: "finite dirs"
  proof -
    have "{d. liesUnder d p} \<subseteq> set (the (ancestors p))" for p by (auto simp: liesUnder_def split: option.splits)
    then have "finite {d. liesUnder d p}" for p using finite_subset by blast
    then show ?thesis unfolding dirs_def by (simp add: Collect_bex_eq)
  qed
  have finfiles: "finite files" by (simp add: files_def)
  let ?fs = "sorted_list_of_set files"
  let ?start = "\<lparr> sNodes = foldl (\<lambda>nodes d. AList.update d (dirNode d) nodes) [] (sorted_list_of_set dirs), sHasSource = {}, sDirLangs = [] \<rparr>"
  have "dirNode x = (dirNode x)\<lparr> nLoc := 0, nFileCount := 0 \<rparr>" for x by (simp add: dirNode_def)
  then have "treeInv contents dirs [] ?start"
    by (auto simp: treeInv_def dirNodes_map findirs fun_eq_iff)
  then have "\<exists>st. fold_opt (addFile contents) ?start ?fs = Some st \<and> treeInv contents dirs ([] @ ?fs) st"
    by (rule addFile_fold) (use assms(1) finfiles in \<open>auto simp: files_def dirs_def\<close>)
  then obtain st where st: "fold_opt (addFile contents) ?start ?fs = Some st" "treeInv contents dirs ?fs st" by auto
  have nodes: "map_of (sNodes st) = (\<lambda>x. if x \<in> files then Some (fileNode x (locOf contents x))
       else if x \<in> dirs then Some ((dirNode x)\<lparr> nLoc := sum_list (map (locOf contents) (filter (liesUnder x) ?fs)),
          nFileCount := length (filter (liesUnder x) ?fs) \<rparr>) else None)"
    and source: "sHasSource st = {parentDir p | p. p \<in> files \<and> languageForFile p \<noteq> None \<and> parentDir p \<noteq> []}"
    and langs: "\<And>d. set (langsOf (sDirLangs st) d) = {l. \<exists>p \<in> files. liesUnder d p \<and> languageForFile p = Some l}"
      "\<And>d. distinct (langsOf (sDirLangs st) d)"
    and keys: "distinct (map fst (sDirLangs st))"
    using st(2) finfiles by (simp_all add: treeInv_def)
  have known: "map_of (sNodes st) d \<noteq> None" if "(d, ls) \<in> set (sDirLangs st)" "ls \<noteq> []" for d ls
  proof
    assume no: "map_of (sNodes st) d = None"
    have "set (langsOf (sDirLangs st) d) \<noteq> {}" using keys that by (simp add: langsOf_def)
    then have "d \<in> dirs" unfolding langs(1) dirs_def files_def by auto
    then show False using no by (simp add: nodes split: if_splits)
  qed
  then have "\<forall>e \<in> set (sDirLangs st). snd e \<noteq> [] \<longrightarrow> map_of (sNodes st) (fst e) \<noteq> None" by (metis prod.collapse)
  from setLanguage_fold [OF keys this] obtain ns where ns: "fold_opt setLanguage (sNodes st) (sDirLangs st) = Some ns"
    "map_of ns = (\<lambda>x. case langsOf (sDirLangs st) x of
      [l] \<Rightarrow> map_option (\<lambda>n. n\<lparr> nLanguage := Some l \<rparr>) (map_of (sNodes st) x) | _ \<Rightarrow> map_of (sNodes st) x)" by blast
  have sum: "sum_list (map f (filter P ?fs)) = (\<Sum>p \<in> {p \<in> files. P p}. f p)" "length (filter P ?fs) = card {p \<in> files. P p}"
    for f :: "string \<Rightarrow> nat" and P
  proof -
    have d: "distinct (filter P ?fs)" and s: "set (filter P ?fs) = {p \<in> files. P p}" using finfiles by auto
    from sum_list_distinct_conv_sum_set [OF d] s show "sum_list (map f (filter P ?fs)) = (\<Sum>p \<in> {p \<in> files. P p}. f p)" by simp
    from distinct_card [OF d] s show "length (filter P ?fs) = card {p \<in> files. P p}" by simp
  qed
  have "map_of ns x = (if x \<in> files then Some (fileNode x (locOf contents x))
      else if x \<in> dirs then Some (dirRollUp contents files x) else None)" for x
  proof (cases "x \<in> files")
    case True
    then have "\<not> liesUnder x p" if "p \<in> files" for p using that by (auto simp: files_def)
    then have "langsOf (sDirLangs st) x = []" using langs(1) [of x] by auto
    then show ?thesis using True ns(2) nodes by simp
  next
    case False
    show ?thesis
    proof (cases "x \<in> dirs")
      case True
      let ?n = "(dirNode x)\<lparr> nLoc := sum_list (map (locOf contents) (filter (liesUnder x) ?fs)), nFileCount := length (filter (liesUnder x) ?fs) \<rparr>"
      have "map_of (sNodes st) x = Some ?n" using False True nodes by simp
      moreover have "?n = ?n\<lparr> nLanguage := None \<rparr>" by (simp add: dirNode_def)
      ultimately have "map_of ns x = (case langsOf (sDirLangs st) x of [l] \<Rightarrow> Some (?n\<lparr> nLanguage := Some l \<rparr>) | _ \<Rightarrow> Some (?n\<lparr> nLanguage := None \<rparr>))"
        unfolding ns(2) by (auto split: list.splits)
      also have "\<dots> = Some (?n\<lparr> nLanguage := uniformLanguage {l. \<exists>p \<in> files. liesUnder x p \<and> languageForFile p = Some l} \<rparr>)"
        using singleton_language [OF langs(1) [of x] langs(2) [of x], of "\<lambda>l. Some (?n\<lparr> nLanguage := l \<rparr>)"] by simp
      finally show ?thesis using True False by (simp add: dirRollUp_def Let_def sum)
    next
      case False
      then show ?thesis using \<open>x \<notin> files\<close> ns(2) nodes by (simp split: list.splits)
    qed
  qed
  moreover have "buildTree paths contents = Some \<lparr> tNodes = ns, tFileSet = files, tDirSet = dirs, tDirHasSource = sHasSource st \<rparr>"
  proof -
    have "set (filter (\<lambda>p. p \<notin> dirs) paths) = files" by (auto simp: files_def dirs_def)
    then show ?thesis using collectDirs_eq [OF assms(1)] st(1) ns(1)
      by (simp add: buildTree_def dirs_def Let_def)
  qed
  ultimately show ?thesis using source by (auto simp: fun_eq_iff)
qed


text \<open>Keys stay distinct, so the list of nodes holds each node once.\<close>

lemma updateNode_keys: "updateNode d f nodes = Some nodes' \<Longrightarrow> distinct (map fst nodes) \<Longrightarrow> distinct (map fst nodes')"
  by (auto simp: updateNode_def split: option.splits intro: distinct_update)

lemma fold_opt_keep:
  assumes "fold_opt f s xs = Some t" and "P s" and "\<And>x u v. P u \<Longrightarrow> x \<in> set xs \<Longrightarrow> f u x = Some v \<Longrightarrow> P v"
  shows "P t"
  using fold_opt_invariant [where I = "\<lambda>_. P", OF assms(1,2)] assms(3) by blast

lemma addFile_keys:
  assumes "addFile contents st p = Some st'" and "distinct (map fst (sNodes st))"
  shows "distinct (map fst (sNodes st'))"
proof -
  obtain ups st1 loc lang where run: "fold_opt (rollUp loc lang) st1 ups = Some st'" and st1: "sNodes st1 = AList.update p (fileNode p loc) (sNodes st)"
    using assms(1) by (auto simp: addFile_def Let_def split: bind_splits)
  show ?thesis
    by (rule fold_opt_keep [OF run])
      (auto simp: st1 rollUp_def split: bind_splits intro: distinct_update assms(2) updateNode_keys)
qed

lemma buildTree_keys:
  assumes "buildTree paths contents = Some t"
  shows "distinct (map fst (tNodes t))"
proof -
  obtain dirs st where run: "fold_opt (addFile contents) \<lparr> sNodes = foldl (\<lambda>nodes d. AList.update d (dirNode d) nodes) [] (sorted_list_of_set dirs),
      sHasSource = {}, sDirLangs = [] \<rparr> (sorted_list_of_set (set (filter (\<lambda>p. p \<notin> dirs) paths))) = Some st"
    and lang: "fold_opt setLanguage (sNodes st) (sDirLangs st) = Some (tNodes t)"
    using assms by (auto simp: buildTree_def Let_def split: bind_splits)
  have "distinct (map fst (foldl (\<lambda>nodes d. AList.update d (dirNode d) nodes) nodes ds))" if "distinct (map fst nodes)" for nodes ds
    using that by (induction ds arbitrary: nodes) (auto intro: distinct_update)
  then have "distinct (map fst (sNodes st))"
    by (intro fold_opt_keep [where P = "\<lambda>st. distinct (map fst (sNodes st))", OF run]) (auto intro: addFile_keys)
  then show ?thesis
    by (rule fold_opt_keep [OF lang]) (auto simp: setLanguage_def split: prod.splits list.splits intro: updateNode_keys)
qed

lemma path_base_join:
  assumes "\<forall>s \<in> set (segs @ [s]). normal_seg s"
  shows "path_base (join ''/'' (segs @ [s])) = s"
proof -
  have s: "s \<noteq> []" "slash \<notin> set s" using assms by (auto simp: normal_seg_def)
  have split: "join ''/'' (segs @ [s]) = (if segs = [] then s else (join ''/'' segs @ ''/'') @ s)"
    using join_snoc [of segs "''/''" s] by simp
  have "dropWhile (\<lambda>c. c = slash) (rev (join ''/'' (segs @ [s]))) = rev (join ''/'' (segs @ [s]))"
  proof -
    obtain ys y where y: "s = ys @ [y]" using s(1) by (cases s rule: rev_cases) auto
    then have "y \<noteq> slash" using s(2) by auto
    moreover have "rev (join ''/'' (segs @ [s])) = y # rev ((if segs = [] then [] else join ''/'' segs @ ''/'') @ ys)"
      using split y by simp
    ultimately show ?thesis by simp
  qed
  moreover have "join ''/'' (segs @ [s]) \<noteq> []" using s(1) split by auto
  moreover have "(case cut_last_char slash (join ''/'' (segs @ [s])) of None \<Rightarrow> join ''/'' (segs @ [s]) | Some (_, b) \<Rightarrow> b) = s"
  proof (cases "segs = []")
    case True
    then show ?thesis using cut_last_char_None [OF s(2)] by simp
  next
    case False
    then show ?thesis using cut_last_char_append [OF s(2), of "join ''/'' segs"] split by simp
  qed
  ultimately show ?thesis unfolding path_base_def by (simp add: Let_def)
qed

lemma parent_name_inj:
  assumes "normal_path p" and "normal_path q" and "parentDir p = parentDir q" and "path_base p = path_base q"
  shows "p = q"
proof -
  obtain ps where ps: "ps \<noteq> []" "\<forall>s \<in> set ps. normal_seg s" "p = join ''/'' ps" using assms(1) by (auto simp: normal_path_def)
  obtain qs where qs: "qs \<noteq> []" "\<forall>s \<in> set qs. normal_seg s" "q = join ''/'' qs" using assms(2) by (auto simp: normal_path_def)
  have p: "parentDir p = join ''/'' (butlast ps)" "path_base p = last ps"
    using parentDir_join [of "butlast ps" "last ps"] path_base_join [of "butlast ps" "last ps"] ps by simp_all
  have q: "parentDir q = join ''/'' (butlast qs)" "path_base q = last qs"
    using parentDir_join [of "butlast qs" "last qs"] path_base_join [of "butlast qs" "last qs"] qs by simp_all
  have np: "\<forall>s \<in> set (butlast ps). normal_seg s" "\<forall>s \<in> set (butlast qs). normal_seg s" using ps(2) qs(2) by (auto dest: in_set_butlastD)
  have eq: "join ''/'' (butlast ps) = join ''/'' (butlast qs)" using p q assms(3) by simp
  have "butlast ps = butlast qs"
  proof (cases "butlast ps = [] \<or> butlast qs = []")
    case True
    then show ?thesis using eq join_normal_ne [OF np(1)] join_normal_ne [OF np(2)] by fastforce
  next
    case False
    then show ?thesis using join_inj [OF np] eq by blast
  qed
  then have "ps = qs" using p q assms(4) ps(1) qs(1) by (metis append_butlast_last_id)
  then show ?thesis using ps(3) qs(3) by simp
qed


section \<open>What the layout assigns\<close>

lemma updateNode_fold:
  assumes "distinct ds" and "\<forall>d \<in> set ds. map_of nodes d \<noteq> None"
  shows "\<exists>nodes'. fold_opt (\<lambda>nodes d. updateNode d (g d) nodes) nodes ds = Some nodes' \<and>
    map_of nodes' = (\<lambda>x. if x \<in> set ds then map_option (g x) (map_of nodes x) else map_of nodes x)"
  using assms
proof (induction ds arbitrary: nodes)
  case (Cons d ds)
  then obtain n where n: "map_of nodes d = Some n" by auto
  from updateNode_Some [OF n, of "g d"] obtain nodes1 where n1: "updateNode d (g d) nodes = Some nodes1"
    "map_of nodes1 = (map_of nodes)(d \<mapsto> g d n)" by blast
  have "distinct ds" "\<forall>d \<in> set ds. map_of nodes1 d \<noteq> None" using Cons.prems n1(2) by auto
  from Cons.IH [OF this] obtain nodes' where n': "fold_opt (\<lambda>nodes d. updateNode d (g d) nodes) nodes1 ds = Some nodes'"
    "map_of nodes' = (\<lambda>x. if x \<in> set ds then map_option (g x) (map_of nodes1 x) else map_of nodes1 x)" by blast
  have "map_of nodes' x = (if x \<in> set (d # ds) then map_option (g x) (map_of nodes x) else map_of nodes x)" for x
    using n'(2) n1(2) n Cons.prems(1) by auto
  then show ?case using n1(1) n'(1) by (simp add: fun_eq_iff)
qed simp

lemma lowerAncestor_fold:
  "foldl (lowerAncestor l) m ups =
     (\<lambda>x. if x \<in> set ups then Some (case m x of None \<Rightarrow> l | Some cur \<Rightarrow> min l cur) else m x)"
proof (induction ups arbitrary: m)
  case (Cons a ups)
  have "lowerAncestor l m a = m(a \<mapsto> (case m a of None \<Rightarrow> l | Some cur \<Rightarrow> min l cur))"
    by (auto simp: lowerAncestor_def fun_eq_iff split: option.splits)
  then show ?case using Cons by (auto simp: fun_eq_iff split: option.splits)
qed simp

lemma minAncestors_eq:
  assumes "\<forall>p \<in> set pkgs. normal_path p"
  shows "minAncestors layerOf pkgs = Some (\<lambda>d.
    if \<exists>p \<in> set pkgs. liesUnder d p then Some (Min (at_key layerOf ` {p \<in> set pkgs. liesUnder d p})) else None)"
  using assms
proof (induction pkgs rule: rev_induct)
  case (snoc q pkgs)
  have "normal_path q" using snoc.prems by simp
  then obtain ups where ups: "ancestors q = Some ups" by (rule normal_path_ancestors)
  have under: "liesUnder d q \<longleftrightarrow> d \<in> set ups" for d using ups by (simp add: liesUnder_def)
  let ?S = "\<lambda>d ps. {p \<in> set ps. liesUnder d p}"
  have S: "?S d (pkgs @ [q]) = (if liesUnder d q then insert q (?S d pkgs) else ?S d pkgs)" for d by auto
  have M: "Min (at_key layerOf ` insert q (?S d pkgs)) = (if ?S d pkgs = {} then at_key layerOf q
      else min (at_key layerOf q) (Min (at_key layerOf ` ?S d pkgs)))" for d
  proof (cases "?S d pkgs = {}")
    case True
    show ?thesis unfolding True by simp
  next
    case False
    then show ?thesis by auto
  qed
  have ne: "(\<exists>p \<in> set ps. liesUnder d p) \<longleftrightarrow> ?S d ps \<noteq> {}" for d ps by blast
  from snoc have IH: "minAncestors layerOf pkgs = Some (\<lambda>d. if ?S d pkgs \<noteq> {} then Some (Min (at_key layerOf ` ?S d pkgs)) else None)"
    unfolding ne by simp
  have "minAncestors layerOf (pkgs @ [q]) = Some (foldl (lowerAncestor (at_key layerOf q))
      (\<lambda>d. if ?S d pkgs \<noteq> {} then Some (Min (at_key layerOf ` ?S d pkgs)) else None) ups)"
    using IH ups by (simp add: minAncestors_def fold_opt_append)
  also have "\<dots> = Some (\<lambda>d. if ?S d (pkgs @ [q]) \<noteq> {} then Some (Min (at_key layerOf ` ?S d (pkgs @ [q]))) else None)"
    unfolding lowerAncestor_fold S using under M by (auto simp: fun_eq_iff)
  finally show ?case unfolding ne .
qed (simp add: minAncestors_def)

lemma layFile_fold:
  assumes "distinct fs" and "\<forall>f \<in> set fs. \<exists>n. map_of nodes f = Some n \<and> (nParent n = [] \<or> nParent n \<notin> set fs \<and> map_of nodes (nParent n) \<noteq> None)"
  shows "\<exists>nodes'. fold_opt layFile nodes fs = Some nodes' \<and>
    map_of nodes' = (\<lambda>x. if x \<in> set fs then map_option (\<lambda>n. n\<lparr> nLayer :=
        (if nParent n = [] then 0 else nLayer (the (map_of nodes (nParent n)))) \<rparr>) (map_of nodes x) else map_of nodes x)"
  using assms
proof (induction fs arbitrary: nodes)
  case (Cons f fs)
  then obtain n where n: "map_of nodes f = Some n"
    and par: "nParent n = [] \<or> nParent n \<notin> set (f # fs) \<and> map_of nodes (nParent n) \<noteq> None" by auto
  let ?l = "if nParent n = [] then 0 else nLayer (the (map_of nodes (nParent n)))"
  from updateNode_Some [OF n, of "\<lambda>n. n\<lparr> nLayer := ?l \<rparr>"] obtain nodes1 where n1:
    "updateNode f (\<lambda>n. n\<lparr> nLayer := ?l \<rparr>) nodes = Some nodes1" "map_of nodes1 = (map_of nodes)(f \<mapsto> n\<lparr> nLayer := ?l \<rparr>)" by blast
  have step: "layFile nodes f = Some nodes1" using n par n1(1) by (auto simp: layFile_def)
  have known: "\<forall>g \<in> set fs. \<exists>n. map_of nodes1 g = Some n \<and> (nParent n = [] \<or> nParent n \<notin> set fs \<and> map_of nodes1 (nParent n) \<noteq> None)"
  proof
    fix g assume g: "g \<in> set fs"
    then obtain m where "map_of nodes g = Some m" "nParent m = [] \<or> nParent m \<notin> set (f # fs) \<and> map_of nodes (nParent m) \<noteq> None"
      using Cons.prems(2) by auto
    moreover have "g \<noteq> f" using g Cons.prems(1) by auto
    ultimately show "\<exists>n. map_of nodes1 g = Some n \<and> (nParent n = [] \<or> nParent n \<notin> set fs \<and> map_of nodes1 (nParent n) \<noteq> None)"
      using n1(2) by auto
  qed
  have "distinct fs" using Cons.prems(1) by simp
  from Cons.IH [OF this known] obtain nodes' where n': "fold_opt layFile nodes1 fs = Some nodes'"
    "map_of nodes' = (\<lambda>x. if x \<in> set fs then map_option (\<lambda>n. n\<lparr> nLayer :=
        (if nParent n = [] then 0 else nLayer (the (map_of nodes1 (nParent n)))) \<rparr>) (map_of nodes1 x) else map_of nodes1 x)" by blast
  have "map_of nodes' x = (if x \<in> set (f # fs) then map_option (\<lambda>n. n\<lparr> nLayer :=
        (if nParent n = [] then 0 else nLayer (the (map_of nodes (nParent n)))) \<rparr>) (map_of nodes x) else map_of nodes x)" for x
  proof (cases "x \<in> set fs")
    case True
    then obtain m where m: "map_of nodes x = Some m" "nParent m = [] \<or> nParent m \<notin> set (f # fs)" and "x \<noteq> f"
      using Cons.prems by fastforce
    then show ?thesis using True n'(2) n1(2) by auto
  next
    case False
    then show ?thesis using n'(2) n1(2) n Cons.prems(1) by auto
  qed
  then show ?case using step n'(1) by (simp add: fun_eq_iff)
qed simp


subsection \<open>Positions within a layer\<close>

abbreviation nodeKey :: "Node \<Rightarrow> string \<times> string" where
  "nodeKey n \<equiv> (nParent n, nName n)"

lemma place_other:
  "x \<notin> nID ` set ns \<Longrightarrow>
     map_of (foldl (\<lambda>nodes (i, n). AList.update (nID n) (n\<lparr> nOrder := i \<rparr>) nodes) nodes (enumerate k ns)) x = map_of nodes x"
  by (induction ns arbitrary: nodes k) (auto simp: update_conv')

lemma place_keys:
  "distinct (map fst nodes) \<Longrightarrow>
     distinct (map fst (foldl (\<lambda>nodes (i, n). AList.update (nID n) (n\<lparr> nOrder := i \<rparr>) nodes) nodes es))"
  by (induction es arbitrary: nodes) (auto intro: distinct_update)

lemma place_nth:
  "distinct (map nID ns) \<Longrightarrow> j < length ns \<Longrightarrow>
     map_of (foldl (\<lambda>nodes (i, n). AList.update (nID n) (n\<lparr> nOrder := i \<rparr>) nodes) nodes (enumerate k ns)) (nID (ns ! j)) =
       Some ((ns ! j)\<lparr> nOrder := k + j \<rparr>)"
proof (induction ns arbitrary: nodes k j)
  case (Cons n ns)
  show ?case
  proof (cases j)
    case 0
    then have "nID n \<notin> nID ` set ns" using Cons.prems(1) by simp
    from place_other [OF this] 0 show ?thesis by (simp add: update_conv')
  next
    case (Suc i)
    then show ?thesis using Cons.IH [where j = i and k = "Suc k"] Cons.prems by simp
  qed
qed simp

text \<open>The nodes of a well-formed map: distinct keys, each the identifier of its node.\<close>

definition keyed :: "(string \<times> Node) list \<Rightarrow> bool" where
  "keyed nodes \<longleftrightarrow> distinct (map fst nodes) \<and> (\<forall>x n. map_of nodes x = Some n \<longrightarrow> nID n = x)"

lemma keyed_nodes:
  assumes "keyed nodes"
  shows "n \<in> set (map snd nodes) \<longleftrightarrow> map_of nodes (nID n) = Some n" and "distinct (map nID (map snd nodes))"
proof -
  have ids: "fst e = nID (snd e)" if "e \<in> set nodes" for e
    using assms that by (cases e) (auto simp: keyed_def)
  show "n \<in> set (map snd nodes) \<longleftrightarrow> map_of nodes (nID n) = Some n"
  proof
    assume "n \<in> set (map snd nodes)"
    then obtain e where e: "e \<in> set nodes" "snd e = n" by auto
    from ids [OF e(1)] e(2) have "e = (nID n, n)" unfolding prod_eq_iff by (simp only: fst_conv snd_conv)
    then have "(nID n, n) \<in> set nodes" using e(1) by simp
    moreover have "distinct (map fst nodes)" using assms unfolding keyed_def by blast
    ultimately show "map_of nodes (nID n) = Some n" by simp
  next
    assume "map_of nodes (nID n) = Some n"
    then have "(nID n, n) \<in> set nodes" by (rule map_of_SomeD)
    then show "n \<in> set (map snd nodes)" by force
  qed
  have "map (nID \<circ> snd) nodes = map fst nodes" using ids by simp
  moreover have "distinct (map fst nodes)" using assms unfolding keyed_def by blast
  ultimately show "distinct (map nID (map snd nodes))" by (simp only: map_map)
qed

lemma orderLayer_result:
  fixes layer :: nat
  assumes k: "keyed nodes"
  defines "ns \<equiv> sort_key nodeKey (filter (\<lambda>n. nLayer n = layer) (map snd nodes))"
  shows "keyed (orderLayer nodes layer)"
    and "map_of nodes x = Some n \<Longrightarrow> nLayer n \<noteq> layer \<Longrightarrow> map_of (orderLayer nodes layer) x = Some n"
    and "map_of nodes x = Some n \<Longrightarrow> nLayer n = layer \<Longrightarrow>
      \<exists>j < length ns. ns ! j = n \<and> map_of (orderLayer nodes layer) x = Some (n\<lparr> nOrder := j \<rparr>)"
    and "map_of nodes x = None \<Longrightarrow> map_of (orderLayer nodes layer) x = None"
proof -
  have mem: "n \<in> set ns \<longleftrightarrow> map_of nodes (nID n) = Some n \<and> nLayer n = layer" for n
    using keyed_nodes(1) [OF k, of n] by (auto simp: ns_def)
  have dist: "distinct (map nID ns)"
  proof -
    have "mset (map nID ns) = mset (map nID (filter (\<lambda>n. nLayer n = layer) (map snd nodes)))" by (simp add: ns_def)
    moreover have "distinct (map nID (filter (\<lambda>n. nLayer n = layer) (map snd nodes)))"
      using keyed_nodes(2) [OF k] by (rule distinct_map_filter)
    ultimately show ?thesis using mset_eq_imp_distinct_iff by blast
  qed
  have eq: "orderLayer nodes layer = foldl (\<lambda>nodes (i, n). AList.update (nID n) (n\<lparr> nOrder := i \<rparr>) nodes) nodes (enumerate 0 ns)"
    by (simp add: orderLayer_def ns_def)
  have other: "map_of (orderLayer nodes layer) x = map_of nodes x" if "\<And>n. map_of nodes x = Some n \<Longrightarrow> nLayer n \<noteq> layer" for x
    unfolding eq by (rule place_other) (use that mem in auto)
  show outside: "map_of nodes x = Some n \<Longrightarrow> nLayer n \<noteq> layer \<Longrightarrow> map_of (orderLayer nodes layer) x = Some n" for x n
    using other [of x] by simp
  show none: "map_of nodes x = None \<Longrightarrow> map_of (orderLayer nodes layer) x = None" for x using other [of x] by simp
  show placed: "\<exists>j < length ns. ns ! j = n \<and> map_of (orderLayer nodes layer) x = Some (n\<lparr> nOrder := j \<rparr>)"
    if "map_of nodes x = Some n" "nLayer n = layer" for x n
  proof -
    have x: "nID n = x" using k that(1) by (auto simp: keyed_def)
    then have "n \<in> set ns" using that mem by simp
    then obtain j where "j < length ns" "ns ! j = n" by (auto simp: in_set_conv_nth)
    with place_nth [OF dist, of j nodes 0] x eq show ?thesis by auto
  qed
  have "distinct (map fst (orderLayer nodes layer))" unfolding eq by (rule place_keys) (use k in \<open>simp add: keyed_def\<close>)
  moreover have "nID m = x" if "map_of (orderLayer nodes layer) x = Some m" for x m
  proof (cases "map_of nodes x")
    case None
    then show ?thesis using none that by simp
  next
    case (Some n)
    then have "nID n = x" using k by (auto simp: keyed_def)
    then show ?thesis using outside [OF Some] placed [OF Some] that by (cases "nLayer n = layer") auto
  qed
  ultimately show "keyed (orderLayer nodes layer)" by (simp add: keyed_def)
qed


definition sameNodes :: "(string \<times> Node) list \<Rightarrow> (string \<times> Node) list \<Rightarrow> bool" where
  "sameNodes nodes nodes' \<longleftrightarrow>
     (\<forall>x. map_option (\<lambda>n. n\<lparr> nOrder := 0 \<rparr>) (map_of nodes x) = map_option (\<lambda>n. n\<lparr> nOrder := 0 \<rparr>) (map_of nodes' x))"

definition uniqueKeys :: "(string \<times> Node) list \<Rightarrow> bool" where
  "uniqueKeys nodes \<longleftrightarrow>
     (\<forall>x y a b. map_of nodes x = Some a \<longrightarrow> map_of nodes y = Some b \<longrightarrow> nodeKey a = nodeKey b \<longrightarrow> x = y)"

definition orderedIn :: "nat set \<Rightarrow> (string \<times> Node) list \<Rightarrow> bool" where
  "orderedIn layers nodes \<longleftrightarrow>
     (\<forall>x y a b. map_of nodes x = Some a \<longrightarrow> map_of nodes y = Some b \<longrightarrow> nLayer a \<in> layers \<longrightarrow> nLayer b = nLayer a \<longrightarrow>
        (nOrder a < nOrder b \<longleftrightarrow> nodeKey a < nodeKey b))"

lemma sameNodesD:
  assumes "sameNodes nodes nodes'" and "map_of nodes' x = Some b"
  shows "\<exists>a. map_of nodes x = Some a \<and> nID a = nID b \<and> nodeKey a = nodeKey b \<and> nLayer a = nLayer b \<and> nKind a = nKind b \<and>
    nLanguage a = nLanguage b \<and> nLoc a = nLoc b \<and> nFileCount a = nFileCount b"
proof -
  have "map_option (\<lambda>n. n\<lparr> nOrder := 0 \<rparr>) (map_of nodes x) = Some (b\<lparr> nOrder := 0 \<rparr>)"
    using assms by (simp add: sameNodes_def)
  then obtain a where a: "map_of nodes x = Some a" "a\<lparr> nOrder := 0 \<rparr> = b\<lparr> nOrder := 0 \<rparr>" by auto
  then have "f (a\<lparr> nOrder := 0 \<rparr>) = f (b\<lparr> nOrder := 0 \<rparr>)" for f :: "Node \<Rightarrow> 'b" by simp
  from this [of nID] this [of nParent] this [of nName] this [of nLayer] this [of nKind] this [of nLanguage] this [of nLoc] this [of nFileCount]
  show ?thesis using a(1) by simp
qed

lemma sorted_nth_iff:
  assumes "sorted (map f xs)" and "distinct (map f xs)" and "i < length xs" and "j < length xs"
  shows "f (xs ! i) < f (xs ! j) \<longleftrightarrow> i < (j :: nat)"
proof -
  have mono: "f (xs ! a) < f (xs ! b)" if "a < b" "b < length xs" for a b
    using sorted_wrt_nth_less [of "(<)" "map f xs" a b] assms(1,2) that strict_sorted_iff [of "map f xs"] by simp
  show ?thesis
  proof (cases i j rule: linorder_cases)
    case less
    then show ?thesis using mono assms(4) by simp
  next
    case greater
    then show ?thesis using mono [OF greater assms(3)] by auto
  qed simp
qed

lemma orderLayer_ordered:
  assumes k: "keyed nodes" and u: "uniqueKeys nodes" and o: "orderedIn layers nodes" and new: "layer \<notin> layers"
  shows "keyed (orderLayer nodes layer) \<and> sameNodes nodes (orderLayer nodes layer) \<and>
    uniqueKeys (orderLayer nodes layer) \<and> orderedIn (insert layer layers) (orderLayer nodes layer)"
proof -
  let ?ns = "sort_key nodeKey (filter (\<lambda>n. nLayer n = layer) (map snd nodes))"
  note R = orderLayer_result [OF k, where layer = layer]
  have same: "sameNodes nodes (orderLayer nodes layer)"
    unfolding sameNodes_def
  proof
    fix x
    show "map_option (\<lambda>n. n\<lparr> nOrder := 0 \<rparr>) (map_of nodes x) = map_option (\<lambda>n. n\<lparr> nOrder := 0 \<rparr>) (map_of (orderLayer nodes layer) x)"
    proof (cases "map_of nodes x")
      case (Some n)
      then show ?thesis using R(2) [OF Some] R(3) [OF Some] by (cases "nLayer n = layer") auto
    qed (use R(4) in simp)
  qed
  have unique: "uniqueKeys (orderLayer nodes layer)"
    unfolding uniqueKeys_def
  proof (intro allI impI)
    fix x y a b assume a: "map_of (orderLayer nodes layer) x = Some a" and b: "map_of (orderLayer nodes layer) y = Some b"
      and eq: "nodeKey a = nodeKey b"
    obtain a0 b0 where "map_of nodes x = Some a0" "nodeKey a0 = nodeKey a" "map_of nodes y = Some b0" "nodeKey b0 = nodeKey b"
      using sameNodesD [OF same a] sameNodesD [OF same b] by blast
    with eq show "x = y" by (intro u [unfolded uniqueKeys_def, rule_format, of x a0 y b0]) simp_all
  qed
  have keys: "distinct (map nodeKey ?ns)"
  proof -
    have "inj_on nodeKey (set ?ns)"
    proof (rule inj_onI)
      fix a b assume "a \<in> set ?ns" "b \<in> set ?ns" and eq: "nodeKey a = nodeKey b"
      then have "a \<in> set (map snd nodes)" "b \<in> set (map snd nodes)" by auto
      then have m: "map_of nodes (nID a) = Some a" "map_of nodes (nID b) = Some b" unfolding keyed_nodes(1) [OF k] .
      have same_id: "nID a = nID b" by (rule u [unfolded uniqueKeys_def, rule_format, OF m eq])
      have "Some a = Some b" by (rule trans [OF sym [OF m(1) [unfolded same_id]] m(2)])
      then show "a = b" by (rule option.inject [THEN iffD1])
    qed
    moreover have "distinct ?ns"
    proof -
      have "distinct (map snd nodes)" using keyed_nodes(2) [OF k] unfolding distinct_map [of nID] by blast
      then show ?thesis by (simp only: distinct_sort distinct_filter)
    qed
    ultimately show ?thesis by (simp add: distinct_map)
  qed
  have placed: "(nOrder a < nOrder b \<longleftrightarrow> nodeKey a < nodeKey b)"
    if a: "map_of (orderLayer nodes layer) x = Some a" and b: "map_of (orderLayer nodes layer) y = Some b"
      and la: "nLayer a \<in> insert layer layers" and lb: "nLayer b = nLayer a" for x y a b
  proof -
    obtain a0 b0 where a0: "map_of nodes x = Some a0" "nLayer a0 = nLayer a" "nodeKey a0 = nodeKey a"
      and b0: "map_of nodes y = Some b0" "nLayer b0 = nLayer b" "nodeKey b0 = nodeKey b"
      using sameNodesD [OF same a] sameNodesD [OF same b] by auto
    show ?thesis
    proof (cases "nLayer a = layer")
      case True
      then obtain i j where "i < length ?ns" "?ns ! i = a0" "a = a0\<lparr> nOrder := i \<rparr>" "j < length ?ns" "?ns ! j = b0" "b = b0\<lparr> nOrder := j \<rparr>"
        using R(3) [OF a0(1)] R(3) [OF b0(1)] a0(2) b0(2) lb a b by auto
      with sorted_nth_iff [OF _ keys, of i j] show ?thesis by simp
    next
      case False
      then have "nLayer a0 \<noteq> layer" "nLayer b0 \<noteq> layer" using a0(2) b0(2) lb by simp_all
      from R(2) [OF a0(1) this(1)] R(2) [OF b0(1) this(2)] have "a = a0" "b = b0" using a b by simp_all
      moreover have "nLayer a0 \<in> layers" "nLayer b0 = nLayer a0" using la lb False a0(2) b0(2) by simp_all
      ultimately show ?thesis using o [unfolded orderedIn_def, rule_format, OF a0(1) b0(1)] by simp
    qed
  qed
  show ?thesis using R(1) same unique placed unfolding orderedIn_def by blast
qed

lemma sameNodes_trans: "sameNodes a b \<Longrightarrow> sameNodes b c \<Longrightarrow> sameNodes a c"
  by (simp add: sameNodes_def)

lemma assignOrder_ordered:
  assumes "keyed nodes" and "uniqueKeys nodes"
  shows "sameNodes nodes (assignOrder nodes) \<and> orderedIn UNIV (assignOrder nodes)"
proof -
  have "keyed (foldl orderLayer ns ls) \<and> sameNodes ns (foldl orderLayer ns ls) \<and> orderedIn (P \<union> set ls) (foldl orderLayer ns ls)"
    if "keyed ns" "uniqueKeys ns" "orderedIn P ns" "distinct ls" "P \<inter> set ls = {}" for ns ls P
    using that
  proof (induction ls arbitrary: ns P)
    case (Cons l ls)
    have "l \<notin> P" using Cons.prems(5) by auto
    note step = orderLayer_ordered [OF Cons.prems(1-3) this]
    have "keyed (foldl orderLayer (orderLayer ns l) ls) \<and> sameNodes (orderLayer ns l) (foldl orderLayer (orderLayer ns l) ls) \<and>
        orderedIn (insert l P \<union> set ls) (foldl orderLayer (orderLayer ns l) ls)"
      by (rule Cons.IH) (use step Cons.prems in auto)
    with step show ?case by (auto intro: sameNodes_trans)
  qed (simp add: sameNodes_def)
  from this [OF assms, of "{}" "sorted_list_of_set (set (map (nLayer \<circ> snd) nodes))"]
  have same: "sameNodes nodes (assignOrder nodes)" and ord: "orderedIn (set (map (nLayer \<circ> snd) nodes)) (assignOrder nodes)"
    by (simp_all add: assignOrder_def orderedIn_def)
  have "nLayer a \<in> set (map (nLayer \<circ> snd) nodes)" if a: "map_of (assignOrder nodes) x = Some a" for x a
  proof -
    obtain a0 where a0: "map_of nodes x = Some a0" "nLayer a0 = nLayer a" using sameNodesD [OF same a] by blast
    from map_of_SomeD [OF a0(1)] a0(2) show ?thesis by force
  qed
  with ord have "orderedIn UNIV (assignOrder nodes)" unfolding orderedIn_def by blast
  with same show ?thesis by blast
qed


lemma liesUnder_parent:
  "normal_path p \<Longrightarrow> parentDir p \<noteq> [] \<Longrightarrow> liesUnder (parentDir p) p"
  by (rule normal_path_ancestors [of p]) (auto simp: liesUnder_def)

lemma liesUnder_normal: "normal_path p \<Longrightarrow> liesUnder d p \<Longrightarrow> normal_path d \<and> (parentDir d = [] \<or> liesUnder (parentDir d) p)"
  by (rule normal_path_ancestors [of p]) (auto simp: liesUnder_def)

text \<open>The shape of a tree that \<open>buildTree\<close> returns.\<close>

definition treeOK :: "fileTree \<Rightarrow> bool" where
  "treeOK t \<longleftrightarrow> finite (tDirSet t) \<and> finite (tFileSet t) \<and> tDirSet t \<inter> tFileSet t = {} \<and> tDirHasSource t \<subseteq> tDirSet t \<and>
     keyed (tNodes t) \<and> dom (map_of (tNodes t)) = tDirSet t \<union> tFileSet t \<and>
     (\<forall>x n. map_of (tNodes t) x = Some n \<longrightarrow> normal_path x \<and> nParent n = parentDir x \<and> nName n = path_base x \<and>
        (parentDir x = [] \<or> parentDir x \<in> tDirSet t))"

lemma buildTree_total: "\<exists>t. buildTree (normalizeFiles files) contents = Some t"
proof -
  have norm: "\<forall>p \<in> set (normalizeFiles files). normal_path p" using normalizeFiles_normal by blast
  have "distinct (normalizeFiles files)" by (simp add: normalizeFiles_def)
  from buildTree_result [OF norm this, of contents] show ?thesis by (elim exE conjE) (rule exI)
qed

lemma buildTree_facts:
  assumes "buildTree (normalizeFiles files) contents = Some t"
  shows "tDirSet t = {d. \<exists>p \<in> set (normalizeFiles files). liesUnder d p}"
    and "tFileSet t = {p \<in> set (normalizeFiles files). \<not> (\<exists>q \<in> set (normalizeFiles files). liesUnder p q)}"
    and "tDirHasSource t = {parentDir p | p. p \<in> tFileSet t \<and> languageForFile p \<noteq> None \<and> parentDir p \<noteq> []}"
    and "map_of (tNodes t) = (\<lambda>x. if x \<in> tFileSet t then Some (fileNode x (locOf contents x))
      else if x \<in> tDirSet t then Some (dirRollUp contents (tFileSet t) x) else None)"
proof -
  have norm: "\<forall>p \<in> set (normalizeFiles files). normal_path p" using normalizeFiles_normal by blast
  have "distinct (normalizeFiles files)" by (simp add: normalizeFiles_def)
  from buildTree_result [OF norm this, of contents] assms
  show "tDirSet t = {d. \<exists>p \<in> set (normalizeFiles files). liesUnder d p}"
    "tFileSet t = {p \<in> set (normalizeFiles files). \<not> (\<exists>q \<in> set (normalizeFiles files). liesUnder p q)}"
    "tDirHasSource t = {parentDir p | p. p \<in> tFileSet t \<and> languageForFile p \<noteq> None \<and> parentDir p \<noteq> []}"
    "map_of (tNodes t) = (\<lambda>x. if x \<in> tFileSet t then Some (fileNode x (locOf contents x))
      else if x \<in> tDirSet t then Some (dirRollUp contents (tFileSet t) x) else None)" by auto
qed

lemma buildTree_OK:
  assumes "buildTree (normalizeFiles files) contents = Some t"
  shows "treeOK t"
proof -
  let ?paths = "normalizeFiles files"
  have norm: "\<forall>p \<in> set ?paths. normal_path p" using normalizeFiles_normal by blast
  from buildTree_facts [OF assms]
  have dirs: "tDirSet t = {d. \<exists>p \<in> set ?paths. liesUnder d p}" and files: "tFileSet t = {p \<in> set ?paths. \<not> (\<exists>q \<in> set ?paths. liesUnder p q)}"
    and src: "tDirHasSource t = {parentDir p | p. p \<in> tFileSet t \<and> languageForFile p \<noteq> None \<and> parentDir p \<noteq> []}"
    and nodes: "map_of (tNodes t) = (\<lambda>x. if x \<in> tFileSet t then Some (fileNode x (locOf contents x))
      else if x \<in> tDirSet t then Some (dirRollUp contents (tFileSet t) x) else None)" by auto
  have "finite {d. liesUnder d p}" for p
    by (rule finite_subset [of _ "set (the (ancestors p))"]) (auto simp: liesUnder_def split: option.splits)
  then have "finite (tDirSet t)" unfolding dirs by (simp add: Collect_bex_eq)
  moreover have "finite (tFileSet t)" by (simp add: files)
  moreover have "tDirSet t \<inter> tFileSet t = {}" by (auto simp: dirs files)
  moreover have "tDirHasSource t \<subseteq> tDirSet t" using norm liesUnder_parent by (auto simp: src dirs files)
  moreover have "keyed (tNodes t)"
    using buildTree_keys [OF assms] by (auto simp: keyed_def nodes fileNode_def dirRollUp_def dirNode_def Let_def split: if_splits)
  moreover have "dom (map_of (tNodes t)) = tDirSet t \<union> tFileSet t" by (auto simp: nodes split: if_splits)
  moreover have "normal_path x \<and> nParent n = parentDir x \<and> nName n = path_base x \<and> (parentDir x = [] \<or> parentDir x \<in> tDirSet t)"
    if "map_of (tNodes t) x = Some n" for x n
  proof -
    have "nParent n = parentDir x \<and> nName n = path_base x"
      using that by (auto simp: nodes fileNode_def dirRollUp_def dirNode_def Let_def split: if_splits)
    moreover have "x \<in> set ?paths \<or> (\<exists>p \<in> set ?paths. liesUnder x p)"
      using that by (auto simp: nodes files dirs split: if_splits)
    then have "normal_path x \<and> (parentDir x = [] \<or> (\<exists>p \<in> set ?paths. liesUnder (parentDir x) p))"
      using norm liesUnder_parent liesUnder_normal by blast
    ultimately show ?thesis by (auto simp: dirs)
  qed
  ultimately show ?thesis unfolding treeOK_def by blast
qed

lemma treeOK_unique: "treeOK t \<Longrightarrow> map_of (tNodes t) x = Some a \<Longrightarrow> map_of (tNodes t) y = Some b \<Longrightarrow> nodeKey a = nodeKey b \<Longrightarrow> x = y"
  unfolding treeOK_def using parent_name_inj [of x y] by auto

definition dirLayer :: "(string \<rightharpoonup> nat) \<Rightarrow> string set \<Rightarrow> string \<Rightarrow> nat" where
  "dirLayer layerOf pkgs d =
     (case layerOf d of Some l \<Rightarrow> l
      | None \<Rightarrow> if \<exists>p \<in> pkgs. liesUnder d p then Min (at_key layerOf ` {p \<in> pkgs. liesUnder d p}) else 0)"

lemma applyLayout_result:
  assumes ok: "treeOK t" and src: "\<forall>e \<in> set edges. eFrom e \<in> tDirHasSource t"
  shows "\<exists>nodes layerOf violations. applyLayout t edges = Some (t\<lparr> tNodes := nodes \<rparr>, violations) \<and>
    layerPackages (sorted_list_of_set (tDirHasSource t)) edges = Some (layerOf, violations) \<and> orderedIn UNIV nodes \<and>
    (\<exists>final. sameNodes final nodes \<and> map_of final = (\<lambda>x. map_option (\<lambda>n. n\<lparr> nLayer :=
      (if x \<in> tDirSet t then dirLayer layerOf (tDirHasSource t) x
       else if nParent n = [] then 0 else dirLayer layerOf (tDirHasSource t) (nParent n)) \<rparr>) (map_of (tNodes t) x)))"
proof -
  let ?pkgs = "sorted_list_of_set (tDirHasSource t)" and ?dirs = "sorted_list_of_set (tDirSet t)"
  have fin: "finite (tDirSet t)" "finite (tFileSet t)" "finite (tDirHasSource t)" and disj: "tDirSet t \<inter> tFileSet t = {}"
    and dom: "dom (map_of (tNodes t)) = tDirSet t \<union> tFileSet t" and sub: "tDirHasSource t \<subseteq> tDirSet t" and keyed: "keyed (tNodes t)"
    using ok finite_subset by (auto simp: treeOK_def)
  have node: "normal_path x \<and> nParent n = parentDir x \<and> nName n = path_base x \<and> (parentDir x = [] \<or> parentDir x \<in> tDirSet t)"
    if "map_of (tNodes t) x = Some n" for x n using ok that unfolding treeOK_def by blast
  have "\<forall>e \<in> set edges. eFrom e \<in> set ?pkgs" using src fin by simp
  then obtain layerOf violations where lp: "layerPackages ?pkgs edges = Some (layerOf, violations)"
    by (rule layerPackages_eq) blast
  have "normal_path p" if "p \<in> set ?pkgs" for p
    using that fin sub dom node by (metis (no_types, lifting) UnI1 domD set_sorted_list_of_set subsetD)
  then have ma: "minAncestors layerOf ?pkgs = Some (\<lambda>d. if \<exists>p \<in> set ?pkgs. liesUnder d p
      then Some (Min (at_key layerOf ` {p \<in> set ?pkgs. liesUnder d p})) else None)"
    by (intro minAncestors_eq) blast
  let ?m = "\<lambda>d. if \<exists>p \<in> set ?pkgs. liesUnder d p then Some (Min (at_key layerOf ` {p \<in> set ?pkgs. liesUnder d p})) else None"
  have layer: "(case layerOf d of Some l \<Rightarrow> l | None \<Rightarrow> at_key ?m d) = dirLayer layerOf (tDirHasSource t) d" for d
    using fin(3) by (auto simp: dirLayer_def at_key_def split: option.splits)
  have lay: "layDir layerOf ?m = (\<lambda>nodes d. updateNode d (\<lambda>n. n\<lparr> nLayer := dirLayer layerOf (tDirHasSource t) d \<rparr>) nodes)"
    by (simp only: layDir_def layer fun_eq_iff) simp
  have known: "\<forall>d \<in> set ?dirs. map_of (tNodes t) d \<noteq> None" using dom fin by (auto simp: domIff [symmetric])
  from updateNode_fold [OF distinct_sorted_list_of_set known, of "\<lambda>d n. n\<lparr> nLayer := dirLayer layerOf (tDirHasSource t) d \<rparr>"]
  obtain n1 where n1: "fold_opt (layDir layerOf ?m) (tNodes t) ?dirs = Some n1"
    "map_of n1 = (\<lambda>x. if x \<in> set ?dirs then map_option (\<lambda>n. n\<lparr> nLayer := dirLayer layerOf (tDirHasSource t) x \<rparr>) (map_of (tNodes t) x)
      else map_of (tNodes t) x)" unfolding lay by (elim exE conjE)
  have n1': "map_of n1 x = (if x \<in> tDirSet t then map_option (\<lambda>n. n\<lparr> nLayer := dirLayer layerOf (tDirHasSource t) x \<rparr>) (map_of (tNodes t) x)
      else map_of (tNodes t) x)" for x using n1(2) fin by simp
  have files: "\<exists>n. map_of n1 f = Some n \<and> (nParent n = [] \<or> nParent n \<notin> set (sortedFiles t) \<and> map_of n1 (nParent n) \<noteq> None)"
    if "f \<in> set (sortedFiles t)" for f
  proof -
    have f: "f \<in> tFileSet t" "f \<notin> tDirSet t" using that fin disj by (auto simp: sortedFiles_def)
    then obtain n where n: "map_of (tNodes t) f = Some n" using dom by blast
    have "nParent n = [] \<or> nParent n \<in> tDirSet t" using node [OF n] by auto
    moreover have "map_of n1 d \<noteq> None \<and> d \<notin> set (sortedFiles t)" if "d \<in> tDirSet t" for d
      using that dom disj fin n1' [of d] by (auto simp: sortedFiles_def)
    ultimately show ?thesis using n f n1' [of f] by auto
  qed
  have "distinct (sortedFiles t)" by (simp add: sortedFiles_def)
  from layFile_fold [OF this, of n1] files obtain n2 where n2: "fold_opt layFile n1 (sortedFiles t) = Some n2"
    "map_of n2 = (\<lambda>x. if x \<in> set (sortedFiles t) then map_option (\<lambda>n. n\<lparr> nLayer :=
        (if nParent n = [] then 0 else nLayer (the (map_of n1 (nParent n)))) \<rparr>) (map_of n1 x) else map_of n1 x)" by blast
  have final: "map_of n2 x = map_option (\<lambda>n. n\<lparr> nLayer := (if x \<in> tDirSet t then dirLayer layerOf (tDirHasSource t) x
       else if nParent n = [] then 0 else dirLayer layerOf (tDirHasSource t) (nParent n)) \<rparr>) (map_of (tNodes t) x)" for x
  proof (cases "map_of (tNodes t) x")
    case None
    then show ?thesis using n2(2) n1' [of x] by simp
  next
    case (Some n)
    have sf: "set (sortedFiles t) = tFileSet t" using fin by (simp add: sortedFiles_def)
    show ?thesis
    proof (cases "x \<in> tDirSet t")
      case True
      then have "x \<notin> tFileSet t" using disj by blast
      then show ?thesis using True Some n2(2) n1' [of x] sf by simp
    next
      case False
      then have x: "x \<in> tFileSet t" using Some dom by blast
      have "nLayer (the (map_of n1 (nParent n))) = dirLayer layerOf (tDirHasSource t) (nParent n)" if "nParent n \<noteq> []"
      proof -
        have d: "nParent n \<in> tDirSet t" using node [OF Some] that by auto
        then obtain m where "map_of (tNodes t) (nParent n) = Some m" using dom by blast
        then show ?thesis using d n1' [of "nParent n"] by simp
      qed
      then show ?thesis using False x Some n2(2) n1' [of x] sf by simp
    qed
  qed
  have keys: "distinct (map fst n2)"
  proof -
    have "distinct (map fst (tNodes t))" using keyed unfolding keyed_def by blast
    then have "distinct (map fst n1)"
      by (rule fold_opt_keep [where P = "\<lambda>ns. distinct (map fst ns)", OF n1(1) [unfolded lay]]) (rule updateNode_keys)
    then show ?thesis
      by (rule fold_opt_keep [where P = "\<lambda>ns. distinct (map fst ns)", OF n2(1)])
        (auto simp: layFile_def split: bind_splits if_splits intro: updateNode_keys)
  qed
  have orig: "\<exists>m. map_of (tNodes t) x = Some m \<and> nID n = nID m \<and> nodeKey n = nodeKey m" if "map_of n2 x = Some n" for x n
    using that unfolding final by (cases "map_of (tNodes t) x") auto
  have ids: "nID m = x" if "map_of (tNodes t) x = Some m" for x m using keyed that unfolding keyed_def by blast
  have "nID n = x" if "map_of n2 x = Some n" for x n using orig [OF that] ids [of x] by (elim exE conjE) (rule trans)
  with keys have "keyed n2" unfolding keyed_def by blast
  moreover have "uniqueKeys n2" unfolding uniqueKeys_def
  proof (intro allI impI)
    fix x y a b assume "map_of n2 x = Some a" "map_of n2 y = Some b" "nodeKey a = nodeKey b"
    then show "x = y" using orig [of x a] orig [of y b] treeOK_unique [OF ok, of x _ y] by metis
  qed
  ultimately have ord: "sameNodes n2 (assignOrder n2)" "orderedIn UNIV (assignOrder n2)" using assignOrder_ordered by blast+
  have "applyLayout t edges = Some (t\<lparr> tNodes := assignOrder n2 \<rparr>, violations)"
    using lp ma n1(1) n2(1) by (simp add: applyLayout_def)
  with lp ord final show ?thesis by blast
qed


section \<open>Properties\<close>

text \<open>
  C32: The tree of a snapshot. Whatever paths are given, the tree is built; it has a node for
  every file and for every directory above one, and no other. A directory counts the files
  below it and their lines, and carries a language exactly when all source files below it
  share one; every parent is a directory of the tree.
\<close>

theorem buildTree_rollup:
  "\<exists>t. buildTree (normalizeFiles files) contents = Some t \<and>
     dom (map_of (tNodes t)) = tFileSet t \<union> tDirSet t \<and>
     tDirSet t = {d. \<exists>p \<in> set (normalizeFiles files). liesUnder d p} \<and>
     tFileSet t = set (normalizeFiles files) - tDirSet t \<and>
     (\<forall>d \<in> tDirSet t. \<exists>n. map_of (tNodes t) d = Some n \<and> nKind n \<noteq> NodeKindFile \<and>
        nFileCount n = card {p \<in> tFileSet t. liesUnder d p} \<and> nLoc n = (\<Sum>p \<in> {p \<in> tFileSet t. liesUnder d p}. locOf contents p) \<and>
        nLanguage n = uniformLanguage {l. \<exists>p \<in> tFileSet t. liesUnder d p \<and> languageForFile p = Some l}) \<and>
     (\<forall>x n. map_of (tNodes t) x = Some n \<longrightarrow> nID n = x \<and> (nParent n = [] \<or> nParent n \<in> tDirSet t))"
proof -
  let ?paths = "normalizeFiles files"
  obtain t where run: "buildTree ?paths contents = Some t" using buildTree_total by blast
  note t = run buildTree_facts(1,2,4) [OF run]
  have files: "tFileSet t = set ?paths - tDirSet t" unfolding t(2,3) by auto
  have ok: "treeOK t" by (rule buildTree_OK [OF t(1)])
  have dirs: "\<exists>n. map_of (tNodes t) d = Some n \<and> nKind n \<noteq> NodeKindFile \<and>
      nFileCount n = card {p \<in> tFileSet t. liesUnder d p} \<and> nLoc n = (\<Sum>p \<in> {p \<in> tFileSet t. liesUnder d p}. locOf contents p) \<and>
      nLanguage n = uniformLanguage {l. \<exists>p \<in> tFileSet t. liesUnder d p \<and> languageForFile p = Some l}" if "d \<in> tDirSet t" for d
  proof -
    have "map_of (tNodes t) d = Some (dirRollUp contents (tFileSet t) d)" unfolding t(4) using that files by simp
    then show ?thesis by (simp add: dirRollUp_def dirNode_def Let_def)
  qed
  have "nID n = x \<and> (nParent n = [] \<or> nParent n \<in> tDirSet t)" if "map_of (tNodes t) x = Some n" for x n
    using ok that unfolding treeOK_def keyed_def by metis
  moreover have "dom (map_of (tNodes t)) = tFileSet t \<union> tDirSet t" using ok unfolding treeOK_def by blast
  ultimately show ?thesis using t(1,2) files dirs by blast
qed

definition exampleFiles :: "string list" where
  "exampleFiles = [''cmd/app/main.go'', ''internal/a/a.go'', ''internal/a/b.ts'']"

definition exampleContents :: "string \<rightharpoonup> string" where
  "exampleContents = [''internal/a/a.go'' \<mapsto> ''x'', ''internal/a/b.ts'' \<mapsto> [CHR ''y'', newline, CHR ''z'', newline]]"

lemma example_tree:
  "map_option (\<lambda>t. (tDirSet t = {''cmd'', ''cmd/app'', ''internal'', ''internal/a''}, tDirHasSource t = {''cmd/app'', ''internal/a''},
       map_option (\<lambda>n. (nFileCount n, nLoc n, nLanguage n)) (map_of (tNodes t) ''internal'')))
     (buildTree (normalizeFiles exampleFiles) exampleContents) = Some (True, True, Some (2, 3, None))"
  by code_simp

lemma example_built:
  obtains t n where "buildTree (normalizeFiles exampleFiles) exampleContents = Some t"
    and "tDirSet t = {''cmd'', ''cmd/app'', ''internal'', ''internal/a''}" and "tDirHasSource t = {''cmd/app'', ''internal/a''}"
    and "map_of (tNodes t) ''internal'' = Some n" and "nFileCount n = 2"
proof -
  obtain t where t: "buildTree (normalizeFiles exampleFiles) exampleContents = Some t"
    "tDirSet t = {''cmd'', ''cmd/app'', ''internal'', ''internal/a''}" "tDirHasSource t = {''cmd/app'', ''internal/a''}"
    "map_option (\<lambda>n. (nFileCount n, nLoc n, nLanguage n)) (map_of (tNodes t) ''internal'') = Some (2, 3, None)"
    using example_tree by (cases "buildTree (normalizeFiles exampleFiles) exampleContents") (simp_all only: option.map option.inject prod.inject option.distinct simp_thms)
  then obtain n where "map_of (tNodes t) ''internal'' = Some n" "nFileCount n = 2" by (cases "map_of (tNodes t) ''internal''") auto
  with t(1-3) show thesis by (rule that)
qed

theorem buildTree_rollup_witness:
  "\<exists>t. buildTree (normalizeFiles exampleFiles) exampleContents = Some t \<and> card {p \<in> tFileSet t. liesUnder ''internal'' p} = 2"
proof -
  obtain t n where t: "buildTree (normalizeFiles exampleFiles) exampleContents = Some t"
    "tDirSet t = {''cmd'', ''cmd/app'', ''internal'', ''internal/a''}" "map_of (tNodes t) ''internal'' = Some n" "nFileCount n = 2"
    by (rule example_built)
  have "\<exists>n. map_of (tNodes t) ''internal'' = Some n \<and> nFileCount n = card {p \<in> tFileSet t. liesUnder ''internal'' p}"
    using buildTree_rollup [of exampleFiles exampleContents] t(1,2) by auto
  with t show ?thesis by auto
qed

text \<open>
  The layout of a tree. When every edge starts in a directory with sources, the layout is
  computed and reports the violations of the layering. A directory of the import graph has
  the layer of its package, any other directory the smallest layer of a package below it, and
  0 when there is none; a file has the layer of its directory. Within a layer the positions
  follow the order of parent and name.
\<close>

theorem applyLayout_layers:
  assumes "buildTree (normalizeFiles files) contents = Some t" and "\<forall>e \<in> set edges. eFrom e \<in> tDirHasSource t"
  shows "\<exists>t' layerOf violations. applyLayout t edges = Some (t', violations) \<and>
    layerPackages (sorted_list_of_set (tDirHasSource t)) edges = Some (layerOf, violations) \<and>
    (\<forall>d \<in> tDirSet t. \<exists>n. map_of (tNodes t') d = Some n \<and> nLayer n = (case layerOf d of Some l \<Rightarrow> l
       | None \<Rightarrow> if \<exists>p \<in> tDirHasSource t. liesUnder d p then Min (at_key layerOf ` {p \<in> tDirHasSource t. liesUnder d p}) else 0)) \<and>
    (\<forall>f \<in> tFileSet t. \<exists>n. map_of (tNodes t') f = Some n \<and>
       (if nParent n = [] then nLayer n = 0 else \<exists>m. map_of (tNodes t') (nParent n) = Some m \<and> nLayer n = nLayer m)) \<and>
    (\<forall>x y a b. map_of (tNodes t') x = Some a \<and> map_of (tNodes t') y = Some b \<and> nLayer a = nLayer b \<longrightarrow>
       (nOrder a < nOrder b \<longleftrightarrow> (nParent a, nName a) < (nParent b, nName b)))"
proof -
  have ok: "treeOK t" by (rule buildTree_OK [OF assms(1)])
  have dom: "dom (map_of (tNodes t)) = tDirSet t \<union> tFileSet t" and disj: "tDirSet t \<inter> tFileSet t = {}"
    using ok by (auto simp: treeOK_def)
  have par: "nParent n = [] \<or> nParent n \<in> tDirSet t" if "map_of (tNodes t) x = Some n" for x n
    using ok that unfolding treeOK_def by metis
  from applyLayout_result [OF ok assms(2)] obtain nodes layerOf violations final where
    run: "applyLayout t edges = Some (t\<lparr> tNodes := nodes \<rparr>, violations)"
      "layerPackages (sorted_list_of_set (tDirHasSource t)) edges = Some (layerOf, violations)"
    and ord: "orderedIn UNIV nodes" and same: "sameNodes final nodes"
    and final: "map_of final = (\<lambda>x. map_option (\<lambda>n. n\<lparr> nLayer := (if x \<in> tDirSet t then dirLayer layerOf (tDirHasSource t) x
       else if nParent n = [] then 0 else dirLayer layerOf (tDirHasSource t) (nParent n)) \<rparr>) (map_of (tNodes t) x))" by blast
  have node: "\<exists>n m. map_of nodes x = Some n \<and> map_of (tNodes t) x = Some m \<and> nParent n = nParent m \<and>
      nLayer n = (if x \<in> tDirSet t then dirLayer layerOf (tDirHasSource t) x
       else if nParent m = [] then 0 else dirLayer layerOf (tDirHasSource t) (nParent m))" if x: "x \<in> tDirSet t \<union> tFileSet t" for x
  proof -
    obtain m where m: "map_of (tNodes t) x = Some m" using dom x by blast
    then have "map_of final x \<noteq> None" by (simp add: final)
    then obtain n where n: "map_of nodes x = Some n" using same by (cases "map_of nodes x") (auto simp: sameNodes_def dest: spec [of _ x])
    from sameNodesD [OF same n] m show ?thesis unfolding final using n by auto
  qed
  have dirs: "\<exists>n. map_of nodes d = Some n \<and> nLayer n = dirLayer layerOf (tDirHasSource t) d" if "d \<in> tDirSet t" for d
    using node [of d] that by auto
  have files: "\<exists>n. map_of nodes f = Some n \<and>
      (if nParent n = [] then nLayer n = 0 else \<exists>m. map_of nodes (nParent n) = Some m \<and> nLayer n = nLayer m)" if "f \<in> tFileSet t" for f
  proof -
    have "f \<notin> tDirSet t" using that disj by blast
    with node [of f] that obtain n m where n: "map_of nodes f = Some n" "map_of (tNodes t) f = Some m" "nParent n = nParent m"
      "nLayer n = (if nParent m = [] then 0 else dirLayer layerOf (tDirHasSource t) (nParent m))" by auto
    with par [OF n(2)] dirs [of "nParent m"] show ?thesis by auto
  qed
  have order: "\<forall>x y a b. map_of nodes x = Some a \<and> map_of nodes y = Some b \<and> nLayer a = nLayer b \<longrightarrow>
      (nOrder a < nOrder b \<longleftrightarrow> (nParent a, nName a) < (nParent b, nName b))"
    using ord unfolding orderedIn_def by (metis UNIV_I)
  obtain t' where t': "t' = t\<lparr> tNodes := nodes \<rparr>" by blast
  then have nodes: "tNodes t' = nodes" by simp
  show ?thesis
    by (rule exI [of _ t'], rule exI [of _ layerOf], rule exI [of _ violations], unfold nodes, intro conjI ballI)
      (use run t' dirs [unfolded dirLayer_def] files order in blast)+
qed

theorem applyLayout_layers_witness:
  "\<exists>t t' violations. buildTree (normalizeFiles exampleFiles) exampleContents = Some t \<and>
     applyLayout t [\<lparr> eFrom = ''cmd/app'', eTo = ''internal/a'', eCount = 1 \<rparr>] = Some (t', violations)"
proof -
  obtain t n where t: "buildTree (normalizeFiles exampleFiles) exampleContents = Some t" "tDirHasSource t = {''cmd/app'', ''internal/a''}"
    by (rule example_built)
  then have "\<forall>e \<in> set [\<lparr> eFrom = ''cmd/app'', eTo = ''internal/a'', eCount = 1 \<rparr>]. eFrom e \<in> tDirHasSource t" by simp
  from applyLayout_layers [OF t(1) this] t(1) show ?thesis by blast
qed

end
