(* ===== verification/Jsonc.thy ===== *)
theory Jsonc
  imports Go_Base
begin

text \<open>
  \<open>internal/codegraph/jsonc.go\<close>: the comments and trailing commas of a \<^verbatim>\<open>tsconfig.json\<close> are removed
  before it is read as JSON. The scanners run over the bytes from left to right; \<open>isInfix\<close>
  tells where a comment would end.
\<close>

section \<open>Comments\<close>

datatype stripState = stateCode | stateString | stateLineComment | stateBlockComment

text \<open>One iteration per equation; a block comment's end consumes two bytes.\<close>

fun stripFrom :: "stripState \<Rightarrow> bool \<Rightarrow> string \<Rightarrow> string" where
  "stripFrom state escaped [] = []"
| "stripFrom stateCode escaped (c # cs) =
     (if c = CHR 0x22 then c # stripFrom stateString escaped cs
      else if c = slash \<and> cs \<noteq> [] \<and> hd cs = slash then CHR '' '' # stripFrom stateLineComment escaped cs
      else if c = slash \<and> cs \<noteq> [] \<and> hd cs = CHR ''*'' then CHR '' '' # stripFrom stateBlockComment escaped cs
      else c # stripFrom stateCode escaped cs)"
| "stripFrom stateString escaped (c # cs) =
     (if escaped then c # stripFrom stateString False cs
      else if c = backslash then c # stripFrom stateString True cs
      else if c = CHR 0x22 then c # stripFrom stateCode escaped cs
      else c # stripFrom stateString escaped cs)"
| "stripFrom stateLineComment escaped (c # cs) =
     (if c = CHR 0x0A then c # stripFrom stateCode escaped cs
      else CHR '' '' # stripFrom stateLineComment escaped cs)"
| "stripFrom stateBlockComment escaped (c # cs) =
     (if c = CHR ''*'' \<and> cs \<noteq> [] \<and> hd cs = slash then CHR '' '' # CHR '' '' # stripFrom stateCode escaped (tl cs)
      else (if c \<noteq> CHR 0x0A then CHR '' '' else c) # stripFrom stateBlockComment escaped cs)"

definition stripJSONCComments :: "string \<Rightarrow> string" where
  "stripJSONCComments data = stripFrom stateCode False data"

section \<open>Trailing commas\<close>

definition isJSONSpace :: "char \<Rightarrow> bool" where
  "isJSONSpace c \<longleftrightarrow> c = CHR '' '' \<or> c = CHR 0x09 \<or> c = CHR 0x0A \<or> c = CHR 0x0D"

definition closesNext :: "string \<Rightarrow> bool" where
  "closesNext rest =
     (case dropWhile isJSONSpace rest of [] \<Rightarrow> False | c # _ \<Rightarrow> c = CHR 0x7D \<or> c = CHR '']'')"

fun commasFrom :: "bool \<Rightarrow> bool \<Rightarrow> string \<Rightarrow> string" where
  "commasFrom inString escaped [] = []"
| "commasFrom inString escaped (c # cs) =
     (if inString then
        (if escaped then c # commasFrom True False cs
         else if c = backslash then c # commasFrom True True cs
         else if c = CHR 0x22 then c # commasFrom False escaped cs
         else c # commasFrom True escaped cs)
      else if c = CHR 0x22 then c # commasFrom True escaped cs
      else if c = CHR '','' then (if closesNext cs then commasFrom False escaped cs else c # commasFrom False escaped cs)
      else c # commasFrom False escaped cs)"

definition stripTrailingCommas :: "string \<Rightarrow> string" where
  "stripTrailingCommas data = commasFrom False False data"

section \<open>What the scanners keep\<close>

text \<open>The bytes between the quotes of a literal: no quote that is not escaped.\<close>

fun literal :: "bool \<Rightarrow> string \<Rightarrow> bool" where
  "literal escaped [] = (\<not> escaped)"
| "literal escaped (c # cs) = (if escaped then literal False cs else c \<noteq> CHR 0x22 \<and> literal (c = backslash) cs)"

lemma stripFrom_literal:
  "literal escaped lit \<Longrightarrow> stripFrom stateString escaped (lit @ CHR 0x22 # rest) = lit @ CHR 0x22 # stripFrom stateCode False rest"
  by (induction lit arbitrary: escaped) auto

lemma stripFrom_line:
  "CHR 0x0A \<notin> set body \<Longrightarrow>
     stripFrom stateLineComment escaped (body @ CHR 0x0A # rest) = replicate (length body) (CHR '' '') @ CHR 0x0A # stripFrom stateCode escaped rest"
  by (induction body) auto

definition blank :: "string \<Rightarrow> string" where
  "blank s = map (\<lambda>c. if c = CHR 0x0A then c else CHR '' '') s"

lemma stripFrom_block:
  "\<not> sublist ''*/'' (body @ ''*'') \<Longrightarrow>
     stripFrom stateBlockComment escaped (body @ ''*/'' @ rest) = blank (body @ ''*/'') @ stripFrom stateCode escaped rest"
proof (induction body)
  case Nil
  then show ?case by (simp add: blank_def)
next
  case (Cons c body)
  have "\<not> sublist ''*/'' (body @ ''*'')" using Cons.prems by (auto simp: sublist_Cons_right)
  moreover have "\<not> (c = CHR ''*'' \<and> hd (body @ ''*/'' @ rest) = slash)"
    using Cons.prems by (cases body) (auto simp: sublist_Cons_right)
  ultimately show ?case using Cons.IH by (auto simp: blank_def)
qed

lemma length_stripFrom: "length (stripFrom state escaped s) = length s"
  by (induction state escaped s rule: stripFrom.induct) auto

lemma newlines_stripFrom: "map (\<lambda>c. c = CHR 0x0A) (stripFrom state escaped s) = map (\<lambda>c. c = CHR 0x0A) s"
proof (induction state escaped s rule: stripFrom.induct)
  case (5 escaped c cs)
  then show ?case by (cases cs) auto
qed auto

lemma stripFrom_plain:
  "CHR 0x22 \<notin> set code \<Longrightarrow> slash \<notin> set code \<Longrightarrow> stripFrom stateCode escaped (code @ rest) = code @ stripFrom stateCode escaped rest"
  by (induction code) auto

lemma stripFrom_open_block:
  "\<not> prefix ''/'' body \<Longrightarrow> \<not> sublist ''*/'' (body @ ''*'') \<Longrightarrow>
     stripFrom stateCode escaped (''/*'' @ body @ ''*/'' @ rest) = blank (''/*'' @ body @ ''*/'') @ stripFrom stateCode escaped rest"
proof -
  assume start: "\<not> prefix ''/'' body" and inside: "\<not> sublist ''*/'' (body @ ''*'')"
  have "\<not> sublist ''*/'' ((CHR ''*'' # body) @ ''*'')"
    using start inside by (cases body) (auto simp: sublist_Cons_right)
  from stripFrom_block [OF this, of escaped rest] show ?thesis by (simp add: blank_def)
qed

text \<open>
  Comments are blanked and nothing else. Offsets and line breaks are kept; code without
  quotes and slashes and every string literal come out as they are; a line comment is
  replaced by spaces up to its line break, and a block comment by spaces and its line breaks,
  provided that its body does not start with a slash.
\<close>

theorem stripJSONCComments_blanks:
  "length (stripJSONCComments data) = length data \<and>
   map (\<lambda>c. c = CHR 0x0A) (stripJSONCComments data) = map (\<lambda>c. c = CHR 0x0A) data \<and>
   (CHR 0x22 \<notin> set code \<and> slash \<notin> set code \<longrightarrow> stripJSONCComments (code @ rest) = code @ stripJSONCComments rest) \<and>
   (literal False lit \<longrightarrow>
      stripJSONCComments (CHR 0x22 # lit @ CHR 0x22 # rest) = CHR 0x22 # lit @ CHR 0x22 # stripJSONCComments rest) \<and>
   (CHR 0x0A \<notin> set body \<longrightarrow> stripJSONCComments (''//'' @ body @ CHR 0x0A # rest) =
      replicate (length body + 2) (CHR '' '') @ CHR 0x0A # stripJSONCComments rest) \<and>
   (\<not> prefix ''/'' body \<and> \<not> sublist ''*/'' (body @ ''*'') \<longrightarrow>
      stripJSONCComments (''/*'' @ body @ ''*/'' @ rest) = blank (''/*'' @ body @ ''*/'') @ stripJSONCComments rest)"
proof (intro conjI impI; (elim conjE)?)
  assume "\<not> prefix ''/'' body" "\<not> sublist ''*/'' (body @ ''*'')"
  then show "stripJSONCComments (''/*'' @ body @ ''*/'' @ rest) = blank (''/*'' @ body @ ''*/'') @ stripJSONCComments rest"
    unfolding stripJSONCComments_def by (rule stripFrom_open_block)
qed (simp_all add: stripJSONCComments_def length_stripFrom newlines_stripFrom stripFrom_plain stripFrom_literal stripFrom_line)

theorem stripJSONCComments_blanks_witness:
  "stripJSONCComments (''/*'' @ '' a '' @ ''*/'' @ ''1'') = ''       1''"
proof -
  have "\<not> prefix ''/'' '' a '' \<and> \<not> sublist ''*/'' ('' a '' @ ''*'')" by code_simp
  then have "stripJSONCComments (''/*'' @ '' a '' @ ''*/'' @ ''1'') = blank (''/*'' @ '' a '' @ ''*/'') @ stripJSONCComments ''1''"
    using stripJSONCComments_blanks [where body = "'' a ''" and rest = "''1''" and data = "[]" and code = "[]" and lit = "[]"] by blast
  also have "\<dots> = ''       1''" by code_simp
  finally show ?thesis .
qed

text \<open>
  A block comment that opens with a slash is taken to end there: the scanner reads the star of
  the opener again, so the text after it is treated as code.
\<close>

theorem slash_after_opener_closes:
  "stripJSONCComments (''/*/'' @ rest) = ''   '' @ stripJSONCComments rest"
  by (simp add: stripJSONCComments_def)

section \<open>Commas\<close>

lemma commasFrom_others: "removeAll (CHR '','') (commasFrom inString escaped s) = removeAll (CHR '','') s"
  by (induction s arbitrary: inString escaped) auto

lemma commasFrom_literal:
  "literal escaped lit \<Longrightarrow> commasFrom True escaped (lit @ CHR 0x22 # rest) = lit @ CHR 0x22 # commasFrom False False rest"
  by (induction lit arbitrary: escaped) auto

lemma commasFrom_plain:
  "CHR 0x22 \<notin> set code \<Longrightarrow> CHR '','' \<notin> set code \<Longrightarrow> commasFrom False escaped (code @ rest) = code @ commasFrom False escaped rest"
  by (induction code) auto

lemma closesNext_space: "\<forall>c \<in> set ws. isJSONSpace c \<Longrightarrow> closesNext (ws @ rest) = closesNext rest"
  by (simp add: closesNext_def dropWhile_append)

lemma space_plain: "\<forall>c \<in> set ws. isJSONSpace c \<Longrightarrow> CHR 0x22 \<notin> set ws \<and> CHR '','' \<notin> set ws"
proof -
  assume "\<forall>c \<in> set ws. isJSONSpace c"
  moreover have "\<not> isJSONSpace (CHR 0x22)" "\<not> isJSONSpace (CHR '','')" by (simp_all add: isJSONSpace_def)
  ultimately show ?thesis by blast
qed

text \<open>
  Only commas are dropped, never one inside a string literal, and outside literals exactly
  those that white space separates from a closing brace or bracket.
\<close>

lemma stripTrailingCommas_drops:
  "removeAll (CHR '','') (stripTrailingCommas data) = removeAll (CHR '','') data"
  "literal False lit \<Longrightarrow>
     stripTrailingCommas (CHR 0x22 # lit @ CHR 0x22 # rest) = CHR 0x22 # lit @ CHR 0x22 # stripTrailingCommas rest"
  "CHR 0x22 \<notin> set code \<Longrightarrow> CHR '','' \<notin> set code \<Longrightarrow> stripTrailingCommas (code @ rest) = code @ stripTrailingCommas rest"
  "\<forall>c \<in> set ws. isJSONSpace c \<Longrightarrow> stripTrailingCommas (CHR '','' # ws @ rest) =
     (if closesNext rest then [] else '','') @ ws @ stripTrailingCommas rest"
proof -
  show "stripTrailingCommas (CHR '','' # ws @ rest) = (if closesNext rest then [] else '','') @ ws @ stripTrailingCommas rest"
    if "\<forall>c \<in> set ws. isJSONSpace c"
    using closesNext_space [OF that, of rest] space_plain [OF that] by (simp add: stripTrailingCommas_def commasFrom_plain)
qed (simp_all add: stripTrailingCommas_def commasFrom_others commasFrom_plain commasFrom_literal)

end
