(* ===== verification/Code_Imports.thy ===== *)
theory Code_Imports
  imports Code_Tree Jsonc
begin

text \<open>
  The edges of the import graph: module and path-alias resolution in
  \<open>internal/codegraph/lang_go.go\<close> and \<open>lang_ts.go\<close>, edge collection and \<open>Build\<close> in \<open>builder.go\<close>.

  The parsers are code outside the repository and arguments of the model: the imports of a
  Go file, the specifiers of a TypeScript file (\<open>None\<close> when it does not parse), the error of
  constructing the TypeScript extractor, and the part of a \<^verbatim>\<open>tsconfig.json\<close> that
  \<open>json.Unmarshal\<close> reads. Cancellation of the context is not modelled.
\<close>

section \<open>Go modules\<close>

record goModule =
  gmDir :: string
  gmModulePath :: string

definition moduleOfLine :: "string \<Rightarrow> string option" where
  "moduleOfLine raw =
     (let line = trim_space raw;
          line = (case cut_string ''//'' line of None \<Rightarrow> line | Some (before, _) \<Rightarrow> trim_space before)
      in if \<not> prefix ''module'' line then None
         else
           let rest = drop 6 line
           in if rest = [] \<or> hd rest \<noteq> CHR '' '' \<and> hd rest \<noteq> CHR 0x09 then None
              else
                let rest = trim_chars [CHR 0x22] (trim_space rest)
                in if rest = [] then None else Some rest)"

fun firstModule :: "string list \<Rightarrow> string" where
  "firstModule [] = []"
| "firstModule (l # ls) = (case moduleOfLine l of Some m \<Rightarrow> m | None \<Rightarrow> firstModule ls)"

definition parseGoModulePath :: "string \<Rightarrow> string" where
  "parseGoModulePath content = firstModule (split_char newline content)"

definition listedModules :: "string list \<Rightarrow> (string \<rightharpoonup> string) \<Rightarrow> goModule list" where
  "listedModules paths contents =
     concat (map (\<lambda>p.
       if path_base p \<noteq> ''go.mod'' then []
       else case contents p of
              None \<Rightarrow> []
            | Some data \<Rightarrow>
                if parseGoModulePath data = [] then []
                else [\<lparr> gmDir = parentDir p, gmModulePath = parseGoModulePath data \<rparr>]) paths)"

definition collectGoModules :: "string list \<Rightarrow> (string \<rightharpoonup> string) \<Rightarrow> (string \<rightharpoonup> string) \<Rightarrow> goModule list" where
  "collectGoModules paths contents read =
     (let mods = listedModules paths contents;
          rootSeen = list_ex (\<lambda>m. gmDir m = []) mods;
          mods = (if rootSeen then mods
                  else case read ''go.mod'' of
                         None \<Rightarrow> mods
                       | Some data \<Rightarrow>
                           if parseGoModulePath data = [] then mods
                           else mods @ [\<lparr> gmDir = [], gmModulePath = parseGoModulePath data \<rparr>])
      in sort_key (\<lambda>m. (- int (length (gmModulePath m)), gmModulePath m)) mods)"

fun resolveGoImport :: "string \<Rightarrow> goModule list \<Rightarrow> string option" where
  "resolveGoImport importPath [] = None"
| "resolveGoImport importPath (m # mods) =
     (if importPath = gmModulePath m then Some (gmDir m)
      else if prefix (gmModulePath m @ ''/'') importPath
           then Some (path_join [gmDir m, drop (length (gmModulePath m @ ''/'')) importPath])
      else resolveGoImport importPath mods)"

section \<open>TypeScript path aliases\<close>

record tsPathPattern =
  tpPattern :: string
  tpTargets :: "string list"

record tsConfig =
  tcDir :: string
  tcBaseURL :: string
  tcPatterns :: "tsPathPattern list"

definition patternPrefix :: "string \<Rightarrow> string" where
  "patternPrefix pattern = fst (cut_char (CHR ''*'') pattern)"

text \<open>The base URL and the alias map of a document; \<open>None\<close> when it is not JSON of that shape.\<close>

type_synonym ts_unmarshal = "string \<Rightarrow> (string \<times> (string \<times> string list) list) option"

definition parseTSConfig :: "ts_unmarshal \<Rightarrow> string \<Rightarrow> string \<Rightarrow> tsConfig option" where
  "parseTSConfig unmarshal dir data =
     (case unmarshal (stripTrailingCommas (stripJSONCComments data)) of
        None \<Rightarrow> None
      | Some (baseURL, paths) \<Rightarrow>
          let patterns = map (\<lambda>k. \<lparr> tpPattern = k, tpTargets = the (map_of paths k) \<rparr>) (sorted_list_of_set (set (map fst paths)))
          in Some \<lparr> tcDir = dir, tcBaseURL = baseURL,
               tcPatterns = sort_key (\<lambda>p. (- int (length (patternPrefix (tpPattern p))), tpPattern p)) patterns \<rparr>)"

definition listConfig :: "ts_unmarshal \<Rightarrow> (string \<rightharpoonup> string) \<Rightarrow> (string \<rightharpoonup> tsConfig) \<Rightarrow> string \<Rightarrow> (string \<rightharpoonup> tsConfig)" where
  "listConfig unmarshal contents cfgs p =
     (if path_base p \<noteq> ''tsconfig.json'' then cfgs
      else case contents p of
             None \<Rightarrow> cfgs
           | Some data \<Rightarrow>
               (case parseTSConfig unmarshal (parentDir p) data of None \<Rightarrow> cfgs | Some cfg \<Rightarrow> cfgs(tcDir cfg \<mapsto> cfg)))"

definition collectTSConfigs ::
  "ts_unmarshal \<Rightarrow> string list \<Rightarrow> (string \<rightharpoonup> string) \<Rightarrow> (string \<rightharpoonup> string) \<Rightarrow> (string \<rightharpoonup> tsConfig)" where
  "collectTSConfigs unmarshal paths contents read =
     (let cfgs = foldl (listConfig unmarshal contents) Map.empty paths
      in if cfgs [] \<noteq> None then cfgs
         else case read ''tsconfig.json'' of
                None \<Rightarrow> cfgs
              | Some data \<Rightarrow> (case parseTSConfig unmarshal [] data of None \<Rightarrow> cfgs | Some cfg \<Rightarrow> cfgs([] \<mapsto> cfg)))"

definition tsResolveExts :: "string list" where
  "tsResolveExts = [''.ts'', ''.tsx'']"

definition tsJSExts :: "string list" where
  "tsJSExts = [''.js'', ''.jsx'', ''.mjs'', ''.cjs'']"

text \<open>The candidates in the order they are tried; the first that is a file wins.\<close>

definition tsCandidates :: "string \<Rightarrow> string list" where
  "tsCandidates base =
     base # concat (map (\<lambda>js. if suffix js base then map (\<lambda>ext. trim_suffix js base @ ext) tsResolveExts else []) tsJSExts) @
     map (\<lambda>ext. base @ ext) tsResolveExts @ map (\<lambda>ext. base @ ''/index'' @ ext) tsResolveExts"

definition resolveTSFile :: "string \<Rightarrow> string set \<Rightarrow> string option" where
  "resolveTSFile base fileSet =
     (if base = [] \<or> base = ''.'' \<or> prefix ''../'' base then None
      else List.find (\<lambda>c. c \<in> fileSet) (tsCandidates base))"

definition matchAlias :: "string \<Rightarrow> string \<Rightarrow> string option" where
  "matchAlias spec pattern =
     (case cut_char (CHR ''*'') pattern of
        (_, None) \<Rightarrow> if spec = pattern then Some [] else None
      | (pre, Some suf) \<Rightarrow>
          if length spec \<ge> length pre + length suf \<and> prefix pre spec \<and> suffix suf spec
          then Some (take (length spec - length suf - length pre) (drop (length pre) spec)) else None)"

definition replaceStar :: "string \<Rightarrow> string \<Rightarrow> string" where
  "replaceStar target matched =
     (case cut_char (CHR ''*'') target of (_, None) \<Rightarrow> target | (a, Some b) \<Rightarrow> a @ matched @ b)"

fun firstSome :: "('a \<Rightarrow> 'b option) \<Rightarrow> 'a list \<Rightarrow> 'b option" where
  "firstSome f [] = None"
| "firstSome f (x # xs) = (case f x of Some y \<Rightarrow> Some y | None \<Rightarrow> firstSome f xs)"

definition resolveAlias :: "tsConfig \<Rightarrow> string \<Rightarrow> string set \<Rightarrow> string option" where
  "resolveAlias c spec fileSet =
     firstSome (\<lambda>p. case matchAlias spec (tpPattern p) of
         None \<Rightarrow> None
       | Some matched \<Rightarrow>
           firstSome (\<lambda>target. resolveTSFile (path_join [tcDir c, tcBaseURL c, replaceStar target matched]) fileSet) (tpTargets p))
       (tcPatterns c)"

fun governing :: "(string \<rightharpoonup> tsConfig) \<Rightarrow> string list \<Rightarrow> tsConfig option" where
  "governing cfgs [] = None"
| "governing cfgs (d # ds) =
     (case cfgs d of
        Some cfg \<Rightarrow> if tcPatterns cfg \<noteq> [] then Some cfg else governing cfgs ds
      | None \<Rightarrow> governing cfgs ds)"

text \<open>
  The outer option is the walk to the root that would not end; the directories tried are the
  file's own, those above it, and the root.
\<close>

definition resolveTSImport :: "string \<Rightarrow> string \<Rightarrow> (string \<rightharpoonup> tsConfig) \<Rightarrow> string set \<Rightarrow> string option option" where
  "resolveTSImport spec fileDir cfgs fileSet =
     (if spec = [] then Some None
      else if prefix ''./'' spec \<or> prefix ''../'' spec \<or> spec = ''.'' \<or> spec = ''..''
      then Some (resolveTSFile (path_join [fileDir, spec]) fileSet)
      else do {
        dirs \<leftarrow> (if fileDir = [] then Some [[]] else map_option (\<lambda>ups. fileDir # ups @ [[]]) (ancestors fileDir));
        Some (case governing cfgs dirs of None \<Rightarrow> None | Some cfg \<Rightarrow> resolveAlias cfg spec fileSet)
      })"

section \<open>Edges\<close>

record 'e parsers =
  pGoImports :: "string \<Rightarrow> string \<Rightarrow> string list"
  pTSError :: "'e option"
  pTSImports :: "string \<Rightarrow> string \<Rightarrow> string list option"
  pUnmarshal :: ts_unmarshal

type_synonym edgeCounts = "((string \<times> string) \<times> nat) list"

definition countEdge :: "string \<Rightarrow> string \<Rightarrow> edgeCounts \<Rightarrow> edgeCounts" where
  "countEdge src dst counts =
     AList.update (src, dst) (Suc (case map_of counts (src, dst) of None \<Rightarrow> 0 | Some n \<Rightarrow> n)) counts"

definition goEdge :: "fileTree \<Rightarrow> goModule list \<Rightarrow> string \<Rightarrow> edgeCounts \<Rightarrow> string \<Rightarrow> edgeCounts" where
  "goEdge tree mods fromDir counts imp =
     (case resolveGoImport imp mods of
        None \<Rightarrow> counts
      | Some target \<Rightarrow>
          if target = [] \<or> target = fromDir \<or> target \<notin> tDirHasSource tree then counts
          else countEdge fromDir target counts)"

definition tsEdge :: "fileTree \<Rightarrow> (string \<rightharpoonup> tsConfig) \<Rightarrow> string \<Rightarrow> edgeCounts \<Rightarrow> string \<Rightarrow> edgeCounts option" where
  "tsEdge tree cfgs fromDir counts spec =
     map_option (\<lambda>resolved.
         case resolved of
           None \<Rightarrow> counts
         | Some file \<Rightarrow>
             let toDir = parentDir file
             in if toDir = [] \<or> toDir = fromDir then counts else countEdge fromDir toDir counts)
       (resolveTSImport spec fromDir cfgs (tFileSet tree))"

text \<open>
  One file of the loop. \<open>Inl\<close> is the error that ends the collection. The extractor is created
  at the first TypeScript file, so its error comes there.
\<close>

definition fileEdges ::
  "'e parsers \<Rightarrow> fileTree \<Rightarrow> (string \<rightharpoonup> string) \<Rightarrow> goModule list \<Rightarrow> (string \<rightharpoonup> tsConfig) \<Rightarrow>
   'e + edgeCounts \<Rightarrow> string \<Rightarrow> ('e + edgeCounts) option" where
  "fileEdges env tree contents mods cfgs acc p =
     (case acc of
        Inl e \<Rightarrow> Some (Inl e)
      | Inr counts \<Rightarrow>
          (case contents p of
             None \<Rightarrow> Some (Inr counts)
           | Some src \<Rightarrow>
               let fromDir = parentDir p
               in if fromDir = [] then Some (Inr counts)
                  else case languageForFile p of
                         None \<Rightarrow> Some (Inr counts)
                       | Some LanguageGo \<Rightarrow> Some (Inr (foldl (goEdge tree mods fromDir) counts (pGoImports env p src)))
                       | Some LanguageTypeScript \<Rightarrow>
                           (case pTSError env of
                              Some e \<Rightarrow> Some (Inl e)
                            | None \<Rightarrow>
                                (case pTSImports env p src of
                                   None \<Rightarrow> Some (Inr counts)
                                 | Some specs \<Rightarrow> map_option Inr (fold_opt (tsEdge tree cfgs fromDir) counts specs)))))"

definition edgeKey :: "Edge \<Rightarrow> string \<times> string" where
  "edgeKey e = (eFrom e, eTo e)"

definition sortEdges :: "Edge list \<Rightarrow> Edge list" where
  "sortEdges es = sort_key edgeKey es"

definition collectEdges ::
  "'e parsers \<Rightarrow> fileTree \<Rightarrow> (string \<rightharpoonup> string) \<Rightarrow> goModule list \<Rightarrow> (string \<rightharpoonup> tsConfig) \<Rightarrow> ('e + Edge list) option" where
  "collectEdges env tree contents mods cfgs =
     map_option (map_sum id (\<lambda>counts. sortEdges (map (\<lambda>((src, dst), n). \<lparr> eFrom = src, eTo = dst, eCount = n \<rparr>) counts)))
       (fold_opt (fileEdges env tree contents mods cfgs) (Inr []) (sortedFiles tree))"

section \<open>The graph\<close>

record Graph =
  gNodes :: "Node list"
  gEdges :: "Edge list"
  gViolations :: "Violation list"

definition readContents :: "(string \<rightharpoonup> string) \<Rightarrow> string list \<Rightarrow> (string \<rightharpoonup> string)" where
  "readContents read paths = foldl (\<lambda>m p. case read p of None \<Rightarrow> m | Some data \<Rightarrow> m(p \<mapsto> data)) Map.empty paths"

text \<open>The nodes of a laid-out tree in the order of their identifiers.\<close>

definition nodesByID :: "(string \<times> Node) list \<Rightarrow> Node list" where
  "nodesByID nodes = map (\<lambda>i. the (map_of nodes i)) (sorted_list_of_set (set (map fst nodes)))"

definition BuildGraph :: "'e parsers \<Rightarrow> string list \<Rightarrow> (string \<rightharpoonup> string) \<Rightarrow> ('e + Graph) option" where
  "BuildGraph env files read = do {
     let paths = normalizeFiles files;
     let contents = readContents read paths;
     tree \<leftarrow> buildTree paths contents;
     let mods = collectGoModules paths contents read;
     let cfgs = collectTSConfigs (pUnmarshal env) paths contents read;
     collected \<leftarrow> collectEdges env tree contents mods cfgs;
     (case collected of
        Inl e \<Rightarrow> Some (Inl e)
      | Inr edges \<Rightarrow> do {
          (tree, violations) \<leftarrow> applyLayout tree edges;
          Some (Inr \<lparr> gNodes = nodesByID (tNodes tree),
            gEdges = edges, gViolations = violations \<rparr>)
        })
   }"

fun languageText :: "Language \<Rightarrow> string" where
  "languageText LanguageGo = ''go''"
| "languageText LanguageTypeScript = ''typescript''"

definition Languages :: "Graph \<Rightarrow> string list" where
  "Languages g =
     sorted_list_of_set (set (List.map_filter (\<lambda>n. if nKind n = NodeKindFile then map_option languageText (nLanguage n) else None) (gNodes g)))"

section \<open>Resolution\<close>

lemma resolveTSFile_member: "resolveTSFile base fileSet = Some f \<Longrightarrow> f \<in> fileSet"
  by (auto simp: resolveTSFile_def find_Some_iff split: if_splits)

lemma firstSome_Some: "firstSome f xs = Some y \<Longrightarrow> \<exists>x \<in> set xs. f x = Some y"
  by (induction xs) (auto split: option.splits)

lemma resolveAlias_member: "resolveAlias c spec fileSet = Some f \<Longrightarrow> f \<in> fileSet"
  unfolding resolveAlias_def by (auto dest!: firstSome_Some resolveTSFile_member split: option.splits)

lemma resolveTSImport_member: "resolveTSImport spec d cfgs fileSet = Some (Some f) \<Longrightarrow> f \<in> fileSet"
  by (auto simp: resolveTSImport_def split: if_splits option.splits bind_splits dest: resolveTSFile_member resolveAlias_member)

lemma resolveTSImport_total:
  assumes "d = [] \<or> normal_path d"
  shows "\<exists>r. resolveTSImport spec d cfgs fileSet = Some r"
proof (cases "d = []")
  case False
  then obtain ups where "ancestors d = Some ups" using assms normal_path_ancestors [of d] by blast
  then show ?thesis by (simp add: resolveTSImport_def)
qed (simp add: resolveTSImport_def)

lemma collectGoModules_sorted:
  "sorted_wrt (\<lambda>a b. length (gmModulePath b) \<le> length (gmModulePath a)) (collectGoModules paths contents read)"
proof -
  have "sorted (map (\<lambda>m. (- int (length (gmModulePath m)), gmModulePath m)) (collectGoModules paths contents read))"
    unfolding collectGoModules_def Let_def by (rule sorted_sort_key)
  then show ?thesis unfolding sorted_map by (rule sorted_wrt_mono_rel [rotated]) (auto simp: less_eq_prod_def)
qed

text \<open>The module an import path belongs to.\<close>

definition ownsImport :: "string \<Rightarrow> goModule \<Rightarrow> bool" where
  "ownsImport imp m \<longleftrightarrow> imp = gmModulePath m \<or> prefix (gmModulePath m @ ''/'') imp"

definition moduleTarget :: "string \<Rightarrow> goModule \<Rightarrow> string" where
  "moduleTarget imp m =
     (if imp = gmModulePath m then gmDir m else path_join [gmDir m, drop (length (gmModulePath m) + 1) imp])"

lemma resolveGoImport_find: "resolveGoImport imp mods = map_option (moduleTarget imp) (List.find (ownsImport imp) mods)"
  by (induction imp mods rule: resolveGoImport.induct) (simp_all add: ownsImport_def moduleTarget_def)

lemma find_sorted:
  "sorted_wrt R xs \<Longrightarrow> List.find P xs = Some x \<Longrightarrow> (\<And>y. R y y) \<Longrightarrow> y \<in> set xs \<Longrightarrow> P y \<Longrightarrow> R x y"
  by (induction xs) (auto split: if_splits)

section \<open>Counting\<close>

definition goLinks :: "fileTree \<Rightarrow> goModule list \<Rightarrow> string \<Rightarrow> string \<Rightarrow> (string \<times> string) list" where
  "goLinks tree mods d imp =
     (case resolveGoImport imp mods of
        None \<Rightarrow> []
      | Some target \<Rightarrow> if target \<noteq> [] \<and> target \<noteq> d \<and> target \<in> tDirHasSource tree then [(d, target)] else [])"

definition tsLinks :: "fileTree \<Rightarrow> (string \<rightharpoonup> tsConfig) \<Rightarrow> string \<Rightarrow> string \<Rightarrow> (string \<times> string) list" where
  "tsLinks tree cfgs d spec =
     (case resolveTSImport spec d cfgs (tFileSet tree) of
        Some (Some f) \<Rightarrow> if parentDir f \<noteq> [] \<and> parentDir f \<noteq> d then [(d, parentDir f)] else []
      | _ \<Rightarrow> [])"

definition fileLinks ::
  "'e parsers \<Rightarrow> fileTree \<Rightarrow> (string \<rightharpoonup> string) \<Rightarrow> goModule list \<Rightarrow> (string \<rightharpoonup> tsConfig) \<Rightarrow> string \<Rightarrow> (string \<times> string) list" where
  "fileLinks env tree contents mods cfgs p =
     (case (contents p, languageForFile p) of
        (Some src, Some LanguageGo) \<Rightarrow>
          if parentDir p = [] then [] else concat (map (goLinks tree mods (parentDir p)) (pGoImports env p src))
      | (Some src, Some LanguageTypeScript) \<Rightarrow>
          if parentDir p = [] then []
          else concat (map (tsLinks tree cfgs (parentDir p)) (case pTSImports env p src of None \<Rightarrow> [] | Some specs \<Rightarrow> specs))
      | _ \<Rightarrow> [])"

definition counted :: "edgeCounts \<Rightarrow> (string \<times> string) list \<Rightarrow> bool" where
  "counted counts links \<longleftrightarrow> distinct (map fst counts) \<and>
     map_of counts = (\<lambda>k. if k \<in> set links then Some (count_list links k) else None)"

lemma countEdge_counted: "counted counts links \<Longrightarrow> counted (countEdge a b counts) (links @ [(a, b)])"
  by (auto simp: counted_def countEdge_def update_conv' distinct_update fun_eq_iff count_list_0_iff)

lemma goEdge_counted: "counted counts links \<Longrightarrow> counted (goEdge tree mods d counts imp) (links @ goLinks tree mods d imp)"
  by (auto simp: goEdge_def goLinks_def countEdge_counted split: option.splits)

lemma goEdges_counted:
  "counted counts links \<Longrightarrow>
     counted (foldl (goEdge tree mods d) counts imps) (links @ concat (map (goLinks tree mods d) imps))"
proof (induction imps arbitrary: counts links)
  case (Cons imp imps)
  from Cons.IH [OF goEdge_counted [OF Cons.prems]] show ?case by simp
qed simp

lemma tsEdge_counted:
  assumes "counted counts links" and "d = [] \<or> normal_path d"
  shows "\<exists>counts'. tsEdge tree cfgs d counts spec = Some counts' \<and> counted counts' (links @ tsLinks tree cfgs d spec)"
proof -
  obtain r where "resolveTSImport spec d cfgs (tFileSet tree) = Some r" using resolveTSImport_total [OF assms(2)] by blast
  then show ?thesis using countEdge_counted [OF assms(1)] assms(1) by (cases r) (auto simp: tsEdge_def tsLinks_def Let_def)
qed

lemma tsEdges_counted:
  "counted counts links \<Longrightarrow> d = [] \<or> normal_path d \<Longrightarrow>
     \<exists>counts'. fold_opt (tsEdge tree cfgs d) counts specs = Some counts' \<and>
       counted counts' (links @ concat (map (tsLinks tree cfgs d) specs))"
proof (induction specs arbitrary: counts links)
  case (Cons spec specs)
  from tsEdge_counted [OF Cons.prems] obtain c where c: "tsEdge tree cfgs d counts spec = Some c" "counted c (links @ tsLinks tree cfgs d spec)" by blast
  from Cons.IH [OF c(2) Cons.prems(2)] c(1) show ?case by simp
qed simp

text \<open>The files that make the collection fail when the extractor cannot be created.\<close>

definition needsExtractor :: "(string \<rightharpoonup> string) \<Rightarrow> string \<Rightarrow> bool" where
  "needsExtractor contents p \<longleftrightarrow> contents p \<noteq> None \<and> parentDir p \<noteq> [] \<and> languageForFile p = Some LanguageTypeScript"

definition collected ::
  "'e parsers \<Rightarrow> fileTree \<Rightarrow> (string \<rightharpoonup> string) \<Rightarrow> goModule list \<Rightarrow> (string \<rightharpoonup> tsConfig) \<Rightarrow> string list \<Rightarrow> 'e + edgeCounts \<Rightarrow> bool" where
  "collected env tree contents mods cfgs files r \<longleftrightarrow>
     (case r of
        Inl e \<Rightarrow> pTSError env = Some e \<and> (\<exists>p \<in> set files. needsExtractor contents p)
      | Inr counts \<Rightarrow> \<not> (pTSError env \<noteq> None \<and> (\<exists>p \<in> set files. needsExtractor contents p)) \<and>
          counted counts (concat (map (fileLinks env tree contents mods cfgs) files)))"

lemma fileEdges_collected:
  assumes "collected env tree contents mods cfgs files r" and "parentDir p = [] \<or> normal_path (parentDir p)"
  shows "\<exists>r'. fileEdges env tree contents mods cfgs r p = Some r' \<and> collected env tree contents mods cfgs (files @ [p]) r'"
proof (cases r)
  case (Inl e)
  then show ?thesis using assms(1) by (auto simp: fileEdges_def collected_def)
next
  case (Inr counts)
  let ?links = "concat (map (fileLinks env tree contents mods cfgs) files)"
  have c: "counted counts ?links" and no: "\<not> (pTSError env \<noteq> None \<and> (\<exists>p \<in> set files. needsExtractor contents p))"
    using assms(1) Inr by (auto simp: collected_def)
  show ?thesis
  proof (cases "contents p = None \<or> parentDir p = [] \<or> languageForFile p = None")
    case True
    then have "fileEdges env tree contents mods cfgs (Inr counts) p = Some (Inr counts)"
      by (auto simp: fileEdges_def Let_def split: option.splits)
    moreover have "fileLinks env tree contents mods cfgs p = []" and "\<not> needsExtractor contents p"
      using True by (auto simp: fileLinks_def needsExtractor_def split: option.splits Language.splits)
    ultimately show ?thesis using c no Inr by (auto simp: collected_def)
  next
    case False
    then obtain src lang where p: "contents p = Some src" "parentDir p \<noteq> []" "languageForFile p = Some lang" by auto
    show ?thesis
    proof (cases lang)
      case LanguageGo
      from goEdges_counted [OF c, of tree mods "parentDir p" "pGoImports env p src"] no p LanguageGo Inr
      show ?thesis by (auto simp: fileEdges_def collected_def fileLinks_def needsExtractor_def Let_def)
    next
      case LanguageTypeScript
      from tsEdges_counted [OF c, of "parentDir p" tree cfgs] assms(2) no c p LanguageTypeScript Inr
      show ?thesis by (cases "pTSError env"; cases "pTSImports env p src")
        (fastforce simp: fileEdges_def collected_def fileLinks_def needsExtractor_def Let_def)+
    qed
  qed
qed

lemma filesEdges_collected:
  "collected env tree contents mods cfgs before r \<Longrightarrow> \<forall>p \<in> set files. parentDir p = [] \<or> normal_path (parentDir p) \<Longrightarrow>
     \<exists>r'. fold_opt (fileEdges env tree contents mods cfgs) r files = Some r' \<and> collected env tree contents mods cfgs (before @ files) r'"
proof (induction files arbitrary: before r)
  case (Cons p files)
  then obtain r1 where r1: "fileEdges env tree contents mods cfgs r p = Some r1" "collected env tree contents mods cfgs (before @ [p]) r1"
    using fileEdges_collected [OF Cons.prems(1), of p] by auto
  from Cons.IH [OF r1(2)] Cons.prems(2) r1(1) show ?case by simp
qed simp

definition allLinks ::
  "'e parsers \<Rightarrow> fileTree \<Rightarrow> (string \<rightharpoonup> string) \<Rightarrow> goModule list \<Rightarrow> (string \<rightharpoonup> tsConfig) \<Rightarrow> (string \<times> string) list" where
  "allLinks env tree contents mods cfgs = concat (map (fileLinks env tree contents mods cfgs) (sortedFiles tree))"

lemma edges_of_counts:
  assumes "counted counts links"
  defines "edges \<equiv> sortEdges (map (\<lambda>((src, dst), n). \<lparr> eFrom = src, eTo = dst, eCount = n \<rparr>) counts)"
  shows "sorted_wrt (<) (map edgeKey edges)"
    and "e \<in> set edges \<longleftrightarrow> edgeKey e \<in> set links \<and> eCount e = count_list links (edgeKey e)"
proof -
  let ?es = "map (\<lambda>((src, dst), n). \<lparr> eFrom = src, eTo = dst, eCount = n \<rparr>) counts"
  have keys: "map edgeKey ?es = map fst counts" by (auto simp: edgeKey_def)
  have dist: "distinct (map fst counts)" and m: "map_of counts = (\<lambda>k. if k \<in> set links then Some (count_list links k) else None)"
    using assms(1) by (auto simp: counted_def)
  have "mset (map edgeKey edges) = mset (map fst counts)" unfolding keys [symmetric] edges_def sortEdges_def mset_map mset_sort by (rule refl)
  then have "distinct (map edgeKey edges)" using dist by (metis mset_eq_imp_distinct_iff)
  moreover have "sorted (map edgeKey edges)" unfolding edges_def sortEdges_def by (rule sorted_sort_key)
  ultimately show "sorted_wrt (<) (map edgeKey edges)" by (simp add: strict_sorted_iff)
  have "e \<in> set edges \<longleftrightarrow> (edgeKey e, eCount e) \<in> set counts"
    unfolding edges_def sortEdges_def by (cases e) (force simp: edgeKey_def image_iff)
  also have "\<dots> \<longleftrightarrow> map_of counts (edgeKey e) = Some (eCount e)" using dist by simp
  also have "\<dots> \<longleftrightarrow> edgeKey e \<in> set links \<and> eCount e = count_list links (edgeKey e)" unfolding m by auto
  finally show "e \<in> set edges \<longleftrightarrow> edgeKey e \<in> set links \<and> eCount e = count_list links (edgeKey e)" .
qed

lemma tree_file_dir:
  assumes "treeOK t" and "p \<in> tFileSet t"
  shows "parentDir p = [] \<or> parentDir p \<in> tDirSet t" and "parentDir p = [] \<or> normal_path (parentDir p)"
proof -
  have node: "normal_path x \<and> (parentDir x = [] \<or> parentDir x \<in> tDirSet t)" if "x \<in> tDirSet t \<union> tFileSet t" for x
  proof -
    have "x \<in> dom (map_of (tNodes t))" using that assms(1) unfolding treeOK_def by blast
    then obtain n where "map_of (tNodes t) x = Some n" by blast
    then show ?thesis using assms(1) unfolding treeOK_def by blast
  qed
  from node [of p] node [of "parentDir p"] assms(2)
  show "parentDir p = [] \<or> parentDir p \<in> tDirSet t" "parentDir p = [] \<or> normal_path (parentDir p)" by auto
qed

lemma link_ends:
  assumes "treeOK t" and "(a, b) \<in> set (allLinks env t contents mods cfgs)"
  shows "a \<noteq> b" and "\<exists>p \<in> tFileSet t. a = parentDir p \<and> parentDir p \<noteq> [] \<and> languageForFile p \<noteq> None" and "b \<in> tDirSet t"
proof -
  have fin: "finite (tFileSet t)" and sub: "tDirHasSource t \<subseteq> tDirSet t" using assms(1) by (auto simp: treeOK_def)
  obtain p where p: "p \<in> tFileSet t" and link: "(a, b) \<in> set (fileLinks env t contents mods cfgs p)"
    using assms(2) fin by (auto simp: allLinks_def sortedFiles_def)
  have go: "x = d \<and> y \<noteq> d \<and> y \<in> tDirSet t" if "(x, y) \<in> set (goLinks t mods d imp)" for x y d imp
    using that sub by (auto simp: goLinks_def split: option.splits if_splits)
  have ts: "x = d \<and> y \<noteq> d \<and> y \<in> tDirSet t" if "(x, y) \<in> set (tsLinks t cfgs d spec)" for x y d spec
  proof -
    from that obtain f where "resolveTSImport spec d cfgs (tFileSet t) = Some (Some f)"
      and "parentDir f \<noteq> []" "parentDir f \<noteq> d" "x = d" "y = parentDir f"
      by (cases "resolveTSImport spec d cfgs (tFileSet t)"; cases "the (resolveTSImport spec d cfgs (tFileSet t))")
        (auto simp: tsLinks_def split: if_splits)
    then show ?thesis using tree_file_dir(1) [OF assms(1) resolveTSImport_member] by blast
  qed
  from link have "a = parentDir p \<and> b \<noteq> parentDir p \<and> b \<in> tDirSet t \<and> parentDir p \<noteq> [] \<and> languageForFile p \<noteq> None"
    by (cases "contents p"; cases "languageForFile p"; cases "the (languageForFile p)")
      (auto simp: fileLinks_def split: if_splits dest: go ts)
  then show "a \<noteq> b" "\<exists>p \<in> tFileSet t. a = parentDir p \<and> parentDir p \<noteq> [] \<and> languageForFile p \<noteq> None" "b \<in> tDirSet t"
    using p by auto
qed

lemma collectEdges_result:
  assumes "treeOK t"
  shows "(\<exists>e. collectEdges env t contents mods cfgs = Some (Inl e) \<and> pTSError env = Some e \<and> (\<exists>p \<in> tFileSet t. needsExtractor contents p)) \<or>
    (\<exists>edges. collectEdges env t contents mods cfgs = Some (Inr edges) \<and>
      \<not> (pTSError env \<noteq> None \<and> (\<exists>p \<in> tFileSet t. needsExtractor contents p)) \<and> sorted_wrt (<) (map edgeKey edges) \<and>
      (\<forall>e. e \<in> set edges \<longleftrightarrow> edgeKey e \<in> set (allLinks env t contents mods cfgs) \<and>
         eCount e = count_list (allLinks env t contents mods cfgs) (edgeKey e)))"
proof -
  have files: "set (sortedFiles t) = tFileSet t" using assms by (simp add: treeOK_def sortedFiles_def)
  have "collected env t contents mods cfgs [] (Inr [])" by (simp add: collected_def counted_def fun_eq_iff)
  from filesEdges_collected [OF this, of "sortedFiles t"] tree_file_dir(2) [OF assms] files
  obtain r where r: "fold_opt (fileEdges env t contents mods cfgs) (Inr []) (sortedFiles t) = Some r"
    "collected env t contents mods cfgs (sortedFiles t) r" by auto
  show ?thesis
  proof (cases r)
    case (Inl e)
    then show ?thesis using r files by (auto simp: collectEdges_def collected_def)
  next
    case (Inr counts)
    then have "counted counts (allLinks env t contents mods cfgs)"
      and no: "\<not> (pTSError env \<noteq> None \<and> (\<exists>p \<in> tFileSet t. needsExtractor contents p))"
      using r(2) files by (auto simp: collected_def allLinks_def)
    from edges_of_counts [OF this(1)] no r(1) Inr show ?thesis by (simp add: collectEdges_def)
  qed
qed

lemma readContents_eq: "readContents read paths p = (if p \<in> set paths then read p else None)"
proof -
  have "foldl (\<lambda>m p. case read p of None \<Rightarrow> m | Some data \<Rightarrow> m(p \<mapsto> data)) m paths p =
      (if p \<in> set paths \<and> read p \<noteq> None then read p else m p)" for m
    by (induction paths arbitrary: m) (auto split: option.splits)
  then show ?thesis by (simp add: readContents_def)
qed

lemma built_edge_sources:
  assumes "buildTree (normalizeFiles files) contents = Some t" and "edgeKey e \<in> set (allLinks env t contents mods cfgs)"
  shows "eFrom e \<in> tDirHasSource t" and "eFrom e \<noteq> eTo e" and "eTo e \<in> tDirSet t"
proof -
  have link: "(eFrom e, eTo e) \<in> set (allLinks env t contents mods cfgs)" using assms(2) by (simp add: edgeKey_def)
  note ends = link_ends [OF buildTree_OK [OF assms(1)] link]
  show "eFrom e \<noteq> eTo e" "eTo e \<in> tDirSet t" by (rule ends)+
  show "eFrom e \<in> tDirHasSource t" unfolding buildTree_facts(3) [OF assms(1)] using ends(2) by blast
qed

lemma nodesByID_ids:
  assumes "\<And>x n. map_of nodes x = Some n \<Longrightarrow> nID n = x"
  shows "map nID (nodesByID nodes) = sorted_list_of_set (dom (map_of nodes))"
    and "n \<in> set (nodesByID nodes) \<longleftrightarrow> map_of nodes (nID n) = Some n"
proof -
  have dom: "dom (map_of nodes) = set (map fst nodes)" by (simp add: dom_map_of_conv_image_fst)
  have id: "\<exists>n. map_of nodes x = Some n \<and> nID n = x" if "x \<in> set (map fst nodes)" for x
    using that assms unfolding dom [symmetric] by blast
  have "map (\<lambda>i. nID (the (map_of nodes i))) (sorted_list_of_set (set (map fst nodes))) =
      map (\<lambda>i. i) (sorted_list_of_set (set (map fst nodes)))"
    by (rule map_cong) (use id in force)+
  then show "map nID (nodesByID nodes) = sorted_list_of_set (dom (map_of nodes))"
    unfolding dom nodesByID_def by (simp add: comp_def)
  show "n \<in> set (nodesByID nodes) \<longleftrightarrow> map_of nodes (nID n) = Some n"
  proof
    assume "n \<in> set (nodesByID nodes)"
    then obtain x where "x \<in> set (map fst nodes)" "n = the (map_of nodes x)" by (auto simp: nodesByID_def)
    with id [of x] show "map_of nodes (nID n) = Some n" by auto
  next
    assume n: "map_of nodes (nID n) = Some n"
    then have "nID n \<in> set (map fst nodes)" unfolding dom [symmetric] by blast
    with n show "n \<in> set (nodesByID nodes)" by (force simp: nodesByID_def)
  qed
qed

lemma Build_result:
  assumes t: "buildTree (normalizeFiles files) (readContents read (normalizeFiles files)) = Some t"
    and e: "collectEdges env t (readContents read (normalizeFiles files))
      (collectGoModules (normalizeFiles files) (readContents read (normalizeFiles files)) read)
      (collectTSConfigs (pUnmarshal env) (normalizeFiles files) (readContents read (normalizeFiles files)) read) = Some (Inr edges)"
    and src: "\<forall>e \<in> set edges. eFrom e \<in> tDirHasSource t"
  obtains nodes layerOf violations where
    "BuildGraph env files read = Some (Inr \<lparr> gNodes = nodesByID nodes, gEdges = edges, gViolations = violations \<rparr>)"
    and "layerPackages (sorted_list_of_set (tDirHasSource t)) edges = Some (layerOf, violations)"
    and "\<And>x n. map_of nodes x = Some n \<Longrightarrow> nID n = x" and "dom (map_of nodes) = tFileSet t \<union> tDirSet t"
    and "\<And>d. d \<in> tDirSet t \<Longrightarrow> \<exists>n. map_of nodes d = Some n \<and> nKind n \<noteq> NodeKindFile \<and> nLayer n = dirLayer layerOf (tDirHasSource t) d"
proof -
  have ok: "treeOK t" by (rule buildTree_OK [OF t])
  from applyLayout_result [OF ok src] obtain nodes layerOf violations final where
    run: "applyLayout t edges = Some (t\<lparr> tNodes := nodes \<rparr>, violations)"
      "layerPackages (sorted_list_of_set (tDirHasSource t)) edges = Some (layerOf, violations)"
    and same: "sameNodes final nodes"
    and final: "map_of final = (\<lambda>x. map_option (\<lambda>n. n\<lparr> nLayer := (if x \<in> tDirSet t then dirLayer layerOf (tDirHasSource t) x
       else if nParent n = [] then 0 else dirLayer layerOf (tDirHasSource t) (nParent n)) \<rparr>) (map_of (tNodes t) x))" by blast
  have dom: "dom (map_of (tNodes t)) = tDirSet t \<union> tFileSet t" and disj: "tDirSet t \<inter> tFileSet t = {}" and keyed: "keyed (tNodes t)"
    using ok by (auto simp: treeOK_def)
  have node: "\<exists>m. map_of (tNodes t) x = Some m \<and> nID n = nID m \<and> nKind n = nKind m \<and>
      (x \<in> tDirSet t \<longrightarrow> nLayer n = dirLayer layerOf (tDirHasSource t) x)" if "map_of nodes x = Some n" for x n
    using sameNodesD [OF same that] unfolding final by auto
  have def: "map_of nodes x = None \<longleftrightarrow> map_of (tNodes t) x = None" for x
    using same [unfolded sameNodes_def, THEN spec [of _ x]] unfolding final by (cases "map_of nodes x"; cases "map_of (tNodes t) x") auto
  have ids: "nID n = x" if "map_of nodes x = Some n" for x n
  proof -
    from node [OF that] obtain m where "map_of (tNodes t) x = Some m" "nID n = nID m" by (elim exE conjE)
    moreover from this(1) have "nID m = x" using keyed unfolding keyed_def by (elim conjE allE) (erule mp)
    ultimately show ?thesis by (simp only:)
  qed
  have "dom (map_of nodes) = dom (map_of (tNodes t))" unfolding dom_def def by (rule refl)
  then have doms: "dom (map_of nodes) = tFileSet t \<union> tDirSet t" unfolding dom by (simp only: Un_commute)
  have dirs: "\<exists>n. map_of nodes d = Some n \<and> nKind n \<noteq> NodeKindFile \<and> nLayer n = dirLayer layerOf (tDirHasSource t) d"
    if d: "d \<in> tDirSet t" for d
  proof -
    obtain n where n: "map_of nodes d = Some n" using doms d by blast
    have "d \<notin> tFileSet t" using d disj by blast
    then have "map_of (tNodes t) d = Some (dirRollUp (readContents read (normalizeFiles files)) (tFileSet t) d)"
      unfolding buildTree_facts(4) [OF t] using d by simp
    with node [OF n] d n show ?thesis by (auto simp: dirRollUp_def dirNode_def Let_def)
  qed
  have "BuildGraph env files read = Some (Inr \<lparr> gNodes = nodesByID nodes, gEdges = edges, gViolations = violations \<rparr>)"
    using t e run(1) by (simp add: BuildGraph_def Let_def)
  then show thesis by (rule that [OF _ run(2) ids doms dirs])
qed

lemma outcome_Inr: "x = Some (Inr g) \<Longrightarrow> Q g \<Longrightarrow> \<exists>r. x = Some r \<and> (\<forall>e. r = Inl e \<longrightarrow> P e) \<and> (\<forall>g. r = Inr g \<longrightarrow> Q g)"
  by simp

lemma built_edge_layered:
  assumes "buildTree (normalizeFiles files) contents = Some t"
    and layers: "layerPackages (sorted_list_of_set (tDirHasSource t)) edges = Some (layerOf, violations)"
    and ids: "\<And>x n. map_of nodes x = Some n \<Longrightarrow> nID n = x"
    and dirs: "\<And>d. d \<in> tDirSet t \<Longrightarrow> \<exists>n. map_of nodes d = Some n \<and> nKind n \<noteq> NodeKindFile \<and> nLayer n = dirLayer layerOf (tDirHasSource t) d"
    and src: "\<forall>e \<in> set edges. eFrom e \<in> tDirHasSource t" and e: "e \<in> set edges" "eFrom e \<noteq> eTo e" "eTo e \<in> tDirSet t"
  shows "\<exists>a \<in> set (nodesByID nodes). \<exists>b \<in> set (nodesByID nodes). nID a = eFrom e \<and> nID b = eTo e \<and>
    nKind a \<noteq> NodeKindFile \<and> nKind b \<noteq> NodeKindFile \<and> (nLayer a < nLayer b \<or> (\<exists>v \<in> set violations. vFrom v = eFrom e \<and> vTo v = eTo e))"
proof -
  have sub: "tDirHasSource t \<subseteq> tDirSet t" and fin: "finite (tDirHasSource t)"
    using buildTree_OK [OF assms(1)] by (auto simp: treeOK_def finite_subset)
  have node: "\<exists>n \<in> set (nodesByID nodes). nID n = d \<and> nKind n \<noteq> NodeKindFile \<and> nLayer n = l"
    if "d \<in> tDirSet t" "layerOf d = Some l" for d l
    using dirs [OF that(1)] ids [of d] nodesByID_ids(2) [of nodes, OF ids] that(2) by (auto simp: dirLayer_def)
  have src': "\<forall>e \<in> set edges. eFrom e \<in> set (sorted_list_of_set (tDirHasSource t))" using src fin by simp
  obtain i j where ij: "layerOf (eFrom e) = Some i" "layerOf (eTo e) = Some j"
    "i < j \<or> (\<exists>v \<in> set violations. vFrom v = eFrom e \<and> vTo v = eTo e)"
    by (rule edge_reported_or_layered [OF src' layers e(1,2)])
  have "eFrom e \<in> tDirSet t" using src e(1) sub by blast
  from node [OF this ij(1)] obtain a where a: "a \<in> set (nodesByID nodes)" "nID a = eFrom e" "nKind a \<noteq> NodeKindFile" "nLayer a = i"
    by (elim bexE conjE)
  from node [OF e(3) ij(2)] obtain b where b: "b \<in> set (nodesByID nodes)" "nID b = eTo e" "nKind b \<noteq> NodeKindFile" "nLayer b = j"
    by (elim bexE conjE)
  show ?thesis by (rule bexI [OF bexI [OF _ b(1)] a(1)]) (simp only: a b ij(3) simp_thms)
qed

section \<open>Properties\<close>


definition graphEnv :: "string parsers" where
  "graphEnv =
     \<lparr> pGoImports = (\<lambda>p _. if p = ''cmd/app/main.go'' then [''example.com/m/internal/a'', ''fmt'', ''example.com/m/internal/a''] else []),
       pTSError = None, pTSImports = (\<lambda>p _. if p = ''internal/a/b.ts'' then Some [''@app/web/c''] else None),
       pUnmarshal = (\<lambda>_. Some ([], [(''@app/*'', [''*''])])) \<rparr>"

definition graphRead :: "string \<rightharpoonup> string" where
  "graphRead = map_of [(''go.mod'', ''module example.com/m''), (''tsconfig.json'', []), (''cmd/app/main.go'', ''x''),
     (''internal/a/a.go'', ''x''), (''internal/a/b.ts'', ''y''), (''web/c.ts'', ''z'')]"

definition graphFiles :: "string list" where
  "graphFiles = [''cmd/app/main.go'', ''internal/a/a.go'', ''internal/a/b.ts'', ''web/c.ts'', ''go.mod'']"

lemma graph_example:
  "map_option (map_sum id (\<lambda>g. (map (\<lambda>e. (edgeKey e, eCount e)) (gEdges g), map (\<lambda>n. (nID n, nLayer n)) (gNodes g), gViolations g)))
     (BuildGraph graphEnv graphFiles graphRead) =
   Some (Inr ([((''cmd/app'', ''internal/a''), 2), ((''internal/a'', ''web''), 1)],
     [(''cmd'', 0), (''cmd/app'', 0), (''cmd/app/main.go'', 0), (''go.mod'', 0), (''internal'', 1), (''internal/a'', 1),
      (''internal/a/a.go'', 1), (''internal/a/b.ts'', 1), (''web'', 2), (''web/c.ts'', 2)], []))"
  by code_simp


text \<open>
  An import of a package of the repository goes to the module with the longest path that
  contains it; an import that no module contains resolves to nothing.
\<close>

theorem resolveGoImport_longest:
  fixes paths contents read
  defines "mods \<equiv> collectGoModules paths contents read"
  shows "(resolveGoImport imp mods = None \<longleftrightarrow> \<not> (\<exists>m \<in> set mods. ownsImport imp m)) \<and>
    (\<forall>d. resolveGoImport imp mods = Some d \<longrightarrow>
       (\<exists>m \<in> set mods. ownsImport imp m \<and> d = moduleTarget imp m \<and>
          (\<forall>m' \<in> set mods. ownsImport imp m' \<longrightarrow> length (gmModulePath m') \<le> length (gmModulePath m))))"
proof (intro conjI allI impI)
  show "resolveGoImport imp mods = None \<longleftrightarrow> \<not> (\<exists>m \<in> set mods. ownsImport imp m)"
    by (auto simp: resolveGoImport_find find_None_iff)
next
  fix d assume "resolveGoImport imp mods = Some d"
  then obtain m where m: "List.find (ownsImport imp) mods = Some m" "d = moduleTarget imp m" by (auto simp: resolveGoImport_find)
  have sorted: "sorted_wrt (\<lambda>a b. length (gmModulePath b) \<le> length (gmModulePath a)) mods"
    unfolding mods_def by (rule collectGoModules_sorted)
  have "length (gmModulePath m') \<le> length (gmModulePath m)" if "m' \<in> set mods" "ownsImport imp m'" for m'
    using find_sorted [OF sorted m(1) _ that] by simp
  moreover have "m \<in> set mods" "ownsImport imp m" using m(1) by (auto simp: find_Some_iff)
  ultimately show "\<exists>m \<in> set mods. ownsImport imp m \<and> d = moduleTarget imp m \<and>
      (\<forall>m' \<in> set mods. ownsImport imp m' \<longrightarrow> length (gmModulePath m') \<le> length (gmModulePath m))" using m(2) by blast
qed

definition nestedModules :: "string \<rightharpoonup> string" where
  "nestedModules = map_of [(''go.mod'', ''module m.io/x''), (''tools/go.mod'', ''module m.io/x/tools // nested'')]"

theorem resolveGoImport_longest_witness:
  "resolveGoImport ''m.io/x/tools/gen'' (collectGoModules [''tools/go.mod''] nestedModules nestedModules) = Some ''tools/gen'' \<and>
   (\<exists>m \<in> set (collectGoModules [''tools/go.mod''] nestedModules nestedModules). gmDir m = ''tools'' \<and>
      (\<forall>m' \<in> set (collectGoModules [''tools/go.mod''] nestedModules nestedModules).
         ownsImport ''m.io/x/tools/gen'' m' \<longrightarrow> length (gmModulePath m') \<le> length (gmModulePath m)))"
proof -
  have r: "resolveGoImport ''m.io/x/tools/gen'' (collectGoModules [''tools/go.mod''] nestedModules nestedModules) = Some ''tools/gen''" by code_simp
  have dirs: "\<forall>m \<in> set (collectGoModules [''tools/go.mod''] nestedModules nestedModules).
      (\<forall>m' \<in> set (collectGoModules [''tools/go.mod''] nestedModules nestedModules).
         ownsImport ''m.io/x/tools/gen'' m' \<longrightarrow> length (gmModulePath m') \<le> length (gmModulePath m)) \<longrightarrow> gmDir m = ''tools''" by code_simp
  from resolveGoImport_longest [of "''m.io/x/tools/gen''" "[''tools/go.mod'']" nestedModules nestedModules, THEN conjunct2, THEN spec, THEN mp, OF r]
  obtain m where m: "m \<in> set (collectGoModules [''tools/go.mod''] nestedModules nestedModules)"
    "\<forall>m' \<in> set (collectGoModules [''tools/go.mod''] nestedModules nestedModules).
       ownsImport ''m.io/x/tools/gen'' m' \<longrightarrow> length (gmModulePath m') \<le> length (gmModulePath m)" by (elim bexE conjE)
  with dirs [THEN bspec, OF m(1), THEN mp, OF m(2)] r show ?thesis by (intro conjI bexI [of _ m])
qed

text \<open>
  The TypeScript branch does not ask whether the target directory holds sources, so an
  imported data file gives an edge to a directory that holds none.
\<close>

definition assetEnv :: "string parsers" where
  "assetEnv = \<lparr> pGoImports = (\<lambda>_ _. []), pTSError = None, pTSImports = (\<lambda>_ _. Some [''../data/x.json'']), pUnmarshal = (\<lambda>_. None) \<rparr>"

lemma asset_import_edge:
  "map_option (map_sum id (\<lambda>g. map edgeKey (gEdges g))) (BuildGraph assetEnv [''web/a.ts'', ''data/x.json''] (\<lambda>_. Some ''x'')) =
     Some (Inr [(''web'', ''data'')]) \<and>
   map_option tDirHasSource (buildTree (normalizeFiles [''web/a.ts'', ''data/x.json'']) (\<lambda>_. Some ''x'')) = Some {''web''}"
  by code_simp

end
