(* ===== verification/Code_Diff.thy ===== *)
theory Code_Diff
  imports Code_Imports
begin

text \<open>
  The structural difference of two import graphs: \<open>internal/codegraph/diff.go\<close>. A nil graph is
  \<open>None\<close>; the sets of identifiers and keys are sets.
\<close>

section \<open>The difference\<close>

record GraphDiff =
  AddedNodes :: "Node list"
  RemovedNodes :: "Node list"
  AddedEdges :: "Edge list"
  RemovedEdges :: "Edge list"
  NewViolations :: "Violation list"

definition nodeIDSet :: "Graph \<Rightarrow> string set" where
  "nodeIDSet g = set (map nID (gNodes g))"

definition edgeKeySet :: "Graph \<Rightarrow> (string \<times> string) set" where
  "edgeKeySet g = set (map edgeKey (gEdges g))"

definition sortNodes :: "Node list \<Rightarrow> Node list" where
  "sortNodes nodes = sort_key nID nodes"

definition emptyGraph :: Graph where
  "emptyGraph = \<lparr> gNodes = [], gEdges = [], gViolations = [] \<rparr>"

definition Diff :: "Graph option \<Rightarrow> Graph option \<Rightarrow> GraphDiff" where
  "Diff base0 head0 =
     (let base = (case base0 of None \<Rightarrow> emptyGraph | Some g \<Rightarrow> g);
          head = (case head0 of None \<Rightarrow> emptyGraph | Some g \<Rightarrow> g)
      in \<lparr> AddedNodes = sortNodes (filter (\<lambda>n. nID n \<notin> nodeIDSet base) (gNodes head)),
           RemovedNodes = sortNodes (filter (\<lambda>n. nID n \<notin> nodeIDSet head) (gNodes base)),
           AddedEdges = sortEdges (filter (\<lambda>e. edgeKey e \<notin> edgeKeySet base) (gEdges head)),
           RemovedEdges = sortEdges (filter (\<lambda>e. edgeKey e \<notin> edgeKeySet head) (gEdges base)),
           NewViolations = sortViolations (filter (\<lambda>v. v \<notin> set (gViolations base)) (gViolations head)) \<rparr>)"

text \<open>Applying a difference to a set of identities.\<close>

definition patched :: "'k set \<Rightarrow> 'k set \<Rightarrow> 'k set \<Rightarrow> 'k set" where
  "patched removed added keys = keys - removed \<union> added"

lemma sort_key_Nil: "sort_key f xs = [] \<longleftrightarrow> xs = []"
  by (metis length_0_conv length_sort)

lemma patched_filter:
  "patched (f ` set (filter (\<lambda>x. f x \<notin> f ` set ys) xs)) (f ` set (filter (\<lambda>y. f y \<notin> f ` set xs) ys)) (f ` set xs) = f ` set ys"
  unfolding patched_def by (simp add: set_eq_iff image_iff) blast

section \<open>Properties\<close>


end
