(* ===== verification/Hook_Script.thy ===== *)
theory Hook_Script
  imports Go_Base
begin

text \<open>
  The text of a Git hook: \<open>internal/githooks/script.go\<close> with the events and the binding of
  \<open>githooks.go\<close>. The template is a list of lines, each a list of literal pieces and
  placeholders, so replacing the placeholders is a map over it. The budget is a number of
  nanoseconds and its text that of \<open>time.Duration.String\<close> for a duration of at least zero.
\<close>

section \<open>Events and bindings\<close>

definition EventPostCommit :: string where
  "EventPostCommit = ''post-commit''"

definition EventPrePush :: string where
  "EventPrePush = ''pre-push''"

definition AllEvents :: "string list" where
  "AllEvents = [EventPostCommit, EventPrePush]"

definition ValidateEvent :: "string \<Rightarrow> bool" where
  "ValidateEvent e \<longleftrightarrow> e \<in> set AllEvents"

definition Timing :: "string \<Rightarrow> string" where
  "Timing e =
     (if e = EventPostCommit then ''after the commit has been created''
      else if e = EventPrePush then ''before the push starts, while Git has not contacted the remote yet''
      else ''at an unsupported point'')"

definition Impact :: "string \<Rightarrow> string" where
  "Impact e =
     (if e = EventPostCommit then ''the commit is already recorded and is not changed''
      else if e = EventPrePush then ''the push itself is unaffected and carries on''
      else ''the Git operation is unaffected'')"

definition ParseEvent :: "string \<Rightarrow> string option" where
  "ParseEvent raw = (let e = trim_space raw in if ValidateEvent e then Some e else None)"

record Binding =
  bRequireAutoPublishRule :: bool
  bAutoPublishEvent :: string
  bConfigPath :: string
  bConfigDir :: string
  bDataDir :: string
  bStateDir :: string
  bTimeout :: int

definition forEvent :: "Binding \<Rightarrow> string \<Rightarrow> Binding" where
  "forEvent b e = (if bRequireAutoPublishRule b then b\<lparr> bAutoPublishEvent := e \<rparr> else b)"

definition DefaultUploadBudget :: int where
  "DefaultUploadBudget = 5 * 10 ^ 9"

definition UploadBudget :: "Binding \<Rightarrow> int" where
  "UploadBudget b = (if bTimeout b > 0 then bTimeout b else DefaultUploadBudget)"

section \<open>Durations\<close>

fun fmtInt :: "nat \<Rightarrow> string" where
  "fmtInt n = (if n < 10 then [char_of (48 + n)] else fmtInt (n div 10) @ [char_of (48 + n mod 10)])"

declare fmtInt.simps [simp del]

text \<open>The digits of a fraction without trailing zeros; the flag says that a digit was printed.\<close>

fun fmtFracDigits :: "nat \<Rightarrow> string \<times> bool \<times> nat \<Rightarrow> string \<times> bool \<times> nat" where
  "fmtFracDigits 0 acc = acc"
| "fmtFracDigits (Suc prec) (s, print, w) =
     (let digit = w mod 10; print = (print \<or> digit \<noteq> 0)
      in fmtFracDigits prec (if print then char_of (48 + digit) # s else s, print, w div 10))"

definition fmtFrac :: "nat \<Rightarrow> nat \<Rightarrow> string \<times> nat" where
  "fmtFrac v prec = (case fmtFracDigits prec ([], False, v) of (s, print, w) \<Rightarrow> (if print then CHR ''.'' # s else s, w))"

definition durationText :: "nat \<Rightarrow> string" where
  "durationText u =
     (if u = 0 then ''0s''
      else if u < 10 ^ 9 then
        (let (prec, unit) = (if u < 10 ^ 3 then (0, ''n'') else if u < 10 ^ 6 then (3, [CHR 0xC2, CHR 0xB5]) else (6, ''m''));
             (frac, w) = fmtFrac u prec
         in fmtInt w @ frac @ unit @ ''s'')
      else
        (let (frac, w) = fmtFrac u 9; secs = fmtInt (w mod 60) @ frac @ ''s''; mins = w div 60
         in if mins = 0 then secs
            else if mins div 60 = 0 then fmtInt (mins mod 60) @ ''m'' @ secs
            else fmtInt (mins div 60) @ ''h'' @ fmtInt (mins mod 60) @ ''m'' @ secs))"

section \<open>Commands\<close>

definition replace_quote :: "string \<Rightarrow> string" where
  "replace_quote s = concat (map (\<lambda>c. if c = CHR 0x27 then [CHR 0x27, CHR 0x5C, CHR 0x27, CHR 0x27] else [c]) s)"

definition ShellQuote :: "string \<Rightarrow> string" where
  "ShellQuote s = [CHR 0x27] @ replace_quote s @ [CHR 0x27]"

text \<open>\<open>strings.ReplaceAll\<close> of an escaped quote by a quote.\<close>

fun restore_quote :: "string \<Rightarrow> string" where
  "restore_quote [] = []"
| "restore_quote (c # s) =
     (if c = CHR 0x27 \<and> prefix [CHR 0x5C, CHR 0x27, CHR 0x27] s then CHR 0x27 # restore_quote (drop 3 s)
      else c # restore_quote s)"

definition shellUnquote :: "string \<Rightarrow> string" where
  "shellUnquote s =
     (if length s < 2 \<or> \<not> prefix [CHR 0x27] s \<or> \<not> suffix [CHR 0x27] s then s
      else restore_quote (butlast (tl s)))"

record token =
  tkValue :: string
  tkQuoted :: bool

abbreviation bare :: "string \<Rightarrow> token" where
  "bare s \<equiv> \<lparr> tkValue = s, tkQuoted = False \<rparr>"

abbreviation quoted :: "string \<Rightarrow> token" where
  "quoted s \<equiv> \<lparr> tkValue = s, tkQuoted = True \<rparr>"

definition boundTokens :: "Binding \<Rightarrow> token list" where
  "boundTokens b =
     bare ''peasant'' #
     concat (map (\<lambda>(flag, val). if val \<noteq> [] then [bare flag, quoted val] else [])
       [(''--config'', bConfigPath b), (''--config-dir'', bConfigDir b), (''--data-dir'', bDataDir b), (''--state-dir'', bStateDir b)])"

definition scopeTokens :: "string \<Rightarrow> token list" where
  "scopeTokens root = (if root \<noteq> [] then [bare ''--repository'', quoted root] else [])"

definition uploadTokens :: "string \<Rightarrow> Binding \<Rightarrow> token list" where
  "uploadTokens root b =
     boundTokens b @
     [bare ''village'', bare ''push'', bare ''--non-interactive'', bare ''--quiet'', bare ''--timeout'', bare (durationText (nat (UploadBudget b)))] @
     (if bRequireAutoPublishRule b
      then bare ''--require-auto-publish-rule'' #
        (if bAutoPublishEvent b \<noteq> [] then [bare ''--auto-publish-event'', bare (bAutoPublishEvent b)] else [])
      else []) @
     scopeTokens root"

definition renderShell :: "token list \<Rightarrow> string" where
  "renderShell ts = join '' '' (map (\<lambda>t. if tkQuoted t then ShellQuote (tkValue t) else tkValue t) ts)"

definition renderArgv :: "token list \<Rightarrow> string list" where
  "renderArgv ts = map tkValue ts"

definition CommandPrefix :: "Binding \<Rightarrow> string" where
  "CommandPrefix b = renderShell (boundTokens b)"

definition CommandLine :: "Binding \<Rightarrow> string" where
  "CommandLine b = renderShell (uploadTokens [] b)"

definition RepositoryArgv :: "string \<Rightarrow> Binding \<Rightarrow> string list" where
  "RepositoryArgv root b = renderArgv (uploadTokens root b)"

definition RepositoryCommand :: "string \<Rightarrow> Binding \<Rightarrow> string" where
  "RepositoryCommand root b = renderShell (uploadTokens root b)"

definition ManualCommand :: "string \<Rightarrow> Binding \<Rightarrow> string" where
  "ManualCommand root b = renderShell (boundTokens b @ [bare ''village'', bare ''push''] @ scopeTokens root)"

definition ManualRecovery :: "string \<Rightarrow> Binding \<Rightarrow> string" where
  "ManualRecovery root b = ''cd '' @ ShellQuote root @ '' && '' @ ManualCommand root b"

definition StatusCommandWithBinding :: "string \<Rightarrow> Binding \<Rightarrow> string" where
  "StatusCommandWithBinding root b =
     renderShell (boundTokens b @ [bare ''village'', bare ''hooks'', bare ''status'', bare ''--dir'', quoted root])"

definition UninstallCommandWithBinding :: "string \<Rightarrow> string \<Rightarrow> Binding \<Rightarrow> string" where
  "UninstallCommandWithBinding e root b =
     renderShell (boundTokens b @ [bare ''village'', bare ''hooks'', bare ''uninstall'', bare ''--event'', bare e, bare ''--dir'', quoted root])"

definition InstallCommandWithBinding :: "string \<Rightarrow> string \<Rightarrow> Binding \<Rightarrow> string" where
  "InstallCommandWithBinding e root b =
     renderShell (boundTokens b @ [bare ''village'', bare ''hooks'', bare ''install'', bare ''--event'', bare e, bare ''--dir'', quoted root])"

definition InstallCommandWithBudget :: "string \<Rightarrow> string \<Rightarrow> nat \<Rightarrow> Binding \<Rightarrow> string" where
  "InstallCommandWithBudget e root budget b =
     renderShell (boundTokens b @ [bare ''village'', bare ''hooks'', bare ''install'', bare ''--event'', bare e, bare ''--dir'', quoted root,
       bare ''--timeout'', bare (durationText budget)])"

section \<open>The template\<close>

datatype placeholder =
  F_EVENT | F_EVENT_Q | F_TIMING | F_TIMING_Q | F_IMPACT | F_IMPACT_Q | F_ROOT | F_ROOT_Q | F_PATH | F_PATH_Q | F_SCOPED_COMMAND
| F_MANUAL_COMMAND | F_RECOVERY_Q | F_COMMAND_PREFIX_Q | F_BUDGET | F_STATUS | F_UNINSTALL | F_UNINSTALL_Q | F_NOTHING_ATTEMPTED
| F_STDIN | F_STDIN_NOTE

datatype piece = Lit string | Fld placeholder

definition scriptShebang :: string where
  "scriptShebang = ''#!/bin/sh''"

definition ScriptMarkerBegin :: string where
  "ScriptMarkerBegin = ''# BEGIN GENERATED FROM peasant village hooks''"

definition ScriptMarkerEnd :: string where
  "ScriptMarkerEnd = ''# END GENERATED FROM peasant village hooks''"

definition ManualMarkerPrefix :: string where
  "ManualMarkerPrefix = ''# BEGIN peasant village upload''"

definition headerCommandPrefix :: string where
  "headerCommandPrefix = ''#   command    : ''"

definition embeddedRepositoryAssignment :: string where
  "embeddedRepositoryAssignment = ''peasant_hook_repository=''"

definition templateHead :: "piece list list" where
  "templateHead =
     [[Lit ''#!/bin/sh''],
      [Lit ''# BEGIN GENERATED FROM peasant village hooks''],
      [Lit ''#''],
      [Lit (''# Peasant generated this file. It uploads this repository'' @ [CHR 0x27] @ ''s recorded sessions to'')],
      [Lit ''# your village, and does nothing else.''],
      [Lit ''#''],
      [Lit ''#   event      : '', Fld F_EVENT],
      [Lit ''#   timing     : git runs it '', Fld F_TIMING],
      [Lit ''#   repository : '', Fld F_ROOT],
      [Lit ''#   hook file  : '', Fld F_PATH],
      [Lit ''#   command    : '', Fld F_SCOPED_COMMAND],
      [Lit ''#''],
      [Lit ''# The scope is a project identity, not a path. When this repository has an origin''],
      [Lit ''# remote peasant can normalize, the identity is derived from it and every clone''],
      [Lit ''# of that remote resolves to the same scope. Otherwise - no origin remote, or an''],
      [Lit ''# origin that is not a network remote, such as a local path or a file:// URL -''],
      [Lit ''# the identity is the worktree path the sessions were recorded in, which belongs''],
      [Lit ''# to this directory alone. Run the inspect command below to see which of the two''],
      [Lit ''# this repository actually uses.''],
      [Lit ''#''],
      [Lit ''# The command runs non-interactively, so it answers on your behalf every''],
      [Lit ''# confirmation it would otherwise ask you for, including the one about who can''],
      [Lit ''# see a published session. It does not decide that here: the upload resolves who''],
      [Lit ''# can see a session when it runs, and prints what it actually applied. That''],
      [Lit ''# output is the only statement of it that cannot be out of date - this file was''],
      [Lit ''# written once, when the hook was installed, and your configuration can change''],
      [Lit ''# afterwards without it.''],
      [Lit ''#''],
      [Lit ''# The upload is synchronous: it needs network access and a valid village login,''],
      [Lit ''# and it adds its own latency to the git command. It never blocks git, because''],
      [Lit ''# this file always exits 0 and a failed upload only prints a warning.''],
      [Lit ''#''],
      [Lit ''# The whole upload is capped at '', Fld F_BUDGET, Lit '' so a village that stops answering cannot''],
      [Lit ''# hold git up. Giving up is a warning, not a failure, and the next commit or push''],
      [Lit ''# tries again. If an upload genuinely needs longer - a large first push - run it''],
      [Lit ''# once by hand without the time budget (the same bound paths, without the flags''],
      [Lit ''# that exist only for a hook):''],
      [Lit ''#''],
      [Lit ''#   cd '', Fld F_ROOT_Q, Lit '' && '', Fld F_MANUAL_COMMAND],
      [Lit ''#''],
      [Lit ''#   inspect   : '', Fld F_STATUS],
      [Lit ''#   uninstall : '', Fld F_UNINSTALL],
      [Lit ''#''],
      [Lit (''# Do not edit this file by hand. '' @ [CHR 0x27] @ ''peasant village hooks'' @ [CHR 0x27] @ '' rewrites or removes it'')],
      [Lit ''# only while its first two lines and its last line are still intact.''],
      [],
      [Lit ''set -u'']]"

definition templateTail :: "piece list list" where
  "templateTail =
     [[Lit ''peasant_hook_event='', Fld F_EVENT_Q],
      [Lit ''peasant_hook_repository='', Fld F_ROOT_Q],
      [Lit ''peasant_hook_file='', Fld F_PATH_Q],
      [Lit ''peasant_hook_timing='', Fld F_TIMING_Q],
      [Lit ''peasant_hook_impact='', Fld F_IMPACT_Q],
      [Lit ''peasant_hook_command_prefix='', Fld F_COMMAND_PREFIX_Q],
      [Lit ''peasant_hook_uninstall='', Fld F_UNINSTALL_Q],
      [Lit ''peasant_hook_recovery='', Fld F_RECOVERY_Q],
      [],
      [Lit ''# Quote a path discovered at runtime as one POSIX shell argument. The repository''],
      [Lit ''# known at install time was quoted by the Go builder; this is only for the new''],
      [Lit ''# root Git reports after that original path has moved.''],
      [Lit ''#''],
      [Lit ''# It closes over every embedded quote with parameter expansion and a case test -''],
      [Lit ''# both shell builtins - rather than piping through sed. sed is a separate program''],
      [Lit ''# that has to be found on PATH, and when it is not, the substitution yields''],
      [Lit (''# NOTHING: the commands below then read --dir '' @ [CHR 0x27, CHR 0x27] @ '' and cannot work, which is'')],
      [Lit ''# exactly the state a user reaches after renaming their repository and the one''],
      [Lit ''# moment these commands exist for. A builtin cannot go missing.''],
      [Lit ''peasant_hook_quote() {''],
      [Lit ([CHR 0x09] @ ''peasant_hook_quote_rest=$1'')],
      [Lit ([CHR 0x09] @ ''peasant_hook_quote_done='' @ [CHR 0x27, CHR 0x27])],
      [Lit ([CHR 0x09] @ ''while :; do'')],
      [Lit ([CHR 0x09, CHR 0x09] @ ''case $peasant_hook_quote_rest in'')],
      [Lit ([CHR 0x09, CHR 0x09] @ ''*'' @ [CHR 0x5C, CHR 0x27] @ ''*)'')],
      [Lit ([CHR 0x09, CHR 0x09, CHR 0x09] @ ''# End the open quote, emit an escaped quote, reopen: '' @ [CHR 0x27, CHR 0x5C, CHR 0x27, CHR 0x27])],
      [Lit ([CHR 0x09, CHR 0x09, CHR 0x09] @ ''peasant_hook_quote_done='' @ [CHR 0x22] @ ''$peasant_hook_quote_done${peasant_hook_quote_rest%%'' @ [CHR 0x5C, CHR 0x27] @ ''*}'' @ [CHR 0x27, CHR 0x5C, CHR 0x5C, CHR 0x27, CHR 0x27, CHR 0x22])],
      [Lit ([CHR 0x09, CHR 0x09, CHR 0x09] @ ''peasant_hook_quote_rest=${peasant_hook_quote_rest#*'' @ [CHR 0x5C, CHR 0x27] @ ''}'')],
      [Lit ([CHR 0x09, CHR 0x09, CHR 0x09] @ '';;'')],
      [Lit ([CHR 0x09, CHR 0x09] @ ''*)'')],
      [Lit ([CHR 0x09, CHR 0x09, CHR 0x09] @ ''printf '' @ [CHR 0x22, CHR 0x27] @ ''%s'' @ [CHR 0x27, CHR 0x22] @ '' '' @ [CHR 0x22] @ ''$peasant_hook_quote_done$peasant_hook_quote_rest'' @ [CHR 0x22])],
      [Lit ([CHR 0x09, CHR 0x09, CHR 0x09] @ ''return 0'')],
      [Lit ([CHR 0x09, CHR 0x09, CHR 0x09] @ '';;'')],
      [Lit ([CHR 0x09, CHR 0x09] @ ''esac'')],
      [Lit ([CHR 0x09] @ ''done'')],
      [Lit ''}''],
      [],
      [Lit ''# $3 is what the failure means for the village. It is a parameter because a''],
      [Lit ''# non-zero exit does NOT imply nothing was published: an upload can succeed and''],
      [Lit ''# the run still fail afterwards, and the budget message peasant prints above says''],
      [Lit (''# so itself. Asserting '' @ [CHR 0x27] @ ''nothing reached the village'' @ [CHR 0x27] @ '' there contradicted peasant'' @ [CHR 0x27] @ ''s'')],
      [Lit ''# own output three lines earlier.''],
      [Lit ''peasant_hook_warn() {''],
      [Lit ([CHR 0x09] @ ''printf '' @ [CHR 0x27] @ ''peasant: peasant online upload did not complete'' @ [CHR 0x5C] @ ''n'' @ [CHR 0x27] @ '' >&2'')],
      [Lit ([CHR 0x09] @ ''printf '' @ [CHR 0x27] @ ''  what  : %s'' @ [CHR 0x5C] @ ''n'' @ [CHR 0x27] @ '' '' @ [CHR 0x22] @ ''$1'' @ [CHR 0x22] @ '' >&2'')],
      [Lit ([CHR 0x09] @ ''printf '' @ [CHR 0x27] @ ''  why   : %s'' @ [CHR 0x5C] @ ''n'' @ [CHR 0x27] @ '' '' @ [CHR 0x22] @ ''$2'' @ [CHR 0x22] @ '' >&2'')],
      [Lit ([CHR 0x09] @ ''printf '' @ [CHR 0x27] @ ''  where : repository %s, hook %s'' @ [CHR 0x5C] @ ''n'' @ [CHR 0x27] @ '' '' @ [CHR 0x22] @ ''$peasant_hook_repository'' @ [CHR 0x22] @ '' '' @ [CHR 0x22] @ ''$peasant_hook_file'' @ [CHR 0x22] @ '' >&2'')],
      [Lit ([CHR 0x09] @ ''printf '' @ [CHR 0x27] @ ''  when  : %s (%s)'' @ [CHR 0x5C] @ ''n'' @ [CHR 0x27] @ '' '' @ [CHR 0x22] @ ''$peasant_hook_timing'' @ [CHR 0x22] @ '' '' @ [CHR 0x22] @ ''$peasant_hook_event'' @ [CHR 0x22] @ '' >&2'')],
      [Lit ([CHR 0x09] @ ''printf '' @ [CHR 0x27] @ ''  means : %s, and %s'' @ [CHR 0x5C] @ ''n'' @ [CHR 0x27] @ '' '' @ [CHR 0x22] @ ''$3'' @ [CHR 0x22] @ '' '' @ [CHR 0x22] @ ''$peasant_hook_impact'' @ [CHR 0x22] @ '' >&2'')],
      [Lit ([CHR 0x09] @ ''printf '' @ [CHR 0x27] @ ''  fix   : %s'' @ [CHR 0x5C] @ ''n'' @ [CHR 0x27] @ '' '' @ [CHR 0x22] @ ''$4'' @ [CHR 0x22] @ '' >&2'')],
      [Lit ([CHR 0x09] @ ''printf '' @ [CHR 0x27] @ ''  stop  : %s'' @ [CHR 0x5C] @ ''n'' @ [CHR 0x27] @ '' '' @ [CHR 0x22] @ ''$peasant_hook_uninstall'' @ [CHR 0x22] @ '' >&2'')],
      [Lit ''}''],
      [],
      [Lit ''# Every command this hook prints is rendered against the repository pinned above,''],
      [Lit ''# because that is the only path it knew at install time. If that directory is''],
      [Lit ''# gone the repository was moved or renamed, and all three - where, fix, and the''],
      [Lit ''# uninstall escape hatch - name a directory that does not exist, so following any''],
      [Lit ''# of them fails. Ask git where the worktree is NOW and re-point them.''],
      [Lit ''#''],
      [Lit (''# A linked worktree is not this case: it runs its main worktree'' @ [CHR 0x27] @ ''s hooks'')],
      [Lit ''# directory, and that main worktree is still there, so this test is false and''],
      [Lit ''# nothing below changes.''],
      [Lit (''if [ ! -d '' @ [CHR 0x22] @ ''$peasant_hook_repository'' @ [CHR 0x22] @ '' ]; then'')],
      [Lit ([CHR 0x09] @ ''peasant_hook_root_now=$(git rev-parse --show-toplevel 2>/dev/null) || peasant_hook_root_now='' @ [CHR 0x27, CHR 0x27])],
      [Lit ([CHR 0x09] @ ''if [ -n '' @ [CHR 0x22] @ ''$peasant_hook_root_now'' @ [CHR 0x22] @ '' ]; then'')],
      [Lit ([CHR 0x09, CHR 0x09] @ ''peasant_hook_root_now_q=$(peasant_hook_quote '' @ [CHR 0x22] @ ''$peasant_hook_root_now'' @ [CHR 0x22] @ '')'')],
      [Lit ([CHR 0x09, CHR 0x09] @ ''peasant_hook_uninstall='' @ [CHR 0x22] @ ''$peasant_hook_command_prefix village hooks uninstall --event $peasant_hook_event --dir $peasant_hook_root_now_q'' @ [CHR 0x22])],
      [Lit ([CHR 0x09, CHR 0x09] @ ''peasant_hook_warn '' @ [CHR 0x5C])],
      [Lit ([CHR 0x09, CHR 0x09, CHR 0x09, CHR 0x22] @ ''the repository this hook was installed for is not at $peasant_hook_repository any more'' @ [CHR 0x22] @ '' '' @ [CHR 0x5C])],
      [Lit ([CHR 0x09, CHR 0x09, CHR 0x09, CHR 0x22] @ ''it was moved or renamed; this hook pins its upload to that old path, and git resolves this worktree as $peasant_hook_root_now'' @ [CHR 0x22] @ '' '' @ [CHR 0x5C])],
      [Lit ([CHR 0x09, CHR 0x09, CHR 0x09, CHR 0x27] @ ''nothing reached peasant online: the upload was not attempted, because the repository it names is not there'' @ [CHR 0x27] @ '' '' @ [CHR 0x5C])],
      [Lit ([CHR 0x09, CHR 0x09, CHR 0x09, CHR 0x22] @ ''refresh this hook against where the repository is now: $peasant_hook_command_prefix village hooks install --event $peasant_hook_event --dir $peasant_hook_root_now_q'' @ [CHR 0x22])],
      [Lit ([CHR 0x09] @ ''else'')],
      [Lit ([CHR 0x09, CHR 0x09] @ ''peasant_hook_warn '' @ [CHR 0x5C])],
      [Lit ([CHR 0x09, CHR 0x09, CHR 0x09, CHR 0x22] @ ''the repository this hook was installed for is not at $peasant_hook_repository any more'' @ [CHR 0x22] @ '' '' @ [CHR 0x5C])],
      [Lit ([CHR 0x09, CHR 0x09, CHR 0x09, CHR 0x27] @ ''it was moved or renamed, and git could not name the worktree this hook is running in either'' @ [CHR 0x27] @ '' '' @ [CHR 0x5C])],
      [Lit ([CHR 0x09, CHR 0x09, CHR 0x09, CHR 0x27] @ ''nothing reached peasant online: the upload was not attempted, because the repository it names is not there'' @ [CHR 0x27] @ '' '' @ [CHR 0x5C])],
      [Lit ([CHR 0x09, CHR 0x09, CHR 0x09, CHR 0x22] @ ''cd into the repository and refresh this hook there: $peasant_hook_command_prefix village hooks install --event $peasant_hook_event --dir .'' @ [CHR 0x22])],
      [Lit ([CHR 0x09] @ ''fi'')],
      [Lit ([CHR 0x09] @ ''exit 0'')],
      [Lit ''fi''],
      [],
      [Lit ''if ! command -v peasant >/dev/null 2>&1; then''],
      [Lit ([CHR 0x09] @ ''peasant_hook_warn '' @ [CHR 0x5C])],
      [Lit ([CHR 0x09, CHR 0x09, CHR 0x27] @ ''the peasant command was not found'' @ [CHR 0x27] @ '' '' @ [CHR 0x5C])],
      [Lit ([CHR 0x09, CHR 0x09, CHR 0x27] @ ''git ran this hook with a PATH that does not contain the peasant binary'' @ [CHR 0x27] @ '' '' @ [CHR 0x5C])],
      [Lit ([CHR 0x09, CHR 0x09, CHR 0x27] @ ''nothing reached peasant online, because the upload never started'' @ [CHR 0x27] @ '' '' @ [CHR 0x5C])],
      [Lit ([CHR 0x09, CHR 0x09, CHR 0x22] @ ''install peasant or put it on the PATH git uses, then retry with: $peasant_hook_recovery'' @ [CHR 0x22])],
      [Lit ([CHR 0x09] @ ''exit 0'')],
      [Lit ''fi''],
      [],
      [Fld F_SCOPED_COMMAND, Lit '' </dev/null''],
      [Lit ''peasant_hook_status=$?''],
      [Lit (''if [ '' @ [CHR 0x22] @ ''$peasant_hook_status'' @ [CHR 0x22] @ '' -ne 0 ]; then'')],
      [Lit ([CHR 0x09] @ ''# peasant exits ''), Fld F_NOTHING_ATTEMPTED, Lit '' when it failed before making a single village''],
      [Lit ([CHR 0x09] @ ''# request - an expired login is the common one. Claiming that '' @ [CHR 0x22] @ ''whatever'')],
      [Lit ([CHR 0x09] @ ''# finished is on the village and is recorded as published'' @ [CHR 0x22] @ '' there describes an'')],
      [Lit ([CHR 0x09] @ ''# upload that never started.'')],
      [Lit ([CHR 0x09] @ ''if [ '' @ [CHR 0x22] @ ''$peasant_hook_status'' @ [CHR 0x22] @ '' -eq ''), Fld F_NOTHING_ATTEMPTED, Lit '' ]; then''],
      [Lit ([CHR 0x09, CHR 0x09] @ ''peasant_hook_meaning='' @ [CHR 0x27] @ ''nothing reached peasant online: the upload never started, so nothing was published and nothing was recorded as published'' @ [CHR 0x27])],
      [Lit ([CHR 0x09] @ ''else'')],
      [Lit ([CHR 0x09, CHR 0x09] @ ''peasant_hook_meaning='' @ [CHR 0x27] @ ''whatever the upload finished before it stopped is on peasant online and is recorded as published; the peasant output above says what did and did not get through'' @ [CHR 0x27])],
      [Lit ([CHR 0x09] @ ''fi'')],
      [Lit ([CHR 0x09] @ ''peasant_hook_warn '' @ [CHR 0x5C])],
      [Lit ([CHR 0x09, CHR 0x09, CHR 0x22] @ ''the peasant online upload command exited $peasant_hook_status'' @ [CHR 0x22] @ '' '' @ [CHR 0x5C])],
      [Lit ([CHR 0x09, CHR 0x09, CHR 0x27] @ ''the upload failed, most often an expired peasant online login, no network, or a rejected payload'' @ [CHR 0x27] @ '' '' @ [CHR 0x5C])],
      [Lit ([CHR 0x09, CHR 0x09, CHR 0x22] @ ''$peasant_hook_meaning'' @ [CHR 0x22] @ '' '' @ [CHR 0x5C])],
      [Lit ([CHR 0x09, CHR 0x09, CHR 0x22] @ ''retry by hand with this exact bound command - it runs without this hook'' @ [CHR 0x27] @ ''s quiet output and without its time budget, so it prints the full result and is not cut off (add --verbose for per-session detail, and run peasant village login first if the login expired): $peasant_hook_recovery'' @ [CHR 0x22])],
      [Lit ''fi''],
      [],
      [Lit ''exit 0''],
      [Lit ''# END GENERATED FROM peasant village hooks''],
      []]"

definition scriptTemplate :: "piece list list" where
  "scriptTemplate = templateHead @ [[Fld F_STDIN]] @ templateTail"

definition manualTemplate :: "piece list list" where
  "manualTemplate =
     [[Lit ''# BEGIN peasant village upload ('', Fld F_EVENT, Lit '') -- added by hand, not managed by peasant''],
      [Lit ''# Add this to '', Fld F_PATH, Lit '', as the last thing that runs: put it at the end of the''],
      [Lit (''# file, or directly above a final '' @ [CHR 0x27] @ ''exit'' @ [CHR 0x27] @ '' line if the file has one, because'')],
      [Lit (''# nothing below an '' @ [CHR 0x27] @ ''exit'' @ [CHR 0x27] @ '' ever runs.'')],
      [Lit ''# Wherever you put it, it does not change what your hook reports to git: it''],
      [Lit ''# always succeeds itself, and then restores the status your own commands left.''],
      [Lit ''peasant_hook_previous_status=$?''],
      [Fld F_STDIN_NOTE, Lit ''(''],
      [Lit ([CHR 0x09] @ ''if command -v peasant >/dev/null 2>&1; then'')],
      [Lit [CHR 0x09, CHR 0x09], Fld F_SCOPED_COMMAND, Lit ('' </dev/null '' @ [CHR 0x5C])],
      [Lit ([CHR 0x09, CHR 0x09, CHR 0x09] @ ''|| printf '' @ [CHR 0x27] @ ''peasant: peasant online upload failed for %s (''), Fld F_EVENT, Lit ''); '', Fld F_IMPACT, Lit (''; retry by hand with: %s'' @ [CHR 0x5C] @ ''n'' @ [CHR 0x27] @ '' ''), Fld F_ROOT_Q, Lit '' '', Fld F_RECOVERY_Q, Lit '' >&2''],
      [Lit ([CHR 0x09] @ ''else'')],
      [Lit ([CHR 0x09, CHR 0x09] @ ''printf '' @ [CHR 0x27] @ ''peasant: the peasant command is not on PATH, peasant online upload skipped for %s (''), Fld F_EVENT, Lit ('')'' @ [CHR 0x5C] @ ''n'' @ [CHR 0x27] @ '' ''), Fld F_ROOT_Q, Lit '' >&2''],
      [Lit ([CHR 0x09] @ ''fi'')],
      [Lit '') || true''],
      [Lit (''# Restore the status your commands left, in a subshell: a bare '' @ [CHR 0x27] @ ''exit'' @ [CHR 0x27] @ '' here would'')],
      [Lit ''# make every line below this section unreachable.''],
      [Lit (''(exit '' @ [CHR 0x22] @ ''$peasant_hook_previous_status'' @ [CHR 0x22] @ '')'')],
      [Lit ''# END peasant village upload ('', Fld F_EVENT, Lit '')''],
      []]"

section \<open>Rendering\<close>

abbreviation line_feed :: char where
  "line_feed \<equiv> CHR 0x0A"

definition unlines :: "string list \<Rightarrow> string" where
  "unlines ls = join [line_feed] ls"

definition stdinSection :: "string \<Rightarrow> string" where
  "stdinSection e = (if e \<noteq> EventPrePush then [] else unlines [[], ''# git streams the refs being pushed on this hook'' @ [CHR 0x27] @ ''s stdin. Drain them so git'', ''# is never left writing into a pipe nobody reads.'', ''while read -r peasant_hook_pushed_ref; do :; done'', []])"

definition stdinNote :: "string \<Rightarrow> string" where
  "stdinNote e = (if e \<noteq> EventPrePush then [] else unlines [''# Your pre-push hook receives the refs being pushed on stdin. If your own'', ''# commands read them, add this section after that read.'', []])"

text \<open>The errors of \<open>validateScriptInputs\<close>.\<close>

datatype script_error = UnsupportedEvent string | LineBreakIn string | NegativeBudget int | EmptyRootOrPath

definition lineBreaks :: "char list" where
  "lineBreaks = [CHR 0x0A, CHR 0x0D, CHR 0x00]"

definition validateScriptInputs :: "string \<Rightarrow> string \<Rightarrow> string \<Rightarrow> Binding \<Rightarrow> script_error option" where
  "validateScriptInputs e root path b =
     (if \<not> ValidateEvent e then Some (UnsupportedEvent e)
      else case List.find (\<lambda>(_, val). list_ex (\<lambda>c. c \<in> set lineBreaks) val)
             [(''repository root'', root), (''hook path'', path), (''--config'', bConfigPath b), (''--config-dir'', bConfigDir b),
              (''--data-dir'', bDataDir b), (''--state-dir'', bStateDir b)] of
             Some (name, _) \<Rightarrow> Some (LineBreakIn name)
           | None \<Rightarrow>
               if bTimeout b < 0 then Some (NegativeBudget (bTimeout b))
               else if trim_space root = [] \<or> trim_space path = [] then Some EmptyRootOrPath
               else None)"

fun fieldValue :: "string \<Rightarrow> string \<Rightarrow> string \<Rightarrow> Binding \<Rightarrow> placeholder \<Rightarrow> string" where
  "fieldValue e root path b F_EVENT = e"
| "fieldValue e root path b F_EVENT_Q = ShellQuote e"
| "fieldValue e root path b F_TIMING = Timing e"
| "fieldValue e root path b F_TIMING_Q = ShellQuote (Timing e)"
| "fieldValue e root path b F_IMPACT = Impact e"
| "fieldValue e root path b F_IMPACT_Q = ShellQuote (Impact e)"
| "fieldValue e root path b F_ROOT = root"
| "fieldValue e root path b F_ROOT_Q = ShellQuote root"
| "fieldValue e root path b F_PATH = path"
| "fieldValue e root path b F_PATH_Q = ShellQuote path"
| "fieldValue e root path b F_SCOPED_COMMAND = RepositoryCommand root b"
| "fieldValue e root path b F_MANUAL_COMMAND = ManualCommand root b"
| "fieldValue e root path b F_RECOVERY_Q = ShellQuote (ManualRecovery root b)"
| "fieldValue e root path b F_COMMAND_PREFIX_Q = ShellQuote (CommandPrefix b)"
| "fieldValue e root path b F_BUDGET = durationText (nat (UploadBudget b))"
| "fieldValue e root path b F_STATUS = StatusCommandWithBinding root b"
| "fieldValue e root path b F_UNINSTALL = UninstallCommandWithBinding e root b"
| "fieldValue e root path b F_UNINSTALL_Q = ShellQuote (UninstallCommandWithBinding e root b)"
| "fieldValue e root path b F_NOTHING_ATTEMPTED = ''3''"
| "fieldValue e root path b F_STDIN = stdinSection e"
| "fieldValue e root path b F_STDIN_NOTE = stdinNote e"

fun renderPiece :: "(placeholder \<Rightarrow> string) \<Rightarrow> piece \<Rightarrow> string" where
  "renderPiece f (Lit s) = s"
| "renderPiece f (Fld p) = f p"

definition renderLine :: "(placeholder \<Rightarrow> string) \<Rightarrow> piece list \<Rightarrow> string" where
  "renderLine f ps = concat (map (renderPiece f) ps)"

definition renderTemplate :: "(placeholder \<Rightarrow> string) \<Rightarrow> piece list list \<Rightarrow> string" where
  "renderTemplate f ls = unlines (map (renderLine f) ls)"

definition Script :: "string \<Rightarrow> string \<Rightarrow> string \<Rightarrow> Binding \<Rightarrow> script_error + string" where
  "Script e root path b =
     (let b = forEvent b e
      in case validateScriptInputs e root path b of
           Some err \<Rightarrow> Inl err
         | None \<Rightarrow> Inr (renderTemplate (fieldValue e root path b) scriptTemplate))"

definition ManualSnippet :: "string \<Rightarrow> string \<Rightarrow> string \<Rightarrow> Binding \<Rightarrow> script_error + string" where
  "ManualSnippet e root path b =
     (let b = forEvent b e
      in case validateScriptInputs e root path b of
           Some err \<Rightarrow> Inl err
         | None \<Rightarrow> Inr (renderTemplate (fieldValue e root path b) manualTemplate))"

section \<open>Reading a hook back\<close>

fun crlf_to_lf :: "string \<Rightarrow> string" where
  "crlf_to_lf [] = []"
| "crlf_to_lf (c # s) =
     (if c = CHR 0x0D \<and> prefix [line_feed] s then line_feed # crlf_to_lf (drop 1 s) else c # crlf_to_lf s)"

definition scriptLines :: "string \<Rightarrow> string list" where
  "scriptLines content = split_char line_feed (crlf_to_lf content)"

definition dropBlankEnd :: "string list \<Rightarrow> string list" where
  "dropBlankEnd ls = rev (dropWhile (\<lambda>l. trim_space l = []) (rev ls))"

definition IsManaged :: "string \<Rightarrow> bool" where
  "IsManaged content =
     (let ls = dropBlankEnd (scriptLines content)
      in length ls \<ge> 3 \<and> ls ! 0 = scriptShebang \<and> ls ! 1 = ScriptMarkerBegin \<and> last ls = ScriptMarkerEnd)"

fun afterPrefix :: "string \<Rightarrow> string list \<Rightarrow> string option" where
  "afterPrefix p [] = None"
| "afterPrefix p (l # ls) = (if prefix p l then Some (drop (length p) l) else afterPrefix p ls)"

definition EmbeddedRepository :: "string \<Rightarrow> string" where
  "EmbeddedRepository content =
     (case afterPrefix embeddedRepositoryAssignment (scriptLines content) of None \<Rightarrow> [] | Some val \<Rightarrow> shellUnquote val)"

definition EmbeddedCommand :: "string \<Rightarrow> string" where
  "EmbeddedCommand content =
     (case afterPrefix headerCommandPrefix (scriptLines content) of None \<Rightarrow> [] | Some val \<Rightarrow> trim_space val)"

definition ContainsManualSection :: "string \<Rightarrow> bool" where
  "ContainsManualSection content = sublist ManualMarkerPrefix content"

definition ContainsGeneratedSection :: "string \<Rightarrow> bool" where
  "ContainsGeneratedSection content = sublist ScriptMarkerBegin content"

section \<open>What Git runs a file as\<close>

datatype HookLanguage = HookLanguageUnclassified | HookLanguagePOSIXShell | HookLanguageOther | HookLanguageBinary

definition posixShellCommands :: "string list" where
  "posixShellCommands = [''sh'', ''bash'', ''dash'', ''ash'', ''busybox'', ''ksh'', ''ksh93'', ''mksh'', ''pdksh'', ''zsh'']"

definition binarySniffLimit :: nat where
  "binarySniffLimit = 512"

text \<open>\<open>strings.Fields\<close>: the parts between runs of white space.\<close>

function fields_of :: "string \<Rightarrow> string \<Rightarrow> string list" where
  "fields_of cur s =
     (case strip_first space_seqs s of
        Some rest \<Rightarrow> (if cur = [] then [] else [cur]) @ fields_of [] rest
      | None \<Rightarrow> (case s of [] \<Rightarrow> (if cur = [] then [] else [cur]) | c # s' \<Rightarrow> fields_of (cur @ [c]) s'))"
  by pat_completeness auto
termination
  by (relation "measure (\<lambda>(_, s). length s)") (auto dest: strip_first_shorter)

declare fields_of.simps [simp del]

definition envArgument :: "string list \<Rightarrow> string option" where
  "envArgument args = map_option path_base (List.find (\<lambda>a. \<not> (prefix ''-'' a \<or> CHR ''='' \<in> set a)) args)"

definition ClassifyHookLanguage :: "string \<Rightarrow> HookLanguage \<times> string" where
  "ClassifyHookLanguage content =
     (let head = take binarySniffLimit content
      in if CHR 0x00 \<in> set head then (HookLanguageBinary, [])
         else
           let shebang = fst (cut_char line_feed (crlf_to_lf head))
           in if \<not> prefix ''#!'' shebang then (HookLanguagePOSIXShell, [])
              else case fields_of [] (drop 2 shebang) of
                     [] \<Rightarrow> (HookLanguagePOSIXShell, [])
                   | program # args \<Rightarrow>
                       let base = path_base program;
                           name = (if base = ''env'' then (case envArgument args of None \<Rightarrow> ''env'' | Some a \<Rightarrow> a) else base)
                       in if base = ''env'' \<and> name = ''env'' then (HookLanguageOther, ''env'')
                          else if name \<in> set posixShellCommands then (HookLanguagePOSIXShell, name)
                          else (HookLanguageOther, name))"

section \<open>Quoting\<close>

lemma replace_quote_simps [simp]:
  "replace_quote [] = []"
  "replace_quote (c # s) = (if c = CHR 0x27 then CHR 0x27 # CHR 0x5C # CHR 0x27 # CHR 0x27 # replace_quote s else c # replace_quote s)"
  by (simp_all add: replace_quote_def)

lemma restore_replace: "restore_quote (replace_quote s) = s"
  by (induction s) auto

lemma shellUnquote_ShellQuote: "shellUnquote (ShellQuote s) = s"
  by (simp add: shellUnquote_def ShellQuote_def restore_replace suffix_def)

text \<open>
  What a POSIX shell makes of a command line: words are separated by blanks, text between
  single quotes is literal, and a backslash outside quotes takes the next character as it is.
  Every other character that is special to a shell is outside this reading. The state is the
  word read so far, if one was begun, and whether a quote is open.
\<close>

definition sh_special :: "char list" where
  "sh_special = [CHR 0x09, CHR 0x0A, CHR 0x0D, CHR 0x20, CHR 0x22, CHR 0x27, CHR 0x5C, CHR 0x60] @ ''$;&|<>()*?[]#~=%{}!''"

fun sh_read :: "string option \<Rightarrow> bool \<Rightarrow> string \<Rightarrow> string list option" where
  "sh_read w True [] = None"
| "sh_read w False [] = Some (case w of None \<Rightarrow> [] | Some u \<Rightarrow> [u])"
| "sh_read w True (c # s) =
     (if c = CHR 0x27 then sh_read w False s else sh_read (Some (case w of None \<Rightarrow> [c] | Some u \<Rightarrow> u @ [c])) True s)"
| "sh_read w False (c # s) =
     (if c = CHR 0x27 then sh_read (Some (case w of None \<Rightarrow> [] | Some u \<Rightarrow> u)) True s
      else if c = CHR 0x5C then (case s of [] \<Rightarrow> None | d # s' \<Rightarrow> sh_read (Some (case w of None \<Rightarrow> [d] | Some u \<Rightarrow> u @ [d])) False s')
      else if c = CHR 0x20 then
        (case w of None \<Rightarrow> sh_read None False s | Some u \<Rightarrow> map_option ((#) u) (sh_read None False s))
      else if c \<in> set sh_special then None
      else sh_read (Some (case w of None \<Rightarrow> [c] | Some u \<Rightarrow> u @ [c])) False s)"

definition sh_words :: "string \<Rightarrow> string list option" where
  "sh_words s = sh_read None False s"

definition plain_word :: "string \<Rightarrow> bool" where
  "plain_word s \<longleftrightarrow> s \<noteq> [] \<and> set s \<inter> set sh_special = {}"

lemma sh_read_quoted: "sh_read (Some u) True (replace_quote s @ CHR 0x27 # rest) = sh_read (Some (u @ s)) False rest"
  by (induction s arbitrary: u) simp_all

lemma sh_read_ShellQuote: "sh_read None False (ShellQuote s @ rest) = sh_read (Some s) False rest"
  using sh_read_quoted [of "[]" s rest] by (simp add: ShellQuote_def)

lemma sh_read_plain_from: "set s \<inter> set sh_special = {} \<Longrightarrow> sh_read (Some u) False (s @ rest) = sh_read (Some (u @ s)) False rest"
proof (induction s arbitrary: u)
  case (Cons c s)
  then have "c \<notin> set sh_special" by simp
  then have "c \<noteq> CHR 0x27" "c \<noteq> CHR 0x5C" "c \<noteq> CHR 0x20" by (auto simp: sh_special_def)
  with Cons \<open>c \<notin> set sh_special\<close> show ?case by simp
qed simp

lemma sh_read_plain: "plain_word s \<Longrightarrow> sh_read None False (s @ rest) = sh_read (Some s) False rest"
proof (cases s)
  case (Cons c s')
  assume p: "plain_word s"
  then have c: "c \<notin> set sh_special" and s': "set s' \<inter> set sh_special = {}" using Cons by (auto simp: plain_word_def)
  then have "c \<noteq> CHR 0x27" "c \<noteq> CHR 0x5C" "c \<noteq> CHR 0x20" by (auto simp: sh_special_def)
  with c sh_read_plain_from [OF s', of "[c]" rest] Cons show ?thesis by simp
qed (simp add: plain_word_def)

lemma sh_words_render:
  assumes "\<forall>t \<in> set ts. \<not> tkQuoted t \<longrightarrow> plain_word (tkValue t)"
  shows "sh_words (renderShell ts) = Some (renderArgv ts)"
  using assms
proof (induction ts)
  case (Cons t ts)
  let ?w = "if tkQuoted t then ShellQuote (tkValue t) else tkValue t"
  have word: "sh_read None False (?w @ rest) = sh_read (Some (tkValue t)) False rest" for rest
    using Cons.prems by (simp add: sh_read_ShellQuote sh_read_plain)
  show ?case
  proof (cases "ts = []")
    case True
    then show ?thesis using word [of "[]"] by (simp add: sh_words_def renderShell_def renderArgv_def)
  next
    case False
    then have "renderShell (t # ts) = ?w @ CHR 0x20 # renderShell ts" by (simp add: renderShell_def join_Cons)
    then have "sh_words (renderShell (t # ts)) = map_option ((#) (tkValue t)) (sh_words (renderShell ts))"
      unfolding sh_words_def using word [of "CHR 0x20 # renderShell ts"] by simp
    with Cons show ?thesis by (simp add: renderArgv_def)
  qed
qed (simp add: sh_words_def renderShell_def renderArgv_def)

definition digit :: "char \<Rightarrow> bool" where
  "digit c \<longleftrightarrow> (48 :: nat) \<le> of_char c \<and> of_char c \<le> (57 :: nat)"

lemma char_of_digit: "n < 10 \<Longrightarrow> digit (char_of (48 + n :: nat))"
  by (simp add: digit_def)

lemma fmtInt_digits: "fmtInt n \<noteq> [] \<and> (\<forall>c \<in> set (fmtInt n). digit c)"
proof (induction n rule: fmtInt.induct)
  case (1 n)
  show ?case
  proof (cases "n < 10")
    case False
    then show ?thesis using 1 char_of_digit [of "n mod 10"] by (subst (1 2) fmtInt.simps) auto
  qed (simp add: fmtInt.simps char_of_digit)
qed

lemma fmtFracDigits_digits:
  "fmtFracDigits prec (s, print, w) = (s', print', w') \<Longrightarrow> \<forall>c \<in> set s. digit c \<Longrightarrow> \<forall>c \<in> set s'. digit c"
proof (induction prec "(s, print, w)" arbitrary: s print w rule: fmtFracDigits.induct)
  case (2 prec s print w)
  have "digit (char_of (48 + w mod 10))" by (rule char_of_digit) simp
  with 2 show ?case by (auto simp: Let_def split: if_splits)
qed simp

definition durationChar :: "char \<Rightarrow> bool" where
  "durationChar c \<longleftrightarrow> digit c \<or> c \<in> set ''.smhn'' \<union> {CHR 0xC2, CHR 0xB5}"

lemma fmtFrac_chars: "fmtFrac v prec = (s, w) \<Longrightarrow> \<forall>c \<in> set s. durationChar c"
  using fmtFracDigits_digits [of prec "[]" False v]
  by (auto simp: fmtFrac_def durationChar_def split: prod.splits if_splits)

lemma fmtInt_chars: "c \<in> set (fmtInt n) \<Longrightarrow> durationChar c"
  using fmtInt_digits [of n] by (auto simp: durationChar_def)

lemma durationText_chars: "durationText u \<noteq> [] \<and> (\<forall>c \<in> set (durationText u). durationChar c)"
proof -
  have lits: "durationChar (CHR ''0'')" "durationChar (CHR ''s'')" "durationChar (CHR ''m'')" "durationChar (CHR ''h'')"
      "durationChar (CHR ''n'')" "durationChar (CHR 0xC2)" "durationChar (CHR 0xB5)"
    by (simp_all add: durationChar_def digit_def)
  then show ?thesis using fmtInt_digits unfolding durationText_def
    by (auto simp: Let_def split: prod.splits if_splits dest: fmtInt_chars fmtFrac_chars)
qed

lemma durationChar_plain: "durationChar c \<Longrightarrow> c \<notin> set sh_special \<and> c \<notin> set lineBreaks"
  by (auto simp: durationChar_def digit_def sh_special_def lineBreaks_def)

lemma durationText_plain: "plain_word (durationText u)"
  using durationText_chars durationChar_plain unfolding plain_word_def by blast

lemma plain_events: "ValidateEvent e \<Longrightarrow> plain_word e"
  by (auto simp: ValidateEvent_def AllEvents_def EventPostCommit_def EventPrePush_def plain_word_def sh_special_def)

lemma boundTokens_plain: "t \<in> set (boundTokens b) \<Longrightarrow> \<not> tkQuoted t \<Longrightarrow> plain_word (tkValue t)"
  by (auto simp: boundTokens_def plain_word_def sh_special_def split: if_splits)

lemma uploadTokens_plain:
  assumes "bRequireAutoPublishRule b \<longrightarrow> bAutoPublishEvent b = [] \<or> ValidateEvent (bAutoPublishEvent b)" and "t \<in> set (uploadTokens root b)" and "\<not> tkQuoted t"
  shows "plain_word (tkValue t)"
proof -
  have lits: "plain_word s" if "s \<in> {''village'', ''push'', ''--non-interactive'', ''--quiet'', ''--timeout'', ''--require-auto-publish-rule'',
      ''--auto-publish-event'', ''--repository''}" for s
    using that by (auto simp: plain_word_def sh_special_def)
  from assms show ?thesis
    using boundTokens_plain [of t b] durationText_plain plain_events [of "bAutoPublishEvent b"]
    by (auto simp: uploadTokens_def scopeTokens_def lits split: if_splits)
qed

section \<open>Lines of a generated hook\<close>

lemma crlf_to_lf_id: "CHR 0x0D \<notin> set s \<Longrightarrow> crlf_to_lf s = s"
  by (induction s) auto

lemma split_join: "ls \<noteq> [] \<Longrightarrow> split_char c (join [c] ls) = concat (map (split_char c) ls)"
proof (induction ls)
  case (Cons l ls)
  show ?case
  proof (cases "ls = []")
    case False
    have app: "split_char c (x @ c # y) = split_char c x @ split_char c y" for x y
      by (induction x) (auto simp: Let_def split: list.splits)
    show ?thesis using False Cons.IH app by (simp add: join_Cons)
  qed simp
qed simp

definition no_break :: "string \<Rightarrow> bool" where
  "no_break s \<longleftrightarrow> set s \<inter> {CHR 0x0A, CHR 0x0D} = {}"

lemma no_break_append [simp]: "no_break (s @ t) \<longleftrightarrow> no_break s \<and> no_break t"
  by (auto simp: no_break_def)

lemma no_break_Cons [simp]: "no_break (c # s) \<longleftrightarrow> c \<noteq> CHR 0x0A \<and> c \<noteq> CHR 0x0D \<and> no_break s"
  by (auto simp: no_break_def)

lemma no_break_Nil [simp]: "no_break []"
  by (simp add: no_break_def)

lemma no_break_list: "no_break s \<longleftrightarrow> list_all (\<lambda>c. c \<noteq> CHR 0x0A \<and> c \<noteq> CHR 0x0D) s"
  by (induction s) simp_all

lemma no_break_ShellQuote [simp]: "no_break (ShellQuote s) \<longleftrightarrow> no_break s"
  by (auto simp: no_break_def ShellQuote_def replace_quote_def split: if_splits)

lemma no_break_renderShell: "\<forall>t \<in> set ts. no_break (tkValue t) \<Longrightarrow> no_break (renderShell ts)"
proof (induction ts)
  case (Cons t ts)
  then show ?case
    by (cases "ts = []") (auto simp: renderShell_def join_Cons)
qed (simp add: renderShell_def)

lemma plain_no_break: "plain_word s \<Longrightarrow> no_break s"
  by (auto simp: plain_word_def no_break_def sh_special_def)

text \<open>What the validated inputs give.\<close>

definition validInputs :: "string \<Rightarrow> string \<Rightarrow> string \<Rightarrow> Binding \<Rightarrow> bool" where
  "validInputs e root path b \<longleftrightarrow> ValidateEvent e \<and> no_break root \<and> no_break path \<and> no_break (bConfigPath b) \<and> no_break (bConfigDir b) \<and>
     no_break (bDataDir b) \<and> no_break (bStateDir b) \<and> root \<noteq> [] \<and>
     (bRequireAutoPublishRule b \<longrightarrow> bAutoPublishEvent b = [] \<or> ValidateEvent (bAutoPublishEvent b))"

lemma validateScriptInputs_None:
  assumes "validateScriptInputs e root path (forEvent b e) = None"
  shows "validInputs e root path (forEvent b e)"
proof -
  have brk: "\<not> list_ex (\<lambda>c. c \<in> set lineBreaks) s \<Longrightarrow> no_break s" for s
    by (auto simp: list_ex_iff lineBreaks_def no_break_def)
  have "ValidateEvent e" using assms by (auto simp: validateScriptInputs_def split: if_splits)
  moreover have "root \<noteq> []" using assms by (auto simp: validateScriptInputs_def split: if_splits option.splits)
  moreover have "bRequireAutoPublishRule (forEvent b e) \<longrightarrow> bAutoPublishEvent (forEvent b e) = e" by (simp add: forEvent_def)
  ultimately show ?thesis using assms brk unfolding validInputs_def
    by (auto simp: validateScriptInputs_def split: if_splits option.splits)
qed

lemma boundTokens_no_break:
  assumes "validInputs e root path b" and "t \<in> set (boundTokens b)"
  shows "no_break (tkValue t)"
proof (cases "tkQuoted t")
  case True
  then have "tkValue t \<in> {bConfigPath b, bConfigDir b, bDataDir b, bStateDir b}"
    using assms(2) by (auto simp: boundTokens_def split: if_splits)
  then show ?thesis using assms(1) by (auto simp: validInputs_def)
next
  case False
  then show ?thesis by (rule plain_no_break [OF boundTokens_plain [OF assms(2)]])
qed

lemma event_no_break: "ValidateEvent e \<Longrightarrow> no_break e \<and> no_break (Timing e) \<and> no_break (Impact e)"
  by (auto simp: ValidateEvent_def AllEvents_def EventPostCommit_def EventPrePush_def Timing_def Impact_def no_break_def)

lemma fieldValue_no_break:
  assumes v: "validInputs e root path b" and f: "f \<noteq> F_STDIN" "f \<noteq> F_STDIN_NOTE"
  shows "no_break (fieldValue e root path b f)"
proof -
  note e = event_no_break [of e] and bound = boundTokens_no_break [OF v]
  have lits: "no_break s" if "s \<in> {''village'', ''push'', ''hooks'', ''status'', ''install'', ''uninstall'', ''--event'', ''--dir'', ''--repository'', ''cd '', '' && '', ''3''}" for s
    using that by (auto simp: no_break_def)
  have up: "no_break (tkValue t)" if "t \<in> set (uploadTokens root b)" for t
  proof (cases "tkQuoted t")
    case True
    then have "t \<in> set (boundTokens b) \<or> tkValue t = root" using that by (auto simp: uploadTokens_def scopeTokens_def split: if_splits)
    then show ?thesis using bound v by (auto simp: validInputs_def)
  next
    case False
    then show ?thesis using uploadTokens_plain [OF _ that False] v plain_no_break unfolding validInputs_def by blast
  qed
  have "no_break (durationText u)" for u by (rule plain_no_break [OF durationText_plain])
  moreover have "no_break (RepositoryCommand root b)" unfolding RepositoryCommand_def by (intro no_break_renderShell ballI up)
  moreover have "no_break (ManualCommand root b)" unfolding ManualCommand_def
    using v bound lits by (intro no_break_renderShell) (auto simp: scopeTokens_def validInputs_def split: if_splits)
  moreover have "no_break (CommandPrefix b)" unfolding CommandPrefix_def by (intro no_break_renderShell ballI bound)
  moreover have "no_break (StatusCommandWithBinding root b)" unfolding StatusCommandWithBinding_def
    using v bound lits by (intro no_break_renderShell) (auto simp: validInputs_def)
  moreover have "no_break (UninstallCommandWithBinding e root b)" unfolding UninstallCommandWithBinding_def
    using v bound lits e by (intro no_break_renderShell) (auto simp: validInputs_def)
  ultimately show ?thesis using v e f lits by (cases f) (simp_all add: validInputs_def ManualRecovery_def)
qed

definition pieceOK :: "piece \<Rightarrow> bool" where
  "pieceOK p = (case p of Lit s \<Rightarrow> list_all (\<lambda>c. c \<noteq> CHR 0x0A \<and> c \<noteq> CHR 0x0D) s | Fld f \<Rightarrow> f \<noteq> F_STDIN \<and> f \<noteq> F_STDIN_NOTE)"

lemma template_pieces: "list_all (list_all pieceOK) templateHead" "list_all (list_all pieceOK) templateTail"
  by code_simp+

definition startsApart :: "string \<Rightarrow> piece list \<Rightarrow> bool" where
  "startsApart p l = (case l of [] \<Rightarrow> True | Lit s # rest \<Rightarrow> \<not> prefix p s \<and> (rest = [] \<or> \<not> prefix s p) | Fld _ # _ \<Rightarrow> False)"

lemma template_shape:
  "take 2 templateHead = [[Lit scriptShebang], [Lit ScriptMarkerBegin]]"
  "drop (length templateTail - 2) templateTail = [[Lit ScriptMarkerEnd], []]"
  "list_all (startsApart headerCommandPrefix) (take 10 templateHead)"
  "take 1 (drop 10 templateHead) = [[Lit headerCommandPrefix, Fld F_SCOPED_COMMAND]]"
  "list_all (startsApart embeddedRepositoryAssignment) templateHead"
  "list_all (startsApart embeddedRepositoryAssignment) (take 1 templateTail)"
  "take 2 templateTail = [[Lit ''peasant_hook_event='', Fld F_EVENT_Q], [Lit embeddedRepositoryAssignment, Fld F_ROOT_Q]]"
  by code_simp+

lemma startsApart_render: "startsApart p l \<Longrightarrow> p \<noteq> [] \<Longrightarrow> \<not> prefix p (renderLine f l)"
proof (cases l)
  case (Cons q rest)
  assume apart: "startsApart p l" "p \<noteq> []"
  then obtain t where q: "q = Lit t" and t: "\<not> prefix p t" "rest = [] \<or> \<not> prefix t p"
    using Cons by (cases q) (auto simp: startsApart_def)
  have eq: "renderLine f l = t @ renderLine f rest" by (simp add: renderLine_def Cons q)
  show ?thesis
  proof
    assume pre: "prefix p (renderLine f l)"
    have "prefix t (renderLine f l)" by (simp add: eq)
    then have "prefix t p" using prefix_same_cases [OF pre] t(1) by blast
    then have "renderLine f l = t" using t(2) eq by (simp add: renderLine_def)
    then show False using pre t(1) by simp
  qed
qed (simp add: renderLine_def)

lemma renderLine_no_break:
  assumes "list_all pieceOK l" and "\<And>f. f \<noteq> F_STDIN \<Longrightarrow> f \<noteq> F_STDIN_NOTE \<Longrightarrow> no_break (val f)"
  shows "no_break (renderLine val l)"
  using assms(1)
proof (induction l)
  case (Cons p l)
  then have "no_break (renderPiece val p)" using assms(2) by (cases p) (simp_all add: pieceOK_def no_break_list)
  with Cons show ?case by (simp add: renderLine_def)
qed (simp add: renderLine_def)

lemma no_break_split: "no_break s \<Longrightarrow> split_char (CHR 0x0A) s = [s]"
  by (simp add: no_break_def)

lemma stdinSection_lines:
  "CHR 0x0D \<notin> set (stdinSection e) \<and> (\<forall>l \<in> set (split_char (CHR 0x0A) (stdinSection e)). \<not> prefix embeddedRepositoryAssignment l)"
proof (cases "e = EventPrePush")
  case True
  have "list_all (\<lambda>c. c \<noteq> CHR 0x0D) (stdinSection EventPrePush) \<and>
      list_all (\<lambda>l. \<not> prefix embeddedRepositoryAssignment l) (split_char (CHR 0x0A) (stdinSection EventPrePush))" by code_simp
  then show ?thesis unfolding True list_all_iff by blast
next
  case False
  then show ?thesis by (simp add: stdinSection_def embeddedRepositoryAssignment_def)
qed

lemma scriptLines_render:
  assumes "validInputs e root path b"
  shows "scriptLines (renderTemplate (fieldValue e root path b) scriptTemplate) =
    map (renderLine (fieldValue e root path b)) templateHead @ split_char (CHR 0x0A) (stdinSection e) @
    map (renderLine (fieldValue e root path b)) templateTail"
proof -
  let ?val = "fieldValue e root path b"
  have line: "no_break (renderLine ?val l)" if "l \<in> set templateHead \<union> set templateTail" for l
    using that template_pieces by (intro renderLine_no_break fieldValue_no_break [OF assms]) (auto simp: list_all_iff)
  have stdin: "renderLine ?val [Fld F_STDIN] = stdinSection e" by (simp add: renderLine_def)
  have "CHR 0x0D \<notin> set (renderLine ?val l)" if "l \<in> set scriptTemplate" for l
    using that line [of l] stdinSection_lines [of e] by (auto simp: scriptTemplate_def no_break_def stdin)
  moreover have "CHR 0x0D \<notin> set (join [CHR 0x0A] ls)" if "\<forall>l \<in> set ls. CHR 0x0D \<notin> set l" for ls
    using that by (induction "[CHR 0x0A]" ls rule: join.induct) auto
  ultimately have "CHR 0x0D \<notin> set (renderTemplate ?val scriptTemplate)" by (simp add: renderTemplate_def unlines_def)
  then have "scriptLines (renderTemplate ?val scriptTemplate) = concat (map (split_char (CHR 0x0A)) (map (renderLine ?val) scriptTemplate))"
    unfolding scriptLines_def by (simp add: crlf_to_lf_id renderTemplate_def unlines_def split_join scriptTemplate_def)
  also have "\<dots> = map (renderLine ?val) templateHead @ split_char (CHR 0x0A) (stdinSection e) @ map (renderLine ?val) templateTail"
  proof -
    have "concat (map (split_char (CHR 0x0A)) (map (renderLine ?val) ls)) = map (renderLine ?val) ls"
      if "set ls \<subseteq> set templateHead \<union> set templateTail" for ls
      using that line by (induction ls) (auto simp: no_break_split)
    then show ?thesis by (simp add: scriptTemplate_def stdin)
  qed
  finally show ?thesis .
qed

lemma afterPrefix_append:
  "(\<forall>l \<in> set ls. \<not> prefix p l) \<Longrightarrow> afterPrefix p (ls @ ms) = afterPrefix p ms"
  by (induction ls) auto

lemma RepositoryCommand_trim:
  assumes "root \<noteq> []"
  shows "trim_space (RepositoryCommand root b) = RepositoryCommand root b"
proof -
  obtain ts where ts: "uploadTokens root b = bare ''peasant'' # ts @ [quoted root]" "ts \<noteq> []"
    using assms by (auto simp: uploadTokens_def boundTokens_def scopeTokens_def)
  have "renderShell (us @ [quoted root]) = renderShell us @ '' '' @ ShellQuote root" if "us \<noteq> []" for us
    using that by (simp add: renderShell_def join_snoc)
  then have "RepositoryCommand root b = renderShell (bare ''peasant'' # ts) @ '' '' @ ShellQuote root"
    unfolding RepositoryCommand_def ts(1) by (metis append_Cons list.distinct(1))
  then have "RepositoryCommand root b = ''peasant'' @ '' '' @ renderShell ts @ '' '' @ ShellQuote root"
    using ts(2) by (simp add: renderShell_def join_Cons)
  then have "RepositoryCommand root b \<noteq> []" "hd (RepositoryCommand root b) = CHR ''p''" "last (RepositoryCommand root b) = CHR 0x27"
    by (simp_all add: ShellQuote_def)
  moreover have "\<not> space_start (CHR ''p'')" "\<not> space_end (CHR 0x27)" by code_simp+
  ultimately show ?thesis by (intro trim_space_plain) simp_all
qed

lemma dropBlankEnd_append: "trim_space l \<noteq> [] \<Longrightarrow> \<forall>b \<in> set bs. trim_space b = [] \<Longrightarrow> dropBlankEnd (ls @ l # bs) = ls @ [l]"
  by (simp add: dropBlankEnd_def dropWhile_append)

lemma Script_facts:
  assumes "validInputs e root path b"
  defines "content \<equiv> renderTemplate (fieldValue e root path b) scriptTemplate"
  shows "IsManaged content" and "EmbeddedRepository content = root" and "EmbeddedCommand content = RepositoryCommand root b"
proof -
  let ?r = "renderLine (fieldValue e root path b)"
  have lines: "scriptLines content = map ?r templateHead @ split_char (CHR 0x0A) (stdinSection e) @ map ?r templateTail"
    unfolding content_def by (rule scriptLines_render [OF assms(1)])
  obtain rest where head: "templateHead = [Lit scriptShebang] # [Lit ScriptMarkerBegin] # rest"
    using template_shape(1) append_take_drop_id [of 2 templateHead] by (metis append_Cons append_Nil)
  obtain init where tail: "templateTail = init @ [[Lit ScriptMarkerEnd], []]"
    using template_shape(2) append_take_drop_id [of "length templateTail - 2" templateTail] by metis
  have lit: "?r [Lit t] = t" "?r [] = []" for t by (simp_all add: renderLine_def)
  have "trim_space ScriptMarkerEnd \<noteq> []" by code_simp
  from dropBlankEnd_append [OF this, of "[[]]" "map ?r templateHead @ split_char (CHR 0x0A) (stdinSection e) @ map ?r init"]
  have "dropBlankEnd (scriptLines content) = (map ?r templateHead @ split_char (CHR 0x0A) (stdinSection e) @ map ?r init) @ [ScriptMarkerEnd]"
    unfolding lines tail by (simp add: lit)
  then show "IsManaged content" unfolding IsManaged_def Let_def head by (simp add: lit)
  have ne: "embeddedRepositoryAssignment \<noteq> []" "headerCommandPrefix \<noteq> []" by (simp_all add: embeddedRepositoryAssignment_def headerCommandPrefix_def)
  obtain l ls where tl: "templateTail = l # [Lit embeddedRepositoryAssignment, Fld F_ROOT_Q] # ls"
    using template_shape(7) append_take_drop_id [of 2 templateTail] by (metis append_Cons append_Nil)
  have apart: "\<not> prefix embeddedRepositoryAssignment (?r l)" using template_shape(6) ne(1) by (simp add: tl startsApart_render)
  have heads: "\<forall>x \<in> set (map ?r templateHead). \<not> prefix embeddedRepositoryAssignment x"
    using template_shape(5) ne(1) by (auto simp: list_all_iff startsApart_render)
  have "afterPrefix embeddedRepositoryAssignment (scriptLines content) = Some (ShellQuote root)"
    unfolding lines afterPrefix_append [OF heads] using stdinSection_lines [of e] apart
    by (simp add: afterPrefix_append tl renderLine_def)
  then show "EmbeddedRepository content = root" by (simp add: EmbeddedRepository_def shellUnquote_ShellQuote)
  obtain xs where th: "templateHead = take 10 templateHead @ [Lit headerCommandPrefix, Fld F_SCOPED_COMMAND] # xs"
    using template_shape(4) append_take_drop_id [of 10 templateHead] by (cases "drop 10 templateHead") (auto dest: sym)
  have "\<forall>x \<in> set (map ?r (take 10 templateHead)). \<not> prefix headerCommandPrefix x"
    using template_shape(3) ne(2) by (auto simp: list_all_iff startsApart_render)
  from afterPrefix_append [OF this]
  have "afterPrefix headerCommandPrefix (scriptLines content) = Some (RepositoryCommand root b)"
    unfolding lines by (subst th) (simp add: renderLine_def)
  then show "EmbeddedCommand content = RepositoryCommand root b"
    using assms(1) by (simp add: EmbeddedCommand_def RepositoryCommand_trim validInputs_def)
qed

lemma Script_Inr:
  assumes "Script e root path b = Inr content"
  shows "validInputs e root path (forEvent b e)" and "content = renderTemplate (fieldValue e root path (forEvent b e)) scriptTemplate"
  using assms validateScriptInputs_None by (auto simp: Script_def Let_def split: option.splits)

section \<open>Properties\<close>

text \<open>
  C8: A generated hook is recognised. Whatever the paths are, the text written for a repository is
  an intact hook of Peasant, names the repository and the command it was written for, and a
  POSIX shell splits that command into the arguments of the upload, one by one.
\<close>

theorem Script_roundtrip:
  assumes "Script e root path b = Inr content"
  shows "IsManaged content \<and> EmbeddedRepository content = root \<and>
    EmbeddedCommand content = RepositoryCommand root (forEvent b e) \<and>
    sh_words (EmbeddedCommand content) = Some (RepositoryArgv root (forEvent b e))"
proof -
  note v = Script_Inr [OF assms]
  have "sh_words (RepositoryCommand root (forEvent b e)) = Some (RepositoryArgv root (forEvent b e))"
    unfolding RepositoryCommand_def RepositoryArgv_def using uploadTokens_plain v(1) by (intro sh_words_render) (auto simp: validInputs_def)
  then show ?thesis unfolding v(2) using Script_facts [OF v(1)] by simp
qed

definition exampleBinding :: Binding where
  "exampleBinding = \<lparr> bRequireAutoPublishRule = True, bAutoPublishEvent = [], bConfigPath = [], bConfigDir = ''/home/d o'' @ [CHR 0x27] @ ''e/cfg'',
     bDataDir = [], bStateDir = [], bTimeout = 90 * 10 ^ 9 \<rparr>"

lemma fmtFracDigits_numeral:
  "fmtFracDigits (numeral k) (s, print, w) =
     (let digit = w mod 10; print = (print \<or> digit \<noteq> 0)
      in fmtFracDigits (pred_numeral k) (if print then char_of (48 + digit) # s else s, print, w div 10))"
  unfolding numeral_eq_Suc [of k] by (rule fmtFracDigits.simps)

lemma durationText_example: "durationText 90000000000 = ''1m30s''"
proof -
  have "char_of (49 :: nat) = CHR ''1''" "char_of (51 :: nat) = CHR ''3''" "char_of (48 :: nat) = CHR ''0''" by (simp_all add: char_of_eq_iff)
  then show ?thesis by (simp add: durationText_def fmtFrac_def fmtFracDigits_numeral Let_def fmtInt.simps)
qed

theorem Script_roundtrip_witness:
  "\<exists>content. Script EventPrePush ''/repo'' ''/repo/.git/hooks/pre-push'' exampleBinding = Inr content \<and> IsManaged content \<and>
     sh_words (EmbeddedCommand content) = Some [''peasant'', ''--config-dir'', ''/home/d o'' @ [CHR 0x27] @ ''e/cfg'', ''village'', ''push'',
       ''--non-interactive'', ''--quiet'', ''--timeout'', ''1m30s'', ''--require-auto-publish-rule'', ''--auto-publish-event'', ''pre-push'',
       ''--repository'', ''/repo'']"
proof -
  have "validateScriptInputs EventPrePush ''/repo'' ''/repo/.git/hooks/pre-push'' (forEvent exampleBinding EventPrePush) = None"
  proof -
    have "trim_space ''/repo'' \<noteq> []" "trim_space ''/repo/.git/hooks/pre-push'' \<noteq> []" by code_simp+
    then show ?thesis
      by (simp add: validateScriptInputs_def ValidateEvent_def AllEvents_def exampleBinding_def forEvent_def lineBreaks_def)
  qed
  then obtain content where c: "Script EventPrePush ''/repo'' ''/repo/.git/hooks/pre-push'' exampleBinding = Inr content"
    by (simp add: Script_def Let_def)
  have argv: "RepositoryArgv ''/repo'' (forEvent exampleBinding EventPrePush) = [''peasant'', ''--config-dir'', ''/home/d o'' @ [CHR 0x27] @ ''e/cfg'', ''village'', ''push'',
       ''--non-interactive'', ''--quiet'', ''--timeout'', ''1m30s'', ''--require-auto-publish-rule'', ''--auto-publish-event'', ''pre-push'',
       ''--repository'', ''/repo'']"
    by (simp add: RepositoryArgv_def renderArgv_def uploadTokens_def boundTokens_def scopeTokens_def exampleBinding_def forEvent_def
      EventPrePush_def UploadBudget_def durationText_example)
  note r = Script_roundtrip [OF c, unfolded argv]
  show ?thesis by (intro exI [of _ content] conjI c r [THEN conjunct1] r [THEN conjunct2, THEN conjunct2, THEN conjunct2])
qed

end
