(* ===== verification/Hook_Lifecycle.thy ===== *)
theory Hook_Lifecycle
  imports Hook_Script
begin

text \<open>
  The life cycle of a Git hook: \<open>internal/githooks/lifecycle.go\<close> and the types of \<open>githooks.go\<close>.

  The file system is a map from absolute paths to what is there. What the operating system
  decides is an argument: where a path leads through links, which calls fail, how much of a
  failed write arrived, which name a temporary file gets, which directories a failed or
  successful \<open>MkdirAll\<close> made. What Git answers is an argument too. A plan is made on one state
  and carried out on another, so everything that happens in between is covered. The texts of
  reasons and warnings are not modelled, only their kinds.
\<close>

section \<open>Files\<close>

datatype inode = Regular string nat | Symlink string | Directory | Special

type_synonym file_system = "string \<rightharpoonup> inode"

record os =
  osEval :: "file_system \<Rightarrow> string \<Rightarrow> string option"
  osStatErr :: "string \<Rightarrow> bool"
  osReadErr :: "string \<Rightarrow> bool"
  osReadlinkErr :: "string \<Rightarrow> bool"
  osMkdirAll :: "file_system \<Rightarrow> string \<Rightarrow> file_system \<times> bool"
  osCreateErr :: "string \<Rightarrow> bool"
  osCreateMode :: "string \<Rightarrow> nat"
  osWriteErr :: "string \<Rightarrow> bool"
  osTorn :: "string \<Rightarrow> string"
  osChmodErr :: "string \<Rightarrow> bool"
  osCloseErr :: "string \<Rightarrow> bool"
  osTempName :: "file_system \<Rightarrow> string \<Rightarrow> string option"
  osRenameErr :: "string \<Rightarrow> bool"
  osRemoveErr :: "string \<Rightarrow> bool"
  osWorktrees :: "string \<Rightarrow> (string \<times> bool) list"

text \<open>Modes are written in decimal: \<open>0o755\<close> is 493 and the mode \<open>0o777\<close> of a link is 511.\<close>

definition ScriptMode :: nat where
  "ScriptMode = 493"

text \<open>The permission bits of a mode; git runs a file that someone may execute.\<close>

definition executableByGit :: "nat \<Rightarrow> bool" where
  "executableByGit mode \<longleftrightarrow> bit mode 0 \<or> bit mode 3 \<or> bit mode 6"

definition readRegularTarget :: "os \<Rightarrow> file_system \<Rightarrow> string \<Rightarrow> (string \<times> nat) option" where
  "readRegularTarget os fs path =
     (case osEval os fs path of
        None \<Rightarrow> None
      | Some target \<Rightarrow>
          (case fs target of
             Some (Regular content mode) \<Rightarrow> if osReadErr os target then None else Some (content, mode)
           | _ \<Rightarrow> None))"

definition readRegularSlot :: "os \<Rightarrow> file_system \<Rightarrow> string \<Rightarrow> string option" where
  "readRegularSlot os fs path =
     (case fs path of
        Some (Regular content mode) \<Rightarrow> if osReadErr os path then None else Some content
      | _ \<Rightarrow> None)"

section \<open>Slots\<close>

datatype Ownership = OwnershipAbsent | OwnershipPeasant | OwnershipForeign

datatype Refusal = RefusalNone | RefusalSharedPath | RefusalForeignFile

datatype WarningKind =
  WarningCommittableHook | WarningSharedWithLinkedWorktrees | WarningRepositoryMoved | WarningHookNotExecutable

datatype hookAction = ActionCreate | ActionReplace | ActionRefuse

datatype hookOutcome =
  OutcomeCreated | OutcomeReplaced | OutcomeRemoved | OutcomeNotPresent | OutcomeRefused | OutcomeFailed

record hookRepository =
  hrRequestedDir :: string
  hrRoot :: string
  hrGitDir :: string

record Slot =
  slEvent :: string
  slPath :: string
  slOwnership :: Ownership
  slMode :: nat
  slRequireRule :: bool
  slHandAdded :: bool
  slGeneratedRemnant :: bool
  slEmbeddedRoot :: string
  slEmbeddedCommand :: string
  slLanguage :: HookLanguage
  slInterpreter :: string
  slLinkTarget :: string
  slUnreadable :: bool

definition emptySlot :: "string \<Rightarrow> string \<Rightarrow> Slot" where
  "emptySlot e path =
     \<lparr> slEvent = e, slPath = path, slOwnership = OwnershipAbsent, slMode = 0, slRequireRule = False, slHandAdded = False,
       slGeneratedRemnant = False, slEmbeddedRoot = [], slEmbeddedCommand = [], slLanguage = HookLanguageUnclassified,
       slInterpreter = [], slLinkTarget = [], slUnreadable = False \<rparr>"

definition linkTarget :: "os \<Rightarrow> file_system \<Rightarrow> string \<Rightarrow> string \<Rightarrow> string" where
  "linkTarget os fs path hop =
     (case osEval os fs path of
        Some resolved \<Rightarrow> resolved
      | None \<Rightarrow>
          if osReadlinkErr os path then path
          else path_clean (if is_abs hop then hop else path_join [path_dir path, hop]))"

definition classifyForeign :: "string \<Rightarrow> Slot \<Rightarrow> Slot" where
  "classifyForeign content slot =
     slot\<lparr> slLanguage := fst (ClassifyHookLanguage content), slInterpreter := snd (ClassifyHookLanguage content),
           slHandAdded := ContainsManualSection content, slGeneratedRemnant := ContainsGeneratedSection content \<rparr>"

definition requiresRule :: "string \<Rightarrow> bool" where
  "requiresRule content = sublist ''--require-auto-publish-rule'' content"

datatype hook_error =
  CannotInspect string | CannotRead string | BadScript script_error | BadEvent string | NoEvent | BadDirectory string | GitFailed
| CannotCreateDirectory string | CannotCreate string | CannotWrite string | CannotChmod string | CannotClose string
| NotPlainFile string | NotOwned string | CannotStage string | CannotSwap string | CannotRemove string

definition inspect :: "os \<Rightarrow> file_system \<Rightarrow> string \<Rightarrow> string \<Rightarrow> hook_error + Slot" where
  "inspect os fs e path =
     (let slot = emptySlot e path
      in if osStatErr os path then Inl (CannotInspect path)
         else case fs path of
                None \<Rightarrow> Inr slot
              | Some (Symlink hop) \<Rightarrow>
                  let slot = slot\<lparr> slOwnership := OwnershipForeign, slLinkTarget := linkTarget os fs path hop \<rparr>
                  in (case readRegularTarget os fs path of
                        None \<Rightarrow> Inr (slot\<lparr> slMode := 511, slUnreadable := True \<rparr>)
                      | Some (content, mode) \<Rightarrow>
                          Inr (classifyForeign content (slot\<lparr> slMode := mode, slRequireRule := requiresRule content \<rparr>)))
              | Some (Regular content mode) \<Rightarrow>
                  if osReadErr os path then Inl (CannotRead path)
                  else
                    let slot = slot\<lparr> slMode := mode, slRequireRule := requiresRule content \<rparr>
                    in if IsManaged content
                       then Inr (slot\<lparr> slOwnership := OwnershipPeasant, slEmbeddedRoot := EmbeddedRepository content,
                                       slEmbeddedCommand := EmbeddedCommand content \<rparr>)
                       else Inr (classifyForeign content (slot\<lparr> slOwnership := OwnershipForeign \<rparr>))
              | Some _ \<Rightarrow> Inr (slot\<lparr> slOwnership := OwnershipForeign, slUnreadable := True \<rparr>))"

definition FileToEdit :: "Slot \<Rightarrow> string" where
  "FileToEdit s = (if slLinkTarget s \<noteq> [] then slLinkTarget s else slPath s)"

definition CarriesUploadSection :: "Slot \<Rightarrow> bool" where
  "CarriesUploadSection s \<longleftrightarrow> slOwnership s = OwnershipForeign \<and> (slHandAdded s \<or> slGeneratedRemnant s)"

definition UploadsFromForeignFile :: "Slot \<Rightarrow> bool" where
  "UploadsFromForeignFile s \<longleftrightarrow> CarriesUploadSection s \<and> executableByGit (slMode s)"

definition Managed :: "Slot \<Rightarrow> bool" where
  "Managed s \<longleftrightarrow> slOwnership s = OwnershipPeasant"

section \<open>Paths of a repository\<close>

text \<open>
  The longest prefix of a path that resolves, with the rest attached. The walk towards the
  root ends because a parent is shorter; only \<open>.\<close> may be as long as the path it stands for.
\<close>

definition walk_measure :: "string \<Rightarrow> nat" where
  "walk_measure p = (if p = ''.'' then 0 else Suc (length p))"

lemma path_dir_walk:
  assumes "path_dir p \<noteq> p"
  shows "walk_measure (path_dir p) < walk_measure p"
proof (cases "p = []")
  case True
  then show ?thesis by (simp add: walk_measure_def path_dir_def cut_last_char_def)
next
  case False
  have "path_dir ''.'' = ''.''" by code_simp
  with path_dir_smaller [OF False assms] assms show ?thesis by (auto simp: walk_measure_def)
qed

function resolvePrefix :: "os \<Rightarrow> file_system \<Rightarrow> string \<Rightarrow> string \<Rightarrow> string \<Rightarrow> string" where
  "resolvePrefix os fs p current pending =
     (case osEval os fs current of
        Some resolved \<Rightarrow> path_join [resolved, pending]
      | None \<Rightarrow>
          (if path_dir current = current then path_clean p
           else resolvePrefix os fs p (path_dir current) (path_join [path_base current, pending])))"
  by pat_completeness auto
termination
  by (relation "measure (\<lambda>(_, _, _, current, _). walk_measure current)") (auto intro: path_dir_walk)

declare resolvePrefix.simps [simp del]

definition resolveExisting :: "os \<Rightarrow> file_system \<Rightarrow> string \<Rightarrow> string" where
  "resolveExisting os fs p = resolvePrefix os fs p (path_clean p) []"

text \<open>
  \<open>filepath.Rel\<close> on elements: what the two cleaned paths share is dropped, one \<open>..\<close> stands for
  each element of the base that is left, and a base that goes up there has no answer.
\<close>

definition path_elements :: "string \<Rightarrow> string list" where
  "path_elements p = clean_segments (is_abs p) (split_char slash p)"

fun drop_shared :: "string list \<Rightarrow> string list \<Rightarrow> string list \<times> string list" where
  "drop_shared (x # xs) (y # ys) = (if x = y then drop_shared xs ys else (x # xs, y # ys))"
| "drop_shared xs ys = (xs, ys)"

definition path_rel :: "string \<Rightarrow> string \<Rightarrow> string option" where
  "path_rel base targ =
     (if is_abs base \<noteq> is_abs targ then None
      else case drop_shared (path_elements base) (path_elements targ) of
             (xs, ys) \<Rightarrow>
               if xs \<noteq> [] \<and> hd xs = ''..'' then None
               else let rel = map (\<lambda>_. ''..'') xs @ ys in Some (if rel = [] then ''.'' else join ''/'' rel))"

definition pathWithin :: "os \<Rightarrow> file_system \<Rightarrow> string \<Rightarrow> string \<Rightarrow> bool" where
  "pathWithin os fs root path =
     (case path_rel (resolveExisting os fs root) (resolveExisting os fs path) of
        None \<Rightarrow> False
      | Some rel \<Rightarrow> rel \<noteq> ''..'' \<and> \<not> is_abs rel \<and> \<not> prefix ''../'' rel)"

definition privateHookPath :: "os \<Rightarrow> file_system \<Rightarrow> Slot \<Rightarrow> hookRepository \<Rightarrow> bool" where
  "privateHookPath os fs slot repo \<longleftrightarrow>
     hrGitDir repo \<noteq> [] \<and> pathWithin os fs (hrGitDir repo) (path_dir (slPath slot)) \<or>
     pathWithin os fs (hrRoot repo) (path_dir (slPath slot))"

definition LinkLeavesHooksDirectory :: "os \<Rightarrow> file_system \<Rightarrow> Slot \<Rightarrow> bool" where
  "LinkLeavesHooksDirectory os fs s \<longleftrightarrow> slLinkTarget s \<noteq> [] \<and> \<not> pathWithin os fs (path_dir (slPath s)) (slLinkTarget s)"

definition AcceptsShellSection :: "os \<Rightarrow> file_system \<Rightarrow> Slot \<Rightarrow> bool" where
  "AcceptsShellSection os fs s \<longleftrightarrow>
     \<not> (slUnreadable s \<or> LinkLeavesHooksDirectory os fs s) \<and> slLanguage s = HookLanguagePOSIXShell"

definition sameHookFile :: "os \<Rightarrow> file_system \<Rightarrow> string \<Rightarrow> string \<Rightarrow> bool" where
  "sameHookFile os fs a b \<longleftrightarrow> path_clean a = path_clean b \<or> resolveExisting os fs a = resolveExisting os fs b"

text \<open>What Git answers; \<open>None\<close> is an error.\<close>

record GitResolver =
  gitRoot :: "string \<Rightarrow> string option"
  gitGitDir :: "string \<Rightarrow> string option"
  gitHookPath :: "string \<Rightarrow> string \<Rightarrow> string option"

function ownerFrom :: "os \<Rightarrow> file_system \<Rightarrow> GitResolver \<Rightarrow> Slot \<Rightarrow> string \<Rightarrow> string" where
  "ownerFrom os fs git slot dir =
     (case gitRoot git dir of
        Some root \<Rightarrow>
          (case gitHookPath git root (slEvent slot) of
             Some owned \<Rightarrow> if sameHookFile os fs owned (slPath slot) then root else []
           | None \<Rightarrow> [])
      | None \<Rightarrow> (if path_dir dir = dir then [] else ownerFrom os fs git slot (path_dir dir)))"
  by pat_completeness auto
termination
  by (relation "measure (\<lambda>(_, _, _, _, dir). walk_measure dir)") (auto intro: path_dir_walk)

declare ownerFrom.simps [simp del]

definition hooksDirectoryOwner :: "os \<Rightarrow> file_system \<Rightarrow> GitResolver \<Rightarrow> Slot \<Rightarrow> string" where
  "hooksDirectoryOwner os fs git slot = ownerFrom os fs git slot (path_dir (slPath slot))"

section \<open>Disclosures\<close>

definition linkedWorktreesShown :: nat where
  "linkedWorktreesShown = 3"

text \<open>
  The entries of the \<open>worktrees\<close> directory are an argument, each with whether it is a
  directory; an unreadable directory gives none.
\<close>

fun collectWorktrees :: "nat \<Rightarrow> string list \<Rightarrow> (string \<times> bool) list \<Rightarrow> string list" where
  "collectWorktrees n names [] = names"
| "collectWorktrees n names ((name, isDir) # entries) =
     (if \<not> isDir then collectWorktrees n names entries
      else if length names = linkedWorktreesShown
        then names @ [''and '' @ fmtInt (n - linkedWorktreesShown) @ '' more'']
      else collectWorktrees n (names @ [name]) entries)"

definition linkedWorktrees :: "os \<Rightarrow> hookRepository \<Rightarrow> string list" where
  "linkedWorktrees os repo =
     (if hrGitDir repo = [] then []
      else let entries = osWorktrees os (path_join [hrGitDir repo, ''worktrees''])
           in collectWorktrees (length entries) [] entries)"

definition slotWarnings :: "os \<Rightarrow> file_system \<Rightarrow> Slot \<Rightarrow> hookRepository \<Rightarrow> WarningKind list" where
  "slotWarnings os fs slot repo =
     (if slOwnership slot = OwnershipPeasant \<and> linkedWorktrees os repo \<noteq> [] then [WarningSharedWithLinkedWorktrees] else []) @
     (if hrGitDir repo \<noteq> [] \<and> \<not> pathWithin os fs (hrGitDir repo) (slPath slot) then [WarningCommittableHook] else []) @
     (if slOwnership slot = OwnershipPeasant \<and> slEmbeddedRoot slot \<noteq> [] \<and> slEmbeddedRoot slot \<noteq> hrRoot repo
      then [WarningRepositoryMoved] else []) @
     (if slOwnership slot = OwnershipPeasant \<and> \<not> executableByGit (slMode slot) then [WarningHookNotExecutable] else [])"

section \<open>Plans\<close>

datatype intent = intentInstall | intentStatus | intentUninstall

record hookPlan =
  plSlot :: Slot
  plAction :: hookAction
  plRefusal :: Refusal
  plScript :: string
  plManual :: string
  plWarnings :: "WarningKind list"

definition refusedPlan :: "Slot \<Rightarrow> Refusal \<Rightarrow> string \<Rightarrow> hookPlan" where
  "refusedPlan slot refusal manual =
     \<lparr> plSlot = slot, plAction = ActionRefuse, plRefusal = refusal, plScript = [], plManual = manual, plWarnings = [] \<rparr>"

definition planFor :: "os \<Rightarrow> file_system \<Rightarrow> Slot \<Rightarrow> hookRepository \<Rightarrow> Binding \<Rightarrow> intent \<Rightarrow> script_error + hookPlan" where
  "planFor os fs slot repo binding op =
     (let binding = forEvent binding (slEvent slot)
      in if \<not> privateHookPath os fs slot repo then Inr (refusedPlan slot RefusalSharedPath [])
         else if slOwnership slot = OwnershipForeign then
           if op \<noteq> intentUninstall \<and> \<not> CarriesUploadSection slot \<and> AcceptsShellSection os fs slot
           then (case ManualSnippet (slEvent slot) (hrRoot repo) (FileToEdit slot) binding of
                   Inl err \<Rightarrow> Inl err
                 | Inr manual \<Rightarrow> Inr (refusedPlan slot RefusalForeignFile manual))
           else Inr (refusedPlan slot RefusalForeignFile [])
         else case Script (slEvent slot) (hrRoot repo) (slPath slot) binding of
                Inl err \<Rightarrow> Inl err
              | Inr script \<Rightarrow>
                  Inr \<lparr> plSlot = slot, plAction = (if slOwnership slot = OwnershipPeasant then ActionReplace else ActionCreate),
                        plRefusal = RefusalNone, plScript = script, plManual = [],
                        plWarnings = slotWarnings os fs slot repo \<rparr>)"

definition Uploads :: "hookPlan \<Rightarrow> bool" where
  "Uploads p \<longleftrightarrow>
     UploadsFromForeignFile (plSlot p) \<or>
     Managed (plSlot p) \<and> WarningHookNotExecutable \<notin> set (plWarnings p) \<and> WarningRepositoryMoved \<notin> set (plWarnings p)"

section \<open>Changing one slot\<close>

text \<open>
  Each operation returns the file system it leaves and the error, if any. The permission bits a
  created file has before \<open>Chmod\<close> and the content a failed write or close leaves are answers of
  the operating system. A removal that fails leaves the file; the code does not look.
\<close>

definition removeQuietly :: "os \<Rightarrow> string \<Rightarrow> file_system \<Rightarrow> file_system" where
  "removeQuietly os path fs = (if osRemoveErr os path then fs else fs(path := None))"

definition ensureHooksDir :: "os \<Rightarrow> string \<Rightarrow> file_system \<Rightarrow> file_system \<times> hook_error option" where
  "ensureHooksDir os dir fs =
     (case osMkdirAll os fs dir of (fs', ok) \<Rightarrow> (fs', if ok then None else Some (CannotCreateDirectory dir)))"

definition createHook :: "os \<Rightarrow> string \<Rightarrow> string \<Rightarrow> file_system \<Rightarrow> file_system \<times> hook_error option" where
  "createHook os path script fs =
     (case ensureHooksDir os (path_dir path) fs of
        (fs, Some err) \<Rightarrow> (fs, Some err)
      | (fs, None) \<Rightarrow>
          if fs path \<noteq> None \<or> osCreateErr os path then (fs, Some (CannotCreate path))
          else if osWriteErr os path
            then (removeQuietly os path (fs(path \<mapsto> Regular (osTorn os path) (osCreateMode os path))), Some (CannotWrite path))
          else if osChmodErr os path
            then (removeQuietly os path (fs(path \<mapsto> Regular script (osCreateMode os path))), Some (CannotChmod path))
          else if osCloseErr os path
            then (removeQuietly os path (fs(path \<mapsto> Regular (osTorn os path) ScriptMode)), Some (CannotClose path))
          else (fs(path \<mapsto> Regular script ScriptMode), None))"

definition verifyOwned :: "os \<Rightarrow> file_system \<Rightarrow> string \<Rightarrow> hook_error option" where
  "verifyOwned os fs path =
     (case readRegularSlot os fs path of
        None \<Rightarrow> Some (NotPlainFile path)
      | Some content \<Rightarrow> if IsManaged content then None else Some (NotOwned path))"

definition replaceHook :: "os \<Rightarrow> string \<Rightarrow> string \<Rightarrow> file_system \<Rightarrow> file_system \<times> hook_error option" where
  "replaceHook os path script fs =
     (case verifyOwned os fs path of
        Some err \<Rightarrow> (fs, Some err)
      | None \<Rightarrow>
          (case osTempName os fs (path_dir path) of
             None \<Rightarrow> (fs, Some (CannotStage path))
           | Some temp \<Rightarrow>
               if osWriteErr os temp
               then (removeQuietly os temp (fs(temp \<mapsto> Regular (osTorn os temp) (osCreateMode os temp))), Some (CannotStage path))
               else if osChmodErr os temp
               then (removeQuietly os temp (fs(temp \<mapsto> Regular script (osCreateMode os temp))), Some (CannotStage path))
               else if osCloseErr os temp
               then (removeQuietly os temp (fs(temp \<mapsto> Regular (osTorn os temp) ScriptMode)), Some (CannotStage path))
               else if osRenameErr os temp
               then (removeQuietly os temp (fs(temp \<mapsto> Regular script ScriptMode)), Some (CannotSwap path))
               else (fs(temp := None, path \<mapsto> Regular script ScriptMode), None)))"

definition removeHook :: "os \<Rightarrow> string \<Rightarrow> file_system \<Rightarrow> file_system \<times> hook_error option" where
  "removeHook os path fs =
     (case verifyOwned os fs path of
        Some err \<Rightarrow> (fs, Some err)
      | None \<Rightarrow> if osRemoveErr os path then (fs, Some (CannotRemove path)) else (fs(path := None), None))"

record hookResult =
  rsSlot :: Slot
  rsOutcome :: hookOutcome
  rsRefusal :: Refusal
  rsManual :: string
  rsWarnings :: "WarningKind list"
  rsErr :: "hook_error option"

definition hookResultOf :: "hookPlan \<Rightarrow> hookOutcome \<Rightarrow> hookResult" where
  "hookResultOf plan outcome =
     \<lparr> rsSlot = plSlot plan, rsOutcome = outcome, rsRefusal = RefusalNone, rsManual = [], rsWarnings = [], rsErr = None \<rparr>"

definition writtenHookWarnings :: "os \<Rightarrow> file_system \<Rightarrow> Slot \<Rightarrow> hookRepository \<Rightarrow> WarningKind list" where
  "writtenHookWarnings os fs slot repo =
     slotWarnings os fs (slot\<lparr> slEmbeddedRoot := hrRoot repo, slOwnership := OwnershipPeasant, slMode := ScriptMode \<rparr>) repo"

definition installOne :: "os \<Rightarrow> hookRepository \<Rightarrow> hookPlan \<Rightarrow> file_system \<Rightarrow> file_system \<times> hookResult" where
  "installOne os repo plan fs =
     (case plAction plan of
        ActionRefuse \<Rightarrow> (fs, (hookResultOf plan OutcomeRefused)\<lparr> rsRefusal := plRefusal plan, rsManual := plManual plan \<rparr>)
      | ActionCreate \<Rightarrow>
          (case createHook os (slPath (plSlot plan)) (plScript plan) fs of
             (fs', Some err) \<Rightarrow> (fs', (hookResultOf plan OutcomeFailed)\<lparr> rsErr := Some err \<rparr>)
           | (fs', None) \<Rightarrow>
               (fs', (hookResultOf plan OutcomeCreated)\<lparr> rsWarnings := writtenHookWarnings os fs' (plSlot plan) repo \<rparr>))
      | ActionReplace \<Rightarrow>
          (case replaceHook os (slPath (plSlot plan)) (plScript plan) fs of
             (fs', Some err) \<Rightarrow> (fs', (hookResultOf plan OutcomeFailed)\<lparr> rsErr := Some err \<rparr>)
           | (fs', None) \<Rightarrow>
               (fs', (hookResultOf plan OutcomeReplaced)\<lparr> rsWarnings := writtenHookWarnings os fs' (plSlot plan) repo \<rparr>)))"

definition uninstallOne :: "os \<Rightarrow> hookPlan \<Rightarrow> file_system \<Rightarrow> file_system \<times> hookResult" where
  "uninstallOne os plan fs =
     (let slot = plSlot plan
      in if plRefusal plan = RefusalSharedPath \<and> slOwnership slot = OwnershipPeasant
         then (fs, (hookResultOf plan OutcomeRefused)\<lparr> rsRefusal := plRefusal plan \<rparr>)
         else case slOwnership slot of
                OwnershipAbsent \<Rightarrow> (fs, hookResultOf plan OutcomeNotPresent)
              | OwnershipForeign \<Rightarrow>
                  if slUnreadable slot then (fs, (hookResultOf plan OutcomeRefused)\<lparr> rsRefusal := RefusalForeignFile \<rparr>)
                  else if \<not> CarriesUploadSection slot then (fs, hookResultOf plan OutcomeNotPresent)
                  else (fs, (hookResultOf plan OutcomeRefused)\<lparr> rsRefusal := RefusalForeignFile \<rparr>)
              | OwnershipPeasant \<Rightarrow>
                  (case removeHook os (slPath slot) fs of
                     (fs', Some err) \<Rightarrow> (fs', (hookResultOf plan OutcomeFailed)\<lparr> rsErr := Some err \<rparr>)
                   | (fs', None) \<Rightarrow> (fs', hookResultOf plan OutcomeRemoved)))"

section \<open>The operations\<close>

definition normalizeEvents :: "string list \<Rightarrow> bool \<Rightarrow> hook_error + string list" where
  "normalizeEvents events requireExplicit =
     (if events = [] then (if requireExplicit then Inl NoEvent else Inr AllEvents)
      else case find (\<lambda>e. \<not> ValidateEvent e) events of
             Some e \<Rightarrow> Inl (BadEvent e)
           | None \<Rightarrow> Inr (filter (\<lambda>e. e \<in> set events) AllEvents))"

definition absoluteDir :: "string option \<Rightarrow> string \<Rightarrow> string option" where
  "absoluteDir cwd dir =
     (let dir = (if trim_space dir = [] then ''.'' else dir)
      in if is_abs dir then Some (path_clean dir) else map_option (\<lambda>cwd. path_join [cwd, dir]) cwd)"

record hookRequest =
  rqDir :: string
  rqEvents :: "string list"
  rqBinding :: Binding

fun planEvents :: "os \<Rightarrow> file_system \<Rightarrow> GitResolver \<Rightarrow> hookRepository \<Rightarrow> Binding \<Rightarrow> intent \<Rightarrow> string list \<Rightarrow> hook_error + hookPlan list" where
  "planEvents os fs git repo binding op [] = Inr []"
| "planEvents os fs git repo binding op (e # events) =
     (case gitHookPath git (hrRequestedDir repo) e of
        None \<Rightarrow> Inl GitFailed
      | Some path \<Rightarrow>
          (case inspect os fs e path of
             Inl err \<Rightarrow> Inl err
           | Inr slot \<Rightarrow>
               (case planFor os fs slot repo binding op of
                  Inl err \<Rightarrow> Inl (BadScript err)
                | Inr plan \<Rightarrow>
                    (case planEvents os fs git repo binding op events of
                       Inl err \<Rightarrow> Inl err
                     | Inr plans \<Rightarrow> Inr (plan # plans)))))"

definition plan_hooks :: "os \<Rightarrow> file_system \<Rightarrow> GitResolver \<Rightarrow> string option \<Rightarrow> hookRequest \<Rightarrow> intent \<Rightarrow> bool \<Rightarrow> hook_error + (hookRepository \<times> hookPlan list)" where
  "plan_hooks os fs git cwd req op requireExplicit =
     (case normalizeEvents (rqEvents req) requireExplicit of
        Inl err \<Rightarrow> Inl err
      | Inr events \<Rightarrow>
          (case absoluteDir cwd (rqDir req) of
             None \<Rightarrow> Inl (BadDirectory (rqDir req))
           | Some requested \<Rightarrow>
               (case gitRoot git requested of
                  None \<Rightarrow> Inl GitFailed
                | Some root \<Rightarrow>
                    (case gitGitDir git requested of
                       None \<Rightarrow> Inl GitFailed
                     | Some gitDir \<Rightarrow>
                         let repo = \<lparr> hrRequestedDir = requested, hrRoot = root, hrGitDir = gitDir \<rparr>
                         in (case planEvents os fs git repo (rqBinding req) op events of
                               Inl err \<Rightarrow> Inl err
                             | Inr plans \<Rightarrow> Inr (repo, plans))))))"

definition hookStatus :: "os \<Rightarrow> file_system \<Rightarrow> GitResolver \<Rightarrow> string option \<Rightarrow> hookRequest \<Rightarrow> hook_error + (hookRepository \<times> hookPlan list)" where
  "hookStatus os fs git cwd req = plan_hooks os fs git cwd req intentStatus False"

text \<open>
  A change of several slots, one after the other. Planning looks at one state; what others do to
  the file system before the first change is the argument \<open>meanwhile\<close>.
\<close>

fun changeEach :: "(hookPlan \<Rightarrow> file_system \<Rightarrow> file_system \<times> hookResult) \<Rightarrow> hookPlan list \<Rightarrow> file_system \<Rightarrow> file_system \<times> hookResult list" where
  "changeEach one [] fs = (fs, [])"
| "changeEach one (plan # plans) fs =
     (case one plan fs of (fs', r) \<Rightarrow> case changeEach one plans fs' of (fs'', rs) \<Rightarrow> (fs'', r # rs))"

definition Install_hooks ::
  "os \<Rightarrow> GitResolver \<Rightarrow> string option \<Rightarrow> hookRequest \<Rightarrow> (file_system \<Rightarrow> file_system) \<Rightarrow> file_system \<Rightarrow>
   file_system \<times> (hook_error + hookRepository \<times> hookResult list)" where
  "Install_hooks os git cwd req meanwhile fs =
     (case plan_hooks os fs git cwd req intentInstall True of
        Inl err \<Rightarrow> (meanwhile fs, Inl err)
      | Inr (repo, plans) \<Rightarrow>
          (case changeEach (installOne os repo) plans (meanwhile fs) of (fs', results) \<Rightarrow> (fs', Inr (repo, results))))"

definition Uninstall_hooks ::
  "os \<Rightarrow> GitResolver \<Rightarrow> string option \<Rightarrow> hookRequest \<Rightarrow> (file_system \<Rightarrow> file_system) \<Rightarrow> file_system \<Rightarrow>
   file_system \<times> (hook_error + hookRepository \<times> hookResult list)" where
  "Uninstall_hooks os git cwd req meanwhile fs =
     (case plan_hooks os fs git cwd req intentUninstall False of
        Inl err \<Rightarrow> (meanwhile fs, Inl err)
      | Inr (repo, plans) \<Rightarrow>
          (case changeEach (uninstallOne os) plans (meanwhile fs) of (fs', results) \<Rightarrow> (fs', Inr (repo, results))))"

definition Blocked :: "hookResult list \<Rightarrow> bool" where
  "Blocked results = list_ex (\<lambda>r. rsOutcome r \<in> {OutcomeRefused, OutcomeFailed}) results"

definition repositoryUploads :: "os \<Rightarrow> file_system \<Rightarrow> GitResolver \<Rightarrow> string option \<Rightarrow> string \<Rightarrow> Binding \<Rightarrow> string list \<Rightarrow> bool" where
  "repositoryUploads os fs git cwd root noBinding activeEvents =
     (case hookStatus os fs git cwd \<lparr> rqDir = root, rqEvents = [], rqBinding = noBinding \<rparr> of
        Inl _ \<Rightarrow> False
      | Inr (_, plans) \<Rightarrow>
          list_ex (\<lambda>p. Uploads p \<and> (\<not> slRequireRule (plSlot p) \<or> slEvent (plSlot p) \<in> set activeEvents)) plans)"

section \<open>Hooks of the rules\<close>

datatype AutoPublishHookStatus = AutoPublishHookInstalled | AutoPublishHookAbsent | AutoPublishHookBlocked | AutoPublishHookFailed

text \<open>The status and the snippet of \<open>internal/autopublish/repositories.go\<close>; the message is left out.\<close>

definition planHook :: "hookPlan \<Rightarrow> AutoPublishHookStatus \<times> string" where
  "planHook plan =
     (if plRefusal plan \<noteq> RefusalNone then (AutoPublishHookBlocked, plManual plan)
      else if Uploads plan then (AutoPublishHookInstalled, [])
      else (AutoPublishHookAbsent, []))"

definition resultHook :: "hookResult \<Rightarrow> AutoPublishHookStatus \<times> string" where
  "resultHook result =
     (case rsOutcome result of
        OutcomeCreated \<Rightarrow> (AutoPublishHookInstalled, [])
      | OutcomeReplaced \<Rightarrow> (AutoPublishHookInstalled, [])
      | OutcomeRefused \<Rightarrow> (AutoPublishHookBlocked, rsManual result)
      | _ \<Rightarrow> (AutoPublishHookFailed, []))"

section \<open>What a change may touch\<close>

text \<open>
  What the code relies on: making directories adds directories and changes nothing else, and
  the name of a temporary file is new.
\<close>

definition os_ok :: "os \<Rightarrow> bool" where
  "os_ok os \<longleftrightarrow>
     (\<forall>fs d p. fst (osMkdirAll os fs d) p \<noteq> fs p \<longrightarrow> fs p = None \<and> fst (osMkdirAll os fs d) p = Some Directory) \<and>
     (\<forall>fs d t. osTempName os fs d = Some t \<longrightarrow> fs t = None)"

lemma os_ok_mkdir: "os_ok os \<Longrightarrow> osMkdirAll os fs d = (fs', ok) \<Longrightarrow> fs' p = fs p \<or> fs p = None \<and> fs' p = Some Directory"
  unfolding os_ok_def by (metis fst_conv)

lemma os_ok_temp: "os_ok os \<Longrightarrow> osTempName os fs d = Some t \<Longrightarrow> fs t = None"
  by (simp add: os_ok_def)

definition ownedFile :: "file_system \<Rightarrow> string \<Rightarrow> bool" where
  "ownedFile fs p = (case fs p of Some (Regular content mode) \<Rightarrow> IsManaged content | _ \<Rightarrow> False)"

lemma verifyOwned_None: "verifyOwned os fs path = None \<Longrightarrow> ownedFile fs path"
  by (auto simp: verifyOwned_def readRegularSlot_def ownedFile_def split: option.splits inode.splits if_splits)

lemma createHook_change:
  assumes "os_ok os" and "createHook os path script fs = (fs', err)" and "fs p \<noteq> None"
  shows "fs' p = fs p"
proof -
  obtain fs1 ok where mk: "osMkdirAll os fs (path_dir path) = (fs1, ok)" by force
  have p: "fs1 p = fs p" using os_ok_mkdir [OF assms(1) mk, of p] assms(3) by auto
  then show ?thesis
    using assms(2,3) by (auto simp: createHook_def ensureHooksDir_def mk removeQuietly_def split: if_splits)
qed

lemma replaceHook_change:
  assumes "os_ok os" and "replaceHook os path script fs = (fs', err)" and "fs p \<noteq> None" and "fs' p \<noteq> fs p"
  shows "p = path \<and> ownedFile fs p"
proof (cases "verifyOwned os fs path")
  case None
  note own = verifyOwned_None [OF this]
  show ?thesis
  proof (cases "osTempName os fs (path_dir path)")
    case (Some temp)
    note os_ok_temp [OF assms(1) Some]
    then have "p = path" using assms(2-4) by (auto simp: replaceHook_def None Some removeQuietly_def split: if_splits)
    then show ?thesis using own by simp
  qed (use assms None in \<open>simp add: replaceHook_def\<close>)
qed (use assms in \<open>simp add: replaceHook_def\<close>)

lemma removeHook_change:
  assumes "removeHook os path fs = (fs', err)" and "fs' p \<noteq> fs p"
  shows "p = path \<and> ownedFile fs p"
  using assms verifyOwned_None [of os fs path] by (auto simp: removeHook_def split: option.splits if_splits)

text \<open>
  The contract of an operation on one slot: a path that exists is left alone unless it is the
  slot and holds an intact hook of Peasant, and a plan that refuses leaves everything alone.
  Any sequence of such operations then keeps every other file.
\<close>

locale careful_change =
  fixes good :: "os \<Rightarrow> bool"
    and one :: "os \<Rightarrow> hookRepository \<Rightarrow> hookPlan \<Rightarrow> file_system \<Rightarrow> file_system \<times> hookResult"
    and acts :: "hookPlan \<Rightarrow> bool"
  assumes touches: "good os \<Longrightarrow> one os repo plan fs = (fs', r) \<Longrightarrow> fs p \<noteq> None \<Longrightarrow> fs' p \<noteq> fs p \<Longrightarrow>
      p = slPath (plSlot plan) \<and> ownedFile fs p"
    and idle: "\<not> acts plan \<Longrightarrow> one os repo plan fs = (fs', r) \<Longrightarrow> fs' = fs"
begin

lemma changeEach_touches:
  assumes "good os"
  shows "changeEach (one os repo) plans fs = (fs', rs) \<Longrightarrow> fs p \<noteq> None \<Longrightarrow> fs' p \<noteq> fs p \<Longrightarrow>
    ownedFile fs p \<and> (\<exists>plan \<in> set plans. acts plan \<and> p = slPath (plSlot plan))"
proof (induction plans arbitrary: fs rs)
  case (Cons plan plans)
  obtain fs1 r where one: "one os repo plan fs = (fs1, r)" by force
  obtain rs' where rest: "changeEach (one os repo) plans fs1 = (fs', rs')" using Cons.prems(1) by (auto simp: one split: prod.splits)
  show ?case
  proof (cases "fs1 p = fs p")
    case True
    then show ?thesis using Cons.IH [OF rest] Cons.prems(2,3) by (auto simp: ownedFile_def)
  next
    case False
    then have "acts plan" using idle [OF _ one] by blast
    then show ?thesis using touches [OF assms one Cons.prems(2) False] by auto
  qed
qed simp

end

interpretation install: careful_change os_ok installOne "\<lambda>plan. plAction plan \<noteq> ActionRefuse"
proof
  fix os repo plan fs fs' r p
  assume "os_ok os" "installOne os repo plan fs = (fs', r)" "fs p \<noteq> None" "fs' p \<noteq> fs p"
  then show "p = slPath (plSlot plan) \<and> ownedFile fs p"
    using createHook_change replaceHook_change
    by (fastforce simp: installOne_def split: hookAction.splits prod.splits option.splits)
qed (simp add: installOne_def)

interpretation uninstall: careful_change "\<lambda>_. True" "\<lambda>os repo. uninstallOne os"
  "\<lambda>plan. slOwnership (plSlot plan) = OwnershipPeasant \<and> plRefusal plan \<noteq> RefusalSharedPath"
proof
  fix os plan fs fs' r p
  assume "uninstallOne os plan fs = (fs', r)" "fs p \<noteq> None" "fs' p \<noteq> fs p"
  then show "p = slPath (plSlot plan) \<and> ownedFile fs p"
    using removeHook_change by (fastforce simp: uninstallOne_def Let_def split: Ownership.splits prod.splits option.splits if_splits)
next
  fix os plan fs fs' r
  assume "\<not> (slOwnership (plSlot plan) = OwnershipPeasant \<and> plRefusal plan \<noteq> RefusalSharedPath)" "uninstallOne os plan fs = (fs', r)"
  then show "fs' = fs" by (auto simp: uninstallOne_def Let_def split: Ownership.splits if_splits)
qed

section \<open>Plans and slots\<close>

lemma planFor_cases:
  assumes "planFor os fs slot repo binding op = Inr plan"
  shows "plSlot plan = slot"
    and "plAction plan = ActionRefuse \<longleftrightarrow> \<not> privateHookPath os fs slot repo \<or> slOwnership slot = OwnershipForeign"
    and "plRefusal plan = RefusalSharedPath \<longleftrightarrow> \<not> privateHookPath os fs slot repo"
    and "plAction plan \<noteq> ActionRefuse \<Longrightarrow> Script (slEvent slot) (hrRoot repo) (slPath slot) (forEvent binding (slEvent slot)) = Inr (plScript plan)"
  using assms by (auto simp: planFor_def Let_def refusedPlan_def split: if_splits sum.splits)

lemma planFor_manual:
  assumes "planFor os fs slot repo binding op = Inr plan" and "plManual plan \<noteq> []"
  shows "op \<noteq> intentUninstall \<and> plRefusal plan = RefusalForeignFile \<and> slOwnership slot = OwnershipForeign \<and>
    \<not> CarriesUploadSection slot \<and> AcceptsShellSection os fs slot"
  using assms by (auto simp: planFor_def Let_def refusedPlan_def split: if_splits sum.splits)

lemma inspect_slot:
  assumes "inspect os fs e path = Inr slot"
  shows "slEvent slot = e" and "slPath slot = path"
  using assms by (auto simp: inspect_def Let_def emptySlot_def classifyForeign_def split: if_splits option.splits inode.splits)

lemma inspect_owned: "inspect os fs e path = Inr slot \<Longrightarrow> slOwnership slot = OwnershipPeasant \<Longrightarrow> ownedFile fs path"
  by (auto simp: inspect_def Let_def emptySlot_def classifyForeign_def ownedFile_def split: if_splits option.splits inode.splits)

lemma inspect_foreign:
  assumes "inspect os fs e path = Inr slot" and "slOwnership slot = OwnershipForeign" and "\<not> CarriesUploadSection slot"
    and "AcceptsShellSection os fs slot"
  shows "\<exists>content mode. (fs path = Some (Regular content mode) \<or>
        readRegularTarget os fs path = Some (content, mode) \<and> \<not> LinkLeavesHooksDirectory os fs slot) \<and>
      fst (ClassifyHookLanguage content) = HookLanguagePOSIXShell \<and> \<not> ContainsManualSection content \<and> \<not> ContainsGeneratedSection content"
proof -
  have acc: "\<not> slUnreadable slot" "slLanguage slot = HookLanguagePOSIXShell" "\<not> slHandAdded slot" "\<not> slGeneratedRemnant slot"
    "\<not> LinkLeavesHooksDirectory os fs slot"
    using assms(2-4) by (auto simp: AcceptsShellSection_def CarriesUploadSection_def)
  show ?thesis
  proof (cases "fs path")
    case None
    then show ?thesis using assms(1,2) by (auto simp: inspect_def emptySlot_def Let_def split: if_splits)
  next
    case (Some node)
    show ?thesis
    proof (cases node)
      case (Regular content mode)
      then show ?thesis using Some assms(1,2) acc by (auto simp: inspect_def classifyForeign_def Let_def emptySlot_def split: if_splits)
    next
      case (Symlink hop)
      obtain content mode where c: "readRegularTarget os fs path = Some (content, mode)"
        using assms(1) Some Symlink acc(1) by (auto simp: inspect_def Let_def emptySlot_def split: if_splits option.splits)
      have "slLanguage slot = fst (ClassifyHookLanguage content)"
          "slHandAdded slot = ContainsManualSection content" "slGeneratedRemnant slot = ContainsGeneratedSection content"
        using assms(1) Some Symlink c by (auto simp: inspect_def Let_def emptySlot_def classifyForeign_def split: if_splits)
      then show ?thesis using c acc by auto
    next
      case Directory
      then show ?thesis using Some assms(1) acc(1) by (auto simp: inspect_def Let_def emptySlot_def split: if_splits)
    next
      case Special
      then show ?thesis using Some assms(1) acc(1) by (auto simp: inspect_def Let_def emptySlot_def split: if_splits)
    qed
  qed
qed

lemma planEvents_plan:
  "planEvents os fs git repo binding op events = Inr plans \<Longrightarrow> plan \<in> set plans \<Longrightarrow>
   \<exists>e \<in> set events. gitHookPath git (hrRequestedDir repo) e = Some (slPath (plSlot plan)) \<and>
     inspect os fs e (slPath (plSlot plan)) = Inr (plSlot plan) \<and> planFor os fs (plSlot plan) repo binding op = Inr plan"
proof (induction events arbitrary: plans)
  case (Cons e events)
  from Cons.prems(1) obtain path slot q qs where q: "gitHookPath git (hrRequestedDir repo) e = Some path"
    "inspect os fs e path = Inr slot" "planFor os fs slot repo binding op = Inr q" "planEvents os fs git repo binding op events = Inr qs"
    "plans = q # qs" by (auto split: option.splits sum.splits)
  show ?case
  proof (cases "plan = q")
    case True
    then show ?thesis using q planFor_cases(1) [OF q(3)] inspect_slot(2) [OF q(2)] by auto
  qed (use Cons q in auto)
qed simp

lemma normalizeEvents_Inr:
  "normalizeEvents events explicit = Inr es \<Longrightarrow> e \<in> set es \<Longrightarrow> ValidateEvent e \<and> (e \<in> set events \<or> events = [] \<and> \<not> explicit)"
  by (auto simp: normalizeEvents_def ValidateEvent_def split: if_splits option.splits)

lemma plan_hooks_Inr:
  assumes "plan_hooks os fs git cwd req op explicit = Inr (repo, plans)"
  shows "\<exists>events. normalizeEvents (rqEvents req) explicit = Inr events \<and> absoluteDir cwd (rqDir req) = Some (hrRequestedDir repo) \<and>
    gitRoot git (hrRequestedDir repo) = Some (hrRoot repo) \<and> gitGitDir git (hrRequestedDir repo) = Some (hrGitDir repo) \<and>
    planEvents os fs git repo (rqBinding req) op events = Inr plans"
  using assms by (auto simp: plan_hooks_def Let_def split: sum.splits option.splits)

lemma plan_hooks_plan:
  assumes "plan_hooks os fs git cwd req op explicit = Inr (repo, plans)" and "plan \<in> set plans"
  shows "\<exists>e. (e \<in> set (rqEvents req) \<or> rqEvents req = [] \<and> \<not> explicit) \<and> ValidateEvent e \<and>
    gitHookPath git (hrRequestedDir repo) e = Some (slPath (plSlot plan)) \<and>
    inspect os fs e (slPath (plSlot plan)) = Inr (plSlot plan) \<and> planFor os fs (plSlot plan) repo (rqBinding req) op = Inr plan"
  using plan_hooks_Inr [OF assms(1)] planEvents_plan [OF _ assms(2)] normalizeEvents_Inr by blast

lemma installOne_written:
  assumes "installOne os repo plan fs = (fs', r)" and "rsOutcome r = OutcomeCreated \<or> rsOutcome r = OutcomeReplaced"
  shows "fs' (slPath (plSlot plan)) = Some (Regular (plScript plan) ScriptMode)" and "plAction plan \<noteq> ActionRefuse"
  using assms
  by (auto simp: installOne_def createHook_def replaceHook_def hookResultOf_def split: hookAction.splits prod.splits option.splits if_splits)

lemma executable_ScriptMode [simp]: "executableByGit ScriptMode"
  by (simp add: executableByGit_def ScriptMode_def)

text \<open>What a look at a slot finds after a hook was written there.\<close>

definition freshSlot :: "Slot \<Rightarrow> string \<Rightarrow> Binding \<Rightarrow> bool" where
  "freshSlot slot root b \<longleftrightarrow> slOwnership slot = OwnershipPeasant \<and> slMode slot = ScriptMode \<and> slEmbeddedRoot slot = root \<and>
     slEmbeddedCommand slot = RepositoryCommand root b"

lemma inspect_written:
  assumes "fs path = Some (Regular script ScriptMode)" and "Script e root path b = Inr script" and "inspect os fs e path = Inr slot"
  shows "freshSlot slot root (forEvent b e)"
proof -
  note v = Script_Inr [OF assms(2)]
  note f = Script_facts [OF v(1)]
  show ?thesis using assms(1,3) f unfolding freshSlot_def v(2) by (auto simp: inspect_def Let_def split: if_splits)
qed

lemma installed_slot:
  assumes "planFor os0 fs0 slot0 repo binding op0 = Inr plan" and "installOne os repo plan fs = (fs', result)"
    and "rsOutcome result = OutcomeCreated \<or> rsOutcome result = OutcomeReplaced"
    and "inspect os' fs' (slEvent slot0) (slPath slot0) = Inr slot"
  shows "freshSlot slot (hrRoot repo) (forEvent binding (slEvent slot0))"
proof -
  have "Script (slEvent slot0) (hrRoot repo) (slPath slot0) (forEvent binding (slEvent slot0)) = Inr (plScript plan)"
    using planFor_cases(4) [OF assms(1)] installOne_written(2) [OF assms(2,3)] .
  from inspect_written [OF _ this assms(4)] installOne_written(1) [OF assms(2,3)] planFor_cases(1) [OF assms(1)]
  show ?thesis by (simp add: forEvent_def split: if_splits)
qed

lemma freshSlot_warnings:
  "freshSlot slot (hrRoot repo) b \<Longrightarrow> set (slotWarnings os fs slot repo) \<subseteq> {WarningSharedWithLinkedWorktrees, WarningCommittableHook}"
  by (auto simp: freshSlot_def slotWarnings_def)

lemma freshSlot_uploads:
  assumes "freshSlot slot (hrRoot repo) b" and "planFor os fs slot repo binding op = Inr plan"
  shows "Uploads plan" and "planHook plan = (if privateHookPath os fs slot repo then (AutoPublishHookInstalled, []) else (AutoPublishHookBlocked, []))"
proof -
  have own: "slOwnership slot = OwnershipPeasant" using assms(1) by (simp add: freshSlot_def)
  then have w: "plWarnings plan = [] \<or> plWarnings plan = slotWarnings os fs slot repo"
    and r: "plRefusal plan = (if privateHookPath os fs slot repo then RefusalNone else RefusalSharedPath)" "plManual plan = []"
    using assms(2) by (auto simp: planFor_def Let_def refusedPlan_def split: if_splits sum.splits)
  show up: "Uploads plan" using w own freshSlot_warnings [OF assms(1), of os fs] planFor_cases(1) [OF assms(2)] by (auto simp: Uploads_def Managed_def)
  show "planHook plan = (if privateHookPath os fs slot repo then (AutoPublishHookInstalled, []) else (AutoPublishHookBlocked, []))"
    using up r by (simp add: planHook_def)
qed

section \<open>Properties\<close>

text \<open>
  C6: Nothing but an intact hook of Peasant is ever changed. Whatever others do between planning and
  changing, whichever calls fail, a path that exists keeps its content, mode and kind through an
  install or uninstall, unless it is the hook path Git gave for a requested event and holds, at
  the moment of the change, a regular file that Peasant generated.
\<close>

theorem hooks_keep_foreign:
  assumes "change = Install_hooks \<or> change = Uninstall_hooks" and "os_ok os"
    and "change os git cwd req meanwhile fs = (fs', answer)"
    and "meanwhile fs p = Some node" and "fs' p \<noteq> Some node"
  shows "(\<exists>content mode. node = Regular content mode \<and> IsManaged content) \<and>
    (\<exists>requested e. absoluteDir cwd (rqDir req) = Some requested \<and> ValidateEvent e \<and> (rqEvents req = [] \<or> e \<in> set (rqEvents req)) \<and>
       gitHookPath git requested e = Some p)"
proof -
  have exists: "meanwhile fs p \<noteq> None" "fs' p \<noteq> meanwhile fs p" using assms(4,5) by simp_all
  have "\<exists>op explicit repo plans. plan_hooks os fs git cwd req op explicit = Inr (repo, plans) \<and> ownedFile (meanwhile fs) p \<and>
      (\<exists>plan \<in> set plans. p = slPath (plSlot plan))"
    using assms(1)
  proof
    assume "change = Install_hooks"
    then obtain repo plans rs where "plan_hooks os fs git cwd req intentInstall True = Inr (repo, plans)"
      and each: "changeEach (installOne os repo) plans (meanwhile fs) = (fs', rs)"
      using assms(3) exists by (auto simp: Install_hooks_def split: sum.splits prod.splits)
    then show ?thesis using install.changeEach_touches [OF assms(2) each exists] by blast
  next
    assume "change = Uninstall_hooks"
    then obtain repo plans rs where "plan_hooks os fs git cwd req intentUninstall False = Inr (repo, plans)"
      and each: "changeEach (uninstallOne os) plans (meanwhile fs) = (fs', rs)"
      using assms(3) exists by (auto simp: Uninstall_hooks_def split: sum.splits prod.splits)
    then show ?thesis using uninstall.changeEach_touches [OF TrueI each exists] by blast
  qed
  then obtain op explicit repo plans plan where p: "plan_hooks os fs git cwd req op explicit = Inr (repo, plans)"
    "ownedFile (meanwhile fs) p" "plan \<in> set plans" "p = slPath (plSlot plan)" by blast
  have "\<exists>content mode. node = Regular content mode \<and> IsManaged content"
    using p(2) assms(4) by (auto simp: ownedFile_def split: inode.splits)
  moreover have "absoluteDir cwd (rqDir req) = Some (hrRequestedDir repo)" using plan_hooks_Inr [OF p(1)] by blast
  ultimately show ?thesis using plan_hooks_plan [OF p(1,3)] p(4) by blast
qed

text \<open>
  C7: An installed hook uploads. After a hook was written for a plan, however old the plan is, the next
  look at the slot finds an executable hook of Peasant for this repository with the command of the
  binding, and every report made from it says that Git uploads from the slot.
\<close>

theorem install_uploads:
  assumes "planFor os0 fs0 slot0 repo binding op0 = Inr plan0" and "installOne os repo plan0 fs = (fs', result)"
    and "rsOutcome result = OutcomeCreated \<or> rsOutcome result = OutcomeReplaced"
    and "inspect os' fs' (slEvent slot0) (slPath slot0) = Inr slot"
    and "planFor os' fs' slot repo binding' op = Inr plan"
  shows "Managed slot \<and> executableByGit (slMode slot) \<and> slEmbeddedRoot slot = hrRoot repo \<and>
    slEmbeddedCommand slot = RepositoryCommand (hrRoot repo) (forEvent binding (slEvent slot0)) \<and> Uploads plan \<and>
    (privateHookPath os' fs' slot repo \<longrightarrow> fst (planHook plan) = AutoPublishHookInstalled)"
proof -
  note f = installed_slot [OF assms(1-4)]
  show ?thesis using f freshSlot_uploads [OF f assms(5)] by (simp add: freshSlot_def Managed_def)
qed

text \<open>
  Installing and uninstalling again leaves nothing. When a hook was created and the uninstall
  that follows may remove it, the hook is removed and the file system is what it was, apart from
  directories made for the hook.
\<close>

theorem install_uninstall:
  assumes "os_ok os" and "planFor os0 fs0 slot0 repo binding op0 = Inr plan0" and "installOne os repo plan0 fs = (fs', result)"
    and "rsOutcome result = OutcomeCreated"
    and "inspect os' fs' (slEvent slot0) (slPath slot0) = Inr slot"
    and "planFor os' fs' slot repo binding' intentUninstall = Inr plan" and "privateHookPath os' fs' slot repo"
    and "uninstallOne os' plan fs' = (fs'', result')"
    and "\<not> osRemoveErr os' (slPath slot0)"
  shows "rsOutcome result' = OutcomeRemoved \<and> fs'' (slPath slot0) = None \<and> (\<forall>p. fs'' p = fs p \<or> fs p = None \<and> fs'' p = Some Directory)"
proof -
  have own: "slOwnership slot = OwnershipPeasant" using installed_slot [OF assms(2,3) _ assms(5)] assms(4) by (simp add: freshSlot_def)
  have path: "slPath slot = slPath slot0" using inspect_slot [OF assms(5)] by simp
  note plan = planFor_cases [OF assms(6)]
  have "readRegularSlot os' fs' (slPath slot0) \<noteq> None" and managed: "ownedFile fs' (slPath slot0)"
    using assms(5) own inspect_owned [OF assms(5) own]
    by (auto simp: inspect_def readRegularSlot_def ownedFile_def Let_def emptySlot_def classifyForeign_def split: if_splits option.splits inode.splits)
  then have "verifyOwned os' fs' (slPath slot0) = None"
    by (auto simp: verifyOwned_def readRegularSlot_def ownedFile_def split: option.splits inode.splits if_splits)
  then have un: "rsOutcome result' = OutcomeRemoved" "fs'' = fs'(slPath slot0 := None)"
    using assms(7-9) plan(1,3) own path by (auto simp: uninstallOne_def Let_def removeHook_def hookResultOf_def)
  obtain fs1 ok where mk: "osMkdirAll os fs (path_dir (slPath slot0)) = (fs1, ok)" by force
  have "plAction plan0 = ActionCreate" using assms(3,4) by (auto simp: installOne_def hookResultOf_def split: hookAction.splits prod.splits option.splits)
  then have new: "fs1 (slPath slot0) = None" "fs' = fs1(slPath slot0 \<mapsto> Regular (plScript plan0) ScriptMode)"
    using assms(3,4) planFor_cases(1) [OF assms(2)]
    by (auto simp: installOne_def hookResultOf_def createHook_def ensureHooksDir_def mk split: prod.splits option.splits if_splits)
  have "fs'' p = fs p \<or> fs p = None \<and> fs'' p = Some Directory" for p
    using os_ok_mkdir [OF assms(1) mk, of p] new un(2) by (auto split: if_splits)
  then show ?thesis using un by simp
qed

text \<open>
  C9: The section to paste is offered for shell scripts only. A plan that hands out the section
  is not an uninstall's, and the file Git runs for the slot was read, is run by a POSIX shell,
  carries no upload section yet and is reached without leaving the hooks directory.
\<close>

theorem manual_section_offered:
  assumes "plan_hooks os fs git cwd req op explicit = Inr (repo, plans)" and "plan \<in> set plans" and "plManual plan \<noteq> []"
  shows "op \<noteq> intentUninstall \<and> plRefusal plan = RefusalForeignFile \<and>
    (\<exists>content mode. (fs (slPath (plSlot plan)) = Some (Regular content mode) \<or>
        readRegularTarget os fs (slPath (plSlot plan)) = Some (content, mode) \<and> \<not> LinkLeavesHooksDirectory os fs (plSlot plan)) \<and>
      fst (ClassifyHookLanguage content) = HookLanguagePOSIXShell \<and>
      \<not> ContainsManualSection content \<and> \<not> ContainsGeneratedSection content)"
proof -
  obtain e where e: "inspect os fs e (slPath (plSlot plan)) = Inr (plSlot plan)" "planFor os fs (plSlot plan) repo (rqBinding req) op = Inr plan"
    using plan_hooks_plan [OF assms(1,2)] by blast
  have m: "op \<noteq> intentUninstall" "plRefusal plan = RefusalForeignFile" "slOwnership (plSlot plan) = OwnershipForeign"
      "\<not> CarriesUploadSection (plSlot plan)" "AcceptsShellSection os fs (plSlot plan)"
    using planFor_manual [OF e(2) assms(3)] by blast+
  show ?thesis using inspect_foreign [OF e(1) m(3-5)] m(1,2) by blast
qed

text \<open>
  A shared hook path is reported as uploading whatever its mode is: no disclosure is gathered for
  a refused slot, so a hook of Peasant that lost its executable bit, or names another repository,
  counts as running.
\<close>

theorem shared_hook_uploads:
  assumes "\<not> privateHookPath os fs slot repo" and "slOwnership slot = OwnershipPeasant"
  shows "\<exists>plan. planFor os fs slot repo binding op = Inr plan \<and> Uploads plan"
  using assms by (simp add: planFor_def Let_def refusedPlan_def Uploads_def Managed_def)

text \<open>A repository without links whose hooks directory is the usual one.\<close>

definition exampleOs :: os where
  "exampleOs =
     \<lparr> osEval = (\<lambda>fs p. if p \<in> set [''/'', ''/r'', ''/r/.git'', ''/r/.git/hooks''] then Some p else None),
       osStatErr = (\<lambda>_. False), osReadErr = (\<lambda>_. False), osReadlinkErr = (\<lambda>_. False),
       osMkdirAll = (\<lambda>fs d. (if fs d = None then fs(d \<mapsto> Directory) else fs, True)), osCreateErr = (\<lambda>_. False),
       osCreateMode = (\<lambda>_. 420), osWriteErr = (\<lambda>_. False), osTorn = (\<lambda>_. []), osChmodErr = (\<lambda>_. False), osCloseErr = (\<lambda>_. False),
       osTempName = (\<lambda>fs d. if fs (d @ ''/.peasant-hook-1'') = None then Some (d @ ''/.peasant-hook-1'') else None),
       osRenameErr = (\<lambda>_. False), osRemoveErr = (\<lambda>_. False), osWorktrees = (\<lambda>_. []) \<rparr>"

definition exampleGit :: GitResolver where
  "exampleGit = \<lparr> gitRoot = (\<lambda>_. Some ''/r''), gitGitDir = (\<lambda>_. Some ''/r/.git''), gitHookPath = (\<lambda>_ e. Some (''/r/.git/hooks/'' @ e)) \<rparr>"

definition exampleRepository :: hookRepository where
  "exampleRepository = \<lparr> hrRequestedDir = ''/r'', hrRoot = ''/r'', hrGitDir = ''/r/.git'' \<rparr>"

definition exampleHookPath :: string where
  "exampleHookPath = ''/r/.git/hooks/pre-push''"

definition exampleRequest :: hookRequest where
  "exampleRequest = \<lparr> rqDir = ''/r'', rqEvents = [EventPrePush], rqBinding = exampleBinding \<rparr>"

lemma exampleOs_ok: "os_ok exampleOs"
  by (simp add: os_ok_def exampleOs_def)

lemma example_private: "slPath slot = exampleHookPath \<Longrightarrow> privateHookPath exampleOs fs slot exampleRepository"
proof -
  have "pathWithin exampleOs fs ''/r/.git'' (path_dir exampleHookPath)" by code_simp
  then show "slPath slot = exampleHookPath \<Longrightarrow> ?thesis" by (simp add: privateHookPath_def exampleRepository_def)
qed

lemma example_Script: "\<exists>content. Script EventPrePush ''/r'' exampleHookPath (forEvent exampleBinding EventPrePush) = Inr content"
proof -
  have "trim_space ''/r'' \<noteq> []" "trim_space exampleHookPath \<noteq> []" by code_simp+
  then show ?thesis
    by (simp add: Script_def Let_def validateScriptInputs_def ValidateEvent_def AllEvents_def exampleBinding_def forEvent_def lineBreaks_def exampleHookPath_def)
qed

lemma example_hook_plan:
  assumes "slPath slot = exampleHookPath" and "slEvent slot = EventPrePush" and "slOwnership slot \<noteq> OwnershipForeign"
  shows "\<exists>plan. planFor exampleOs fs slot exampleRepository exampleBinding op = Inr plan \<and>
    plAction plan = (if slOwnership slot = OwnershipPeasant then ActionReplace else ActionCreate)"
  using example_Script assms example_private [OF assms(1), of fs] by (auto simp: planFor_def exampleRepository_def)

definition exampleSlot :: Slot where
  "exampleSlot = emptySlot EventPrePush exampleHookPath"

lemma exampleSlot_simps [simp]:
  "slEvent exampleSlot = EventPrePush" "slPath exampleSlot = exampleHookPath" "slOwnership exampleSlot = OwnershipAbsent"
  by (simp_all add: exampleSlot_def emptySlot_def)

lemma example_installed:
  "\<exists>plan0 fs' result slot.
     planFor exampleOs Map.empty exampleSlot exampleRepository exampleBinding intentInstall = Inr plan0 \<and>
     installOne exampleOs exampleRepository plan0 Map.empty = (fs', result) \<and> rsOutcome result = OutcomeCreated \<and>
     inspect exampleOs fs' (slEvent exampleSlot) (slPath exampleSlot) = Inr slot \<and> privateHookPath exampleOs fs' slot exampleRepository \<and>
     (\<forall>op. \<exists>plan. planFor exampleOs fs' slot exampleRepository exampleBinding op = Inr plan)"
proof -
  obtain plan0 where p: "planFor exampleOs Map.empty exampleSlot exampleRepository exampleBinding intentInstall = Inr plan0" "plAction plan0 = ActionCreate"
    using example_hook_plan [of exampleSlot Map.empty intentInstall] by auto
  have path: "slPath (plSlot plan0) = exampleHookPath" by (simp add: planFor_cases(1) [OF p(1)])
  obtain fs' result where i: "installOne exampleOs exampleRepository plan0 Map.empty = (fs', result)" by force
  have "path_dir exampleHookPath \<noteq> exampleHookPath" by code_simp
  then have c: "rsOutcome result = OutcomeCreated" using i p(2) path
    by (auto simp: installOne_def createHook_def ensureHooksDir_def exampleOs_def hookResultOf_def)
  have "fs' exampleHookPath = Some (Regular (plScript plan0) ScriptMode)" using installOne_written(1) [OF i] c path by simp
  then have "\<exists>slot. inspect exampleOs fs' (slEvent exampleSlot) (slPath exampleSlot) = Inr slot" by (simp add: inspect_def exampleOs_def Let_def)
  then obtain slot where slot: "inspect exampleOs fs' (slEvent exampleSlot) (slPath exampleSlot) = Inr slot" by blast
  have "slOwnership slot = OwnershipPeasant" using installed_slot [OF p(1) i _ slot] c by (simp add: freshSlot_def)
  then have "\<forall>op. \<exists>plan. planFor exampleOs fs' slot exampleRepository exampleBinding op = Inr plan"
    using example_hook_plan [of slot fs'] inspect_slot [OF slot] by auto
  moreover have "privateHookPath exampleOs fs' slot exampleRepository" using inspect_slot [OF slot] by (intro example_private) simp
  ultimately show ?thesis using p(1) i c slot by blast
qed

theorem install_uploads_witness:
  "\<exists>plan0 fs' result slot plan.
     planFor exampleOs Map.empty exampleSlot exampleRepository exampleBinding intentInstall = Inr plan0 \<and>
     installOne exampleOs exampleRepository plan0 Map.empty = (fs', result) \<and> rsOutcome result = OutcomeCreated \<and>
     inspect exampleOs fs' EventPrePush exampleHookPath = Inr slot \<and>
     planFor exampleOs fs' slot exampleRepository exampleBinding intentStatus = Inr plan \<and> Uploads plan \<and>
     fst (planHook plan) = AutoPublishHookInstalled"
proof -
  obtain plan0 fs' result slot plan where i: "planFor exampleOs Map.empty exampleSlot exampleRepository exampleBinding intentInstall = Inr plan0"
    "installOne exampleOs exampleRepository plan0 Map.empty = (fs', result)" "rsOutcome result = OutcomeCreated"
    and slot: "inspect exampleOs fs' (slEvent exampleSlot) (slPath exampleSlot) = Inr slot" "privateHookPath exampleOs fs' slot exampleRepository"
    and plan: "planFor exampleOs fs' slot exampleRepository exampleBinding intentStatus = Inr plan" using example_installed by blast
  show ?thesis using i slot plan install_uploads [OF i(1,2) disjI1 [OF i(3)] slot(1) plan] by auto
qed

theorem install_uninstall_witness:
  "\<exists>plan0 fs' result slot plan fs'' result'.
     planFor exampleOs Map.empty exampleSlot exampleRepository exampleBinding intentInstall = Inr plan0 \<and>
     installOne exampleOs exampleRepository plan0 Map.empty = (fs', result) \<and> rsOutcome result = OutcomeCreated \<and>
     inspect exampleOs fs' EventPrePush exampleHookPath = Inr slot \<and>
     planFor exampleOs fs' slot exampleRepository exampleBinding intentUninstall = Inr plan \<and>
     uninstallOne exampleOs plan fs' = (fs'', result') \<and> rsOutcome result' = OutcomeRemoved \<and> fs'' exampleHookPath = None"
proof -
  obtain plan0 fs' result slot plan where i: "planFor exampleOs Map.empty exampleSlot exampleRepository exampleBinding intentInstall = Inr plan0"
    "installOne exampleOs exampleRepository plan0 Map.empty = (fs', result)" "rsOutcome result = OutcomeCreated"
    and slot: "inspect exampleOs fs' (slEvent exampleSlot) (slPath exampleSlot) = Inr slot" "privateHookPath exampleOs fs' slot exampleRepository"
    and plan: "planFor exampleOs fs' slot exampleRepository exampleBinding intentUninstall = Inr plan" using example_installed by blast
  obtain fs'' result' where u: "uninstallOne exampleOs plan fs' = (fs'', result')" by force
  have "\<not> osRemoveErr exampleOs (slPath exampleSlot)" by (simp add: exampleOs_def)
  from install_uninstall [OF exampleOs_ok i slot(1) plan slot(2) u this] show ?thesis using i slot plan u by auto
qed

lemma example_plan_hooks:
  assumes "normalizeEvents (rqEvents exampleRequest) explicit = Inr events"
  shows "plan_hooks exampleOs fs exampleGit None exampleRequest op explicit =
    (case planEvents exampleOs fs exampleGit exampleRepository exampleBinding op events of
       Inl err \<Rightarrow> Inl err | Inr plans \<Rightarrow> Inr (exampleRepository, plans))"
proof -
  have "absoluteDir None (rqDir exampleRequest) = Some ''/r''" by code_simp
  moreover have "gitRoot exampleGit d = Some ''/r''" "gitGitDir exampleGit d = Some ''/r/.git''" for d by (simp_all add: exampleGit_def)
  moreover have "rqBinding exampleRequest = exampleBinding" by (simp add: exampleRequest_def)
  ultimately show ?thesis unfolding plan_hooks_def assms Let_def exampleRepository_def by (auto split: sum.splits)
qed

definition exampleManaged :: string where
  "exampleManaged = unlines [scriptShebang, ScriptMarkerBegin, ScriptMarkerEnd]"

theorem hooks_keep_foreign_witness:
  "\<exists>fs' answer. Uninstall_hooks exampleOs exampleGit None exampleRequest id [exampleHookPath \<mapsto> Regular exampleManaged 493] = (fs', answer) \<and>
     fs' exampleHookPath = None \<and> (\<exists>content mode. Regular exampleManaged 493 = Regular content mode \<and> IsManaged content)"
proof -
  let ?fs = "[exampleHookPath \<mapsto> Regular exampleManaged 493]"
  have managed: "IsManaged exampleManaged" by code_simp
  have ev: "normalizeEvents (rqEvents exampleRequest) False = Inr [EventPrePush]" by code_simp
  have path: "gitHookPath exampleGit (hrRequestedDir exampleRepository) EventPrePush = Some exampleHookPath" by code_simp
  obtain slot where slot: "inspect exampleOs ?fs EventPrePush exampleHookPath = Inr slot" and own: "slOwnership slot = OwnershipPeasant"
    using managed by (simp add: inspect_def exampleOs_def Let_def)
  note s = inspect_slot [OF slot]
  obtain plan where plan: "planFor exampleOs ?fs slot exampleRepository exampleBinding intentUninstall = Inr plan"
    using example_hook_plan [of slot ?fs intentUninstall] s own by auto
  have "plan_hooks exampleOs ?fs exampleGit None exampleRequest intentUninstall False = Inr (exampleRepository, [plan])"
    using example_plan_hooks [OF ev(1)] plan path slot by simp
  moreover have "verifyOwned exampleOs ?fs exampleHookPath = None" using managed by (simp add: verifyOwned_def readRegularSlot_def exampleOs_def)
  then have "fst (uninstallOne exampleOs plan ?fs) exampleHookPath = None"
    using planFor_cases [OF plan] own s example_private [OF s(2)] by (simp add: uninstallOne_def Let_def removeHook_def exampleOs_def)
  ultimately obtain fs' answer where u: "Uninstall_hooks exampleOs exampleGit None exampleRequest id ?fs = (fs', answer)" "fs' exampleHookPath = None"
    by (cases "uninstallOne exampleOs plan ?fs") (auto simp: Uninstall_hooks_def)
  have "id ?fs exampleHookPath = Some (Regular exampleManaged 493)" by simp
  from hooks_keep_foreign [where change = Uninstall_hooks and meanwhile = id and fs = ?fs and p = exampleHookPath, OF disjI2 [OF refl] exampleOs_ok u(1) this] u(2)
  have "\<exists>content mode. Regular exampleManaged 493 = Regular content mode \<and> IsManaged content" by (metis option.distinct(1))
  then show ?thesis using u by blast
qed

theorem manual_section_offered_witness:
  "\<exists>plan. plan_hooks exampleOs [exampleHookPath \<mapsto> Regular [] 493] exampleGit None exampleRequest intentInstall True =
       Inr (exampleRepository, [plan]) \<and> plManual plan \<noteq> [] \<and> plRefusal plan = RefusalForeignFile"
proof -
  let ?fs = "[exampleHookPath \<mapsto> Regular [] 493]"
  have ev: "normalizeEvents (rqEvents exampleRequest) True = Inr [EventPrePush]" by code_simp
  have path: "gitHookPath exampleGit (hrRequestedDir exampleRepository) EventPrePush = Some exampleHookPath" by code_simp
  have empty: "\<not> IsManaged []" "fst (ClassifyHookLanguage []) = HookLanguagePOSIXShell" "\<not> ContainsManualSection []" "\<not> ContainsGeneratedSection []"
    by code_simp+
  obtain slot where slot: "inspect exampleOs ?fs EventPrePush exampleHookPath = Inr slot"
    and own: "slOwnership slot = OwnershipForeign" "\<not> CarriesUploadSection slot" "AcceptsShellSection exampleOs ?fs slot" "FileToEdit slot = exampleHookPath"
    using empty by (simp add: inspect_def exampleOs_def Let_def classifyForeign_def emptySlot_def CarriesUploadSection_def
        AcceptsShellSection_def LinkLeavesHooksDirectory_def FileToEdit_def)
  note s = inspect_slot [OF slot]
  obtain manual where manual: "ManualSnippet EventPrePush ''/r'' exampleHookPath (forEvent exampleBinding EventPrePush) = Inr manual" "manual \<noteq> []"
    using example_Script by (auto simp: Script_def ManualSnippet_def Let_def renderTemplate_def unlines_def manualTemplate_def renderLine_def split: option.splits)
  obtain plan where plan: "planFor exampleOs ?fs slot exampleRepository exampleBinding intentInstall = Inr plan" "plManual plan = manual"
    using own s manual(1) example_private [OF s(2), of ?fs] by (simp add: planFor_def Let_def refusedPlan_def exampleRepository_def)
  have "plan_hooks exampleOs ?fs exampleGit None exampleRequest intentInstall True = Inr (exampleRepository, [plan])"
    using example_plan_hooks [OF ev] plan path slot by simp
  from manual_section_offered [OF this] this show ?thesis using plan(2) manual(2) by auto
qed

end
