(* ===== verification/Arena_Ring.thy ===== *)
theory Arena_Ring
  imports Go_Base "HOL-Library.AList"
begin

text \<open>
  The byte ring of the staging buffer in \<open>internal/ingest/parallel.go\<close>, without its threads:
  the reservation of \<open>copyToArena\<close>, the release of \<open>releaseArena\<close>, and the invariant of the
  spans between tail and head. Coordinates are linear and never wrap, so they are natural
  numbers (the code counts bytes in an \<open>int64\<close>, which a run would have to exceed by copying
  eight exbibytes).
\<close>

section \<open>Reservation\<close>

text \<open>A copy must not straddle the end of the slab: the rest of the slab is skipped.\<close>

definition wrapGap :: "nat \<Rightarrow> nat \<Rightarrow> nat \<Rightarrow> nat" where
  "wrapGap arenaSize head sz = (let physStart = head mod arenaSize in if physStart + sz > arenaSize then arenaSize - physStart else 0)"

definition claimFits :: "nat \<Rightarrow> nat \<Rightarrow> nat \<Rightarrow> nat \<Rightarrow> bool" where
  "claimFits arenaSize tail head sz \<longleftrightarrow> int arenaSize - (int head - int tail) \<ge> int (wrapGap arenaSize head sz + sz)"

lemma wrapGap_contiguous:
  assumes "sz \<le> arenaSize" and "0 < arenaSize"
  shows "(head + wrapGap arenaSize head sz) mod arenaSize + sz \<le> arenaSize"
proof (cases "head mod arenaSize + sz > arenaSize")
  case True
  have "head mod arenaSize < arenaSize" using assms by simp
  then have "(head + (arenaSize - head mod arenaSize)) mod arenaSize = 0"
    by (metis add.commute le_add_diff_inverse2 less_imp_le mod_add_right_eq mod_self mod_add_left_eq)
  then show ?thesis using True assms by (simp add: wrapGap_def Let_def)
qed (simp add: wrapGap_def Let_def)

section \<open>Release\<close>

text \<open>The tail moves over the released spans that follow it; each is forgotten when it is passed.\<close>

lemma length_delete_less: "map_of al k = Some v \<Longrightarrow> length (AList.delete k al) < length al"
proof (induction al)
  case (Cons p al)
  have "length (AList.delete k al) \<le> length al" by (rule AList.length_delete_le)
  then have "length (AList.delete k al) < Suc (length al)" by simp
  with Cons show ?case by (cases p) (auto simp: AList.delete_eq split: if_splits)
qed simp

function advanceTail :: "(nat \<times> nat) list \<Rightarrow> nat \<Rightarrow> (nat \<times> nat) list \<times> nat" where
  "advanceTail rel tail =
     (case map_of rel tail of
        None \<Rightarrow> (rel, tail)
      | Some nxt \<Rightarrow> advanceTail (AList.delete tail rel) nxt)"
  by pat_completeness auto
termination
  by (relation "measure (\<lambda>(rel, _). length rel)") (auto simp: length_delete_less)

declare advanceTail.simps [simp del]

definition releaseArena :: "nat \<Rightarrow> nat \<Rightarrow> (nat \<times> nat) list \<Rightarrow> nat \<Rightarrow> (nat \<times> nat) list \<times> nat" where
  "releaseArena start stop rel tail = advanceTail (AList.update start stop rel) tail"

section \<open>Spans\<close>

text \<open>
  Who holds which span. Spans are not empty, lie between tail and head, are disjoint and leave
  no byte between tail and head without an owner.
\<close>

definition ring_ok :: "nat \<Rightarrow> nat \<Rightarrow> nat \<Rightarrow> ('o \<Rightarrow> (nat \<times> nat) option) \<Rightarrow> bool" where
  "ring_ok cap tail head sp \<longleftrightarrow> tail \<le> head \<and> head \<le> tail + cap \<and>
     (\<forall>x a b. sp x = Some (a, b) \<longrightarrow> tail \<le> a \<and> a < b \<and> b \<le> head) \<and>
     (\<forall>x y a b c d. x \<noteq> y \<longrightarrow> sp x = Some (a, b) \<longrightarrow> sp y = Some (c, d) \<longrightarrow> b \<le> c \<or> d \<le> a) \<and>
     (\<forall>i. tail \<le> i \<longrightarrow> i < head \<longrightarrow> (\<exists>x a b. sp x = Some (a, b) \<and> a \<le> i \<and> i < b))"

lemma ring_okD:
  assumes "ring_ok cap tail head sp"
  shows "tail \<le> head" and "head \<le> tail + cap"
    and "sp x = Some (a, b) \<Longrightarrow> tail \<le> a \<and> a < b \<and> b \<le> head"
    and "x \<noteq> y \<Longrightarrow> sp x = Some (a, b) \<Longrightarrow> sp y = Some (c, d) \<Longrightarrow> b \<le> c \<or> d \<le> a"
    and "tail \<le> i \<Longrightarrow> i < head \<Longrightarrow> \<exists>x a b. sp x = Some (a, b) \<and> a \<le> i \<and> i < b"
  using assms unfolding ring_ok_def by blast+

lemma ring_claim:
  assumes "ring_ok cap tail head sp" and "sp x = None" and "0 < claim" and "head + claim \<le> tail + cap"
  shows "ring_ok cap tail (head + claim) (sp(x := Some (head, head + claim)))"
proof -
  note r = ring_okD [OF assms(1)]
  have bound: "b \<le> head" if "sp y = Some (a, b)" for y a b using r(3) [OF that] by simp
  have cover: "\<exists>y a b. (sp(x := Some (head, head + claim))) y = Some (a, b) \<and> a \<le> i \<and> i < b" if i: "tail \<le> i" "i < head + claim" for i
  proof (cases "i < head")
    case True
    then obtain y a b where y: "sp y = Some (a, b)" "a \<le> i" "i < b" using r(5) [OF i(1)] by blast
    then have "y \<noteq> x" using assms(2) by auto
    then have "(sp(x := Some (head, head + claim))) y = Some (a, b)" using y(1) by simp
    then show ?thesis using y by blast
  next
    case False
    then have "(sp(x := Some (head, head + claim))) x = Some (head, head + claim) \<and> head \<le> i \<and> i < head + claim" using i by simp
    then show ?thesis by blast
  qed
  have span: "tail \<le> a \<and> a < b \<and> b \<le> head + claim" if "(sp(x := Some (head, head + claim))) y = Some (a, b)" for y a b
    using that r(1) r(3) [of y a b] assms(3) by (auto split: if_splits)
  have disj: "b \<le> c \<or> d \<le> a" if "y \<noteq> z" "(sp(x := Some (head, head + claim))) y = Some (a, b)" "(sp(x := Some (head, head + claim))) z = Some (c, d)" for y z a b c d
    using that bound [of y a b] bound [of z c d] r(4) [of y z a b c d] by (auto split: if_splits)
  have "tail \<le> head + claim" using r(1) by simp
  then show ?thesis unfolding ring_ok_def using assms(4) span disj cover by blast
qed

lemma ring_move:
  assumes "ring_ok cap tail head sp" and "sp x = Some v" and "sp y = None"
  shows "ring_ok cap tail head (sp(x := None, y := Some v))"
proof -
  note r = ring_okD [OF assms(1)]
  have ne: "x \<noteq> y" using assms by auto
  let ?f = "\<lambda>z. if z = y then x else z" and ?sp = "sp(x := None, y := Some v)"
  have sp: "?sp z = (if z = x then None else sp (?f z))" for z using assms(2) ne by auto
  have inj: "z \<noteq> x \<Longrightarrow> w \<noteq> x \<Longrightarrow> z \<noteq> w \<Longrightarrow> ?f z \<noteq> ?f w" for z w by auto
  have span: "tail \<le> a \<and> a < b \<and> b \<le> head" if "?sp z = Some (a, b)" for z a b
    using that r(3) [of "?f z" a b] unfolding sp by (metis option.distinct(1))
  have disj: "b \<le> c \<or> d \<le> a" if "z \<noteq> w" "?sp z = Some (a, b)" "?sp w = Some (c, d)" for z w a b c d
    using that r(4) [OF inj, of z w a b c d] unfolding sp by (metis option.distinct(1))
  have cover: "\<exists>z a b. ?sp z = Some (a, b) \<and> a \<le> i \<and> i < b" if i: "tail \<le> i" "i < head" for i
  proof -
    obtain z a b where z: "sp z = Some (a, b)" "a \<le> i" "i < b" using r(5) [OF i] by blast
    show ?thesis
    proof (cases "z = x")
      case True
      then have "?sp y = Some (a, b)" using z(1) assms(2) by simp
      then show ?thesis using z by blast
    next
      case False
      moreover have "z \<noteq> y" using z(1) assms(3) by auto
      ultimately have "?sp z = Some (a, b)" using z(1) by simp
      then show ?thesis using z by blast
    qed
  qed
  show ?thesis unfolding ring_ok_def using r(1,2) span disj cover by blast
qed

lemma ring_free:
  assumes "ring_ok cap tail head sp" and "sp x = Some (tail, b)"
  shows "ring_ok cap b head (sp(x := None))"
proof -
  note r = ring_okD [OF assms(1)]
  have b: "tail < b" "b \<le> head" using r(3) [OF assms(2)] by auto
  have span: "b \<le> c \<and> c < d \<and> d \<le> head" if "(sp(x := None)) y = Some (c, d)" for y c d
  proof -
    have y: "y \<noteq> x" "sp y = Some (c, d)" using that by (auto split: if_splits)
    then show ?thesis using r(3) [OF y(2)] r(4) [OF y(1) [symmetric] assms(2) y(2)] by auto
  qed
  have disj: "d \<le> e \<or> f \<le> c" if "y \<noteq> z" "(sp(x := None)) y = Some (c, d)" "(sp(x := None)) z = Some (e, f)" for y z c d e f
    using that r(4) [of y z c d e f] by (auto split: if_splits)
  have cover: "\<exists>y c d. (sp(x := None)) y = Some (c, d) \<and> c \<le> i \<and> i < d" if i: "b \<le> i" "i < head" for i
  proof -
    obtain y c d where y: "sp y = Some (c, d)" "c \<le> i" "i < d" using r(5) [of i] i b by auto
    then have "y \<noteq> x" using assms(2) i by auto
    then have "(sp(x := None)) y = Some (c, d)" using y(1) by simp
    then show ?thesis using y by blast
  qed
  have "head \<le> b + cap" using r(2) b by simp
  then show ?thesis unfolding ring_ok_def using b span disj cover by blast
qed

text \<open>The spans of the live owners together with the released ones.\<close>

definition joined :: "('o \<Rightarrow> (nat \<times> nat) option) \<Rightarrow> (nat \<times> nat) list \<Rightarrow> 'o + nat \<Rightarrow> (nat \<times> nat) option" where
  "joined live rel x = (case x of Inl y \<Rightarrow> live y | Inr a \<Rightarrow> map_option (Pair a) (map_of rel a))"

lemma joined_simps [simp]:
  "joined live rel (Inl y) = live y" "joined live rel (Inr a) = map_option (Pair a) (map_of rel a)"
  by (simp_all add: joined_def)

lemma joined_Inl_upd: "joined (live(y := v)) rel = (joined live rel)(Inl y := v)"
  by (rule ext) (auto simp: joined_def split: sum.splits)

lemma joined_delete: "joined live (AList.delete a rel) = (joined live rel)(Inr a := None)"
  by (rule ext) (auto simp: joined_def AList.delete_conv' split: sum.splits)

lemma joined_update: "joined live (AList.update a b rel) = (joined live rel)(Inr a := Some (a, b))"
  by (rule ext) (auto simp: joined_def AList.update_conv' split: sum.splits)

lemma advanceTail_ok:
  "ring_ok cap tail head (joined live rel) \<Longrightarrow> advanceTail rel tail = (rel', tail') \<Longrightarrow>
   ring_ok cap tail' head (joined live rel') \<and> map_of rel' tail' = None \<and> tail \<le> tail'"
proof (induction rel tail rule: advanceTail.induct)
  case (1 rel tail)
  show ?case
  proof (cases "map_of rel tail")
    case None
    then show ?thesis using 1 by (simp add: advanceTail.simps)
  next
    case (Some b)
    have span: "joined live rel (Inr tail) = Some (tail, b)" using Some by simp
    have "advanceTail (AList.delete tail rel) b = (rel', tail')" using 1(3) Some by (simp add: advanceTail.simps)
    moreover have "ring_ok cap b head (joined live (AList.delete tail rel))"
      unfolding joined_delete by (rule ring_free [OF 1(2) span])
    ultimately have "ring_ok cap tail' head (joined live rel') \<and> map_of rel' tail' = None \<and> b \<le> tail'" using 1(1) [OF Some] by blast
    then show ?thesis using ring_okD(3) [OF 1(2) span] by simp
  qed
qed

lemma releaseArena_ok:
  assumes ok: "ring_ok cap tail head (joined live rel)" and live: "live x = Some (a, b)" and rel: "releaseArena a b rel tail = (rel', tail')"
  shows "ring_ok cap tail' head (joined (live(x := None)) rel') \<and> map_of rel' tail' = None \<and> tail \<le> tail'"
proof -
  have span: "joined live rel (Inl x) = Some (a, b)" using live by simp
  have "map_of rel a = None"
  proof (rule ccontr)
    assume "map_of rel a \<noteq> None"
    then obtain c where c: "joined live rel (Inr a) = Some (a, c)" by auto
    show False using ring_okD(4) [OF ok _ span c] ring_okD(3) [OF ok span] ring_okD(3) [OF ok c] by auto
  qed
  then have "ring_ok cap tail head ((joined live rel)(Inl x := None, Inr a := Some (a, b)))"
    using ring_move [OF ok span, of "Inr a"] by simp
  then have "ring_ok cap tail head (joined (live(x := None)) (AList.update a b rel))"
    by (simp add: joined_update joined_Inl_upd)
  then show ?thesis by (rule advanceTail_ok) (use rel in \<open>simp add: releaseArena_def\<close>)
qed

text \<open>When no live owner is left, the whole ring is free again.\<close>

lemma ring_drained:
  assumes "ring_ok cap tail head (joined live rel)" and "map_of rel tail = None" and "\<And>x. live x = None"
  shows "tail = head"
proof (rule ccontr)
  assume "tail \<noteq> head"
  then have "tail < head" using ring_okD(1) [OF assms(1)] by simp
  then obtain x a b where x: "joined live rel x = Some (a, b)" "a \<le> tail" "tail < b" using ring_okD(5) [OF assms(1) order_refl] by blast
  then have "a = tail" using ring_okD(3) [OF assms(1) x(1)] by simp
  then show False using x(1) assms(2,3) by (cases x) auto
qed

text \<open>Two live spans never share a byte of the slab.\<close>

lemma ring_physical:
  assumes ok: "ring_ok cap tail head sp" and "0 < cap" and "x \<noteq> y" and "sp x = Some (a, b)" and "sp y = Some (c, d)"
    and "a \<le> i" "i < b" "c \<le> j" "j < d"
  shows "i mod cap \<noteq> j mod cap"
proof -
  have window: "tail \<le> i" "i < tail + cap" "tail \<le> j" "j < tail + cap"
    using ring_okD(2) [OF ok] ring_okD(3) [OF ok assms(4)] ring_okD(3) [OF ok assms(5)] assms(6-9) by auto
  have "i \<noteq> j" using ring_okD(4) [OF ok assms(3-5)] assms(6-9) by auto
  then show ?thesis using mod_window [of i cap j] window by auto
qed

text \<open>
  Which payloads an idle ring takes: one that does not wrap, or one no longer than the part of
  the slab before it. A payload of at most half the slab always fits.
\<close>

lemma claimFits_idle: "sz \<le> cap \<Longrightarrow> claimFits cap head head sz \<longleftrightarrow> head mod cap + sz \<le> cap \<or> sz \<le> head mod cap"
  by (cases "cap = 0") (auto simp: claimFits_def wrapGap_def Let_def)

end
