(* ===== verification/Staging.thy ===== *)
theory Staging
  imports Arena_Ring
begin

text \<open>
  The staging buffer of \<open>internal/ingest/parallel.go\<close>: worker goroutines call \<open>Add\<close> at the same
  time, one goroutine calls \<open>Drain\<close>, \<open>AckBatch\<close>, \<open>Commit\<close> and \<open>MarkFailed\<close>. Each atomic load, store
  and compare-and-swap of the code is a step of its own, in any interleaving; the copy into the
  slab and the write of a slot are steps too. \<open>releaseArena\<close> runs under its mutex and is one step.
  The wakeups only end a wait earlier, so a wait is a step back to the loads. A payload is a list
  of bytes; one that was copied is a position and a length in the slab.
\<close>

section \<open>State\<close>

type_synonym byte = char

datatype payload = Own "byte list" | InArena nat nat

record workerResult =
  wrSession :: string
  wrResolved :: bool
  wrSchedulingParent :: "string option"
  wrMetaParent :: "string option"
  wrTranscript :: payload
  wrArtifact :: "payload option"

record stagedEntry =
  seResult :: workerResult
  seStart :: nat
  seLen :: nat
  sePad :: nat

text \<open>
  Where a call of \<open>Add\<close> is: before anything; before the loads of the ring coordinates; after the
  load of the tail, and of the head; with a reservation that is not copied yet; before the load of
  the slot counter, and after it; with a slot that is not written yet, or not published yet; or
  finished. A coordinate is read only when the length beside it is positive.
\<close>

datatype producer =
  Entered | Waiting | HasTail nat | HasHead nat nat | Reserved nat nat
| Copied nat nat nat | HasCount nat nat nat nat | Claimed nat nat nat nat | Written nat
| Added nat | Rejected | Panicked

datatype drainer = Idle | Scanning nat nat "workerResult list" "nat list" | Acking "nat list"

record DrainBatch =
  dbResults :: "workerResult list"
  dbClaimed :: "nat list"

record stagingState =
  sbSlots :: "stagedEntry list"
  sbState :: "nat list"
  sbCount :: nat
  sbArena :: "byte list"
  sbHead :: nat
  sbTail :: nat
  sbReleased :: "(nat \<times> nat) list"
  sbCommitted :: "string set"
  sbFailed :: "string set"
  sbProducers :: "producer list"
  sbDrainer :: drainer
  sbBatches :: "DrainBatch list"

text \<open>The calls of \<open>Add\<close> that a run makes, the capacity and the size of the slab.\<close>

record stagingRun =
  rnAdds :: "workerResult list"
  rnCapacity :: nat
  rnArenaSize :: nat

definition payloadBytes :: "payload \<Rightarrow> byte list" where
  "payloadBytes p = (case p of Own bs \<Rightarrow> bs | InArena _ _ \<Rightarrow> [])"

abbreviation transcriptOf :: "stagingRun \<Rightarrow> nat \<Rightarrow> byte list" where
  "transcriptOf run i \<equiv> payloadBytes (wrTranscript (rnAdds run ! i))"

text \<open>What a reader of the slab sees.\<close>

definition readPayload :: "stagingState \<Rightarrow> payload \<Rightarrow> byte list" where
  "readPayload s p = (case p of Own bs \<Rightarrow> bs | InArena phys len \<Rightarrow> take len (drop phys (sbArena s)))"

definition zeroEntry :: stagedEntry where
  "zeroEntry =
     \<lparr> seResult = \<lparr> wrSession = [], wrResolved = False, wrSchedulingParent = None, wrMetaParent = None, wrTranscript = Own [], wrArtifact = None \<rparr>,
       seStart = 0, seLen = 0, sePad = 0 \<rparr>"

text \<open>\<open>None\<close> is the panic of a capacity or size below one.\<close>

definition NewStagingBuffer :: "stagingRun \<Rightarrow> stagingState option" where
  "NewStagingBuffer run =
     (if rnCapacity run < 1 \<or> rnArenaSize run < 1 then None
      else Some
        \<lparr> sbSlots = replicate (rnCapacity run) zeroEntry, sbState = replicate (rnCapacity run) 0, sbCount = 0,
          sbArena = replicate (rnArenaSize run) (CHR 0x00), sbHead = 0, sbTail = 0, sbReleased = [],
          sbCommitted = {}, sbFailed = {}, sbProducers = replicate (length (rnAdds run)) Entered, sbDrainer = Idle, sbBatches = [] \<rparr>)"

section \<open>Operations\<close>

definition DefaultMaxDrainBatch :: nat where
  "DefaultMaxDrainBatch = 512"

definition parentSettled :: "stagingState \<Rightarrow> string option \<Rightarrow> bool" where
  "parentSettled s p = (case p of None \<Rightarrow> True | Some q \<Rightarrow> q \<in> sbCommitted s \<or> q \<in> sbFailed s)"

definition isEligible :: "stagingState \<Rightarrow> workerResult \<Rightarrow> bool" where
  "isEligible s r = (if wrResolved r then parentSettled s (wrSchedulingParent r) else parentSettled s (wrMetaParent r))"

definition writeBytes :: "nat \<Rightarrow> byte list \<Rightarrow> byte list \<Rightarrow> byte list" where
  "writeBytes phys bs slab = take phys slab @ bs @ drop (phys + length bs) slab"

definition placed :: "nat \<Rightarrow> workerResult \<Rightarrow> nat \<Rightarrow> nat \<Rightarrow> workerResult" where
  "placed arenaSize r start len =
     (if len > 0
      then let p = InArena (start mod arenaSize) len
           in r\<lparr> wrTranscript := p, wrArtifact := map_option (\<lambda>_. p) (wrArtifact r) \<rparr>
      else r)"

definition release :: "nat \<Rightarrow> nat \<Rightarrow> nat \<Rightarrow> stagingState \<Rightarrow> stagingState" where
  "release start len pad s =
     (if len > 0
      then (case releaseArena (start - pad) (start + len) (sbReleased s) (sbTail s) of
              (rel, tail) \<Rightarrow> s\<lparr> sbReleased := rel, sbTail := tail \<rparr>)
      else s)"

abbreviation at :: "nat \<Rightarrow> producer \<Rightarrow> stagingState \<Rightarrow> stagingState" where
  "at i pc s \<equiv> s\<lparr> sbProducers := (sbProducers s)[i := pc] \<rparr>"

abbreviation mark :: "nat \<Rightarrow> nat \<Rightarrow> stagingState \<Rightarrow> stagingState" where
  "mark k v s \<equiv> s\<lparr> sbState := (sbState s)[k := v] \<rparr>"

inductive add_step :: "stagingRun \<Rightarrow> nat \<Rightarrow> stagingState \<Rightarrow> stagingState \<Rightarrow> bool" for run i where
  no_copy: "sbProducers s ! i = Entered \<Longrightarrow> transcriptOf run i = [] \<Longrightarrow> add_step run i s (at i (Copied 0 0 0) s)"
| too_large: "sbProducers s ! i = Entered \<Longrightarrow> length (transcriptOf run i) > rnArenaSize run \<Longrightarrow> add_step run i s (at i Panicked s)"
| begin_wait: "sbProducers s ! i = Entered \<Longrightarrow> transcriptOf run i \<noteq> [] \<Longrightarrow> length (transcriptOf run i) \<le> rnArenaSize run \<Longrightarrow>
    add_step run i s (at i Waiting s)"
| load_tail: "sbProducers s ! i = Waiting \<Longrightarrow> add_step run i s (at i (HasTail (sbTail s)) s)"
| load_head: "sbProducers s ! i = HasTail t \<Longrightarrow> add_step run i s (at i (HasHead t (sbHead s)) s)"
| reserve: "sbProducers s ! i = HasHead t h \<Longrightarrow> claimFits (rnArenaSize run) t h (length (transcriptOf run i)) \<Longrightarrow> sbHead s = h \<Longrightarrow>
    gap = wrapGap (rnArenaSize run) h (length (transcriptOf run i)) \<Longrightarrow>
    add_step run i s (at i (Reserved (h + gap) gap) (s\<lparr> sbHead := h + gap + length (transcriptOf run i) \<rparr>))"
| reserve_lost: "sbProducers s ! i = HasHead t h \<Longrightarrow> claimFits (rnArenaSize run) t h (length (transcriptOf run i)) \<Longrightarrow> sbHead s \<noteq> h \<Longrightarrow>
    add_step run i s (at i Waiting s)"
| arena_full: "sbProducers s ! i = HasHead t h \<Longrightarrow> \<not> claimFits (rnArenaSize run) t h (length (transcriptOf run i)) \<Longrightarrow> add_step run i s (at i Waiting s)"
| cancelled: "sbProducers s ! i = HasHead t h \<Longrightarrow> \<not> claimFits (rnArenaSize run) t h (length (transcriptOf run i)) \<Longrightarrow>
    add_step run i s (at i (Copied 0 0 0) s)"
| copy: "sbProducers s ! i = Reserved start pad \<Longrightarrow>
    add_step run i s (at i (Copied start (length (transcriptOf run i)) pad)
      (s\<lparr> sbArena := writeBytes (start mod rnArenaSize run) (transcriptOf run i) (sbArena s) \<rparr>))"
| load_count: "sbProducers s ! i = Copied start len pad \<Longrightarrow> add_step run i s (at i (HasCount (sbCount s) start len pad) s)"
| exhausted: "sbProducers s ! i = HasCount k start len pad \<Longrightarrow> k \<ge> rnCapacity run \<Longrightarrow> add_step run i s (at i Rejected (release start len pad s))"
| claim_slot: "sbProducers s ! i = HasCount k start len pad \<Longrightarrow> k < rnCapacity run \<Longrightarrow> sbCount s = k \<Longrightarrow>
    add_step run i s (at i (Claimed k start len pad) (s\<lparr> sbCount := k + 1 \<rparr>))"
| claim_lost: "sbProducers s ! i = HasCount k start len pad \<Longrightarrow> k < rnCapacity run \<Longrightarrow> sbCount s \<noteq> k \<Longrightarrow>
    add_step run i s (at i (Copied start len pad) s)"
| write_slot: "sbProducers s ! i = Claimed k start len pad \<Longrightarrow>
    e = \<lparr> seResult = placed (rnArenaSize run) (rnAdds run ! i) start len, seStart = start, seLen = len, sePad = pad \<rparr> \<Longrightarrow>
    add_step run i s (at i (Written k) (s\<lparr> sbSlots := (sbSlots s)[k := e] \<rparr>))"
| publish: "sbProducers s ! i = Written k \<Longrightarrow> add_step run i s (at i (Added k) (mark k 1 s))"

inductive drain_step :: "stagingState \<Rightarrow> stagingState \<Rightarrow> bool" where
  begin_drain: "sbDrainer s = Idle \<Longrightarrow> drain_step s (s\<lparr> sbDrainer := Scanning (sbCount s) 0 [] [] \<rparr>)"
| take_slot: "sbDrainer s = Scanning n k results claimed \<Longrightarrow> k < n \<Longrightarrow> length results < DefaultMaxDrainBatch \<Longrightarrow>
    sbState s ! k = 1 \<Longrightarrow> isEligible s (seResult (sbSlots s ! k)) \<Longrightarrow>
    drain_step s (mark k 2 (s\<lparr> sbDrainer := Scanning n (k + 1) (results @ [seResult (sbSlots s ! k)]) (claimed @ [k]) \<rparr>))"
| pass_slot: "sbDrainer s = Scanning n k results claimed \<Longrightarrow> k < n \<Longrightarrow> length results < DefaultMaxDrainBatch \<Longrightarrow>
    sbState s ! k \<noteq> 1 \<or> \<not> isEligible s (seResult (sbSlots s ! k)) \<Longrightarrow>
    drain_step s (s\<lparr> sbDrainer := Scanning n (k + 1) results claimed \<rparr>)"
| end_drain: "sbDrainer s = Scanning n k results claimed \<Longrightarrow> k \<ge> n \<or> length results \<ge> DefaultMaxDrainBatch \<Longrightarrow>
    drain_step s (s\<lparr> sbDrainer := Idle,
      sbBatches := \<lparr> dbResults = results, dbClaimed = claimed \<rparr> # sbBatches s \<rparr>)"
| begin_ack: "sbDrainer s = Idle \<Longrightarrow> sbBatches s = bs @ b # cs \<Longrightarrow>
    drain_step s (s\<lparr> sbDrainer := Acking (dbClaimed b), sbBatches := bs @ cs \<rparr>)"
| ack_slot: "sbDrainer s = Acking (k # ks) \<Longrightarrow> e = sbSlots s ! k \<Longrightarrow>
    drain_step s (release (seStart e) (seLen e) (sePad e) (mark k 3 (s\<lparr> sbDrainer := Acking ks \<rparr>)))"
| end_ack: "sbDrainer s = Acking [] \<Longrightarrow> drain_step s (s\<lparr> sbDrainer := Idle \<rparr>)"
| Commit: "sbDrainer s = Idle \<Longrightarrow> drain_step s (s\<lparr> sbCommitted := sbCommitted s \<union> set ids \<rparr>)"
| MarkFailed: "sbDrainer s = Idle \<Longrightarrow> drain_step s (s\<lparr> sbFailed := sbFailed s \<union> set ids \<rparr>)"

inductive_cases add_stepE: "add_step run i s s'"
inductive_cases drain_stepE: "drain_step s s'"

definition stage_step :: "stagingRun \<Rightarrow> stagingState \<Rightarrow> stagingState \<Rightarrow> bool" where
  "stage_step run s s' \<longleftrightarrow> (\<exists>i < length (rnAdds run). add_step run i s s') \<or> drain_step s s'"

definition Len :: "stagingState \<Rightarrow> nat" where
  "Len s = length (filter (\<lambda>v. v \<noteq> 3) (take (sbCount s) (sbState s)))"

definition ArenaUsed :: "stagingState \<Rightarrow> nat" where
  "ArenaUsed s = sbHead s - sbTail s"

section \<open>The ring\<close>

fun holds :: "nat \<Rightarrow> producer \<Rightarrow> (nat \<times> nat) option" where
  "holds n (Reserved start pad) = Some (start - pad, start + n)"
| "holds n (Copied start len pad) = (if len > 0 then Some (start - pad, start + len) else None)"
| "holds n (HasCount k start len pad) = (if len > 0 then Some (start - pad, start + len) else None)"
| "holds n (Claimed k start len pad) = (if len > 0 then Some (start - pad, start + len) else None)"
| "holds n _ = None"

definition slotSpan :: "stagedEntry \<Rightarrow> nat \<Rightarrow> (nat \<times> nat) option" where
  "slotSpan e v = (if v \<noteq> 3 \<and> seLen e > 0 then Some (seStart e - sePad e, seStart e + seLen e) else None)"

text \<open>Who holds which span: a call of \<open>Add\<close> until its slot is written, then the slot until it is acknowledged.\<close>

definition live :: "stagingRun \<Rightarrow> stagingState \<Rightarrow> nat + nat \<Rightarrow> (nat \<times> nat) option" where
  "live run s x =
     (case x of
        Inl i \<Rightarrow> if i < length (sbProducers s) then holds (length (transcriptOf run i)) (sbProducers s ! i) else None
      | Inr k \<Rightarrow> if k < length (sbSlots s) then slotSpan (sbSlots s ! k) (sbState s ! k) else None)"

lemma live_at: "i < length (sbProducers s) \<Longrightarrow> live run (at i pc s) = (live run s)(Inl i := holds (length (transcriptOf run i)) pc)"
  by (rule ext) (auto simp: live_def nth_list_update split: sum.splits)

lemma live_slot: "k < length (sbSlots s) \<Longrightarrow> live run (s\<lparr> sbSlots := (sbSlots s)[k := e] \<rparr>) = (live run s)(Inr k := slotSpan e (sbState s ! k))"
  by (rule ext) (auto simp: live_def nth_list_update split: sum.splits)

lemma live_mark: "k < length (sbSlots s) \<Longrightarrow> length (sbState s) = length (sbSlots s) \<Longrightarrow> live run (mark k v s) = (live run s)(Inr k := slotSpan (sbSlots s ! k) v)"
  by (rule ext) (auto simp: live_def nth_list_update split: sum.splits)

lemma live_frame [simp]:
  "live run (s\<lparr> sbHead := h \<rparr>) = live run s" "live run (s\<lparr> sbTail := t \<rparr>) = live run s" "live run (s\<lparr> sbReleased := rel \<rparr>) = live run s"
  "live run (s\<lparr> sbArena := a \<rparr>) = live run s" "live run (s\<lparr> sbCount := c \<rparr>) = live run s" "live run (s\<lparr> sbDrainer := d \<rparr>) = live run s"
  "live run (s\<lparr> sbBatches := bs \<rparr>) = live run s" "live run (s\<lparr> sbCommitted := x \<rparr>) = live run s" "live run (s\<lparr> sbFailed := x \<rparr>) = live run s"
  by (auto simp: live_def fun_eq_iff split: sum.split)

fun loads_ok :: "nat \<Rightarrow> nat \<Rightarrow> producer \<Rightarrow> bool" where
  "loads_ok tail head (HasTail t) \<longleftrightarrow> t \<le> tail"
| "loads_ok tail head (HasHead t h) \<longleftrightarrow> t \<le> tail \<and> t \<le> h \<and> h \<le> head"
| "loads_ok tail head (Reserved start pad) \<longleftrightarrow> pad \<le> start"
| "loads_ok tail head _ \<longleftrightarrow> True"

lemma loads_ok_mono: "loads_ok t h pc \<Longrightarrow> t \<le> t' \<Longrightarrow> h \<le> h' \<Longrightarrow> loads_ok t' h' pc"
  by (cases pc) auto

definition ring_inv :: "stagingRun \<Rightarrow> stagingState \<Rightarrow> bool" where
  "ring_inv run s \<longleftrightarrow> ring_ok (rnArenaSize run) (sbTail s) (sbHead s) (joined (live run s) (sbReleased s)) \<and>
     map_of (sbReleased s) (sbTail s) = None \<and> (\<forall>pc \<in> set (sbProducers s). loads_ok (sbTail s) (sbHead s) pc)"

text \<open>The shape of the state: the arrays keep their lengths.\<close>

definition shape_ok :: "stagingRun \<Rightarrow> stagingState \<Rightarrow> bool" where
  "shape_ok run s \<longleftrightarrow> length (sbSlots s) = rnCapacity run \<and> length (sbState s) = rnCapacity run \<and>
     length (sbProducers s) = length (rnAdds run) \<and> length (sbArena s) = rnArenaSize run \<and> 0 < rnArenaSize run"

lemma loads_ok_at:
  assumes "\<forall>pc \<in> set (sbProducers s). loads_ok t h pc" and "loads_ok t' h' pc'" and "t \<le> t'" and "h \<le> h'"
  shows "\<forall>pc \<in> set ((sbProducers s)[i := pc']). loads_ok t' h' pc"
proof
  fix pc assume "pc \<in> set ((sbProducers s)[i := pc'])"
  then have "pc = pc' \<or> pc \<in> set (sbProducers s)" using set_update_subset_insert by fastforce
  then show "loads_ok t' h' pc" using assms loads_ok_mono by blast
qed

text \<open>A step of a call that keeps what the call holds keeps the ring.\<close>

lemma ring_inv_keep:
  assumes "ring_inv run s" and "i < length (sbProducers s)"
    and "holds (length (transcriptOf run i)) pc = holds (length (transcriptOf run i)) (sbProducers s ! i)" and "loads_ok (sbTail s) (sbHead s) pc"
  shows "ring_inv run (at i pc s)"
proof -
  have "live run (at i pc s) = live run s"
    unfolding live_at [OF assms(2)] assms(3) by (rule ext) (simp add: live_def assms(2))
  moreover have "\<forall>q \<in> set ((sbProducers s)[i := pc]). loads_ok (sbTail s) (sbHead s) q"
    by (rule loads_ok_at) (use assms(1,4) in \<open>auto simp: ring_inv_def\<close>)
  ultimately show ?thesis using assms(1) unfolding ring_inv_def by simp
qed

lemma ring_inv_release:
  assumes inv: "ring_inv run s" and x: "live run s x = (if len > 0 then Some (start - pad, start + len) else None)"
    and live: "live run s' = (live run s)(x := None)" and same: "sbTail s' = sbTail s" "sbHead s' = sbHead s" "sbReleased s' = sbReleased s"
    and pcs: "\<forall>pc \<in> set (sbProducers s'). loads_ok (sbTail s) (sbHead s) pc"
  shows "ring_inv run (release start len pad s') \<and> sbTail s \<le> sbTail (release start len pad s')"
proof (cases "len > 0")
  case True
  obtain rel' tail' where rel: "releaseArena (start - pad) (start + len) (sbReleased s) (sbTail s) = (rel', tail')" by force
  have out: "release start len pad s' = s'\<lparr> sbReleased := rel', sbTail := tail' \<rparr>" using True rel same by (simp add: release_def)
  have span: "live run s x = Some (start - pad, start + len)" using x True by simp
  have ok: "ring_ok (rnArenaSize run) (sbTail s) (sbHead s) (joined (live run s) (sbReleased s))" using inv by (simp add: ring_inv_def)
  have "ring_ok (rnArenaSize run) tail' (sbHead s) (joined ((live run s)(x := None)) rel') \<and> map_of rel' tail' = None \<and> sbTail s \<le> tail'"
    by (rule releaseArena_ok [where live = "live run s", OF ok span rel])
  moreover have "\<forall>pc \<in> set (sbProducers s'). loads_ok tail' (sbHead s) pc"
    using pcs calculation loads_ok_mono by blast
  ultimately show ?thesis unfolding out ring_inv_def using live same by simp
next
  case False
  then have "live run s' = live run s" unfolding live using x by (intro ext) simp
  then show ?thesis using inv same pcs False by (auto simp: release_def ring_inv_def)
qed

section \<open>Slots\<close>

fun indexOf :: "producer \<Rightarrow> nat option" where
  "indexOf (Claimed k start len pad) = Some k"
| "indexOf (Written k) = Some k"
| "indexOf (Added k) = Some k"
| "indexOf _ = None"

text \<open>What a call of \<open>Add\<close> relies on about the slot it has.\<close>

fun slot_ok :: "stagingState \<Rightarrow> producer \<Rightarrow> bool" where
  "slot_ok s (HasCount k start len pad) \<longleftrightarrow> k \<le> sbCount s"
| "slot_ok s (Claimed k start len pad) \<longleftrightarrow> sbState s ! k = 0 \<and> sbSlots s ! k = zeroEntry"
| "slot_ok s (Written k) \<longleftrightarrow> sbState s ! k = 0"
| "slot_ok s (Added k) \<longleftrightarrow> sbState s ! k \<in> {1, 2, 3}"
| "slot_ok s _ \<longleftrightarrow> True"

definition slot_inv :: "stagingRun \<Rightarrow> stagingState \<Rightarrow> bool" where
  "slot_inv run s \<longleftrightarrow> shape_ok run s \<and> sbCount s \<le> rnCapacity run \<and>
     (\<forall>k < rnCapacity run. sbCount s \<le> k \<longrightarrow> sbState s ! k = 0 \<and> sbSlots s ! k = zeroEntry) \<and>
     (\<forall>i < length (rnAdds run). slot_ok s (sbProducers s ! i)) \<and>
     (\<forall>i < length (rnAdds run). \<forall>k. indexOf (sbProducers s ! i) = Some k \<longrightarrow> k < sbCount s) \<and>
     (\<forall>i < length (rnAdds run). \<forall>j < length (rnAdds run). \<forall>k.
        indexOf (sbProducers s ! i) = Some k \<longrightarrow> indexOf (sbProducers s ! j) = Some k \<longrightarrow> i = j) \<and>
     (\<forall>k < sbCount s. \<exists>i < length (rnAdds run). indexOf (sbProducers s ! i) = Some k)"

lemma slot_invD:
  assumes "slot_inv run s"
  shows "shape_ok run s" and "sbCount s \<le> rnCapacity run"
    and "k < rnCapacity run \<Longrightarrow> sbCount s \<le> k \<Longrightarrow> sbState s ! k = 0 \<and> sbSlots s ! k = zeroEntry"
    and "i < length (rnAdds run) \<Longrightarrow> slot_ok s (sbProducers s ! i)"
    and "i < length (rnAdds run) \<Longrightarrow> indexOf (sbProducers s ! i) = Some k \<Longrightarrow> k < sbCount s"
    and "i < length (rnAdds run) \<Longrightarrow> j < length (rnAdds run) \<Longrightarrow> indexOf (sbProducers s ! i) = Some k \<Longrightarrow> indexOf (sbProducers s ! j) = Some k \<Longrightarrow> i = j"
    and "k < sbCount s \<Longrightarrow> \<exists>i < length (rnAdds run). indexOf (sbProducers s ! i) = Some k"
  using assms unfolding slot_inv_def by blast+

lemma slot_inv_transfer:
  assumes inv: "slot_inv run s" and idx: "\<And>j. j < length (rnAdds run) \<Longrightarrow> indexOf (sbProducers s' ! j) = indexOf (sbProducers s ! j)"
    and count: "sbCount s' = sbCount s" and shape: "shape_ok run s'"
    and fresh: "\<And>k. k < rnCapacity run \<Longrightarrow> sbCount s \<le> k \<Longrightarrow> sbState s' ! k = 0 \<and> sbSlots s' ! k = zeroEntry"
    and oks: "\<And>j. j < length (rnAdds run) \<Longrightarrow> slot_ok s' (sbProducers s' ! j)"
  shows "slot_inv run s'"
proof -
  note d = slot_invD [OF inv]
  have "\<exists>j < length (rnAdds run). indexOf (sbProducers s' ! j) = Some k" if "k < sbCount s'" for k
    using d(7) [of k] that count idx by auto
  then show ?thesis unfolding slot_inv_def count
    using shape fresh oks d(2) d(5) d(6) idx count by simp
qed

text \<open>A step of one call that keeps its index and the slots keeps the slots.\<close>

lemma slot_inv_keep:
  assumes inv: "slot_inv run s" and i: "i < length (rnAdds run)"
    and idx: "indexOf pc = indexOf (sbProducers s ! i)" and ok: "slot_ok s pc"
    and same: "sbSlots s' = sbSlots s" "sbState s' = sbState s" "sbCount s' = sbCount s" "sbProducers s' = (sbProducers s)[i := pc]" "length (sbArena s') = length (sbArena s)"
  shows "slot_inv run s'"
proof -
  note d = slot_invD [OF inv]
  have len: "length (sbProducers s) = length (rnAdds run)" using d(1) by (simp add: shape_ok_def)
  have pcs: "indexOf (sbProducers s' ! j) = indexOf (sbProducers s ! j)" if "j < length (rnAdds run)" for j
    using that idx i len same(4) by (cases "i = j") auto
  have ok_same: "slot_ok s' q = slot_ok s q" for q by (cases q) (simp_all add: same)
  have "slot_ok s' (sbProducers s' ! j)" if "j < length (rnAdds run)" for j
    using that ok d(4) [OF that] i len same(4) by (cases "i = j") (auto simp: ok_same)
  moreover have "shape_ok run s'" using d(1) by (simp add: shape_ok_def same)
  ultimately show ?thesis using slot_inv_transfer [OF inv, of s'] pcs same(1-3) d(3) by simp
qed

text \<open>Only one call has a given slot, so a change of that slot is not seen by the others.\<close>

lemma slot_ok_other:
  assumes "indexOf q \<noteq> Some k" and "\<And>j. j \<noteq> k \<Longrightarrow> sbSlots s' ! j = sbSlots s ! j \<and> sbState s' ! j = sbState s ! j" and "sbCount s \<le> sbCount s'"
    and "slot_ok s q"
  shows "slot_ok s' q"
  using assms by (cases q) auto

lemma slot_inv_own:
  assumes inv: "slot_inv run s" and i: "i < length (rnAdds run)" and idx: "indexOf pc = Some k" "indexOf (sbProducers s ! i) = Some k"
    and ok: "slot_ok s' pc" and other: "\<And>j. j \<noteq> k \<Longrightarrow> sbSlots s' ! j = sbSlots s ! j \<and> sbState s' ! j = sbState s ! j"
    and same: "sbCount s' = sbCount s" "sbProducers s' = (sbProducers s)[i := pc]" and shape: "shape_ok run s'"
  shows "slot_inv run s'"
proof -
  note d = slot_invD [OF inv]
  have len: "length (sbProducers s) = length (rnAdds run)" using d(1) by (simp add: shape_ok_def)
  have k: "k < sbCount s" using d(5) [OF i idx(2)] .
  have pcs: "indexOf (sbProducers s' ! j) = indexOf (sbProducers s ! j)" if "j < length (rnAdds run)" for j
    using that idx i len same(2) by (cases "i = j") auto
  have oks: "slot_ok s' (sbProducers s' ! j)" if j: "j < length (rnAdds run)" for j
  proof (cases "i = j")
    case True
    then show ?thesis using ok i len same(2) by simp
  next
    case False
    then have "indexOf (sbProducers s ! j) \<noteq> Some k" using d(6) [OF i j idx(2)] by blast
    then show ?thesis using slot_ok_other [of _ k s' s] other d(4) [OF j] False same by simp
  qed
  have fresh: "sbState s' ! j = 0 \<and> sbSlots s' ! j = zeroEntry" if j: "j < rnCapacity run" "sbCount s \<le> j" for j
    using d(3) [OF j] other [of j] j(2) k by simp
  show ?thesis using slot_inv_transfer [OF inv pcs same(1) shape fresh oks] .
qed

text \<open>The drainer changes the state of a published slot only.\<close>

lemma slot_inv_mark:
  assumes inv: "slot_inv run s" and v: "sbState s ! k \<in> {1, 2}" "v \<in> {2, 3}" and k: "k < rnCapacity run"
    and same: "sbSlots s' = sbSlots s" "sbState s' = (sbState s)[k := v]" "sbCount s' = sbCount s" "sbProducers s' = sbProducers s" "sbArena s' = sbArena s"
  shows "slot_inv run s'"
proof -
  note d = slot_invD [OF inv]
  have len: "length (sbState s) = rnCapacity run" using d(1) by (simp add: shape_ok_def)
  have "k < sbCount s"
  proof (rule ccontr)
    assume "\<not> k < sbCount s"
    then have "sbState s ! k = 0" using d(3) [OF k] by simp
    then show False using v by auto
  qed
  have "slot_ok s' q" if q: "slot_ok s q" "indexOf q = Some j \<Longrightarrow> j < sbCount s" for q j
    using that v k len by (cases q) (auto simp: same nth_list_update)
  then have "slot_ok s' (sbProducers s' ! i)" if "i < length (rnAdds run)" for i
    using that d(4) d(5) same(4) by metis
  moreover have "shape_ok run s'" using d(1) by (simp add: shape_ok_def same)
  moreover have "sbState s' ! j = 0 \<and> sbSlots s' ! j = zeroEntry" if "j < rnCapacity run" "sbCount s \<le> j" for j
    using d(3) [OF that] that \<open>k < sbCount s\<close> len by (auto simp: same nth_list_update)
  ultimately show ?thesis using slot_inv_transfer [OF inv, of s'] same(3,4) by simp
qed

lemma release_at: "release start len pad (at i pc s) = at i pc (release start len pad s)"
  by (simp add: release_def split: prod.split)

lemma release_frame [simp]:
  "sbSlots (release start len pad s) = sbSlots s" "sbState (release start len pad s) = sbState s" "sbCount (release start len pad s) = sbCount s"
  "sbProducers (release start len pad s) = sbProducers s" "sbArena (release start len pad s) = sbArena s" "sbHead (release start len pad s) = sbHead s"
  "sbDrainer (release start len pad s) = sbDrainer s" "sbBatches (release start len pad s) = sbBatches s"
  "sbCommitted (release start len pad s) = sbCommitted s" "sbFailed (release start len pad s) = sbFailed s"
  by (simp_all add: release_def split: prod.split)

section \<open>Bytes\<close>

definition stored :: "stagingRun \<Rightarrow> stagingState \<Rightarrow> nat \<Rightarrow> byte list \<Rightarrow> bool" where
  "stored run s start bs \<longleftrightarrow> start mod rnArenaSize run + length bs \<le> rnArenaSize run \<and>
     (\<forall>k < length bs. sbArena s ! (start mod rnArenaSize run + k) = bs ! k)"

lemma length_writeBytes: "phys + length bs \<le> length slab \<Longrightarrow> length (writeBytes phys bs slab) = length slab"
  by (simp add: writeBytes_def)

lemma nth_writeBytes:
  "phys + length bs \<le> length slab \<Longrightarrow> j < length slab \<Longrightarrow>
   writeBytes phys bs slab ! j = (if phys \<le> j \<and> j < phys + length bs then bs ! (j - phys) else slab ! j)"
  by (auto simp: writeBytes_def nth_append)

lemma stored_own:
  assumes "shape_ok run s" and "start mod rnArenaSize run + length bs \<le> rnArenaSize run"
  shows "stored run (s\<lparr> sbArena := writeBytes (start mod rnArenaSize run) bs (sbArena s) \<rparr>) start bs"
  using assms by (auto simp: stored_def shape_ok_def nth_writeBytes)

lemma physical: "start mod n + k < n \<Longrightarrow> (start + k) mod n = start mod n + (k :: nat)"
  by (metis mod_add_left_eq mod_less)

lemma stored_other:
  assumes "ring_inv run s" and shape: "shape_ok run s" and ne: "x \<noteq> y"
    and x: "live run s x = Some (a, b)" "a \<le> start" "start + length bs \<le> b" "start mod rnArenaSize run + length bs \<le> rnArenaSize run"
    and y: "live run s y = Some (c, d)" "c \<le> start'" "start' + length bs' \<le> d" and st: "stored run s start' bs'"
  shows "stored run (s\<lparr> sbArena := writeBytes (start mod rnArenaSize run) bs (sbArena s) \<rparr>) start' bs'"
proof -
  let ?n = "rnArenaSize run"
  have ok: "ring_ok ?n (sbTail s) (sbHead s) (joined (live run s) (sbReleased s))" using assms(1) by (simp add: ring_inv_def)
  have n: "0 < ?n" "length (sbArena s) = ?n" using shape by (simp_all add: shape_ok_def)
  have "writeBytes (start mod ?n) bs (sbArena s) ! (start' mod ?n + k) = bs' ! k" if k: "k < length bs'" for k
  proof -
    let ?j = "start' mod ?n + k"
    have j: "?j < ?n" using st k by (simp add: stored_def)
    have "\<not> (start mod ?n \<le> ?j \<and> ?j < start mod ?n + length bs)"
    proof
      assume in_copy: "start mod ?n \<le> ?j \<and> ?j < start mod ?n + length bs"
      define m where "m = ?j - start mod ?n"
      have m: "m < length bs" "start mod ?n + m = ?j" using in_copy by (auto simp: m_def)
      have "(start + m) mod ?n = (start' + k) mod ?n" using m j by (simp add: physical)
      moreover have "(start + m) mod ?n \<noteq> (start' + k) mod ?n"
        using ring_physical [OF ok n(1), of "Inl x" "Inl y" a b c d "start + m" "start' + k"] ne x(1-3) y(1-3) m(1) k by simp
      ultimately show False by simp
    qed
    then show ?thesis using st k j n(2) x(4) by (auto simp: nth_writeBytes stored_def)
  qed
  then show ?thesis using st by (simp add: stored_def)
qed

definition copied :: "stagingRun \<Rightarrow> stagingState \<Rightarrow> nat \<Rightarrow> nat \<Rightarrow> nat \<Rightarrow> nat \<Rightarrow> bool" where
  "copied run s i start len pad \<longleftrightarrow> len = 0 \<or> len = length (transcriptOf run i) \<and> pad \<le> start \<and> stored run s start (transcriptOf run i)"

text \<open>What a slot holds for the call that wrote it; after the acknowledgement the bytes are not its own any more.\<close>

definition entry_ok :: "stagingRun \<Rightarrow> stagingState \<Rightarrow> nat \<Rightarrow> nat \<Rightarrow> bool" where
  "entry_ok run s i k \<longleftrightarrow> seResult (sbSlots s ! k) = placed (rnArenaSize run) (rnAdds run ! i) (seStart (sbSlots s ! k)) (seLen (sbSlots s ! k)) \<and>
     (sbState s ! k \<noteq> 3 \<longrightarrow> copied run s i (seStart (sbSlots s ! k)) (seLen (sbSlots s ! k)) (sePad (sbSlots s ! k)))"

fun data_ok :: "stagingRun \<Rightarrow> stagingState \<Rightarrow> nat \<Rightarrow> producer \<Rightarrow> bool" where
  "data_ok run s i Waiting \<longleftrightarrow> transcriptOf run i \<noteq> [] \<and> length (transcriptOf run i) \<le> rnArenaSize run"
| "data_ok run s i (HasTail t) \<longleftrightarrow> transcriptOf run i \<noteq> [] \<and> length (transcriptOf run i) \<le> rnArenaSize run"
| "data_ok run s i (HasHead t h) \<longleftrightarrow> transcriptOf run i \<noteq> [] \<and> length (transcriptOf run i) \<le> rnArenaSize run"
| "data_ok run s i (Reserved start pad) \<longleftrightarrow> transcriptOf run i \<noteq> [] \<and> pad \<le> start \<and> start mod rnArenaSize run + length (transcriptOf run i) \<le> rnArenaSize run"
| "data_ok run s i (Copied start len pad) \<longleftrightarrow> copied run s i start len pad"
| "data_ok run s i (HasCount k start len pad) \<longleftrightarrow> copied run s i start len pad"
| "data_ok run s i (Claimed k start len pad) \<longleftrightarrow> copied run s i start len pad"
| "data_ok run s i (Written k) \<longleftrightarrow> entry_ok run s i k"
| "data_ok run s i (Added k) \<longleftrightarrow> entry_ok run s i k"
| "data_ok run s i _ \<longleftrightarrow> True"

definition data_inv :: "stagingRun \<Rightarrow> stagingState \<Rightarrow> bool" where
  "data_inv run s \<longleftrightarrow> (\<forall>i < length (rnAdds run). data_ok run s i (sbProducers s ! i))"

text \<open>What the others rely on survives any step that keeps the slab, the slots and their states.\<close>

lemma data_ok_frame:
  assumes "data_ok run s i pc" and "sbArena s' = sbArena s"
    and "\<And>k. indexOf pc = Some k \<Longrightarrow> sbSlots s' ! k = sbSlots s ! k \<and> (sbState s' ! k = sbState s ! k \<or> sbState s ! k \<noteq> 3 \<or> sbState s' ! k = 3)"
  shows "data_ok run s' i pc"
  using assms by (cases pc) (auto simp: copied_def stored_def entry_ok_def)

section \<open>Batches\<close>

fun current :: "drainer \<Rightarrow> nat list" where
  "current Idle = []"
| "current (Scanning n k results claimed) = claimed"
| "current (Acking ks) = ks"

definition inFlight :: "stagingState \<Rightarrow> nat list" where
  "inFlight s = concat (map dbClaimed (sbBatches s)) @ current (sbDrainer s)"

definition resultsOf :: "stagingState \<Rightarrow> nat list \<Rightarrow> workerResult list" where
  "resultsOf s ks = map (\<lambda>k. seResult (sbSlots s ! k)) ks"

fun scan_ok :: "stagingState \<Rightarrow> drainer \<Rightarrow> bool" where
  "scan_ok s (Scanning n k results claimed) \<longleftrightarrow> n \<le> sbCount s \<and> results = resultsOf s claimed"
| "scan_ok s _ \<longleftrightarrow> True"

text \<open>
  The slots that were taken and not acknowledged yet are in one batch each, a batch carries the
  results of its slots, and a slot was taken only after the parent of its session was settled.
\<close>

definition drain_inv :: "stagingState \<Rightarrow> bool" where
  "drain_inv s \<longleftrightarrow> distinct (inFlight s) \<and> (\<forall>k. k \<in> set (inFlight s) \<longleftrightarrow> k < length (sbState s) \<and> sbState s ! k = 2) \<and>
     scan_ok s (sbDrainer s) \<and> (\<forall>b \<in> set (sbBatches s). dbResults b = resultsOf s (dbClaimed b)) \<and>
     (\<forall>k < length (sbState s). sbState s ! k \<in> {2, 3} \<longrightarrow> isEligible s (seResult (sbSlots s ! k)))"

section \<open>Steps of the workers\<close>

definition stage_inv :: "stagingRun \<Rightarrow> stagingState \<Rightarrow> bool" where
  "stage_inv run s \<longleftrightarrow> slot_inv run s \<and> ring_inv run s \<and> data_inv run s \<and> drain_inv s"

lemma add_slot:
  assumes inv: "slot_inv run s" "data_inv run s" and i: "i < length (rnAdds run)" and "add_step run i s s'"
  shows "slot_inv run s'"
proof -
  note d = slot_invD [OF inv(1)]
  note keep = slot_inv_keep [OF inv(1) i] and ok = d(4) [OF i]
  have len: "length (sbProducers s) = length (rnAdds run)" "length (sbSlots s) = rnCapacity run" "length (sbState s) = rnCapacity run"
    "length (sbArena s) = rnArenaSize run" using d(1) by (simp_all add: shape_ok_def)
  from assms(4) show ?thesis
  proof cases
    case no_copy
    then show ?thesis by (intro keep [of "Copied 0 0 0"]) auto
  next
    case too_large
    then show ?thesis by (intro keep [of Panicked]) auto
  next
    case begin_wait
    then show ?thesis by (intro keep [of Waiting]) auto
  next
    case load_tail
    then show ?thesis by (intro keep [of "HasTail (sbTail s)"]) auto
  next
    case (load_head t)
    then show ?thesis by (intro keep [of "HasHead t (sbHead s)"]) auto
  next
    case (reserve t h gap)
    then show ?thesis by (intro keep [of "Reserved (h + gap) gap"]) auto
  next
    case (reserve_lost t h)
    then show ?thesis by (intro keep [of Waiting]) auto
  next
    case (arena_full t h)
    then show ?thesis by (intro keep [of Waiting]) auto
  next
    case (cancelled t h)
    then show ?thesis by (intro keep [of "Copied 0 0 0"]) auto
  next
    case (copy start pad)
    then have "data_ok run s i (Reserved start pad)" using inv(2) i by (metis data_inv_def)
    with copy show ?thesis by (intro keep [of "Copied start (length (transcriptOf run i)) pad"]) (auto simp: length_writeBytes len)
  next
    case (load_count start l pad)
    then show ?thesis by (intro keep [of "HasCount (sbCount s) start l pad"]) auto
  next
    case (exhausted k start l pad)
    then show ?thesis by (intro keep [of Rejected]) auto
  next
    case (claim_slot k start l pad)
    let ?s' = "at i (Claimed k start l pad) (s\<lparr> sbCount := k + 1 \<rparr>)"
    have fresh: "sbState s ! k = 0 \<and> sbSlots s ! k = zeroEntry" using d(3) claim_slot by simp
    have none: "indexOf (sbProducers s ! i) = None" using claim_slot by simp
    have idx: "indexOf (sbProducers ?s' ! j) = (if j = i then Some k else indexOf (sbProducers s ! j))" if "j < length (rnAdds run)" for j
      using that i len by auto
    have free: "indexOf (sbProducers s ! j) \<noteq> Some k" if "j < length (rnAdds run)" for j
      using d(5) [OF that, of k] claim_slot by auto
    have "slot_ok ?s' (sbProducers ?s' ! j)" if j: "j < length (rnAdds run)" for j
    proof (cases "j = i")
      case True
      then show ?thesis using fresh i len by simp
    next
      case False
      then show ?thesis using slot_ok_other [of "sbProducers s ! j" k ?s' s] free [OF j] d(4) [OF j] claim_slot by simp
    qed
    moreover have "\<exists>j < length (rnAdds run). indexOf (sbProducers ?s' ! j) = Some m" if m: "m < sbCount ?s'" for m
    proof (cases "m = k")
      case True
      then show ?thesis using idx [OF i] i by (intro exI [of _ i]) simp
    next
      case False
      then obtain j where "j < length (rnAdds run)" "indexOf (sbProducers s ! j) = Some m" using d(7) [of m] m claim_slot by auto
      then show ?thesis using idx none by (intro exI [of _ j]) auto
    qed
    moreover have "m < sbCount ?s'" if "j < length (rnAdds run)" "indexOf (sbProducers ?s' ! j) = Some m" for j m
      using that idx [OF that(1)] d(5) [OF that(1), of m] claim_slot by (auto split: if_splits)
    moreover have "j = l" if "j < length (rnAdds run)" "l < length (rnAdds run)" "indexOf (sbProducers ?s' ! j) = Some m" "indexOf (sbProducers ?s' ! l) = Some m" for j l m
      using that idx [OF that(1)] idx [OF that(2)] d(6) [OF that(1,2), of m] free [OF that(1)] free [OF that(2)] by (auto split: if_splits)
    moreover have "shape_ok run ?s'" using d(1) by (simp add: shape_ok_def)
    ultimately show ?thesis unfolding slot_inv_def claim_slot(1) using d(2,3) claim_slot by auto
  next
    case (claim_lost k start l pad)
    then show ?thesis by (intro keep [of "Copied start l pad"]) auto
  next
    case (write_slot k start l pad e)
    then have k: "indexOf (sbProducers s ! i) = Some k" and st: "sbState s ! k = 0" using ok by auto
    have "k < rnCapacity run" using d(2) d(5) [OF i k] by simp
    with write_slot k st d(1) show ?thesis
      by (intro slot_inv_own [OF inv(1) i, of "Written k" k]) (auto simp: nth_list_update shape_ok_def)
  next
    case (publish k)
    then have k: "indexOf (sbProducers s ! i) = Some k" by simp
    have "k < rnCapacity run" using d(2) d(5) [OF i k] by simp
    with publish k d(1) len show ?thesis
      by (intro slot_inv_own [OF inv(1) i, of "Added k" k]) (auto simp: nth_list_update shape_ok_def)
  qed
qed

lemma add_ring:
  assumes inv: "slot_inv run s" "ring_inv run s" "data_inv run s" and i: "i < length (rnAdds run)" and "add_step run i s s'"
  shows "ring_inv run s'"
proof -
  note d = slot_invD [OF inv(1)]
  have len: "length (sbProducers s) = length (rnAdds run)" "length (sbSlots s) = rnCapacity run" "length (sbState s) = rnCapacity run"
    using d(1) by (simp_all add: shape_ok_def)
  have il: "i < length (sbProducers s)" using i len by simp
  note keep = ring_inv_keep [OF inv(2) il]
  have loads: "loads_ok (sbTail s) (sbHead s) (sbProducers s ! i)" using inv(2) il nth_mem unfolding ring_inv_def by blast
  have ring: "ring_ok (rnArenaSize run) (sbTail s) (sbHead s) (joined (live run s) (sbReleased s))" using inv(2) by (simp add: ring_inv_def)
  have data: "data_ok run s i (sbProducers s ! i)" using inv(3) i by (simp add: data_inv_def)
  have mine: "live run s (Inl i) = holds (length (transcriptOf run i)) (sbProducers s ! i)" using il by (simp add: live_def)
  from assms(5) show ?thesis
  proof cases
    case no_copy
    then show ?thesis using keep by auto
  next
    case too_large
    then show ?thesis using keep by auto
  next
    case begin_wait
    then show ?thesis using keep by auto
  next
    case load_tail
    then show ?thesis using keep by auto
  next
    case (load_head t)
    then show ?thesis using keep loads ring_okD(1) [OF ring] by auto
  next
    case (reserve t h gap)
    let ?n = "length (transcriptOf run i)"
    have n: "0 < ?n" "?n \<le> rnArenaSize run" using data reserve by auto
    have fits: "h + (gap + ?n) \<le> sbTail s + rnArenaSize run" using loads reserve by (auto simp: claimFits_def)
    have "live run s (Inl i) = None" using mine reserve by simp
    from ring_claim [OF ring, of "Inl (Inl i)" "gap + ?n"] this n fits reserve(4)
    have "ring_ok (rnArenaSize run) (sbTail s) (h + (gap + ?n)) (joined ((live run s)(Inl i := Some (h, h + (gap + ?n)))) (sbReleased s))"
      by (simp add: joined_Inl_upd)
    moreover have "\<forall>pc \<in> set ((sbProducers s)[i := Reserved (h + gap) gap]). loads_ok (sbTail s) (h + (gap + ?n)) pc"
      by (rule loads_ok_at [where t = "sbTail s" and h = h]) (use inv(2) reserve in \<open>auto simp: ring_inv_def\<close>)
    moreover have "live run s' = (live run s)(Inl i := Some (h, h + (gap + ?n)))"
      unfolding reserve(1) using live_at [of i "s\<lparr> sbHead := h + gap + ?n \<rparr>" run] il by (simp add: add.assoc)
    ultimately show ?thesis using inv(2) unfolding ring_inv_def reserve(1) by (simp add: add.assoc)
  next
    case (reserve_lost t h)
    then show ?thesis using keep by auto
  next
    case (arena_full t h)
    then show ?thesis using keep by auto
  next
    case (cancelled t h)
    then show ?thesis using keep by auto
  next
    case (copy start pad)
    have "ring_inv run (at i (Copied start (length (transcriptOf run i)) pad) s)" using keep copy data by auto
    moreover have "live run s' = live run (at i (Copied start (length (transcriptOf run i)) pad) s)"
      unfolding copy(1) using live_at [of i "s\<lparr> sbArena := writeBytes (start mod rnArenaSize run) (transcriptOf run i) (sbArena s) \<rparr>" run] live_at [of i s run] il by simp
    ultimately show ?thesis unfolding ring_inv_def copy(1) by simp
  next
    case (load_count start l pad)
    then show ?thesis using keep by auto
  next
    case (exhausted k start l pad)
    have "live run (at i Rejected s) = (live run s)(Inl i := None)" using live_at [OF il] by simp
    moreover have "\<forall>pc \<in> set (sbProducers (at i Rejected s)). loads_ok (sbTail s) (sbHead s) pc"
      using loads_ok_at [of s "sbTail s" "sbHead s" "sbTail s" "sbHead s" Rejected i] inv(2) by (simp add: ring_inv_def)
    ultimately have "ring_inv run (release start l pad (at i Rejected s))"
      using ring_inv_release [OF inv(2), of "Inl i" l start pad "at i Rejected s"] mine exhausted by simp
    then show ?thesis unfolding exhausted(1) by (simp add: release_at)
  next
    case (claim_slot k start l pad)
    have "ring_inv run (at i (Claimed k start l pad) s)" using keep claim_slot by auto
    moreover have "live run s' = live run (at i (Claimed k start l pad) s)"
      unfolding claim_slot(1) using live_at [of i "s\<lparr> sbCount := k + 1 \<rparr>" run] live_at [of i s run] il by simp
    ultimately show ?thesis unfolding ring_inv_def claim_slot(1) by simp
  next
    case (claim_lost k start l pad)
    then show ?thesis using keep by auto
  next
    case (write_slot k start l pad e)
    have idx: "indexOf (sbProducers s ! i) = Some k" and free: "sbState s ! k = 0" "sbSlots s ! k = zeroEntry" using write_slot d(4) [OF i] by auto
    have k: "k < length (sbSlots s)" using d(2) d(5) [OF i idx] len by simp
    let ?span = "if l > 0 then Some (start - pad, start + l) else None"
    have spans: "live run s (Inl i) = ?span" "live run s (Inr k) = None" "slotSpan e (sbState s ! k) = ?span"
      using mine write_slot k free by (auto simp: live_def slotSpan_def zeroEntry_def)
    have new: "live run s' = (live run s)(Inl i := None, Inr k := ?span)"
      unfolding write_slot(1) using live_at [of i "s\<lparr> sbSlots := (sbSlots s)[k := e] \<rparr>" run "Written k"] live_slot [OF k, of run e] il spans(3)
      by (simp add: fun_upd_twist)
    have "ring_ok (rnArenaSize run) (sbTail s) (sbHead s) (joined (live run s') (sbReleased s))"
    proof (cases "l > 0")
      case True
      then show ?thesis using ring_move [OF ring, of "Inl (Inl i)" "(start - pad, start + l)" "Inl (Inr k)"] spans unfolding new
        by (simp add: joined_Inl_upd)
    next
      case False
      then have "live run s' = live run s" unfolding new using spans by (intro ext) auto
      then show ?thesis using ring by simp
    qed
    moreover have "\<forall>pc \<in> set ((sbProducers s)[i := Written k]). loads_ok (sbTail s) (sbHead s) pc"
      by (rule loads_ok_at) (use inv(2) in \<open>auto simp: ring_inv_def\<close>)
    ultimately show ?thesis using inv(2) unfolding ring_inv_def write_slot(1) by simp
  next
    case (publish k)
    have idx: "indexOf (sbProducers s ! i) = Some k" and st: "sbState s ! k = 0" using publish d(4) [OF i] by auto
    have k: "k < length (sbSlots s)" using d(2) d(5) [OF i idx] len by simp
    have "live run s' = live run s"
      unfolding publish(1) using live_at [of i "mark k 1 s" run "Added k"] live_mark [of k s run 1] il k len mine publish st
      by (intro ext) (auto simp: live_def slotSpan_def split: sum.splits)
    moreover have "\<forall>pc \<in> set ((sbProducers s)[i := Added k]). loads_ok (sbTail s) (sbHead s) pc"
      by (rule loads_ok_at) (use inv(2) in \<open>auto simp: ring_inv_def\<close>)
    ultimately show ?thesis using inv(2) unfolding ring_inv_def publish(1) by simp
  qed
qed

lemma data_inv_at:
  assumes "data_inv run s" and "i < length (rnAdds run)" and "length (sbProducers s) = length (rnAdds run)" and "sbProducers s' = (sbProducers s)[i := pc]"
    and "data_ok run s' i pc"
    and "\<And>j. j < length (rnAdds run) \<Longrightarrow> j \<noteq> i \<Longrightarrow> data_ok run s j (sbProducers s ! j) \<Longrightarrow> data_ok run s' j (sbProducers s ! j)"
  shows "data_inv run s'"
  unfolding data_inv_def
proof (intro allI impI)
  fix j assume "j < length (rnAdds run)"
  then show "data_ok run s' j (sbProducers s' ! j)" using assms by (cases "j = i") (auto simp: data_inv_def)
qed

text \<open>The copy of one call leaves the bytes of the others alone.\<close>

lemma copy_other:
  assumes inv: "slot_inv run s" "ring_inv run s" and i: "i < length (rnAdds run)" and j: "j < length (rnAdds run)" "j \<noteq> i"
    and mine: "sbProducers s ! i = Reserved start pad" "data_ok run s i (Reserved start pad)"
    and ok: "data_ok run s j (sbProducers s ! j)" and arena: "sbArena s' = writeBytes (start mod rnArenaSize run) (transcriptOf run i) (sbArena s)"
    and same: "sbSlots s' = sbSlots s" "sbState s' = sbState s"
  shows "data_ok run s' j (sbProducers s ! j)"
proof -
  note d = slot_invD [OF inv(1)]
  have len: "length (sbProducers s) = length (rnAdds run)" "length (sbSlots s) = rnCapacity run" using d(1) by (simp_all add: shape_ok_def)
  let ?w = "s\<lparr> sbArena := writeBytes (start mod rnArenaSize run) (transcriptOf run i) (sbArena s) \<rparr>"
  have st_eq: "stored run s' a bs = stored run ?w a bs" for a bs by (simp add: stored_def arena)
  have x: "live run s (Inl i) = Some (start - pad, start + length (transcriptOf run i))" using mine i len by (simp add: live_def)
  have keep: "copied run s' j a l p" if "copied run s j a l p" "l > 0 \<Longrightarrow> live run s y = Some (a - p, a + l)" "y \<noteq> Inl i" for a l p y
  proof (cases "l = 0")
    case False
    then have "stored run ?w a (transcriptOf run j)"
      using stored_other [OF inv(2) d(1) _ x, of y start "transcriptOf run i" "a - p" "a + l" a "transcriptOf run j"] mine that by (auto simp: copied_def)
    then show ?thesis using that(1) by (auto simp: copied_def st_eq)
  qed (simp add: copied_def)
  have slot: "entry_ok run s' j k" if k: "indexOf (sbProducers s ! j) = Some k" and e: "entry_ok run s j k" for k
  proof -
    have "k < length (sbSlots s)" using d(2) d(5) [OF j(1) k] len by simp
    then have "sbState s ! k \<noteq> 3 \<Longrightarrow> seLen (sbSlots s ! k) > 0 \<Longrightarrow>
        live run s (Inr k) = Some (seStart (sbSlots s ! k) - sePad (sbSlots s ! k), seStart (sbSlots s ! k) + seLen (sbSlots s ! k))"
      by (simp add: live_def slotSpan_def)
    then show ?thesis using e keep [of "seStart (sbSlots s ! k)" "seLen (sbSlots s ! k)" "sePad (sbSlots s ! k)" "Inr k"]
      by (auto simp: entry_ok_def same)
  qed
  have own: "live run s (Inl j) = holds (length (transcriptOf run j)) (sbProducers s ! j)" using j len by (simp add: live_def)
  show ?thesis
  proof (cases "sbProducers s ! j")
    case (Copied a l p)
    then show ?thesis using ok own keep [of a l p "Inl j"] j(2) by simp
  next
    case (HasCount k a l p)
    then show ?thesis using ok own keep [of a l p "Inl j"] j(2) by simp
  next
    case (Claimed k a l p)
    then show ?thesis using ok own keep [of a l p "Inl j"] j(2) by simp
  next
    case (Written k)
    then show ?thesis using ok slot [of k] by simp
  next
    case (Added k)
    then show ?thesis using ok slot [of k] by simp
  qed (use ok in auto)
qed

lemma add_data:
  assumes inv: "slot_inv run s" "ring_inv run s" "data_inv run s" and i: "i < length (rnAdds run)" and "add_step run i s s'"
  shows "data_inv run s'"
proof -
  note d = slot_invD [OF inv(1)]
  have len: "length (sbProducers s) = length (rnAdds run)" "length (sbSlots s) = rnCapacity run" "length (sbState s) = rnCapacity run"
    using d(1) by (simp_all add: shape_ok_def)
  have data: "data_ok run s i (sbProducers s ! i)" using inv(3) i by (simp add: data_inv_def)
  have pos: "0 < rnArenaSize run" using d(1) by (simp add: shape_ok_def)
  have plain: "data_inv run s'" if "sbProducers s' = (sbProducers s)[i := pc]" "data_ok run s i pc" "indexOf pc = None"
      "sbArena s' = sbArena s" "sbSlots s' = sbSlots s" "sbState s' = sbState s" for pc
    using that by (intro data_inv_at [OF inv(3) i len(1) that(1)]) (auto intro: data_ok_frame)
  have owned: "data_inv run s'" if idx: "indexOf (sbProducers s ! i) = Some k" and pc: "sbProducers s' = (sbProducers s)[i := pc]" "data_ok run s' i pc"
      and same: "sbArena s' = sbArena s" "\<And>m. m \<noteq> k \<Longrightarrow> sbSlots s' ! m = sbSlots s ! m \<and> sbState s' ! m = sbState s ! m" for k pc
  proof (rule data_inv_at [OF inv(3) i len(1) pc])
    fix j assume j: "j < length (rnAdds run)" "j \<noteq> i" "data_ok run s j (sbProducers s ! j)"
    then have "indexOf (sbProducers s ! j) \<noteq> Some k" using d(6) [OF i j(1) idx] by blast
    then show "data_ok run s' j (sbProducers s ! j)" using same by (intro data_ok_frame [OF j(3)]) auto
  qed
  from assms(5) show ?thesis
  proof cases
    case no_copy
    then show ?thesis by (intro plain [of "Copied 0 0 0"]) (auto simp: copied_def)
  next
    case too_large
    then show ?thesis by (intro plain [of Panicked]) auto
  next
    case begin_wait
    then show ?thesis by (intro plain [of Waiting]) auto
  next
    case load_tail
    then show ?thesis using data by (intro plain [of "HasTail (sbTail s)"]) auto
  next
    case (load_head t)
    then show ?thesis using data by (intro plain [of "HasHead t (sbHead s)"]) auto
  next
    case (reserve t h gap)
    then show ?thesis using data wrapGap_contiguous [of "length (transcriptOf run i)" "rnArenaSize run" h] pos
      by (intro plain [of "Reserved (h + gap) gap"]) auto
  next
    case (reserve_lost t h)
    then show ?thesis using data by (intro plain [of Waiting]) auto
  next
    case (arena_full t h)
    then show ?thesis using data by (intro plain [of Waiting]) auto
  next
    case (cancelled t h)
    then show ?thesis by (intro plain [of "Copied 0 0 0"]) (auto simp: copied_def)
  next
    case (copy start pad)
    have r: "data_ok run s i (Reserved start pad)" using data copy by simp
    have "stored run s' start (transcriptOf run i)" unfolding copy(1) using stored_own [OF d(1), of start "transcriptOf run i"] r by (simp add: stored_def)
    then have "data_ok run s' i (Copied start (length (transcriptOf run i)) pad)" using r by (simp add: copied_def)
    then show ?thesis using copy_other [OF inv(1,2) i _ _ copy(2) r] copy(1)
      by (intro data_inv_at [OF inv(3) i len(1), of s' "Copied start (length (transcriptOf run i)) pad"]) auto
  next
    case (load_count start l pad)
    then show ?thesis using data by (intro plain [of "HasCount (sbCount s) start l pad"]) auto
  next
    case (exhausted k start l pad)
    then show ?thesis by (intro plain [of Rejected]) auto
  next
    case (claim_slot k start l pad)
    then have "data_ok run s' i (Claimed k start l pad)" using data by (auto simp: copied_def stored_def)
    then show ?thesis using claim_slot by (intro data_inv_at [OF inv(3) i len(1), of s' "Claimed k start l pad"]) (auto intro: data_ok_frame)
  next
    case (claim_lost k start l pad)
    then show ?thesis using data by (intro plain [of "Copied start l pad"]) auto
  next
    case (write_slot k start l pad e)
    have idx: "indexOf (sbProducers s ! i) = Some k" using write_slot by simp
    have k: "k < rnCapacity run" using d(2) d(5) [OF i idx] by simp
    have "data_ok run s' i (Written k)" using data write_slot k len by (auto simp: entry_ok_def copied_def stored_def)
    then show ?thesis using write_slot(1) by (intro owned [OF idx, of "Written k"]) auto
  next
    case (publish k)
    have idx: "indexOf (sbProducers s ! i) = Some k" "sbState s ! k = 0" using publish d(4) [OF i] by auto
    have k: "k < rnCapacity run" using d(2) d(5) [OF i idx(1)] by simp
    have "data_ok run s' i (Added k)" using data publish k len idx(2) by (auto simp: entry_ok_def copied_def stored_def)
    then show ?thesis using publish(1) by (intro owned [OF idx(1), of "Added k"]) auto
  qed
qed

lemma drain_inv_frame:
  assumes inv: "drain_inv s" and same: "sbDrainer s' = sbDrainer s" "sbBatches s' = sbBatches s" "sbCommitted s' = sbCommitted s" "sbFailed s' = sbFailed s"
      "length (sbState s') = length (sbState s)" and count: "sbCount s \<le> sbCount s'"
    and slots: "\<And>k. k < length (sbState s) \<Longrightarrow> sbState s ! k \<in> {2, 3} \<or> sbState s' ! k \<in> {2, 3} \<Longrightarrow> sbState s' ! k = sbState s ! k \<and> sbSlots s' ! k = sbSlots s ! k"
  shows "drain_inv s'"
proof -
  have fl: "inFlight s' = inFlight s" by (simp add: inFlight_def same)
  have two: "k < length (sbState s) \<and> sbState s' ! k = 2 \<longleftrightarrow> k < length (sbState s) \<and> sbState s ! k = 2" for k using slots [of k] by auto
  have mem: "k \<in> set (inFlight s) \<longleftrightarrow> k < length (sbState s) \<and> sbState s ! k = 2" for k using inv by (simp add: drain_inv_def)
  have res: "resultsOf s' ks = resultsOf s ks" if "set ks \<subseteq> set (inFlight s)" for ks
    using that mem slots by (auto simp: resultsOf_def)
  have batch: "set (dbClaimed b) \<subseteq> set (inFlight s)" if "b \<in> set (sbBatches s)" for b using that by (auto simp: inFlight_def)
  have cur: "set (current (sbDrainer s)) \<subseteq> set (inFlight s)" by (auto simp: inFlight_def)
  have "scan_ok s' (sbDrainer s')" using inv count res cur by (cases "sbDrainer s") (auto simp: drain_inv_def same)
  moreover have "dbResults b = resultsOf s' (dbClaimed b)" if "b \<in> set (sbBatches s')" for b
    using that inv res [OF batch] by (simp add: drain_inv_def same)
  moreover have "isEligible s' r = isEligible s r" for r by (simp add: isEligible_def parentSettled_def same split: option.split)
  then have "isEligible s' (seResult (sbSlots s' ! k))" if "k < length (sbState s')" "sbState s' ! k \<in> {2, 3}" for k
    using that inv slots [of k] by (auto simp: drain_inv_def same)
  ultimately show ?thesis unfolding drain_inv_def using inv by (simp add: fl mem two same drain_inv_def)
qed

lemma add_drain:
  assumes inv: "slot_inv run s" "drain_inv s" and i: "i < length (rnAdds run)" and "add_step run i s s'"
  shows "drain_inv s'"
proof -
  note d = slot_invD [OF inv(1)]
  have len: "length (sbState s) = rnCapacity run" "length (sbSlots s) = rnCapacity run" using d(1) by (simp_all add: shape_ok_def)
  have mine: "sbState s ! k = 0" "k < rnCapacity run" if "sbProducers s ! i = Claimed k a l p \<or> sbProducers s ! i = Written k" for k a l p
    using that d(2) d(4) [OF i] d(5) [OF i, of k] by auto
  from assms(4) show ?thesis
  proof cases
    case (write_slot k start l pad e)
    then show ?thesis using mine [of k start l pad] len by (intro drain_inv_frame [OF inv(2)]) (auto simp: nth_list_update)
  next
    case (publish k)
    then show ?thesis using mine [of k] len by (intro drain_inv_frame [OF inv(2)]) (auto simp: nth_list_update split: if_splits)
  qed (intro drain_inv_frame [OF inv(2)]; auto)+
qed

section \<open>Steps of the drainer\<close>

lemma slot_inv_frame:
  assumes "slot_inv run s" and "sbSlots s' = sbSlots s" "sbState s' = sbState s" "sbCount s' = sbCount s" "sbProducers s' = sbProducers s" "sbArena s' = sbArena s"
  shows "slot_inv run s'"
proof -
  have "slot_ok s' q = slot_ok s q" for q by (cases q) (simp_all add: assms)
  then show ?thesis using assms unfolding slot_inv_def shape_ok_def by simp
qed

lemma ring_inv_frame:
  assumes "ring_inv run s" and "live run s' = live run s" "sbTail s' = sbTail s" "sbHead s' = sbHead s" "sbReleased s' = sbReleased s" "sbProducers s' = sbProducers s"
  shows "ring_inv run s'"
  using assms by (simp add: ring_inv_def)

lemma data_inv_frame:
  assumes "data_inv run s" and "sbArena s' = sbArena s" "sbSlots s' = sbSlots s" "sbProducers s' = sbProducers s"
    and "\<And>k. sbState s' ! k = sbState s ! k \<or> sbState s ! k \<noteq> 3"
  shows "data_inv run s'"
  unfolding data_inv_def
proof (intro allI impI)
  fix i assume i: "i < length (rnAdds run)"
  then have "data_ok run s i (sbProducers s ! i)" using assms(1) by (simp add: data_inv_def)
  then show "data_ok run s' i (sbProducers s' ! i)" unfolding assms(4)
  proof (rule data_ok_frame [OF _ assms(2)])
    show "sbSlots s' ! k = sbSlots s ! k \<and> (sbState s' ! k = sbState s ! k \<or> sbState s ! k \<noteq> 3 \<or> sbState s' ! k = 3)" for k
      using assms(3) assms(5) [of k] by auto
  qed
qed

lemma drain_invI:
  assumes "distinct (inFlight s)" and "\<And>k. k \<in> set (inFlight s) \<longleftrightarrow> k < length (sbState s) \<and> sbState s ! k = 2" and "scan_ok s (sbDrainer s)"
    and "\<And>b. b \<in> set (sbBatches s) \<Longrightarrow> dbResults b = resultsOf s (dbClaimed b)"
    and "\<And>k. k < length (sbState s) \<Longrightarrow> sbState s ! k \<in> {2, 3} \<Longrightarrow> isEligible s (seResult (sbSlots s ! k))"
  shows "drain_inv s"
  using assms unfolding drain_inv_def by blast

lemma drain_invD:
  assumes "drain_inv s"
  shows "distinct (inFlight s)" and "scan_ok s (sbDrainer s)"
    and "b \<in> set (sbBatches s) \<Longrightarrow> dbResults b = resultsOf s (dbClaimed b)"
    and "k < length (sbState s) \<Longrightarrow> sbState s ! k \<in> {2, 3} \<Longrightarrow> isEligible s (seResult (sbSlots s ! k))"
  using assms unfolding drain_inv_def by blast+

lemma resultsOf_slots: "sbSlots s' = sbSlots s \<Longrightarrow> resultsOf s' = resultsOf s"
  by (simp add: resultsOf_def fun_eq_iff)

lemma isEligible_sets: "sbCommitted s' = sbCommitted s \<Longrightarrow> sbFailed s' = sbFailed s \<Longrightarrow> isEligible s' = isEligible s"
  by (simp add: isEligible_def parentSettled_def fun_eq_iff split: option.split)

lemma drain_inv_mem: "drain_inv s \<Longrightarrow> k \<in> set (inFlight s) \<longleftrightarrow> k < length (sbState s) \<and> sbState s ! k = 2"
  by (simp add: drain_inv_def)

lemma isEligible_mono: "isEligible s r \<Longrightarrow> sbCommitted s \<subseteq> sbCommitted s' \<Longrightarrow> sbFailed s \<subseteq> sbFailed s' \<Longrightarrow> isEligible s' r"
  by (auto simp: isEligible_def parentSettled_def split: option.splits if_splits)

text \<open>What a step of the drainer keeps: everything but its own position, except for the two steps that change a slot.\<close>

lemma drain_quiet:
  assumes "stage_inv run s" and "drain_inv s'"
    and "sbSlots s' = sbSlots s" "sbState s' = sbState s" "sbCount s' = sbCount s" "sbProducers s' = sbProducers s" "sbArena s' = sbArena s"
    and "sbTail s' = sbTail s" "sbHead s' = sbHead s" "sbReleased s' = sbReleased s" and "live run s' = live run s"
  shows "stage_inv run s'"
  using assms slot_inv_frame [of run s s'] ring_inv_frame [of run s s'] data_inv_frame [of run s s'] unfolding stage_inv_def by simp

lemma drain_mark:
  assumes inv: "stage_inv run s" and k: "k < rnCapacity run" and v: "sbState s ! k \<in> {1, 2}" "v \<in> {2, 3}"
  shows "slot_inv run (mark k v (s\<lparr> sbDrainer := dr \<rparr>))" and "data_inv run (mark k v (s\<lparr> sbDrainer := dr \<rparr>))"
    and "live run (mark k v (s\<lparr> sbDrainer := dr \<rparr>)) = (live run s)(Inr k := slotSpan (sbSlots s ! k) v)"
proof -
  have sl: "slot_inv run s" and da: "data_inv run s" using inv by (simp_all add: stage_inv_def)
  have len: "length (sbSlots s) = rnCapacity run" "length (sbState s) = rnCapacity run" using slot_invD(1) [OF sl] by (simp_all add: shape_ok_def)
  show "slot_inv run (mark k v (s\<lparr> sbDrainer := dr \<rparr>))" by (rule slot_inv_mark [OF sl v k]) simp_all
  show "data_inv run (mark k v (s\<lparr> sbDrainer := dr \<rparr>))"
    by (rule data_inv_frame [OF da]) (use v len k in \<open>auto simp: nth_list_update\<close>)
  show "live run (mark k v (s\<lparr> sbDrainer := dr \<rparr>)) = (live run s)(Inr k := slotSpan (sbSlots s ! k) v)"
    using live_mark [of k "s\<lparr> sbDrainer := dr \<rparr>" run v] k len by simp
qed

lemma drain_take:
  assumes inv: "stage_inv run s" and scan: "sbDrainer s = Scanning n k results claimed" "k < n" "sbState s ! k = 1" and el: "isEligible s (seResult (sbSlots s ! k))"
  shows "stage_inv run (mark k 2 (s\<lparr> sbDrainer := Scanning n (k + 1) (results @ [seResult (sbSlots s ! k)]) (claimed @ [k]) \<rparr>))" (is "stage_inv run ?s'")
proof -
  have sl: "slot_inv run s" and dr: "drain_inv s" and ri: "ring_inv run s" using inv by (simp_all add: stage_inv_def)
  note d = slot_invD [OF sl]
  have len: "length (sbSlots s) = rnCapacity run" "length (sbState s) = rnCapacity run" using d(1) by (simp_all add: shape_ok_def)
  have k: "k < rnCapacity run" using dr scan d(2) by (auto simp: drain_inv_def)
  note m = drain_mark [OF inv k, of 2 "Scanning n (k + 1) (results @ [seResult (sbSlots s ! k)]) (claimed @ [k])"]
  have "live run ?s' = live run s" using m(3) scan(3) k len by (intro ext) (auto simp: live_def slotSpan_def)
  then have "ring_inv run ?s'" by (intro ring_inv_frame [OF ri]) simp_all
  moreover have "drain_inv ?s'"
  proof -
    have fl: "inFlight ?s' = inFlight s @ [k]" by (simp add: inFlight_def scan(1))
    have notin: "k \<notin> set (inFlight s)" using drain_inv_mem [OF dr] scan(3) by simp
    have mem: "j \<in> set (inFlight ?s') \<longleftrightarrow> j < length (sbState ?s') \<and> sbState ?s' ! j = 2" for j
      unfolding fl using drain_inv_mem [OF dr, of j] k len by (auto simp: nth_list_update)
    have same: "resultsOf ?s' = resultsOf s" "isEligible ?s' = isEligible s" by (rule resultsOf_slots isEligible_sets; simp)+
    show ?thesis
    proof (rule drain_invI [OF _ mem])
      show "distinct (inFlight ?s')" unfolding fl using drain_invD(1) [OF dr] notin by simp
      show "scan_ok ?s' (sbDrainer ?s')" using drain_invD(2) [OF dr] scan(1) by (simp add: resultsOf_def)
      show "dbResults b = resultsOf ?s' (dbClaimed b)" if "b \<in> set (sbBatches ?s')" for b
        unfolding same using drain_invD(3) [OF dr] that by simp
      show "isEligible ?s' (seResult (sbSlots ?s' ! j))" if "j < length (sbState ?s')" "sbState ?s' ! j \<in> {2, 3}" for j
        unfolding same using that drain_invD(4) [OF dr, of j] el k len by (cases "j = k") auto
    qed
  qed
  ultimately show ?thesis using m(1,2) scan(3) unfolding stage_inv_def by simp
qed

lemma drain_ack:
  assumes inv: "stage_inv run s" and ack: "sbDrainer s = Acking (k # ks)" and e: "e = sbSlots s ! k"
  shows "stage_inv run (release (seStart e) (seLen e) (sePad e) (mark k 3 (s\<lparr> sbDrainer := Acking ks \<rparr>)))" (is "stage_inv run (release _ _ _ ?s')")
proof -
  let ?t = "release (seStart e) (seLen e) (sePad e) ?s'"
  have sl: "slot_inv run s" and dr: "drain_inv s" and ri: "ring_inv run s" using inv by (simp_all add: stage_inv_def)
  note d = slot_invD [OF sl]
  have len: "length (sbSlots s) = rnCapacity run" "length (sbState s) = rnCapacity run" using d(1) by (simp_all add: shape_ok_def)
  have two: "sbState s ! k = 2" "k < rnCapacity run" using drain_inv_mem [OF dr, of k] ack len by (simp_all add: inFlight_def)
  note m = drain_mark [OF inv two(2), of 3 "Acking ks"]
  have "live run s (Inr k) = (if seLen e > 0 then Some (seStart e - sePad e, seStart e + seLen e) else None)"
    using two len by (simp add: live_def slotSpan_def e)
  moreover have "live run ?s' = (live run s)(Inr k := None)" using m(3) two by (simp add: slotSpan_def)
  moreover have "\<forall>pc \<in> set (sbProducers ?s'). loads_ok (sbTail s) (sbHead s) pc" using ri by (simp add: ring_inv_def)
  ultimately have "ring_inv run ?t"
    using ring_inv_release [OF ri, of "Inr k" "seLen e" "seStart e" "sePad e" ?s'] by simp
  moreover have "slot_inv run ?t" by (rule slot_inv_frame [of run ?s']) (use m(1) two in simp_all)
  moreover have "data_inv run ?t" by (rule data_inv_frame [of run ?s']) (use m(2) two in simp_all)
  moreover have "drain_inv ?t"
  proof -
    have fl: "inFlight ?t = concat (map dbClaimed (sbBatches s)) @ ks" "inFlight s = concat (map dbClaimed (sbBatches s)) @ k # ks"
      by (simp_all add: inFlight_def ack)
    have dist: "distinct (inFlight s)" using dr by (simp add: drain_inv_def)
    have mem: "j \<in> set (inFlight ?t) \<longleftrightarrow> j < length (sbState ?t) \<and> sbState ?t ! j = 2" for j
      using drain_inv_mem [OF dr, of j] dist two len unfolding fl by (cases "j = k") auto
    have same: "resultsOf ?t = resultsOf s" "isEligible ?t = isEligible s" by (rule resultsOf_slots isEligible_sets; simp)+
    show ?thesis
    proof (rule drain_invI [OF _ mem])
      show "distinct (inFlight ?t)" using dist unfolding fl by simp
      show "scan_ok ?t (sbDrainer ?t)" by simp
      show "dbResults b = resultsOf ?t (dbClaimed b)" if "b \<in> set (sbBatches ?t)" for b
        unfolding same using drain_invD(3) [OF dr] that by simp
      show "isEligible ?t (seResult (sbSlots ?t ! j))" if "j < length (sbState ?t)" "sbState ?t ! j \<in> {2, 3}" for j
        unfolding same using that drain_invD(4) [OF dr, of j] two len by (cases "j = k") auto
    qed
  qed
  ultimately show ?thesis by (simp add: stage_inv_def)
qed

lemma drain_inv_step:
  assumes inv: "stage_inv run s" and "drain_step s s'"
  shows "stage_inv run s'"
proof -
  have dr: "drain_inv s" using inv by (simp add: stage_inv_def)
  have quiet: "stage_inv run s'"
    if own: "sbSlots s' = sbSlots s" "sbState s' = sbState s" "sbCount s' = sbCount s" "sbProducers s' = sbProducers s" "sbArena s' = sbArena s"
        "sbTail s' = sbTail s" "sbHead s' = sbHead s" "sbReleased s' = sbReleased s"
      and sets: "sbCommitted s \<subseteq> sbCommitted s'" "sbFailed s \<subseteq> sbFailed s'"
      and flight: "distinct (inFlight s')" "set (inFlight s') = set (inFlight s)" and scan: "scan_ok s' (sbDrainer s')"
      and batches: "\<And>b. b \<in> set (sbBatches s') \<Longrightarrow> dbResults b = resultsOf s (dbClaimed b)"
  proof (rule drain_quiet [OF inv _ own])
    show "live run s' = live run s" using own(1,2,4) by (simp add: live_def fun_eq_iff split: sum.split)
    show "drain_inv s'"
      by (rule drain_invI) (use flight scan batches drain_inv_mem [OF dr] drain_invD(4) [OF dr] isEligible_mono [OF _ sets] own(1,2) resultsOf_slots [OF own(1)] in auto)
  qed
  note d = drain_invD [OF dr]
  from assms(2) show ?thesis
  proof cases
    case begin_drain
    then show ?thesis using d(1-3) by (intro quiet) (auto simp: inFlight_def resultsOf_def)
  next
    case (take_slot n k results claimed)
    then show ?thesis using drain_take [OF inv] by simp
  next
    case (pass_slot n k results claimed)
    then show ?thesis using d(1-3) by (intro quiet) (auto simp: inFlight_def resultsOf_def)
  next
    case (end_drain n k results claimed)
    then show ?thesis using d(1-3) by (intro quiet) (auto simp: inFlight_def)
  next
    case (begin_ack bs b cs)
    then show ?thesis using d(1-3) by (intro quiet) (auto simp: inFlight_def)
  next
    case (ack_slot k ks e)
    then show ?thesis using drain_ack [OF inv] by simp
  next
    case end_ack
    then show ?thesis using d(1-3) by (intro quiet) (auto simp: inFlight_def)
  next
    case (Commit ids)
    then show ?thesis using d(1-3) by (intro quiet) (auto simp: inFlight_def)
  next
    case (MarkFailed ids)
    then show ?thesis using d(1-3) by (intro quiet) (auto simp: inFlight_def)
  qed
qed

lemma add_inv_step: "stage_inv run s \<Longrightarrow> i < length (rnAdds run) \<Longrightarrow> add_step run i s s' \<Longrightarrow> stage_inv run s'"
  unfolding stage_inv_def using add_slot add_ring add_data add_drain by blast

lemma stage_inv_init: "NewStagingBuffer run = Some s \<Longrightarrow> stage_inv run s"
proof -
  assume new: "NewStagingBuffer run = Some s"
  then have s: "s = \<lparr> sbSlots = replicate (rnCapacity run) zeroEntry, sbState = replicate (rnCapacity run) 0, sbCount = 0,
      sbArena = replicate (rnArenaSize run) (CHR 0x00), sbHead = 0, sbTail = 0, sbReleased = [],
      sbCommitted = {}, sbFailed = {}, sbProducers = replicate (length (rnAdds run)) Entered, sbDrainer = Idle, sbBatches = [] \<rparr>"
    and pos: "0 < rnArenaSize run" by (auto simp: NewStagingBuffer_def split: if_splits)
  have "live run s x = None" for x by (simp add: live_def s slotSpan_def zeroEntry_def split: sum.split)
  then have "joined (live run s) (sbReleased s) x = None" for x by (simp add: joined_def s split: sum.split)
  then have "ring_inv run s" by (simp add: ring_inv_def ring_ok_def s)
  moreover have "slot_inv run s" using pos by (simp add: slot_inv_def shape_ok_def s)
  moreover have "data_inv run s" by (simp add: data_inv_def s)
  moreover have "drain_inv s" by (auto simp: drain_inv_def inFlight_def s)
  ultimately show ?thesis by (simp add: stage_inv_def)
qed

section \<open>Reachable states\<close>

text \<open>No call is turned away when there is a slot for every call: a call without a slot leaves one free.\<close>

definition admit_inv :: "stagingRun \<Rightarrow> stagingState \<Rightarrow> bool" where
  "admit_inv run s \<longleftrightarrow> stage_inv run s \<and> (length (rnAdds run) \<le> rnCapacity run \<longrightarrow> Rejected \<notin> set (sbProducers s))"

lemma count_bound:
  assumes "slot_inv run s" and "i < length (rnAdds run)" and "indexOf (sbProducers s ! i) = None"
  shows "sbCount s < length (rnAdds run)"
proof -
  note d = slot_invD [OF assms(1)]
  let ?pick = "\<lambda>k. SOME j. j < length (rnAdds run) \<and> indexOf (sbProducers s ! j) = Some k"
  have pick: "?pick k < length (rnAdds run) \<and> indexOf (sbProducers s ! ?pick k) = Some k" if "k < sbCount s" for k
    using someI_ex [of "\<lambda>j. j < length (rnAdds run) \<and> indexOf (sbProducers s ! j) = Some k"] d(7) [OF that] by blast
  have "inj_on ?pick {..<sbCount s}"
  proof (rule inj_onI)
    fix k m assume km: "k \<in> {..<sbCount s}" "m \<in> {..<sbCount s}" "?pick k = ?pick m"
    then have "Some k = Some m" using pick [of k] pick [of m] by (metis lessThan_iff)
    then show "k = m" by simp
  qed
  moreover have "?pick ` {..<sbCount s} \<subseteq> {..<length (rnAdds run)} - {i}" using pick assms(3) by force
  ultimately have "card {..<sbCount s} \<le> card ({..<length (rnAdds run)} - {i})" by (intro card_inj_on_le) auto
  then show ?thesis using assms(2) by (simp add: card_Diff_singleton)
qed

lemma admit_inv_step:
  assumes inv: "admit_inv run s" and "stage_step run s s'"
  shows "admit_inv run s'"
  using assms(2) unfolding stage_step_def
proof
  assume "drain_step s s'"
  moreover from this have "sbProducers s' = sbProducers s" by cases simp_all
  ultimately show ?thesis using inv drain_inv_step unfolding admit_inv_def by metis
next
  assume "\<exists>i < length (rnAdds run). add_step run i s s'"
  then obtain i where i: "i < length (rnAdds run)" "add_step run i s s'" by blast
  have st: "stage_inv run s" "slot_inv run s" using inv by (simp_all add: admit_inv_def stage_inv_def)
  have "Rejected \<notin> set (sbProducers s')" if cap: "length (rnAdds run) \<le> rnCapacity run"
  proof -
    have no: "Rejected \<notin> set (sbProducers s)" using inv cap by (simp add: admit_inv_def)
    have upd: "Rejected \<notin> set ((sbProducers s)[i := pc])" if "pc \<noteq> Rejected" for pc
      using set_update_subset_insert [of "sbProducers s" i pc] no that by auto
    from i(2) show ?thesis
    proof cases
      case (exhausted k start len pad)
      then have "k \<le> sbCount s" using slot_invD(4) [OF st(2) i(1)] by simp
      then show ?thesis using count_bound [OF st(2) i(1)] exhausted cap by simp
    qed (use upd in simp_all)
  qed
  then show ?thesis using add_inv_step [OF st(1) i] by (simp add: admit_inv_def)
qed

interpretation staging: invariant_machine "\<lambda>run s. NewStagingBuffer run = Some s" stage_step admit_inv
proof
  fix run s assume new: "NewStagingBuffer run = Some s"
  then have "sbProducers s = replicate (length (rnAdds run)) Entered" by (auto simp: NewStagingBuffer_def split: if_splits)
  then show "admit_inv run s" using stage_inv_init [OF new] by (simp add: admit_inv_def)
qed (rule admit_inv_step)

lemma reachable_stage:
  assumes "NewStagingBuffer run = Some s0" and "(stage_step run)\<^sup>*\<^sup>* s0 s"
  shows "slot_inv run s" "ring_inv run s" "data_inv run s" "drain_inv s" "length (rnAdds run) \<le> rnCapacity run \<Longrightarrow> Rejected \<notin> set (sbProducers s)"
  using staging.reachable_inv [OF assms] by (simp_all add: admit_inv_def stage_inv_def)

lemma published_slot:
  assumes "slot_inv run s" and "k < rnCapacity run" and "sbState s ! k \<noteq> 0"
  shows "\<exists>i < length (rnAdds run). sbProducers s ! i = Added k"
proof -
  note d = slot_invD [OF assms(1)]
  have "k < sbCount s" using d(3) [OF assms(2)] assms(3) by (meson not_le_imp_less)
  then obtain i where i: "i < length (rnAdds run)" "indexOf (sbProducers s ! i) = Some k" using d(7) by blast
  then have "sbProducers s ! i = Added k" using d(4) [OF i(1)] assms(3) by (cases "sbProducers s ! i") auto
  then show ?thesis using i(1) by blast
qed

lemma length_take_drop:
  assumes "shape_ok run s" and "stored run s start bs"
  shows "length (take (length bs) (drop (start mod rnArenaSize run) (sbArena s))) = length bs"
proof -
  have "start mod rnArenaSize run + length bs \<le> length (sbArena s)" using assms by (simp add: stored_def shape_ok_def)
  then show ?thesis by simp
qed

lemma stored_read:
  assumes "shape_ok run s" and "stored run s start bs"
  shows "readPayload s (InArena (start mod rnArenaSize run) (length bs)) = bs"
proof (rule nth_equalityI)
  show "length (readPayload s (InArena (start mod rnArenaSize run) (length bs))) = length bs"
    using assms(2) length_take_drop [OF assms] by (simp add: readPayload_def)
  show "readPayload s (InArena (start mod rnArenaSize run) (length bs)) ! k = bs ! k"
    if "k < length (readPayload s (InArena (start mod rnArenaSize run) (length bs)))" for k
    using that assms by (simp add: readPayload_def stored_def shape_ok_def)
qed

lemma entry_read:
  assumes "shape_ok run s" and "entry_ok run s i k" and "sbState s ! k \<noteq> 3" and "wrTranscript (rnAdds run ! i) = Own bs"
  shows "readPayload s (wrTranscript (seResult (sbSlots s ! k))) = bs"
proof (cases "seLen (sbSlots s ! k) = 0")
  case True
  then show ?thesis using assms by (simp add: entry_ok_def placed_def readPayload_def)
next
  case False
  then show ?thesis using assms stored_read [OF assms(1), of "seStart (sbSlots s ! k)" bs]
    by (auto simp: entry_ok_def copied_def placed_def Let_def payloadBytes_def)
qed

text \<open>A call that waits on an idle ring gets through alone, when its payload fits there and a slot is free.\<close>

lemma add_completes:
  assumes "slot_inv run s" and i: "i < length (rnAdds run)" and wait: "sbProducers s ! i = Waiting"
    and idle: "sbTail s = sbHead s" and fits: "claimFits (rnArenaSize run) (sbHead s) (sbHead s) (length (transcriptOf run i))"
    and free: "sbCount s < rnCapacity run"
  shows "\<exists>s'. (stage_step run)\<^sup>*\<^sup>* s s' \<and> sbProducers s' = (sbProducers s)[i := Added (sbCount s)] \<and> sbState s' = (sbState s)[sbCount s := 1] \<and>
    sbDrainer s' = sbDrainer s \<and> sbBatches s' = sbBatches s \<and> sbCount s' = Suc (sbCount s) \<and> sbCommitted s' = sbCommitted s \<and> sbFailed s' = sbFailed s"
proof -
  let ?n = "length (transcriptOf run i)" and ?k = "sbCount s" and ?size = "rnArenaSize run"
  have len: "length (sbProducers s) = length (rnAdds run)" using slot_invD(1) [OF assms(1)] by (simp add: shape_ok_def)
  have step: "add_step run i a b \<Longrightarrow> stage_step run a b" for a b using i by (auto simp: stage_step_def)
  define gap where "gap = wrapGap ?size (sbHead s) ?n"
  define start where "start = sbHead s + gap"
  define s1 where "s1 = at i (HasTail (sbTail s)) s"
  define s2 where "s2 = at i (HasHead (sbTail s) (sbHead s)) s1"
  define s3 where "s3 = at i (Reserved start gap) (s2\<lparr> sbHead := start + ?n \<rparr>)"
  define s4 where "s4 = at i (Copied start ?n gap) (s3\<lparr> sbArena := writeBytes (start mod ?size) (transcriptOf run i) (sbArena s3) \<rparr>)"
  define s5 where "s5 = at i (HasCount ?k start ?n gap) s4"
  define s6 where "s6 = at i (Claimed ?k start ?n gap) (s5\<lparr> sbCount := ?k + 1 \<rparr>)"
  define e where "e = \<lparr> seResult = placed ?size (rnAdds run ! i) start ?n, seStart = start, seLen = ?n, sePad = gap \<rparr>"
  define s7 where "s7 = at i (Written ?k) (s6\<lparr> sbSlots := (sbSlots s6)[?k := e] \<rparr>)"
  define s8 where "s8 = at i (Added ?k) (mark ?k 1 s7)"
  note defs = s1_def s2_def s3_def s4_def s5_def s6_def s7_def s8_def
  have "stage_step run s s1" unfolding s1_def by (rule step, rule add_step.load_tail) (rule wait)
  moreover have "stage_step run s1 s2" unfolding s2_def using add_step.load_head [of s1 i "sbTail s" run] i len by (intro step) (simp add: s1_def)
  moreover have "stage_step run s2 s3" unfolding s3_def start_def
    by (rule step, rule add_step.reserve [where t = "sbTail s"]) (use i len idle fits in \<open>simp_all add: s1_def s2_def gap_def\<close>)
  moreover have "stage_step run s3 s4" unfolding s4_def by (rule step, rule add_step.copy) (use i len in \<open>simp add: defs\<close>)
  moreover have "stage_step run s4 s5" unfolding s5_def using add_step.load_count [of s4 i start ?n gap run] i len by (intro step) (simp add: defs)
  moreover have "stage_step run s5 s6" unfolding s6_def by (rule step, rule add_step.claim_slot) (use i len free in \<open>simp_all add: defs\<close>)
  moreover have "stage_step run s6 s7" unfolding s7_def by (rule step, rule add_step.write_slot [OF _ e_def]) (use i len in \<open>simp add: defs\<close>)
  moreover have "stage_step run s7 s8" unfolding s8_def by (rule step, rule add_step.publish) (use i len in \<open>simp add: defs\<close>)
  ultimately have "(stage_step run)\<^sup>*\<^sup>* s s8" by (meson converse_rtranclp_into_rtranclp rtranclp.rtrancl_refl)
  moreover have "sbProducers s8 = (sbProducers s)[i := Added ?k]" "sbState s8 = (sbState s)[?k := 1]" "sbDrainer s8 = sbDrainer s"
    "sbBatches s8 = sbBatches s" "sbCount s8 = Suc ?k" "sbCommitted s8 = sbCommitted s" "sbFailed s8 = sbFailed s"
    by (simp_all add: defs)
  ultimately show ?thesis by blast
qed

section \<open>Properties\<close>

text \<open>
  C20: What the drainer reads is what a worker staged. In every reachable state, however the workers
  and the drainer interleave and wherever the ring wraps, each result of a batch that is not
  acknowledged yet belongs to exactly one call of Add, no two results of outstanding batches
  belong to the same slot, the bytes the result names are the bytes of that call, and the parent
  of its session was committed or failed before.
\<close>

theorem staged_bytes_intact:
  assumes "NewStagingBuffer run = Some s0" and "(stage_step run)\<^sup>*\<^sup>* s0 s" and "\<forall>r \<in> set (rnAdds run). \<exists>bs. wrTranscript r = Own bs"
  shows "distinct (concat (map dbClaimed (sbBatches s))) \<and>
    (\<forall>b \<in> set (sbBatches s). dbResults b = map (\<lambda>k. seResult (sbSlots s ! k)) (dbClaimed b) \<and>
      (\<forall>k \<in> set (dbClaimed b). isEligible s (seResult (sbSlots s ! k)) \<and>
        (\<exists>!i. i < length (rnAdds run) \<and> sbProducers s ! i = Added k) \<and>
        (\<forall>i < length (rnAdds run). sbProducers s ! i = Added k \<longrightarrow>
           wrSession (seResult (sbSlots s ! k)) = wrSession (rnAdds run ! i) \<and>
           Own (readPayload s (wrTranscript (seResult (sbSlots s ! k)))) = wrTranscript (rnAdds run ! i))))"
proof (intro conjI ballI)
  note r = reachable_stage [OF assms(1,2)]
  note d = slot_invD [OF r(1)]
  show "distinct (concat (map dbClaimed (sbBatches s)))" using drain_invD(1) [OF r(4)] by (simp add: inFlight_def)
  fix b assume b: "b \<in> set (sbBatches s)"
  show "dbResults b = map (\<lambda>k. seResult (sbSlots s ! k)) (dbClaimed b)" using drain_invD(3) [OF r(4) b] by (simp add: resultsOf_def)
  fix k assume "k \<in> set (dbClaimed b)"
  then have k: "k < length (sbState s)" "sbState s ! k = 2" using drain_inv_mem [OF r(4), of k] b by (auto simp: inFlight_def)
  show "isEligible s (seResult (sbSlots s ! k))" using drain_invD(4) [OF r(4) k(1)] k(2) by simp
  have "k < rnCapacity run" using k(1) d(1) by (simp add: shape_ok_def)
  then obtain i where i: "i < length (rnAdds run)" "sbProducers s ! i = Added k" using published_slot [OF r(1), of k] k(2) by auto
  show "\<exists>!i. i < length (rnAdds run) \<and> sbProducers s ! i = Added k"
    using i d(6) by (metis indexOf.simps(3))
  show "\<forall>i < length (rnAdds run). sbProducers s ! i = Added k \<longrightarrow> wrSession (seResult (sbSlots s ! k)) = wrSession (rnAdds run ! i) \<and>
      Own (readPayload s (wrTranscript (seResult (sbSlots s ! k)))) = wrTranscript (rnAdds run ! i)"
  proof (intro allI impI)
    fix j assume j: "j < length (rnAdds run)" "sbProducers s ! j = Added k"
    have e: "entry_ok run s j k" using r(3) j by (metis data_inv_def data_ok.simps(9))
    obtain bs where bs: "wrTranscript (rnAdds run ! j) = Own bs" using assms(3) j(1) by force
    have "wrSession (seResult (sbSlots s ! k)) = wrSession (rnAdds run ! j)" using e by (simp add: entry_ok_def placed_def Let_def)
    then show "wrSession (seResult (sbSlots s ! k)) = wrSession (rnAdds run ! j) \<and>
        Own (readPayload s (wrTranscript (seResult (sbSlots s ! k)))) = wrTranscript (rnAdds run ! j)"
      using entry_read [OF d(1) e _ bs] k(2) bs by simp
  qed
qed

text \<open>
  C24: Wrapping never loses capacity. When every call of Add has returned and every slot that was
  handed out is acknowledged, the whole ring is free again, and a call is turned away only
  when there are more calls than slots.
\<close>

theorem arena_recovered:
  assumes "NewStagingBuffer run = Some s0" and "(stage_step run)\<^sup>*\<^sup>* s0 s"
  shows "(list_all (\<lambda>pc. pc = Rejected \<or> (\<exists>k. pc = Added k \<and> sbState s ! k = 3)) (sbProducers s) \<longrightarrow> ArenaUsed s = 0) \<and>
    (length (rnAdds run) \<le> rnCapacity run \<longrightarrow> Rejected \<notin> set (sbProducers s))"
proof (intro conjI impI)
  note r = reachable_stage [OF assms]
  note d = slot_invD [OF r(1)]
  have len: "length (sbProducers s) = length (rnAdds run)" "length (sbSlots s) = rnCapacity run" using d(1) by (simp_all add: shape_ok_def)
  assume fins: "list_all (\<lambda>pc. pc = Rejected \<or> (\<exists>k. pc = Added k \<and> sbState s ! k = 3)) (sbProducers s)"
  have fin: "sbProducers s ! i = Rejected \<or> (\<exists>k. sbProducers s ! i = Added k \<and> sbState s ! k = 3)" if "i < length (rnAdds run)" for i
    using fins that len by (simp add: list_all_length)
  have "live run s x = None" for x
  proof (cases x)
    case (Inl i)
    then show ?thesis using fin [of i] len by (auto simp: live_def)
  next
    case (Inr k)
    have "slotSpan (sbSlots s ! k) (sbState s ! k) = None" if k: "k < rnCapacity run"
    proof (cases "k < sbCount s")
      case True
      then obtain i where i: "i < length (rnAdds run)" "indexOf (sbProducers s ! i) = Some k" using d(7) by blast
      then show ?thesis using fin [OF i(1)] by (auto simp: slotSpan_def)
    next
      case False
      then show ?thesis using d(3) [OF k] by (simp add: slotSpan_def zeroEntry_def)
    qed
    then show ?thesis using Inr len by (simp add: live_def)
  qed
  then have "sbTail s = sbHead s" using ring_drained [of "rnArenaSize run" "sbTail s" "sbHead s" "live run s" "sbReleased s"] r(2) by (simp add: ring_inv_def)
  then show "ArenaUsed s = 0" by (simp add: ArenaUsed_def)
next
  assume "length (rnAdds run) \<le> rnCapacity run"
  then show "Rejected \<notin> set (sbProducers s)" by (rule reachable_stage(5) [OF assms])
qed

text \<open>
  C21: The flags of the slots stay what the code's comment says they are. In every reachable state the
  arrays have the capacity of the buffer and every flag is empty, ready, claimed or acked; and a
  step of any goroutine leaves a flag alone or moves it to the next of these values.
\<close>

theorem slot_lifecycle:
  assumes "NewStagingBuffer run = Some s0" and "(stage_step run)\<^sup>*\<^sup>* s0 s" and "stage_step run s s'" and "k < rnCapacity run"
  shows "length (sbState s) = rnCapacity run \<and> length (sbSlots s) = rnCapacity run \<and> sbState s ! k \<le> 3 \<and> (sbState s ! k = 0 \<or> k < sbCount s) \<and>
    (sbState s' ! k = sbState s ! k \<or> sbState s' ! k = sbState s ! k + 1 \<and> sbState s' ! k \<le> 3)"
proof -
  note r = reachable_stage [OF assms(1,2)]
  note d = slot_invD [OF r(1)]
  have len: "length (sbState s) = rnCapacity run" "length (sbSlots s) = rnCapacity run" using d(1) by (simp_all add: shape_ok_def)
  have kind: "sbState s ! k \<le> 3 \<and> (sbState s ! k = 0 \<or> k < sbCount s)"
  proof (cases "sbState s ! k = 0")
    case False
    then obtain i where i: "i < length (rnAdds run)" "sbProducers s ! i = Added k" using published_slot [OF r(1) assms(4)] by blast
    then show ?thesis using d(4) [OF i(1)] d(5) [OF i(1)] by auto
  qed simp
  have "sbState s' ! k = sbState s ! k \<or> sbState s' ! k = sbState s ! k + 1 \<and> sbState s' ! k \<le> 3"
    using assms(3) unfolding stage_step_def
  proof (elim disjE exE conjE)
    fix i assume i: "i < length (rnAdds run)" and "add_step run i s s'"
    from this(2) show ?thesis
    proof cases
      case (publish j)
      then show ?thesis using d(4) [OF i] len(1) assms(4) by (cases "j = k") auto
    qed simp_all
  next
    assume "drain_step s s'"
    then show ?thesis
    proof cases
      case (take_slot n j results claimed)
      then show ?thesis using len(1) assms(4) by (cases "j = k") auto
    next
      case (ack_slot j ks e)
      then have "j \<in> set (inFlight s)" by (simp add: inFlight_def)
      then have "sbState s ! j = 2" using drain_inv_mem [OF r(4)] by blast
      then show ?thesis using ack_slot(1) len(1) assms(4) by (cases "j = k") auto
    qed simp_all
  qed
  then show ?thesis using len kind by blast
qed

text \<open>
  No starvation on a sound slab. When the slab is at least twice the size of a payload, a call
  that waits for it finds room as soon as the ring is idle, and then completes by its own steps
  whenever a slot is free.
\<close>

theorem staging_progress:
  assumes "NewStagingBuffer run = Some s0" and "(stage_step run)\<^sup>*\<^sup>* s0 s" and "i < length (rnAdds run)" and "sbProducers s ! i = Waiting"
    and "ArenaUsed s = 0" and "2 * length (transcriptOf run i) \<le> rnArenaSize run" and "sbCount s < rnCapacity run"
  shows "\<exists>s'. (stage_step run)\<^sup>*\<^sup>* s s' \<and> sbProducers s' ! i = Added (sbCount s)"
proof -
  note r = reachable_stage [OF assms(1,2)]
  have len: "length (sbProducers s) = length (rnAdds run)" using slot_invD(1) [OF r(1)] by (simp add: shape_ok_def)
  have "sbTail s \<le> sbHead s" using r(2) ring_okD(1) unfolding ring_inv_def by blast
  then have idle: "sbTail s = sbHead s" using assms(5) by (simp add: ArenaUsed_def)
  have "claimFits (rnArenaSize run) (sbHead s) (sbHead s) (length (transcriptOf run i))"
    using claimFits_idle [of "length (transcriptOf run i)" "rnArenaSize run" "sbHead s"] assms(6) by auto
  from add_completes [OF r(1) assms(3,4) idle this assms(7)] show ?thesis using assms(3) len by auto
qed

text \<open>A run of one call with three bytes and a slab of eight.\<close>

definition exampleStagingRun :: stagingRun where
  "exampleStagingRun =
     \<lparr> rnAdds = [\<lparr> wrSession = ''s'', wrResolved = True, wrSchedulingParent = None, wrMetaParent = None, wrTranscript = Own ''abc'', wrArtifact = None \<rparr>],
       rnCapacity = 2, rnArenaSize = 8 \<rparr>"

definition exampleBuffer :: stagingState where
  "exampleBuffer = the (NewStagingBuffer exampleStagingRun)"

lemma example_start: "NewStagingBuffer exampleStagingRun = Some exampleBuffer"
  by (simp add: exampleBuffer_def NewStagingBuffer_def exampleStagingRun_def)

lemma example_waits: "(stage_step exampleStagingRun)\<^sup>*\<^sup>* exampleBuffer (at 0 Waiting exampleBuffer)"
proof (rule r_into_rtranclp)
  have "add_step exampleStagingRun 0 exampleBuffer (at 0 Waiting exampleBuffer)"
    by (rule add_step.begin_wait) (simp_all add: exampleBuffer_def NewStagingBuffer_def exampleStagingRun_def payloadBytes_def)
  then show "stage_step exampleStagingRun exampleBuffer (at 0 Waiting exampleBuffer)" by (auto simp: stage_step_def exampleStagingRun_def)
qed

theorem staging_progress_witness:
  "\<exists>s'. (stage_step exampleStagingRun)\<^sup>*\<^sup>* (at 0 Waiting exampleBuffer) s' \<and> sbProducers s' ! 0 = Added 0"
proof -
  have "sbCount (at 0 Waiting exampleBuffer) = 0" by (simp add: exampleBuffer_def NewStagingBuffer_def exampleStagingRun_def)
  then show ?thesis using staging_progress [OF example_start example_waits, of 0]
    by (simp add: exampleBuffer_def NewStagingBuffer_def exampleStagingRun_def ArenaUsed_def payloadBytes_def)
qed

lemma example_staged:
  "\<exists>s. (stage_step exampleStagingRun)\<^sup>*\<^sup>* exampleBuffer s \<and> sbProducers s = [Added 0] \<and> sbState s = [1, 0] \<and> sbDrainer s = Idle \<and>
     sbBatches s = [] \<and> sbCount s = 1"
proof -
  let ?w = "at 0 Waiting exampleBuffer"
  have w: "sbCount ?w = 0" "sbState ?w = [0, 0]" "sbDrainer ?w = Idle" "sbBatches ?w = []" "sbProducers ?w = [Waiting]" "sbTail ?w = sbHead ?w"
    "claimFits (rnArenaSize exampleStagingRun) (sbHead ?w) (sbHead ?w) (length (transcriptOf exampleStagingRun 0))"
    by (simp_all add: exampleBuffer_def NewStagingBuffer_def exampleStagingRun_def payloadBytes_def claimFits_def wrapGap_def numeral_2_eq_2)
  have "slot_inv exampleStagingRun ?w" by (rule reachable_stage(1) [OF example_start example_waits])
  from add_completes [OF this _ _ w(6,7)] w(1-5) obtain s where s: "(stage_step exampleStagingRun)\<^sup>*\<^sup>* ?w s" "sbProducers s = [Added 0]" "sbState s = [1, 0]"
    "sbDrainer s = Idle" "sbBatches s = []" "sbCount s = 1" by (auto simp: exampleStagingRun_def)
  have "(stage_step exampleStagingRun)\<^sup>*\<^sup>* exampleBuffer s" using example_waits s(1) by (rule rtranclp_trans)
  then show ?thesis using s(2-6) by blast
qed

text \<open>The run goes on: the result is published, taken and handed out in a batch.\<close>

lemma example_drained:
  "\<exists>s. (stage_step exampleStagingRun)\<^sup>*\<^sup>* exampleBuffer s \<and> sbProducers s = [Added 0] \<and> map dbClaimed (sbBatches s) = [[0]]"
proof -
  obtain s where reach: "(stage_step exampleStagingRun)\<^sup>*\<^sup>* exampleBuffer s" and s: "sbProducers s = [Added 0]" "sbState s = [1, 0]"
    "sbDrainer s = Idle" "sbBatches s = []" "sbCount s = 1" using example_staged by blast
  note r = reachable_stage [OF example_start reach]
  have "entry_ok exampleStagingRun s 0 0" using r(3) s(1) by (auto simp: data_inv_def exampleStagingRun_def)
  then have el: "isEligible s (seResult (sbSlots s ! 0))" by (simp add: entry_ok_def placed_def Let_def isEligible_def parentSettled_def exampleStagingRun_def)
  define t1 where "t1 = s\<lparr> sbDrainer := Scanning (sbCount s) 0 [] [] \<rparr>"
  define t2 where "t2 = mark 0 2 (t1\<lparr> sbDrainer := Scanning 1 (0 + 1) ([] @ [seResult (sbSlots t1 ! 0)]) ([] @ [0]) \<rparr>)"
  define t3 where "t3 = t2\<lparr> sbDrainer := Idle, sbBatches := \<lparr> dbResults = [seResult (sbSlots t1 ! 0)], dbClaimed = [0] \<rparr> # sbBatches t2 \<rparr>"
  have "isEligible t1 (seResult (sbSlots t1 ! 0))" using el isEligible_sets [of t1 s] by (simp add: t1_def)
  then have "drain_step t1 t2" unfolding t2_def by (intro drain_step.take_slot) (simp_all add: t1_def s DefaultMaxDrainBatch_def)
  moreover have "drain_step s t1" unfolding t1_def by (rule drain_step.begin_drain [OF s(3)])
  moreover have "drain_step t2 t3" unfolding t3_def by (rule drain_step.end_drain [of _ 1 1]) (simp_all add: t2_def t1_def)
  ultimately have "stage_step exampleStagingRun s t1" "stage_step exampleStagingRun t1 t2" "stage_step exampleStagingRun t2 t3" by (simp_all add: stage_step_def)
  then have "(stage_step exampleStagingRun)\<^sup>*\<^sup>* exampleBuffer t3" using reach by (meson rtranclp.rtrancl_into_rtrancl)
  moreover have "sbProducers t3 = [Added 0]" "map dbClaimed (sbBatches t3) = [[0]]" by (simp_all add: t1_def t2_def t3_def s)
  ultimately show ?thesis by (intro exI [of _ t3] conjI)
qed

theorem staged_bytes_intact_witness:
  "\<exists>s. (stage_step exampleStagingRun)\<^sup>*\<^sup>* exampleBuffer s \<and> map dbClaimed (sbBatches s) = [[0]] \<and>
     readPayload s (wrTranscript (seResult (sbSlots s ! 0))) = ''abc''"
proof -
  obtain s where s: "(stage_step exampleStagingRun)\<^sup>*\<^sup>* exampleBuffer s" "sbProducers s = [Added 0]" "map dbClaimed (sbBatches s) = [[0]]"
    using example_drained by (elim exE conjE)
  then obtain b where b: "b \<in> set (sbBatches s)" "dbClaimed b = [0]" by (cases "sbBatches s") auto
  have "\<forall>r \<in> set (rnAdds exampleStagingRun). \<exists>bs. wrTranscript r = Own bs" by (simp add: exampleStagingRun_def)
  note all = staged_bytes_intact [OF example_start s(1) this]
  have "0 \<in> set (dbClaimed b)" "0 < length (rnAdds exampleStagingRun)" "sbProducers s ! 0 = Added 0" using b s(2) by (simp_all add: exampleStagingRun_def)
  then have "Own (readPayload s (wrTranscript (seResult (sbSlots s ! 0)))) = wrTranscript (rnAdds exampleStagingRun ! 0)"
    using all b(1) by blast
  then have "readPayload s (wrTranscript (seResult (sbSlots s ! 0))) = ''abc''" by (simp add: exampleStagingRun_def)
  then show ?thesis using s(1,3) by (intro exI [of _ s] conjI)
qed

theorem arena_recovered_witness:
  "ArenaUsed exampleBuffer = 0 \<and> (\<exists>s. (stage_step exampleStagingRun)\<^sup>*\<^sup>* exampleBuffer s \<and> sbProducers s = [Added 0] \<and> Rejected \<notin> set (sbProducers s))"
proof -
  obtain s where s: "(stage_step exampleStagingRun)\<^sup>*\<^sup>* exampleBuffer s" "sbProducers s = [Added 0]" using example_drained by (elim exE conjE)
  have "Rejected \<notin> set (sbProducers s)" using conjunct2 [OF arena_recovered [OF example_start s(1)]] by (rule mp) (simp add: exampleStagingRun_def)
  moreover have "ArenaUsed exampleBuffer = 0" by (simp add: ArenaUsed_def exampleBuffer_def NewStagingBuffer_def exampleStagingRun_def)
  ultimately show ?thesis using s by (intro conjI exI [of _ s])
qed

theorem slot_lifecycle_witness: "sbState exampleBuffer ! 1 \<le> 3 \<and> (sbState exampleBuffer ! 1 = 0 \<or> 1 < sbCount exampleBuffer)"
proof -
  have "add_step exampleStagingRun 0 exampleBuffer (at 0 Waiting exampleBuffer)"
    by (rule add_step.begin_wait) (simp_all add: exampleBuffer_def NewStagingBuffer_def exampleStagingRun_def payloadBytes_def)
  then have "stage_step exampleStagingRun exampleBuffer (at 0 Waiting exampleBuffer)" by (auto simp: stage_step_def exampleStagingRun_def)
  then show ?thesis using slot_lifecycle [OF example_start rtranclp.rtrancl_refl, of _ 1] by (simp add: exampleStagingRun_def)
qed

end
