(* ===== verification/Scheduling.thy ===== *)
theory Scheduling
  imports Go_Base "HOL-Library.Monad_Syntax"
begin

text \<open>
  Operational scheduling of an ingest run: the scheduling edges of
  \<open>internal/ingest/operational_parent.go\<close>, the roots, children and external parents of the
  dispatch in \<open>Run\<close> of \<open>internal/ingest/pipeline.go\<close>, and the walk of one root's subtree. Of a session
  only what scheduling reads is kept. The lookups of stored sessions are arguments.
\<close>

section \<open>Edges\<close>

record DiffEntry =
  deSessionID :: string
  deHarness :: string
  deParentUUID :: "string option"
  deSchedulingParentID :: "string option"

text \<open>The names of the two harnesses are constants of the schema module.\<close>

record schemaHarnesses =
  HarnessCodex :: string
  HarnessOpenCode :: string

definition IndependentAdmissionHarness :: "schemaHarnesses \<Rightarrow> string \<Rightarrow> bool" where
  "IndependentAdmissionHarness hs h \<longleftrightarrow> h = HarnessCodex hs \<or> h = HarnessOpenCode hs"

definition OperationalParentID :: "DiffEntry \<Rightarrow> string option" where
  "OperationalParentID e = deSchedulingParentID e"

abbreviation idsOf :: "DiffEntry list \<Rightarrow> string list" where
  "idsOf entries \<equiv> map deSessionID entries"

text \<open>
  The parents outside the cohort that count as stored: those of the location cache, and of the
  others those the store lists; all of the others when the lookup fails. Without a store the
  lookup is \<open>None\<close>.
\<close>

definition storedParentSet ::
  "string set \<Rightarrow> (string list \<Rightarrow> unit + string list) option \<Rightarrow> DiffEntry list \<Rightarrow> string set" where
  "storedParentSet locationCache lookup entries =
     (let outside = [p. Some p \<leftarrow> map deParentUUID entries, p \<notin> set (idsOf entries)];
          stored = {p \<in> set outside. p \<in> locationCache};
          needed = remdups [p \<leftarrow> outside. p \<notin> locationCache]
      in if needed = [] then stored
         else (case lookup of
                 None \<Rightarrow> stored
               | Some bulkLookup \<Rightarrow> (case bulkLookup needed of
                   Inl _ \<Rightarrow> stored \<union> set needed
                 | Inr locations \<Rightarrow> stored \<union> {p \<in> set locations. p \<in> set needed})))"

type_synonym schedEdges = "string \<Rightarrow> string option"

text \<open>A missing key of the map of edges reads as no edge.\<close>

definition tentativeEdge :: "schemaHarnesses \<Rightarrow> string set \<Rightarrow> string set \<Rightarrow> DiffEntry \<Rightarrow> string option" where
  "tentativeEdge hs cohort parentStored e =
     (case deParentUUID e of
        None \<Rightarrow> None
      | Some parent \<Rightarrow>
          if parent = deSessionID e then None
          else if parent \<notin> cohort \<and> (\<not> IndependentAdmissionHarness hs (deHarness e) \<or> parent \<notin> parentStored) then None
          else Some parent)"

definition tentativeEdges :: "schemaHarnesses \<Rightarrow> DiffEntry list \<Rightarrow> string set \<Rightarrow> schedEdges" where
  "tentativeEdges hs entries parentStored =
     fold (\<lambda>e edges. edges(deSessionID e := tentativeEdge hs (set (idsOf entries)) parentStored e)) entries (\<lambda>_. None)"

section \<open>Cycles\<close>

datatype color = White | Gray | Black

record cycleState =
  cyColor :: "string \<Rightarrow> color"
  cyStack :: "string list"
  cyEdges :: schedEdges

text \<open>The stack is kept with its top first.\<close>

fun clearCycle :: "string \<Rightarrow> string list \<Rightarrow> schedEdges \<Rightarrow> schedEdges" where
  "clearCycle parent [] edges = edges"
| "clearCycle parent (x # stack) edges =
     (if x = parent then edges(x := None) else clearCycle parent stack (edges(x := None)))"

definition enterNode :: "string \<Rightarrow> cycleState \<Rightarrow> cycleState" where
  "enterNode v st = st\<lparr> cyColor := (cyColor st)(v := Gray), cyStack := v # cyStack st \<rparr>"

definition leaveNode :: "string \<Rightarrow> cycleState \<Rightarrow> cycleState" where
  "leaveNode v st = st\<lparr> cyColor := (cyColor st)(v := Black), cyStack := tl (cyStack st) \<rparr>"

text \<open>One unit of fuel for each nested call; \<open>None\<close> is fuel that ran out.\<close>

fun visit :: "nat \<Rightarrow> string \<Rightarrow> cycleState \<Rightarrow> cycleState option" where
  "visit 0 v st = None"
| "visit (Suc fuel) v st = (let st = enterNode v st in
     map_option (leaveNode v)
       (case cyEdges st v of
          None \<Rightarrow> Some st
        | Some parent \<Rightarrow>
            (case cyColor st parent of
               Gray \<Rightarrow> Some (st\<lparr> cyEdges := clearCycle parent (cyStack st) (cyEdges st) \<rparr>)
             | White \<Rightarrow> visit fuel parent st
             | Black \<Rightarrow> Some st)))"

definition visitWhite :: "nat \<Rightarrow> cycleState \<Rightarrow> string \<Rightarrow> cycleState option" where
  "visitWhite fuel st v = (if cyColor st v = White then visit fuel v st else Some st)"

fun visitAll :: "nat \<Rightarrow> string list \<Rightarrow> cycleState \<Rightarrow> cycleState option" where
  "visitAll fuel [] st = Some st"
| "visitAll fuel (v # vs) st = Option.bind (visitWhite fuel st v) (visitAll fuel vs)"

definition breakSchedulingCycles :: "DiffEntry list \<Rightarrow> schedEdges \<Rightarrow> schedEdges option" where
  "breakSchedulingCycles entries edges =
     map_option cyEdges (visitAll (length entries + 1) (idsOf entries) \<lparr> cyColor = \<lambda>_. White, cyStack = [], cyEdges = edges \<rparr>)"

definition BuildSchedulingParents :: "schemaHarnesses \<Rightarrow> DiffEntry list \<Rightarrow> string set \<Rightarrow> schedEdges option" where
  "BuildSchedulingParents hs entries parentStored = breakSchedulingCycles entries (tentativeEdges hs entries parentStored)"

definition ApplySchedulingParents :: "schemaHarnesses \<Rightarrow> DiffEntry list \<Rightarrow> string set \<Rightarrow> DiffEntry list option" where
  "ApplySchedulingParents hs entries parentStored =
     map_option (\<lambda>edges. map (\<lambda>e. e\<lparr> deSchedulingParentID := edges (deSessionID e) \<rparr>) entries) (BuildSchedulingParents hs entries parentStored)"

section \<open>Orbits of the edges\<close>

definition edge_rel :: "schedEdges \<Rightarrow> (string \<times> string) set" where
  "edge_rel edges = {(x, y). edges x = Some y}"

definition onCycle :: "schedEdges \<Rightarrow> string \<Rightarrow> bool" where
  "onCycle edges x \<longleftrightarrow> (x, x) \<in> (edge_rel edges)\<^sup>+"

definition closedUnder :: "schedEdges \<Rightarrow> string set \<Rightarrow> bool" where
  "closedUnder edges B \<longleftrightarrow> (\<forall>x \<in> B. \<forall>y. edges x = Some y \<longrightarrow> y \<in> B)"

lemma cycle_returns:
  assumes "onCycle edges x" and "(x, y) \<in> (edge_rel edges)\<^sup>*"
  shows "(y, x) \<in> (edge_rel edges)\<^sup>*"
  using assms(2)
proof (induction rule: rtrancl_induct)
  case (step y z)
  have "(y, x) \<in> (edge_rel edges)\<^sup>+" using step.IH assms(1) unfolding onCycle_def by simp
  then obtain w where "(y, w) \<in> edge_rel edges" "(w, x) \<in> (edge_rel edges)\<^sup>*" by (blast dest: tranclD)
  moreover have "w = z" using step.hyps(2) calculation(1) by (simp add: edge_rel_def)
  ultimately show ?case by simp
qed simp

lemma closed_reach:
  assumes "closedUnder edges B" and "(x, y) \<in> (edge_rel edges)\<^sup>*" and "x \<in> B"
  shows "y \<in> B"
  using assms(2,3) by (induction rule: rtrancl_induct) (use assms(1) in \<open>auto simp: closedUnder_def edge_rel_def\<close>)

lemma not_onCycle:
  assumes "closedUnder edges B" and "x \<notin> B" and "(x, y) \<in> (edge_rel edges)\<^sup>*" and "y \<in> B"
  shows "\<not> onCycle edges x"
  using closed_reach [OF assms(1) cycle_returns [OF _ assms(3)] assms(4)] assms(2) by blast

lemma not_onCycle_end:
  assumes "(x, y) \<in> (edge_rel edges)\<^sup>*" and "edges y = None"
  shows "\<not> onCycle edges x"
proof
  assume c: "onCycle edges x"
  then have "(y, y) \<in> (edge_rel edges)\<^sup>+" using cycle_returns [OF c assms(1)] assms(1) unfolding onCycle_def
    by (meson rtrancl_trancl_trancl trancl_rtrancl_trancl)
  then show False using assms(2) by (auto dest: tranclD simp: edge_rel_def)
qed

text \<open>A stack, top first, is a walk: each element's edge leads to the one above it.\<close>

fun walk :: "schedEdges \<Rightarrow> string list \<Rightarrow> bool" where
  "walk edges (x # y # ys) \<longleftrightarrow> edges y = Some x \<and> walk edges (y # ys)"
| "walk edges _ \<longleftrightarrow> True"

lemma walk_reach: "walk edges (x # ys) \<Longrightarrow> y \<in> set (x # ys) \<Longrightarrow> (y, x) \<in> (edge_rel edges)\<^sup>*"
proof (induction ys arbitrary: x)
  case (Cons z zs)
  then have zx: "(z, x) \<in> edge_rel edges" and w: "walk edges (z # zs)" by (auto simp: edge_rel_def)
  show ?case
  proof (cases "y = x")
    case False
    then have "(y, z) \<in> (edge_rel edges)\<^sup>*" using Cons.IH [OF w] Cons.prems(2) by simp
    then show ?thesis using zx by (rule rtrancl_into_rtrancl)
  qed simp
qed simp

lemma walk_append: "walk edges (xs @ ys) \<Longrightarrow> walk edges xs \<and> walk edges ys"
  by (induction edges xs rule: walk.induct) (auto, (cases ys; auto)+)

lemma walk_snoc: "walk edges xs \<Longrightarrow> xs \<noteq> [] \<Longrightarrow> edges v = Some (last xs) \<Longrightarrow> walk edges (xs @ [v])"
  by (induction edges xs rule: walk.induct) auto

lemma walk_hd: "walk edges xs \<Longrightarrow> x \<in> set xs \<Longrightarrow> x \<noteq> hd xs \<Longrightarrow> edges x = Some y \<Longrightarrow> y \<in> set xs"
  by (induction edges xs rule: walk.induct) (auto, metis option.inject)

lemma walk_cong: "(\<And>x. x \<in> set xs \<Longrightarrow> edges' x = edges x) \<Longrightarrow> walk edges xs = walk edges' xs"
  by (induction edges xs rule: walk.induct) auto

lemma clearCycle_at:
  "p \<in> set xs \<Longrightarrow> clearCycle p (xs @ ys) edges = (\<lambda>x. if x \<in> set (takeWhile (\<lambda>y. y \<noteq> p) xs) \<union> {p} then None else edges x)"
  by (induction xs arbitrary: edges) (auto simp: fun_eq_iff)

text \<open>
  A visit walks along the edges over nodes that are white, and stops at a node without an edge, at
  a finished node, or at a node of the stack, whose cycle loses its edges.
\<close>

lemma visit_walk:
  assumes "finite D" and "\<And>x. cyEdges st x \<noteq> None \<Longrightarrow> x \<in> D" and "card {x \<in> D. cyColor st x = White} < fuel" and "cyColor st v = White"
  shows "\<exists>xs st'. visit fuel v st = Some st' \<and> xs \<noteq> [] \<and> last xs = v \<and> walk (cyEdges st) xs \<and> distinct xs \<and> (\<forall>x \<in> set xs. cyColor st x = White) \<and>
    cyStack st' = cyStack st \<and> cyColor st' = (\<lambda>x. if x \<in> set xs then Black else cyColor st x) \<and>
    (cyEdges st (hd xs) = None \<and> cyEdges st' = cyEdges st \<or>
     (\<exists>p. cyEdges st (hd xs) = Some p \<and> cyColor st p = Black \<and> cyEdges st' = cyEdges st) \<or>
     (\<exists>p. cyEdges st (hd xs) = Some p \<and> (p \<in> set xs \<or> cyColor st p = Gray) \<and> cyEdges st' = clearCycle p (xs @ cyStack st) (cyEdges st)))"
  using assms
proof (induction fuel arbitrary: v st)
  case (Suc fuel)
  define st1 where "st1 = enterNode v st"
  have st1: "cyEdges st1 = cyEdges st" "cyStack st1 = v # cyStack st" "cyColor st1 = (cyColor st)(v := Gray)" by (simp_all add: st1_def enterNode_def)
  show ?case
  proof (cases "cyEdges st v")
    case None
    then show ?thesis using Suc.prems(4)
      by (intro exI [of _ "[v]"]) (auto simp: st1_def [symmetric] st1 leaveNode_def fun_eq_iff)
  next
    case (Some p)
    show ?thesis
    proof (cases "cyColor st1 p")
      case White
      then have p: "cyColor st p = White" "p \<noteq> v" using st1(3) by (auto split: if_splits)
      have "{x \<in> D. cyColor st1 x = White} = {x \<in> D. cyColor st x = White} - {v}" by (auto simp: st1(3))
      moreover have "v \<in> {x \<in> D. cyColor st x = White}" using Suc.prems(2,4) Some by simp
      ultimately have "card {x \<in> D. cyColor st1 x = White} < fuel" using Suc.prems(1,3) card_Diff1_less [of "{x \<in> D. cyColor st x = White}" v] by simp
      from Suc.IH [OF Suc.prems(1) _ this White] Suc.prems(2) obtain xs st2 where r: "visit fuel p st1 = Some st2" "xs \<noteq> []" "last xs = p"
        "walk (cyEdges st) xs" "distinct xs" "\<forall>x \<in> set xs. cyColor st1 x = White" "cyStack st2 = v # cyStack st"
        "cyColor st2 = (\<lambda>x. if x \<in> set xs then Black else cyColor st1 x)"
        and out: "cyEdges st (hd xs) = None \<and> cyEdges st2 = cyEdges st \<or>
          (\<exists>p. cyEdges st (hd xs) = Some p \<and> cyColor st1 p = Black \<and> cyEdges st2 = cyEdges st) \<or>
          (\<exists>p. cyEdges st (hd xs) = Some p \<and> (p \<in> set xs \<or> cyColor st1 p = Gray) \<and> cyEdges st2 = clearCycle p (xs @ v # cyStack st) (cyEdges st))"
        unfolding st1 by blast
      have v: "v \<notin> set xs" using r(6) by (auto simp: st1(3))
      have "visit (Suc fuel) v st = Some (leaveNode v st2)" using Some White r(1) by (simp add: st1_def [symmetric] st1)
      moreover have "walk (cyEdges st) (xs @ [v])" by (rule walk_snoc [OF r(4,2)]) (simp add: Some r(3))
      moreover have "\<forall>x \<in> set (xs @ [v]). cyColor st x = White" using r(6) Suc.prems(4) by (auto simp: st1(3) split: if_splits)
      moreover have "cyColor (leaveNode v st2) = (\<lambda>x. if x \<in> set (xs @ [v]) then Black else cyColor st x)"
        by (simp add: leaveNode_def r(8) st1(3) fun_eq_iff)
      moreover have "cyEdges st (hd (xs @ [v])) = None \<and> cyEdges (leaveNode v st2) = cyEdges st \<or>
          (\<exists>p. cyEdges st (hd (xs @ [v])) = Some p \<and> cyColor st p = Black \<and> cyEdges (leaveNode v st2) = cyEdges st) \<or>
          (\<exists>p. cyEdges st (hd (xs @ [v])) = Some p \<and> (p \<in> set (xs @ [v]) \<or> cyColor st p = Gray) \<and>
            cyEdges (leaveNode v st2) = clearCycle p ((xs @ [v]) @ cyStack st) (cyEdges st))"
        using out r(2) by (auto simp: leaveNode_def st1(3) split: if_splits)
      ultimately show ?thesis using r(5,7) v by (intro exI [of _ "xs @ [v]"] exI [of _ "leaveNode v st2"]) (simp add: leaveNode_def)
    next
      case Gray
      then have "p = v \<or> cyColor st p = Gray" by (auto simp: st1(3) split: if_splits)
      then show ?thesis using Some Gray Suc.prems(4)
        by (intro exI [of _ "[v]"]) (auto simp: st1_def [symmetric] st1 leaveNode_def fun_eq_iff)
    next
      case Black
      then have "cyColor st p = Black" by (auto simp: st1(3) split: if_splits)
      then show ?thesis using Some Black Suc.prems(4)
        by (intro exI [of _ "[v]"]) (auto simp: st1_def [symmetric] st1 leaveNode_def fun_eq_iff)
    qed
  qed
qed simp

text \<open>Between two visits the stack is empty, and the finished nodes are closed under the edges.\<close>

definition cycles_cut :: "schedEdges \<Rightarrow> cycleState \<Rightarrow> bool" where
  "cycles_cut E st \<longleftrightarrow> cyStack st = [] \<and> (\<forall>x. cyColor st x \<noteq> Gray) \<and> closedUnder E {x. cyColor st x = Black} \<and>
     (\<forall>x. cyEdges st x = (if cyColor st x = Black \<and> onCycle E x then None else E x))"

lemma cycles_cutD:
  assumes "cycles_cut E st"
  shows "cyStack st = []" and "cyColor st x \<noteq> Gray" and "closedUnder E {x. cyColor st x = Black}"
    and "cyEdges st x = (if cyColor st x = Black \<and> onCycle E x then None else E x)"
  using assms unfolding cycles_cut_def by blast+

lemma walk_into:
  assumes "walk E xs" and "xs \<noteq> []" and "x \<in> set xs"
  shows "(x, hd xs) \<in> (edge_rel E)\<^sup>*"
  using assms walk_reach [of E "hd xs" "tl xs" x] by (cases xs) auto

lemma closed_walk:
  assumes "closedUnder E B" and "walk E xs" and "xs \<noteq> []" and "\<And>y. E (hd xs) = Some y \<Longrightarrow> y \<in> set xs \<union> B"
  shows "closedUnder E (set xs \<union> B)"
  unfolding closedUnder_def
proof (intro ballI allI impI)
  fix x y assume x: "x \<in> set xs \<union> B" "E x = Some y"
  consider "x \<in> B" | "x = hd xs" | "x \<in> set xs" "x \<noteq> hd xs" using x(1) by blast
  then show "y \<in> set xs \<union> B"
  proof cases
    case 1
    then show ?thesis using assms(1) x(2) by (auto simp: closedUnder_def)
  next
    case 2
    then show ?thesis using assms(4) x(2) by simp
  next
    case 3
    then show ?thesis using walk_hd [OF assms(2) 3 x(2)] by simp
  qed
qed

text \<open>Of a walk whose end leads back into it, the nodes from there on are the ones on a cycle.\<close>

lemma walk_cycle:
  assumes w: "walk E xs" and "distinct xs" and p: "p \<in> set xs" and e: "E (hd xs) = Some p" and x: "x \<in> set xs"
  shows "onCycle E x \<longleftrightarrow> x \<in> set (takeWhile (\<lambda>y. y \<noteq> p) xs) \<union> {p}"
proof -
  obtain ys zs where sp: "xs = ys @ p # zs" "p \<notin> set ys" using split_list_first [OF p] by blast
  then have xs: "xs = (ys @ [p]) @ zs" by simp
  have ys: "takeWhile (\<lambda>y. y \<noteq> p) xs = ys" unfolding sp(1) using sp(2) by (subst takeWhile_append2) auto
  have hd: "hd (ys @ [p]) = hd xs" unfolding xs by (cases ys) simp_all
  have wc: "walk E (ys @ [p])" using walk_append [of E "ys @ [p]" zs] w unfolding xs by blast
  have round: "onCycle E c" if "c \<in> set (ys @ [p])" for c
  proof -
    note mem = that
    obtain as bs where ab: "ys @ [p] = as @ c # bs" using split_list [OF mem] by blast
    have "walk E (c # bs)" using walk_append [of E as "c # bs"] wc unfolding ab by blast
    moreover have "p \<in> set (c # bs)"
    proof -
      have "last (ys @ [p]) = last (c # bs)" unfolding ab by simp
      then show ?thesis using last_in_set [of "c # bs"] by simp
    qed
    ultimately have "(p, c) \<in> (edge_rel E)\<^sup>*" by (rule walk_reach)
    moreover have "(c, hd xs) \<in> (edge_rel E)\<^sup>*" using walk_into [OF wc _ mem] hd by simp
    moreover have "(hd xs, p) \<in> edge_rel E" using e by (simp add: edge_rel_def)
    ultimately show ?thesis unfolding onCycle_def by (meson rtrancl_into_trancl1 trancl_rtrancl_trancl)
  qed
  have out: "\<not> onCycle E x" if "x \<notin> set (ys @ [p])"
  proof (rule not_onCycle [OF _ that])
    have "closedUnder E (set (ys @ [p]) \<union> {})" by (rule closed_walk [OF _ wc]) (use hd e in \<open>auto simp: closedUnder_def\<close>)
    then show "closedUnder E (set (ys @ [p]))" by simp
    have "walk E (p # zs)" using walk_append [of E ys "p # zs"] w unfolding xs by simp
    then show "(x, p) \<in> (edge_rel E)\<^sup>*" by (rule walk_reach) (use x that in \<open>auto simp: xs\<close>)
  qed simp
  show ?thesis using round out unfolding ys by auto
qed

lemma visitWhite_cut:
  assumes cut: "cycles_cut E st" and D: "finite D" "\<And>x. E x \<noteq> None \<Longrightarrow> x \<in> D" "card D < fuel"
  shows "\<exists>st'. visitWhite fuel st v = Some st' \<and> cycles_cut E st' \<and> cyColor st' v = Black \<and> (\<forall>x. cyColor st x = Black \<longrightarrow> cyColor st' x = Black)"
proof (cases "cyColor st v = White")
  case False
  then have "cyColor st v = Black" using cycles_cutD(2) [OF cut] by (cases "cyColor st v") auto
  then show ?thesis using cut False by (intro exI [of _ st]) (simp add: visitWhite_def)
next
  case True
  note c = cycles_cutD [OF cut]
  let ?B = "{x. cyColor st x = Black}"
  have "card {x \<in> D. cyColor st x = White} < fuel" using D(1,3) card_mono [of D "{x \<in> D. cyColor st x = White}"] by auto
  moreover have "x \<in> D" if "cyEdges st x \<noteq> None" for x using that c(4) [of x] D(2) by (auto split: if_splits)
  ultimately obtain xs st' where r: "visit fuel v st = Some st'" "xs \<noteq> []" "last xs = v" "walk (cyEdges st) xs" "distinct xs" "\<forall>x \<in> set xs. cyColor st x = White"
    "cyStack st' = cyStack st" "cyColor st' = (\<lambda>x. if x \<in> set xs then Black else cyColor st x)"
    and out: "cyEdges st (hd xs) = None \<and> cyEdges st' = cyEdges st \<or>
     (\<exists>p. cyEdges st (hd xs) = Some p \<and> cyColor st p = Black \<and> cyEdges st' = cyEdges st) \<or>
     (\<exists>p. cyEdges st (hd xs) = Some p \<and> (p \<in> set xs \<or> cyColor st p = Gray) \<and> cyEdges st' = clearCycle p (xs @ cyStack st) (cyEdges st))"
    using visit_walk [OF D(1) _ _ True, of fuel] by blast
  have E: "cyEdges st x = E x" if "x \<in> set xs" for x using r(6) that c(4) [of x] by simp
  have w: "walk E xs" using r(4) by (subst walk_cong [where edges' = "cyEdges st"]) (simp_all add: E)
  have hd: "cyEdges st (hd xs) = E (hd xs)" using E r(2) by simp
  have rest: "cyEdges st' x = (if x \<in> set xs then (if onCycle E x then None else E x) else cyEdges st x)" for x
    using out
  proof (elim disjE exE conjE)
    assume e: "cyEdges st (hd xs) = None" "cyEdges st' = cyEdges st"
    have "\<not> onCycle E y" if "y \<in> set xs" for y using not_onCycle_end [OF walk_into [OF w r(2) that]] e(1) hd by simp
    then show ?thesis using e(2) E by simp
  next
    fix p assume e: "cyEdges st (hd xs) = Some p" "cyColor st p = Black" "cyEdges st' = cyEdges st"
    have "\<not> onCycle E y" if y: "y \<in> set xs" for y
    proof (rule not_onCycle [OF c(3)])
      show "y \<notin> ?B" using r(6) y by auto
      have "(hd xs, p) \<in> edge_rel E" using e(1) hd by (simp add: edge_rel_def)
      with walk_into [OF w r(2) y] show "(y, p) \<in> (edge_rel E)\<^sup>*" by (rule rtrancl_into_rtrancl)
    qed (use e(2) in simp)
    then show ?thesis using e(3) E by simp
  next
    fix p assume e: "cyEdges st (hd xs) = Some p" "p \<in> set xs" "cyEdges st' = clearCycle p (xs @ cyStack st) (cyEdges st)"
    note p = e(2)
    have "x \<in> set xs" if "x \<in> set (takeWhile (\<lambda>y. y \<noteq> p) xs) \<union> {p}" using that p set_takeWhileD by fastforce
    then show ?thesis using walk_cycle [OF w r(5) p, of x] e(1) hd E unfolding e(3) clearCycle_at [OF p] by auto
  next
    fix p assume "cyColor st p = Gray"
    then show ?thesis using c(2) [of p] by blast
  qed
  have "closedUnder E (set xs \<union> ?B)"
    by (rule closed_walk [OF c(3) w r(2)]) (use out hd c(2) in auto)
  moreover have "{x. cyColor st' x = Black} = set xs \<union> ?B" by (auto simp: r(8))
  moreover have "cyEdges st' x = (if cyColor st' x = Black \<and> onCycle E x then None else E x)" for x
    using rest [of x] c(4) [of x] by (simp add: r(8))
  ultimately have "cycles_cut E st'" using c(1,2) by (simp add: cycles_cut_def r(7,8))
  moreover have "cyColor st' v = Black" using r(2,3,8) by auto
  ultimately show ?thesis using r(1,8) True by (auto simp: visitWhite_def)
qed

lemma visitAll_cut:
  assumes "cycles_cut E st" and D: "finite D" "\<And>x. E x \<noteq> None \<Longrightarrow> x \<in> D" "card D < fuel"
  shows "\<exists>st'. visitAll fuel vs st = Some st' \<and> cycles_cut E st' \<and> (\<forall>x. x \<in> set vs \<or> cyColor st x = Black \<longrightarrow> cyColor st' x = Black)"
  using assms(1)
proof (induction vs arbitrary: st)
  case (Cons v vs)
  obtain st1 where st1: "visitWhite fuel st v = Some st1" "cycles_cut E st1" "cyColor st1 v = Black" "\<forall>x. cyColor st x = Black \<longrightarrow> cyColor st1 x = Black"
    using visitWhite_cut [OF Cons.prems D] by blast
  from Cons.IH [OF st1(2)] show ?case using st1 by auto
qed simp

lemma breakSchedulingCycles_exact:
  assumes "\<And>x. E x \<noteq> None \<Longrightarrow> x \<in> set (idsOf entries)"
  shows "breakSchedulingCycles entries E = Some (\<lambda>x. if onCycle E x then None else E x)"
proof -
  let ?st = "\<lparr> cyColor = \<lambda>_. White, cyStack = [], cyEdges = E \<rparr>"
  have start: "cycles_cut E ?st" by (simp add: cycles_cut_def closedUnder_def)
  have "card (set (idsOf entries)) < length entries + 1" using card_length [of "idsOf entries"] by simp
  then obtain st' where st': "visitAll (length entries + 1) (idsOf entries) ?st = Some st'" "cycles_cut E st'" "\<forall>x \<in> set (idsOf entries). cyColor st' x = Black"
    using visitAll_cut [OF start _ assms] by (metis List.finite_set)
  have "cyEdges st' x = (if onCycle E x then None else E x)" for x
  proof (cases "onCycle E x")
    case True
    then have "E x \<noteq> None" unfolding onCycle_def by (auto dest: tranclD simp: edge_rel_def)
    then have "cyColor st' x = Black" using assms st'(3) by blast
    then show ?thesis using cycles_cutD(4) [OF st'(2), of x] True by simp
  qed (simp add: cycles_cutD(4) [OF st'(2)])
  then show ?thesis using st'(1) by (simp add: breakSchedulingCycles_def fun_eq_iff)
qed

lemma fold_upd_other: "x \<notin> key ` set es \<Longrightarrow> fold (\<lambda>e m. m(key e := f e)) es m0 x = m0 x"
  by (induction es arbitrary: m0) auto

lemma fold_upd_at: "distinct (map key es) \<Longrightarrow> e \<in> set es \<Longrightarrow> fold (\<lambda>e m. m(key e := f e)) es m0 (key e) = f e"
  by (induction es arbitrary: m0) (auto simp: fold_upd_other image_iff)

lemma tentativeEdges_other: "x \<notin> set (idsOf entries) \<Longrightarrow> tentativeEdges hs entries stored x = None"
  unfolding tentativeEdges_def by (subst fold_upd_other) auto

lemma tentativeEdges_at:
  "distinct (idsOf entries) \<Longrightarrow> e \<in> set entries \<Longrightarrow> tentativeEdges hs entries stored (deSessionID e) = tentativeEdge hs (set (idsOf entries)) stored e"
  unfolding tentativeEdges_def by (rule fold_upd_at)

lemma BuildSchedulingParents_exact:
  "BuildSchedulingParents hs entries stored =
     Some (\<lambda>x. if onCycle (tentativeEdges hs entries stored) x then None else tentativeEdges hs entries stored x)"
  unfolding BuildSchedulingParents_def by (rule breakSchedulingCycles_exact) (metis tentativeEdges_other)

lemma cut_acyclic: "acyclic (edge_rel (\<lambda>x. if onCycle E x then None else E x))"
  unfolding acyclic_def
proof (intro allI notI)
  let ?F = "\<lambda>x. if onCycle E x then None else E x"
  fix x assume c: "(x, x) \<in> (edge_rel ?F)\<^sup>+"
  have "edge_rel ?F \<subseteq> edge_rel E" by (auto simp: edge_rel_def split: if_splits)
  then have "onCycle E x" using c trancl_mono unfolding onCycle_def by blast
  moreover obtain y where "(x, y) \<in> edge_rel ?F" using c by (blast dest: tranclD)
  ultimately show False by (simp add: edge_rel_def)
qed

section \<open>Dispatch\<close>

text \<open>
  The loop of \<open>Run\<close> over the admitted entries: an entry whose edge leads into the batch is a child,
  every other one a root; the logical parent of a root that is outside the batch is committed in
  the staging buffer before the workers start.
\<close>

record dispatch =
  dpChildren :: "string \<Rightarrow> string list"
  dpExternal :: "string set"
  dpRoots :: "DiffEntry list"

definition dispatchEntry :: "string set \<Rightarrow> DiffEntry \<Rightarrow> dispatch \<Rightarrow> dispatch" where
  "dispatchEntry inBatch e d =
     (let root = d\<lparr> dpExternal := dpExternal d \<union> (case deParentUUID e of None \<Rightarrow> {} | Some p \<Rightarrow> if p \<in> inBatch then {} else {p}),
                     dpRoots := dpRoots d @ [e] \<rparr>
      in case OperationalParentID e of
           None \<Rightarrow> root
         | Some parent \<Rightarrow>
             if parent \<in> inBatch then d\<lparr> dpChildren := (dpChildren d)(parent := dpChildren d parent @ [deSessionID e]) \<rparr>
             else root)"

definition dispatchEntries :: "DiffEntry list \<Rightarrow> dispatch" where
  "dispatchEntries entries =
     fold (dispatchEntry (set (idsOf entries))) entries \<lparr> dpChildren = \<lambda>_. [], dpExternal = {}, dpRoots = [] \<rparr>"

text \<open>
  The queue of one root's goroutine: the sessions below the root in the order in which they are
  processed. Each step takes one unit of fuel.
\<close>

fun walkQueue :: "nat \<Rightarrow> (string \<Rightarrow> string list) \<Rightarrow> string list \<Rightarrow> string list option" where
  "walkQueue fuel childrenOf [] = Some []"
| "walkQueue 0 childrenOf (child # queue) = None"
| "walkQueue (Suc fuel) childrenOf (child # queue) = map_option (Cons child) (walkQueue fuel childrenOf (queue @ childrenOf child))"

definition subtreeOrder :: "nat \<Rightarrow> (string \<Rightarrow> string list) \<Rightarrow> DiffEntry \<Rightarrow> string list option" where
  "subtreeOrder fuel childrenOf root = map_option (Cons (deSessionID root)) (walkQueue fuel childrenOf (childrenOf (deSessionID root)))"

definition dispatchOrders :: "DiffEntry list \<Rightarrow> string list list option" where
  "dispatchOrders entries = (let d = dispatchEntries entries in those (map (subtreeOrder (length entries) (dpChildren d)) (dpRoots d)))"

definition parentIn :: "string set \<Rightarrow> DiffEntry \<Rightarrow> string option" where
  "parentIn batch e = (case OperationalParentID e of None \<Rightarrow> None | Some p \<Rightarrow> if p \<in> batch then Some p else None)"

lemma dispatch_fold:
  "dpChildren (fold (dispatchEntry batch) es d) p = dpChildren d p @ [deSessionID e. e \<leftarrow> es, parentIn batch e = Some p]"
  "dpRoots (fold (dispatchEntry batch) es d) = dpRoots d @ [e \<leftarrow> es. parentIn batch e = None]"
  "dpExternal (fold (dispatchEntry batch) es d) = dpExternal d \<union> {p. p \<notin> batch \<and> (\<exists>e \<in> set es. parentIn batch e = None \<and> deParentUUID e = Some p)}"
  by (induction es arbitrary: d) (auto simp: dispatchEntry_def parentIn_def Let_def split: option.splits if_splits)

lemmas dispatch_parts =
  dispatch_fold [of "set (idsOf entries)" entries "\<lparr> dpChildren = \<lambda>_. [], dpExternal = {}, dpRoots = [] \<rparr>",
    folded dispatchEntries_def, simplified] for entries

lemma distinct_concat_map:
  assumes "distinct xs" and "\<And>x. x \<in> set xs \<Longrightarrow> distinct (f x)" and "\<And>x y. x \<in> set xs \<Longrightarrow> y \<in> set xs \<Longrightarrow> x \<noteq> y \<Longrightarrow> set (f x) \<inter> set (f y) = {}"
  shows "distinct (concat (map f xs))"
  using assms
proof (induction xs)
  case (Cons x xs)
  have "set (f x) \<inter> set (concat (map f xs)) = {}" using Cons.prems(1,3) by fastforce
  then show ?case using Cons by simp
qed simp

text \<open>
  The walk from a root over a forest: nothing is reached twice, what is reached is closed under
  children, and a parent comes before its children.
\<close>

lemma walkQueue_forest:
  assumes ch: "\<And>p. p \<in> set ids \<Longrightarrow> distinct (ch p) \<and> set (ch p) = {c \<in> set ids. par c = Some p}"
    and root: "par root = None" "root \<in> set seen"
    and ok: "distinct (seen @ q)" "set (seen @ q) \<subseteq> set ids" "\<And>c. c \<in> set seen \<Longrightarrow> set (ch c) \<subseteq> set (seen @ q)"
      "\<And>c. c \<in> set (seen @ q) \<Longrightarrow> c = root \<or> (\<exists>p \<in> set seen. par c = Some p)"
    and fuel: "length ids \<le> n + length seen" "distinct ids"
  shows "\<exists>out. walkQueue n ch q = Some out \<and> distinct (seen @ out) \<and> set (seen @ out) \<subseteq> set ids \<and> (\<forall>c \<in> set (seen @ out). set (ch c) \<subseteq> set (seen @ out)) \<and>
    (\<forall>i < length out. \<exists>p. par (out ! i) = Some p \<and> p \<in> set (seen @ take i out))"
  using root(2) ok fuel(1)
proof (induction n arbitrary: seen q)
  case 0
  have "length (seen @ q) \<le> length ids" using 0(2,3) by (metis card_mono distinct_card List.finite_set fuel(2))
  then have "length q = 0" using 0(6) unfolding length_append by linarith
  then have "q = []" by simp
  then show ?case using 0 by auto
next
  case (Suc n)
  show ?case
  proof (cases q)
    case Nil
    then show ?thesis using Suc.prems by auto
  next
    case (Cons c q')
    have c: "c \<in> set ids" "c \<notin> set seen" using Suc.prems(2,3) Cons by auto
    have fresh: "x \<notin> set (seen @ q)" if "x \<in> set (ch c)" for x
    proof
      assume "x \<in> set (seen @ q)"
      then have "x = root \<or> (\<exists>p \<in> set seen. par x = Some p)" by (rule Suc.prems(5))
      moreover have "par x = Some c" using that ch [OF c(1)] by simp
      ultimately show False using root(1) c(2) by auto
    qed
    have "\<exists>out. walkQueue n ch (q' @ ch c) = Some out \<and> distinct ((seen @ [c]) @ out) \<and> set ((seen @ [c]) @ out) \<subseteq> set ids \<and>
        (\<forall>d \<in> set ((seen @ [c]) @ out). set (ch d) \<subseteq> set ((seen @ [c]) @ out)) \<and>
        (\<forall>i < length out. \<exists>p. par (out ! i) = Some p \<and> p \<in> set ((seen @ [c]) @ take i out))"
    proof (rule Suc.IH)
      show "distinct ((seen @ [c]) @ q' @ ch c)" using Suc.prems(2) fresh ch [OF c(1)] Cons by auto
      show "set ((seen @ [c]) @ q' @ ch c) \<subseteq> set ids" using Suc.prems(3) ch [OF c(1)] Cons by auto
      show "set (ch d) \<subseteq> set ((seen @ [c]) @ q' @ ch c)" if "d \<in> set (seen @ [c])" for d using that Suc.prems(4) [of d] Cons by auto
      show "d = root \<or> (\<exists>p \<in> set (seen @ [c]). par d = Some p)" if "d \<in> set ((seen @ [c]) @ q' @ ch c)" for d
        using that Suc.prems(5) [of d] ch [OF c(1)] Cons by auto
    qed (use Suc.prems(1,6) in auto)
    then obtain out where out: "walkQueue n ch (q' @ ch c) = Some out" "distinct ((seen @ [c]) @ out)" "set ((seen @ [c]) @ out) \<subseteq> set ids"
      "\<forall>d \<in> set ((seen @ [c]) @ out). set (ch d) \<subseteq> set ((seen @ [c]) @ out)"
      "\<forall>i < length out. \<exists>p. par (out ! i) = Some p \<and> p \<in> set ((seen @ [c]) @ take i out)" by blast
    have "c \<noteq> root" using c(2) Suc.prems(1) by blast
    then obtain p where p: "p \<in> set seen" "par c = Some p" using Suc.prems(5) [of c] Cons by auto
    have "\<exists>p. par ((c # out) ! i) = Some p \<and> p \<in> set (seen @ take i (c # out))" if "i < length (c # out)" for i
    proof (cases i)
      case 0
      then show ?thesis using p by auto
    next
      case (Suc j)
      then show ?thesis using out(5) that by auto
    qed
    then show ?thesis using out(1-4) Cons by (intro exI [of _ "c # out"]) simp
  qed
qed

text \<open>The edges inside the batch.\<close>

definition innerEdges :: "schedEdges \<Rightarrow> string set \<Rightarrow> schedEdges" where
  "innerEdges edges batch x = (if x \<in> batch then (case edges x of None \<Rightarrow> None | Some p \<Rightarrow> if p \<in> batch then Some p else None) else None)"

lemma innerEdges_parent: "innerEdges edges batch x = Some p \<longleftrightarrow> x \<in> batch \<and> edges x = Some p \<and> p \<in> batch"
  by (auto simp: innerEdges_def split: option.splits if_splits)

lemma inner_acyclic: "acyclic (edge_rel edges) \<Longrightarrow> acyclic (edge_rel (innerEdges edges batch))"
  by (erule acyclic_subset) (auto simp: edge_rel_def innerEdges_parent)

lemma inner_wf:
  assumes "acyclic (edge_rel edges)" and "finite batch"
  shows "wf {(p, x). innerEdges edges batch x = Some p}"
proof -
  have "edge_rel (innerEdges edges batch) \<subseteq> batch \<times> batch" by (auto simp: edge_rel_def innerEdges_parent)
  then have "finite (edge_rel (innerEdges edges batch))" using assms(2) finite_subset by blast
  then have "wf ((edge_rel (innerEdges edges batch))\<inverse>)" using inner_acyclic [OF assms(1)] by (rule finite_acyclic_wf_converse)
  moreover have "(edge_rel (innerEdges edges batch))\<inverse> = {(p, x). innerEdges edges batch x = Some p}" by (auto simp: edge_rel_def)
  ultimately show ?thesis by simp
qed

definition below :: "schedEdges \<Rightarrow> string \<Rightarrow> string set" where
  "below par root = {x. (x, root) \<in> (edge_rel par)\<^sup>*}"

lemma one_root:
  assumes "(x, r) \<in> (edge_rel par)\<^sup>*" and "(x, r') \<in> (edge_rel par)\<^sup>*" and "par r = None" and "par r' = None"
  shows "r = r'"
  using assms(1,2)
proof (induction rule: converse_rtrancl_induct)
  case base
  then show ?case using assms(3) by (auto elim: converse_rtranclE simp: edge_rel_def)
next
  case (step x y)
  from step.prems have "(y, r') \<in> (edge_rel par)\<^sup>*"
  proof (cases rule: converse_rtranclE)
    case base
    then show ?thesis using step.hyps(1) assms(4) by (simp add: edge_rel_def)
  next
    case (step z)
    moreover have "z = y" using step(1) \<open>(x, y) \<in> edge_rel par\<close> by (simp add: edge_rel_def)
    ultimately show ?thesis by simp
  qed
  then show ?case by (rule step.IH)
qed

lemma has_root:
  assumes "wf {(p, x). par x = Some p}" and "\<And>x p. par x = Some p \<Longrightarrow> p \<in> batch" and "x \<in> batch"
  shows "\<exists>r \<in> batch. par r = None \<and> x \<in> below par r"
  using assms(1,3)
proof (induction x rule: wf_induct_rule)
  case (less x)
  show ?case
  proof (cases "par x")
    case None
    then show ?thesis using less.prems by (auto simp: below_def)
  next
    case (Some p)
    then obtain r where r: "r \<in> batch" "par r = None" "(p, r) \<in> (edge_rel par)\<^sup>*" using less.IH [of p] assms(2) by (auto simp: below_def)
    have "(x, p) \<in> edge_rel par" using Some by (simp add: edge_rel_def)
    then show ?thesis using r by (auto simp: below_def intro: converse_rtrancl_into_rtrancl)
  qed
qed

text \<open>The order of one root's goroutine.\<close>

lemma subtreeOrder_below:
  assumes ch: "\<And>p. p \<in> set ids \<Longrightarrow> distinct (ch p) \<and> set (ch p) = {c. par c = Some p}" and par: "\<And>c p. par c = Some p \<Longrightarrow> c \<in> set ids \<and> p \<in> set ids"
    and root: "deSessionID r \<in> set ids" "par (deSessionID r) = None" and ids: "distinct ids"
  shows "\<exists>order. subtreeOrder (length ids) ch r = Some order \<and> distinct order \<and> set order = below par (deSessionID r) \<and>
    (\<forall>c \<in> set order. \<forall>p. par c = Some p \<longrightarrow> (\<exists>xs ys zs. order = xs @ p # ys @ c # zs))"
proof -
  let ?r = "deSessionID r"
  have ch': "distinct (ch p) \<and> set (ch p) = {c \<in> set ids. par c = Some p}" if "p \<in> set ids" for p using ch [OF that] par by auto
  have fresh: "?r \<notin> set (ch ?r)" using ch [OF root(1)] root(2) by auto
  have "\<exists>out. walkQueue (length ids) ch (ch ?r) = Some out \<and> distinct ([?r] @ out) \<and> set ([?r] @ out) \<subseteq> set ids \<and>
      (\<forall>c \<in> set ([?r] @ out). set (ch c) \<subseteq> set ([?r] @ out)) \<and> (\<forall>i < length out. \<exists>p. par (out ! i) = Some p \<and> p \<in> set ([?r] @ take i out))"
    by (rule walkQueue_forest [OF ch' root(2)]) (use ch' [OF root(1)] root fresh ids in auto)
  then obtain out where out: "walkQueue (length ids) ch (ch ?r) = Some out" "distinct ([?r] @ out)" "set ([?r] @ out) \<subseteq> set ids"
    "\<forall>c \<in> set ([?r] @ out). set (ch c) \<subseteq> set ([?r] @ out)" "\<forall>i < length out. \<exists>p. par (out ! i) = Some p \<and> p \<in> set ([?r] @ take i out)" by blast
  have "c \<in> below par ?r" if "i < length out" "c = out ! i" for c i
    using that
  proof (induction i arbitrary: c rule: less_induct)
    case (less i)
    obtain p where p: "par c = Some p" "p \<in> set ([?r] @ take i out)" using out(5) less.prems by blast
    have "p \<in> below par ?r"
    proof (cases "p = ?r")
      case False
      then obtain j where "j < i" "j < length out" "out ! j = p" using p(2) by (auto simp: in_set_conv_nth)
      then show ?thesis using less.IH by blast
    qed (simp add: below_def)
    then show ?case using p(1) by (auto simp: below_def edge_rel_def intro: converse_rtrancl_into_rtrancl)
  qed
  then have "set (?r # out) \<subseteq> below par ?r" by (auto simp: in_set_conv_nth below_def)
  moreover have "x \<in> set (?r # out)" if "x \<in> below par ?r" for x
  proof -
    from that have "(x, ?r) \<in> (edge_rel par)\<^sup>*" by (simp add: below_def)
    then show ?thesis
    proof (induction rule: converse_rtrancl_induct)
      case (step x y)
      then have "par x = Some y" "y \<in> set ids" using par by (auto simp: edge_rel_def)
      then show ?case using ch [of y] out(4) step.IH by auto
    qed simp
  qed
  moreover have "\<exists>xs ys zs. ?r # out = xs @ p # ys @ c # zs" if c: "c \<in> set (?r # out)" and p: "par c = Some p" for c p
  proof -
    have "c \<noteq> ?r" using p root(2) by auto
    then obtain i where i: "i < length out" "out ! i = c" using c by (auto simp: in_set_conv_nth)
    then have "p \<in> set (?r # take i out)" using out(5) p by auto
    then obtain xs ys where "?r # take i out = xs @ p # ys" by (meson split_list)
    moreover have "out = take i out @ c # drop (Suc i) out" using i by (metis id_take_nth_drop)
    ultimately have "?r # out = xs @ p # ys @ c # drop (Suc i) out" by (metis append.assoc append_Cons)
    then show ?thesis by blast
  qed
  moreover have "subtreeOrder (length ids) ch r = Some (?r # out)" using out(1) by (simp add: subtreeOrder_def)
  moreover have "distinct (?r # out)" using out(2) by simp
  ultimately show ?thesis by blast
qed

lemma those_map: "(\<And>x. x \<in> set xs \<Longrightarrow> f x = Some (g x)) \<Longrightarrow> those (map f xs) = Some (map g xs)"
  by (induction xs) auto

lemma filter_key:
  "(\<And>e. e \<in> set es \<Longrightarrow> f e = g (deSessionID e)) \<Longrightarrow> [deSessionID e. e \<leftarrow> es, f e = Some p] = [c \<leftarrow> idsOf es. g c = Some p]"
  by (induction es) auto

lemma dispatch_forest:
  assumes ids: "distinct (idsOf es)" and op: "\<And>e. e \<in> set es \<Longrightarrow> OperationalParentID e = edges (deSessionID e)" and "acyclic (edge_rel edges)"
  shows "\<exists>orders. dispatchOrders es = Some orders \<and> distinct (concat orders) \<and> set (concat orders) = set (idsOf es) \<and>
    (\<forall>c p. innerEdges edges (set (idsOf es)) c = Some p \<longrightarrow> (\<exists>order \<in> set orders. \<exists>xs ys zs. order = xs @ p # ys @ c # zs))"
proof -
  let ?batch = "set (idsOf es)" and ?ch = "dpChildren (dispatchEntries es)" and ?roots = "dpRoots (dispatchEntries es)"
  define par where "par = innerEdges edges ?batch"
  have par: "parentIn ?batch e = par (deSessionID e)" if "e \<in> set es" for e
    using op [OF that] that by (auto simp: parentIn_def par_def innerEdges_def split: option.split)
  have closed: "c \<in> ?batch \<and> p \<in> ?batch" if "par c = Some p" for c p using that unfolding par_def innerEdges_parent by blast
  have ch: "distinct (?ch p) \<and> set (?ch p) = {c. par c = Some p}" for p
  proof -
    have "[deSessionID e. e \<leftarrow> es, parentIn ?batch e = Some p] = [c \<leftarrow> idsOf es. par c = Some p]"
      by (rule filter_key) (rule par)
    then have "?ch p = [c \<leftarrow> idsOf es. par c = Some p]" by (simp add: dispatch_parts)
    then show ?thesis using ids closed by auto
  qed
  have roots: "?roots = [e \<leftarrow> es. par (deSessionID e) = None]" using par by (auto simp: dispatch_parts intro: filter_cong)
  have "\<exists>order. subtreeOrder (length es) ?ch r = Some order \<and> distinct order \<and> set order = below par (deSessionID r) \<and>
      (\<forall>c \<in> set order. \<forall>p. par c = Some p \<longrightarrow> (\<exists>xs ys zs. order = xs @ p # ys @ c # zs))" if "r \<in> set ?roots" for r
    unfolding length_map [of deSessionID es, symmetric] by (rule subtreeOrder_below [OF ch closed _ _ ids]) (use that in \<open>auto simp: roots\<close>)
  then have "\<forall>r \<in> set ?roots. \<exists>order. subtreeOrder (length es) ?ch r = Some order \<and> distinct order \<and> set order = below par (deSessionID r) \<and>
      (\<forall>c \<in> set order. \<forall>p. par c = Some p \<longrightarrow> (\<exists>xs ys zs. order = xs @ p # ys @ c # zs))" by blast
  from bchoice [OF this] obtain order where order: "\<And>r. r \<in> set ?roots \<Longrightarrow>
      subtreeOrder (length es) ?ch r = Some (order r) \<and> distinct (order r) \<and> set (order r) = below par (deSessionID r) \<and>
      (\<forall>c \<in> set (order r). \<forall>p. par c = Some p \<longrightarrow> (\<exists>xs ys zs. order r = xs @ p # ys @ c # zs))" by blast
  have orders: "dispatchOrders es = Some (map order ?roots)" unfolding dispatchOrders_def Let_def by (rule those_map) (use order in blast)
  have apart: "set (order r) \<inter> set (order r') = {}" if "r \<in> set ?roots" "r' \<in> set ?roots" "r \<noteq> r'" for r r'
  proof -
    have "deSessionID r \<noteq> deSessionID r'" using that ids unfolding roots by (auto simp: distinct_map dest: inj_onD)
    then show ?thesis using order [OF that(1)] order [OF that(2)] one_root [of _ "deSessionID r" par "deSessionID r'"] that unfolding roots
      by (auto simp: below_def)
  qed
  have "distinct ?roots" using ids unfolding roots by (simp add: distinct_map)
  then have dist: "distinct (concat (map order ?roots))" using order apart by (intro distinct_concat_map) blast+
  have wf: "wf {(p, x). par x = Some p}" unfolding par_def by (rule inner_wf [OF assms(3)]) simp
  have up: "\<exists>e \<in> set ?roots. x \<in> set (order e)" if "x \<in> ?batch" for x
  proof -
    have "\<exists>r \<in> ?batch. par r = None \<and> x \<in> below par r" by (rule has_root [OF wf _ that]) (use closed in blast)
    then obtain r where r: "r \<in> ?batch" "par r = None" "x \<in> below par r" by blast
    then obtain e where "e \<in> set ?roots" "deSessionID e = r" unfolding roots by auto
    then show ?thesis using order r(3) by blast
  qed
  have into: "set (order e) \<subseteq> ?batch" if e: "e \<in> set ?roots" for e
  proof
    fix x assume "x \<in> set (order e)"
    then have "(x, deSessionID e) \<in> (edge_rel par)\<^sup>*" using order [OF e] by (simp add: below_def)
    then show "x \<in> ?batch" by (cases rule: converse_rtranclE) (use e closed in \<open>auto simp: roots edge_rel_def\<close>)
  qed
  have all: "set (concat (map order ?roots)) = ?batch"
  proof (rule equalityI; rule subsetI)
    fix x assume "x \<in> set (concat (map order ?roots))"
    then obtain e where "e \<in> set ?roots" "x \<in> set (order e)" by (auto simp del: list.set_map)
    then show "x \<in> ?batch" by (rule subsetD [OF into])
  next
    fix x assume "x \<in> ?batch"
    from up [OF this] show "x \<in> set (concat (map order ?roots))" by auto
  qed
  have "\<exists>ord \<in> set (map order ?roots). \<exists>xs ys zs. ord = xs @ p # ys @ c # zs" if "par c = Some p" for c p
    using up [of c] closed [OF that] order that by (metis imageI set_map)
  then show ?thesis using orders dist all unfolding par_def by blast
qed

section \<open>Properties\<close>

lemma tentativeEdge_iff:
  "tentativeEdge hs cohort stored e = Some p \<longleftrightarrow>
     deParentUUID e = Some p \<and> p \<noteq> deSessionID e \<and> (p \<in> cohort \<or> IndependentAdmissionHarness hs (deHarness e) \<and> p \<in> stored)"
  by (auto simp: tentativeEdge_def split: option.splits if_splits)

lemma ApplySchedulingParents_edges:
  assumes "distinct (idsOf entries)"
  obtains es edges where "ApplySchedulingParents hs entries stored = Some es" and "idsOf es = idsOf entries" and "acyclic (edge_rel edges)"
    and "\<And>e. e \<in> set es \<Longrightarrow> OperationalParentID e = edges (deSessionID e)" and "\<And>e p. e \<in> set es \<Longrightarrow> OperationalParentID e = Some p \<Longrightarrow> deParentUUID e = Some p"
proof -
  define edges where "edges = (\<lambda>x. if onCycle (tentativeEdges hs entries stored) x then None else tentativeEdges hs entries stored x)"
  let ?es = "map (\<lambda>e. e\<lparr> deSchedulingParentID := edges (deSessionID e) \<rparr>) entries"
  have "ApplySchedulingParents hs entries stored = Some ?es" by (simp add: ApplySchedulingParents_def BuildSchedulingParents_exact edges_def)
  moreover have "idsOf ?es = idsOf entries" by (simp add: comp_def)
  moreover have "acyclic (edge_rel edges)" unfolding edges_def by (rule cut_acyclic)
  moreover have "OperationalParentID e = edges (deSessionID e)" if "e \<in> set ?es" for e using that by (auto simp: OperationalParentID_def)
  moreover have "deParentUUID e = Some p" if "e \<in> set ?es" "OperationalParentID e = Some p" for e p
  proof -
    from that(1) obtain e0 where e0: "e0 \<in> set entries" "e = e0\<lparr> deSchedulingParentID := edges (deSessionID e0) \<rparr>" by auto
    then have "tentativeEdges hs entries stored (deSessionID e0) = Some p" using that(2) by (simp add: OperationalParentID_def edges_def split: if_splits)
    then show ?thesis using tentativeEdges_at [OF assms e0(1)] e0(2) by (simp add: tentativeEdge_iff)
  qed
  ultimately show ?thesis using that by blast
qed

text \<open>
  C22: The scheduling edges. They are always built; a session keeps the edge to its logical parent
  exactly when the parent is another session that is in the cohort, or is stored and the
  session's harness admits children on their own, unless the session lies on a cycle of such
  edges; and the edges that are left have no cycle.
\<close>

theorem BuildSchedulingParents_edges:
  assumes "distinct (idsOf entries)"
  shows "\<exists>edges. BuildSchedulingParents hs entries stored = Some edges \<and> acyclic {(x, y). edges x = Some y} \<and>
    (\<forall>e \<in> set entries. \<forall>p. edges (deSessionID e) = Some p \<longleftrightarrow>
       deParentUUID e = Some p \<and> p \<noteq> deSessionID e \<and> (p \<in> set (idsOf entries) \<or> IndependentAdmissionHarness hs (deHarness e) \<and> p \<in> stored) \<and>
       (deSessionID e, deSessionID e) \<notin> {(x, y). tentativeEdges hs entries stored x = Some y}\<^sup>+)"
proof (intro exI conjI ballI allI)
  let ?T = "tentativeEdges hs entries stored" and ?F = "\<lambda>x. if onCycle (tentativeEdges hs entries stored) x then None else tentativeEdges hs entries stored x"
  show "BuildSchedulingParents hs entries stored = Some ?F" by (rule BuildSchedulingParents_exact)
  show "acyclic {(x, y). ?F x = Some y}" using cut_acyclic [of ?T] by (simp only: edge_rel_def)
  fix e p assume e: "e \<in> set entries"
  have "?F (deSessionID e) = Some p \<longleftrightarrow> ?T (deSessionID e) = Some p \<and> \<not> onCycle ?T (deSessionID e)" by simp
  then show "?F (deSessionID e) = Some p \<longleftrightarrow>
       deParentUUID e = Some p \<and> p \<noteq> deSessionID e \<and> (p \<in> set (idsOf entries) \<or> IndependentAdmissionHarness hs (deHarness e) \<and> p \<in> stored) \<and>
       (deSessionID e, deSessionID e) \<notin> {(x, y). ?T x = Some y}\<^sup>+"
    unfolding tentativeEdges_at [OF assms e] tentativeEdge_iff onCycle_def edge_rel_def by blast
qed


text \<open>Three sessions: two that name each other as parents, and a child of one of them.\<close>

definition exampleHarnesses :: schemaHarnesses where
  "exampleHarnesses = \<lparr> HarnessCodex = ''codex'', HarnessOpenCode = ''opencode'' \<rparr>"

definition exampleScheduled :: "DiffEntry list" where
  "exampleScheduled =
     [\<lparr> deSessionID = ''c'', deHarness = ''codex'', deParentUUID = Some ''a'', deSchedulingParentID = None \<rparr>,
      \<lparr> deSessionID = ''a'', deHarness = ''codex'', deParentUUID = Some ''b'', deSchedulingParentID = None \<rparr>,
      \<lparr> deSessionID = ''b'', deHarness = ''codex'', deParentUUID = Some ''a'', deSchedulingParentID = None \<rparr>]"

theorem BuildSchedulingParents_edges_witness:
  "\<exists>edges. BuildSchedulingParents exampleHarnesses exampleScheduled {} = Some edges \<and> acyclic {(x, y). edges x = Some y}"
  using BuildSchedulingParents_edges [of exampleScheduled exampleHarnesses "{}"] by (fastforce simp: exampleScheduled_def)


end
