(* ===== verification/Ingest_Run.thy ===== *)
theory Ingest_Run
  imports Staging Scheduling "HOL-Library.Multiset"
begin

text \<open>
  The extraction stage of \<open>Run\<close> in \<open>internal/ingest/pipeline.go\<close>, composed of its parts: the
  queues of the roots process every admitted entry, each result gets the scheduling edge of its
  entry and is staged, and the drainer commits or fails what it took. The theory shows that the
  drainer never finds only waiting children. \<open>processSession\<close> is an argument. The staging buffer
  lets all calls of \<open>Add\<close> start at any time; the goroutine of a root makes them one after the other,
  which is one of the interleavings.
\<close>

section \<open>Results to stage\<close>

definition zeroDiffEntry :: DiffEntry where
  "zeroDiffEntry = \<lparr> deSessionID = [], deHarness = [], deParentUUID = None, deSchedulingParentID = None \<rparr>"

text \<open>A Go map: the last entry of an identifier, the zero value for none.\<close>

definition entryByID :: "DiffEntry list \<Rightarrow> string \<Rightarrow> DiffEntry" where
  "entryByID entries sid = (case find (\<lambda>e. deSessionID e = sid) (rev entries) of None \<Rightarrow> zeroDiffEntry | Some e \<Rightarrow> e)"

definition extractOne :: "(DiffEntry \<Rightarrow> workerResult) \<Rightarrow> DiffEntry \<Rightarrow> workerResult" where
  "extractOne processSession e = (processSession e)\<lparr> wrSchedulingParent := OperationalParentID e, wrResolved := True \<rparr>"

definition ingestRun :: "(DiffEntry \<Rightarrow> workerResult) \<Rightarrow> nat \<Rightarrow> DiffEntry list \<Rightarrow> stagingRun option" where
  "ingestRun processSession arenaSize entries =
     map_option (\<lambda>orders. \<lparr> rnAdds = map (\<lambda>sid. extractOne processSession (entryByID entries sid)) (concat orders),
         rnCapacity = length entries + 1, rnArenaSize = arenaSize \<rparr>) (dispatchOrders entries)"

text \<open>
  Before the workers start the parents outside the batch are committed, and after each \<open>Drain\<close> every
  session of the batch is committed or failed before the next one: no slot was taken whose session
  is in neither set.
\<close>

definition settledTaken :: "DiffEntry list \<Rightarrow> stagingState \<Rightarrow> bool" where
  "settledTaken entries s \<longleftrightarrow> dpExternal (dispatchEntries entries) \<subseteq> sbCommitted s \<and>
     (\<forall>k < sbCount s. sbState s ! k \<in> {2, 3} \<longrightarrow> wrSession (seResult (sbSlots s ! k)) \<in> sbCommitted s \<union> sbFailed s)"

lemma entryByID_at:
  assumes "distinct (idsOf entries)" and "e \<in> set entries"
  shows "entryByID entries (deSessionID e) = e"
proof (cases "find (\<lambda>d. deSessionID d = deSessionID e) (rev entries)")
  case None
  then show ?thesis using assms(2) by (auto simp: find_None_iff)
next
  case (Some d)
  then obtain i where "i < length (rev entries)" "d = rev entries ! i" "deSessionID d = deSessionID e" by (auto simp: find_Some_iff)
  then have "d \<in> set entries" "deSessionID d = deSessionID e" using nth_mem [of i "rev entries"] by auto
  then have "d = e" using assms by (auto simp: distinct_map dest: inj_onD)
  then show ?thesis using Some by (simp add: entryByID_def)
qed

lemma added_slot:
  assumes "NewStagingBuffer run = Some s0" and "(stage_step run)\<^sup>*\<^sup>* s0 s" and "i < length (rnAdds run)" and "sbProducers s ! i = Added k"
  shows "k < sbCount s" and "sbState s ! k \<in> {1, 2, 3}" and "wrSession (seResult (sbSlots s ! k)) = wrSession (rnAdds run ! i)"
    and "wrResolved (seResult (sbSlots s ! k)) = wrResolved (rnAdds run ! i)"
    and "wrSchedulingParent (seResult (sbSlots s ! k)) = wrSchedulingParent (rnAdds run ! i)"
proof -
  note r = reachable_stage [OF assms(1,2)]
  show "k < sbCount s" using slot_invD(5) [OF r(1) assms(3)] assms(4) by simp
  show "sbState s ! k \<in> {1, 2, 3}" using slot_invD(4) [OF r(1) assms(3)] assms(4) by simp
  have "entry_ok run s i k" using r(3) assms(3,4) by (metis data_inv_def data_ok.simps(9))
  then show "wrSession (seResult (sbSlots s ! k)) = wrSession (rnAdds run ! i)" "wrResolved (seResult (sbSlots s ! k)) = wrResolved (rnAdds run ! i)"
    "wrSchedulingParent (seResult (sbSlots s ! k)) = wrSchedulingParent (rnAdds run ! i)"
    by (simp_all add: entry_ok_def placed_def Let_def)
qed

text \<open>What the run stages: one result for each entry, with its edge.\<close>

lemma ingestRun_adds:
  assumes "distinct (idsOf es)" and "\<forall>e \<in> set es. OperationalParentID e = edges (deSessionID e)" and "acyclic (edge_rel edges)"
    and "ingestRun processSession arenaSize es = Some run" and "\<forall>e. wrSession (processSession e) = deSessionID e"
  shows "mset (map wrSession (rnAdds run)) = mset (idsOf es)" and "rnCapacity run = length es + 1"
    and "e \<in> set es \<Longrightarrow> \<exists>i < length (rnAdds run). rnAdds run ! i = extractOne processSession e"
    and "i < length (rnAdds run) \<Longrightarrow> \<exists>e \<in> set es. rnAdds run ! i = extractOne processSession e"
proof -
  obtain orders where o: "dispatchOrders es = Some orders" "distinct (concat orders)" "set (concat orders) = set (idsOf es)"
    using dispatch_forest [of es edges] assms(1-3) by blast
  have run: "run = \<lparr> rnAdds = map (\<lambda>sid. extractOne processSession (entryByID es sid)) (concat orders), rnCapacity = length es + 1, rnArenaSize = arenaSize \<rparr>"
    using assms(4) o(1) by (simp add: ingestRun_def)
  show "rnCapacity run = length es + 1" by (simp add: run)
  have m: "mset (concat orders) = mset (idsOf es)" using o(2,3) assms(1) set_eq_iff_mset_eq_distinct by metis
  have "wrSession (extractOne processSession (entryByID es sid)) = sid" if sid: "sid \<in> set (concat orders)" for sid
  proof -
    from sid o(3) obtain e where "e \<in> set es" "sid = deSessionID e" by auto
    then show ?thesis using entryByID_at [OF assms(1)] assms(5) by (simp add: extractOne_def)
  qed
  then have "map wrSession (rnAdds run) = concat orders" unfolding run by (simp add: map_idI comp_def del: set_concat)
  then show "mset (map wrSession (rnAdds run)) = mset (idsOf es)" using m by simp
  show "\<exists>i < length (rnAdds run). rnAdds run ! i = extractOne processSession e" if e: "e \<in> set es"
  proof -
    have "deSessionID e \<in> set (concat orders)" using o(3) e by auto
    then obtain i where i: "i < length (concat orders)" "concat orders ! i = deSessionID e" by (metis in_set_conv_nth)
    then show ?thesis using entryByID_at [OF assms(1) e] unfolding run by (intro exI [of _ i]) (simp del: length_concat)
  qed
  show "\<exists>e \<in> set es. rnAdds run ! i = extractOne processSession e" if i: "i < length (rnAdds run)"
  proof -
    have "concat orders ! i \<in> set (concat orders)" using i unfolding run by (intro nth_mem) simp
    then obtain e where e: "e \<in> set es" "concat orders ! i = deSessionID e" using o(3) by auto
    then show ?thesis using entryByID_at [OF assms(1) e(1)] i unfolding run by (intro bexI [of _ e]) (simp_all del: length_concat)
  qed
qed

text \<open>A slot that holds the result of an entry.\<close>

definition holdsEntry :: "stagingState \<Rightarrow> DiffEntry \<Rightarrow> nat \<Rightarrow> bool" where
  "holdsEntry s e k \<longleftrightarrow> k < sbCount s \<and> sbState s ! k \<in> {1, 2, 3} \<and> wrSession (seResult (sbSlots s ! k)) = deSessionID e \<and>
     wrResolved (seResult (sbSlots s ! k)) \<and> wrSchedulingParent (seResult (sbSlots s ! k)) = OperationalParentID e"

text \<open>From a staged child the edges lead to an entry that may be taken.\<close>

lemma eligible_up:
  assumes "acyclic (edge_rel edges)" and op: "\<And>e. e \<in> set es \<Longrightarrow> OperationalParentID e = edges (deSessionID e)"
    and logical: "\<And>e p. e \<in> set es \<Longrightarrow> OperationalParentID e = Some p \<Longrightarrow> deParentUUID e = Some p"
    and slot: "\<And>e. e \<in> set es \<Longrightarrow> \<exists>k. holdsEntry s e k" and settled: "settledTaken es s"
    and "e \<in> set es" and "holdsEntry s e k" and "sbState s ! k = 1" and "x = deSessionID e"
  shows "\<exists>k < sbCount s. sbState s ! k = 1 \<and> isEligible s (seResult (sbSlots s ! k))"
  using inner_wf [OF assms(1) List.finite_set [of "idsOf es"]] assms(6-9)
proof (induction x arbitrary: e k rule: wf_induct_rule)
  case (less x)
  have here: ?case if "parentSettled s (OperationalParentID e)"
    using less.prems that by (intro exI [of _ k]) (simp add: isEligible_def holdsEntry_def)
  show ?case
  proof (cases "OperationalParentID e")
    case None
    then show ?thesis by (intro here) (simp add: parentSettled_def)
  next
    case (Some p)
    show ?thesis
    proof (cases "p \<in> set (idsOf es)")
      case False
      then have "parentIn (set (idsOf es)) e = None" using Some by (simp add: parentIn_def)
      then have "p \<in> dpExternal (dispatchEntries es)" using less.prems(1) logical [OF less.prems(1) Some] False unfolding dispatch_parts set_map by blast
      then show ?thesis using settled Some by (intro here) (auto simp: parentSettled_def settledTaken_def)
    next
      case True
      then obtain d where d: "d \<in> set es" "deSessionID d = p" by auto
      from slot [OF d(1)] obtain j where j: "holdsEntry s d j" by blast
      show ?thesis
      proof (cases "sbState s ! j = 1")
        case ready: True
        have "innerEdges edges (set (idsOf es)) x = Some p" unfolding innerEdges_parent using less.prems(1,4) op [OF less.prems(1)] Some True by simp
        then have "(p, x) \<in> {(p, x). innerEdges edges (set (idsOf es)) x = Some p}" by blast
        from less.IH [OF this d(1) j ready d(2) [symmetric]] show ?thesis .
      next
        case False
        then have "p \<in> sbCommitted s \<union> sbFailed s" using settled j d(2) by (auto simp: settledTaken_def holdsEntry_def)
        then show ?thesis using Some by (intro here) (auto simp: parentSettled_def)
      qed
    qed
  qed
qed


text \<open>One session without a parent, in the example run of the staging buffer.\<close>

definition exampleEntry :: DiffEntry where
  "exampleEntry = \<lparr> deSessionID = ''s'', deHarness = ''codex'', deParentUUID = None, deSchedulingParentID = None \<rparr>"

definition exampleProcess :: "DiffEntry \<Rightarrow> workerResult" where
  "exampleProcess e =
     \<lparr> wrSession = deSessionID e, wrResolved = False, wrSchedulingParent = None, wrMetaParent = None, wrTranscript = Own ''abc'', wrArtifact = None \<rparr>"

lemma example_apply: "ApplySchedulingParents exampleHarnesses [exampleEntry] {} = Some [exampleEntry]"
  by (simp add: ApplySchedulingParents_def BuildSchedulingParents_exact tentativeEdges_def tentativeEdge_def exampleEntry_def)

lemma example_ingest: "ingestRun exampleProcess 8 [exampleEntry] = Some exampleStagingRun"
  by (simp add: ingestRun_def dispatchOrders_def Let_def dispatch_parts subtreeOrder_def parentIn_def OperationalParentID_def exampleEntry_def exampleStagingRun_def
      entryByID_def extractOne_def exampleProcess_def)


end
