(* ===== verification/Entry_Queue.thy ===== *)
theory Entry_Queue
  imports Go_Base "HOL-Library.Word"
begin

text \<open>
  The lock-free queue of \<open>internal/ingest/parallel.go\<close>: a bounded ring of slots with sequence
  numbers, shared by any number of producers and consumers. Every call of \<open>Push\<close>, \<open>TryPush\<close> or \<open>Pop\<close>
  is a thread; each atomic load, store and compare-and-swap, and each access to a slot's entry, is
  a step of its own. Positions and sequence numbers are 64-bit words. The list of the entries in
  the order in which their positions were claimed is a ghost that no step reads.
\<close>

unbundle bit_operations_syntax

section \<open>State\<close>

type_synonym queueEntry = string

record entrySlot =
  esSequence :: "64 word"
  esEntry :: queueEntry

datatype queueCall = Push queueEntry | TryPush queueEntry | Pop

text \<open>
  Where a call is: a push before the test for closing, before the load of the head, after it, after
  the load of the sequence number, with a position of its own, with the entry written, or returned;
  a pop likewise, with the entry read and then cleared before the slot is handed back.
\<close>

datatype queueThread =
  PushStart | PushOpen | PushAt "64 word" | PushSeen "64 word" "64 word" | PushOwns "64 word" | PushFilled "64 word"
| Pushed "64 word" | PushClosed | PushFull
| PopStart | PopAt "64 word" | PopSeen "64 word" "64 word" | PopEmpty | PopOwns "64 word" | PopRead "64 word" queueEntry
| PopCleared "64 word" queueEntry | Popped "64 word" queueEntry | PopClosed

record SessionEntryQueue =
  qHead :: "64 word"
  qTail :: "64 word"
  qClosed :: bool
  qMask :: "64 word"
  qSlots :: "entrySlot list"
  qThreads :: "queueThread list"
  qLog :: "queueEntry list"

section \<open>Construction\<close>

function doubleUpTo :: "nat \<Rightarrow> nat \<Rightarrow> nat" where
  "doubleUpTo n v = (if v < n \<and> 0 < v then doubleUpTo n (2 * v) else v)"
  by pat_completeness auto
termination
  by (relation "measure (\<lambda>(n, v). n - v)") auto

declare doubleUpTo.simps [simp del]

text \<open>\<open>None\<close> is the panic; beyond two to the sixty-second the shift runs out of the \<open>int\<close> and the loop never ends.\<close>

definition nextPow2 :: "int \<Rightarrow> nat option" where
  "nextPow2 n = (if n < 1 \<or> 2 ^ 62 < n then None else Some (doubleUpTo (nat n) 2))"

definition callStart :: "queueCall \<Rightarrow> queueThread" where
  "callStart c = (case c of Push _ \<Rightarrow> PushStart | TryPush _ \<Rightarrow> PushStart | Pop \<Rightarrow> PopStart)"

definition NewSessionEntryQueue :: "int \<Rightarrow> queueCall list \<Rightarrow> SessionEntryQueue option" where
  "NewSessionEntryQueue capacity calls =
     map_option (\<lambda>n. \<lparr> qHead = 0, qTail = 0, qClosed = False, qMask = of_nat (n - 1),
         qSlots = map (\<lambda>i. \<lparr> esSequence = of_nat i, esEntry = [] \<rparr>) [0..<n],
         qThreads = map callStart calls, qLog = [] \<rparr>) (nextPow2 capacity)"

section \<open>Steps\<close>

abbreviation slotIndex :: "SessionEntryQueue \<Rightarrow> 64 word \<Rightarrow> nat" where
  "slotIndex q pos \<equiv> unat (pos AND qMask q)"

abbreviation slotAt :: "SessionEntryQueue \<Rightarrow> 64 word \<Rightarrow> entrySlot" where
  "slotAt q pos \<equiv> qSlots q ! slotIndex q pos"

abbreviation setSlot :: "64 word \<Rightarrow> entrySlot \<Rightarrow> SessionEntryQueue \<Rightarrow> SessionEntryQueue" where
  "setSlot pos e q \<equiv> q\<lparr> qSlots := (qSlots q)[slotIndex q pos := e] \<rparr>"

abbreviation goto :: "nat \<Rightarrow> queueThread \<Rightarrow> SessionEntryQueue \<Rightarrow> SessionEntryQueue" where
  "goto i pc q \<equiv> q\<lparr> qThreads := (qThreads q)[i := pc] \<rparr>"

text \<open>\<open>int64(a) - int64(b)\<close>.\<close>

definition seqDiff :: "64 word \<Rightarrow> 64 word \<Rightarrow> int" where
  "seqDiff a b = sint (a - b)"

text \<open>A push that finds no free slot starts again, a \<open>TryPush\<close> gives up.\<close>

definition retry :: "queueCall \<Rightarrow> queueThread" where
  "retry c = (case c of TryPush _ \<Rightarrow> PushFull | _ \<Rightarrow> PushStart)"

fun entryOf :: "queueCall \<Rightarrow> queueEntry" where
  "entryOf (Push e) = e"
| "entryOf (TryPush e) = e"
| "entryOf Pop = []"

inductive queue_step :: "queueCall list \<Rightarrow> nat \<Rightarrow> SessionEntryQueue \<Rightarrow> SessionEntryQueue \<Rightarrow> bool" for calls i where
  push_closed: "qThreads q ! i = PushStart \<Longrightarrow> qClosed q \<Longrightarrow> queue_step calls i q (goto i PushClosed q)"
| push_open: "qThreads q ! i = PushStart \<Longrightarrow> \<not> qClosed q \<Longrightarrow> queue_step calls i q (goto i PushOpen q)"
| push_load: "qThreads q ! i = PushOpen \<Longrightarrow> queue_step calls i q (goto i (PushAt (qHead q)) q)"
| push_see: "qThreads q ! i = PushAt pos \<Longrightarrow> queue_step calls i q (goto i (PushSeen pos (esSequence (slotAt q pos))) q)"
| push_claim: "qThreads q ! i = PushSeen pos seq \<Longrightarrow> seqDiff seq pos = 0 \<Longrightarrow> qHead q = pos \<Longrightarrow>
    queue_step calls i q (goto i (PushOwns pos) (q\<lparr> qHead := pos + 1, qLog := qLog q @ [entryOf (calls ! i)] \<rparr>))"
| push_again: "qThreads q ! i = PushSeen pos seq \<Longrightarrow> seqDiff seq pos \<noteq> 0 \<or> qHead q \<noteq> pos \<Longrightarrow> queue_step calls i q (goto i (retry (calls ! i)) q)"
| push_write: "qThreads q ! i = PushOwns pos \<Longrightarrow>
    queue_step calls i q (goto i (PushFilled pos) (setSlot pos ((slotAt q pos)\<lparr> esEntry := entryOf (calls ! i) \<rparr>) q))"
| push_hand: "qThreads q ! i = PushFilled pos \<Longrightarrow>
    queue_step calls i q (goto i (Pushed pos) (setSlot pos ((slotAt q pos)\<lparr> esSequence := pos + 1 \<rparr>) q))"
| pop_load: "qThreads q ! i = PopStart \<Longrightarrow> queue_step calls i q (goto i (PopAt (qTail q)) q)"
| pop_see: "qThreads q ! i = PopAt pos \<Longrightarrow> queue_step calls i q (goto i (PopSeen pos (esSequence (slotAt q pos))) q)"
| pop_claim: "qThreads q ! i = PopSeen pos seq \<Longrightarrow> seqDiff seq (pos + 1) = 0 \<Longrightarrow> qTail q = pos \<Longrightarrow>
    queue_step calls i q (goto i (PopOwns pos) (q\<lparr> qTail := pos + 1 \<rparr>))"
| pop_again: "qThreads q ! i = PopSeen pos seq \<Longrightarrow> seqDiff seq (pos + 1) > 0 \<or> seqDiff seq (pos + 1) = 0 \<and> qTail q \<noteq> pos \<Longrightarrow>
    queue_step calls i q (goto i PopStart q)"
| pop_empty: "qThreads q ! i = PopSeen pos seq \<Longrightarrow> seqDiff seq (pos + 1) < 0 \<Longrightarrow> queue_step calls i q (goto i PopEmpty q)"
| pop_closed: "qThreads q ! i = PopEmpty \<Longrightarrow> qClosed q \<Longrightarrow> queue_step calls i q (goto i PopClosed q)"
| pop_spin: "qThreads q ! i = PopEmpty \<Longrightarrow> \<not> qClosed q \<Longrightarrow> queue_step calls i q (goto i PopStart q)"
| pop_read: "qThreads q ! i = PopOwns pos \<Longrightarrow> queue_step calls i q (goto i (PopRead pos (esEntry (slotAt q pos))) q)"
| pop_clear: "qThreads q ! i = PopRead pos e \<Longrightarrow>
    queue_step calls i q (goto i (PopCleared pos e) (setSlot pos ((slotAt q pos)\<lparr> esEntry := [] \<rparr>) q))"
| pop_recycle: "qThreads q ! i = PopCleared pos e \<Longrightarrow>
    queue_step calls i q (goto i (Popped pos e) (setSlot pos ((slotAt q pos)\<lparr> esSequence := pos + qMask q + 1 \<rparr>) q))"
| Close: "queue_step calls i q (q\<lparr> qClosed := True \<rparr>)"

inductive_cases queue_stepE: "queue_step calls i q q'"

definition queueRun :: "queueCall list \<Rightarrow> SessionEntryQueue \<Rightarrow> SessionEntryQueue \<Rightarrow> bool" where
  "queueRun calls q q' \<longleftrightarrow> (\<exists>i < length calls. queue_step calls i q q')"

definition queueLen :: "SessionEntryQueue \<Rightarrow> int" where
  "queueLen q = (let n = seqDiff (qHead q) (qTail q) in if n < 0 then 0 else n)"

definition queueCap :: "SessionEntryQueue \<Rightarrow> nat" where
  "queueCap q = unat (qMask q + 1)"

section \<open>Words\<close>

lemma seqDiff_exact:
  assumes "unat a < 2 ^ 63" and "unat b < 2 ^ 63"
  shows "seqDiff a b = int (unat a) - int (unat b)"
proof -
  have s: "sint w = int (unat w)" if "unat w < 2 ^ 63" for w :: "64 word"
  proof -
    have "int (unat w) < int (2 ^ 63)" using that by (simp only: of_nat_less_iff)
    then have "uint w < 2 ^ 63" by (simp only: uint_nat of_nat_power of_nat_numeral)
    then have "signed_take_bit 63 (uint w) = uint w" by (intro signed_take_bit_int_eq_self) (simp_all add: order_trans [OF _ uint_ge_0])
    then have "sint w = uint w" by (simp add: sint_uint)
    then show ?thesis by (simp only: uint_nat)
  qed
  have "sint (a - b) = signed_take_bit 63 (sint a - sint b)" by (simp add: sint_word_ariths)
  also have "\<dots> = sint a - sint b"
  proof -
    have "int (unat w) < 2 ^ 63" if "unat w < 2 ^ 63" for w :: "64 word" using that by (metis of_nat_less_iff of_nat_numeral of_nat_power)
    from this [OF assms(1)] this [OF assms(2)] show ?thesis
      unfolding s [OF assms(1)] s [OF assms(2)] by (intro signed_take_bit_int_eq_self) linarith+
  qed
  finally show ?thesis unfolding seqDiff_def s [OF assms(1)] s [OF assms(2)] .
qed

lemma doubleUpTo_power:
  "0 < v \<Longrightarrow> \<exists>k. doubleUpTo n v = v * 2 ^ k \<and> n \<le> doubleUpTo n v \<and> v \<le> doubleUpTo n v \<and> (n \<le> v \<or> doubleUpTo n v < 2 * n)"
proof (induction n v rule: doubleUpTo.induct)
  case (1 n v)
  show ?case
  proof (cases "v < n")
    case True
    then obtain k where k: "doubleUpTo n (2 * v) = 2 * v * 2 ^ k" "n \<le> doubleUpTo n (2 * v)" "2 * v \<le> doubleUpTo n (2 * v)"
      "n \<le> 2 * v \<or> doubleUpTo n (2 * v) < 2 * n" using 1 by auto
    have eq: "doubleUpTo n v = doubleUpTo n (2 * v)" using True 1(2) by (simp add: doubleUpTo.simps [of n v])
    have "doubleUpTo n (2 * v) < 2 * n"
    proof (cases "n \<le> 2 * v")
      case True
      then have "doubleUpTo n (2 * v) = 2 * v" by (simp add: doubleUpTo.simps [of n "2 * v"])
      then show ?thesis using \<open>v < n\<close> by simp
    qed (use k(4) in blast)
    then show ?thesis using k by (intro exI [of _ "Suc k"]) (simp add: eq)
  next
    case False
    then show ?thesis using 1(2) by (intro exI [of _ 0]) (simp add: doubleUpTo.simps [of n v])
  qed
qed

lemma nextPow2_power:
  assumes "nextPow2 n = Some c"
  shows "\<exists>k. c = 2 ^ Suc k" and "n \<le> int c" and "2 \<le> c" and "n \<le> 2 \<and> c = 2 \<or> int c < 2 * n"
proof -
  have n: "\<not> n < 1" "n \<le> 2 ^ 62" "c = doubleUpTo (nat n) 2" using assms by (auto simp: nextPow2_def split: if_splits)
  obtain k where k: "c = 2 * 2 ^ k" "nat n \<le> c" "2 \<le> c" "nat n \<le> 2 \<or> c < 2 * nat n" using doubleUpTo_power [of 2 "nat n"] n(3) by auto
  show "\<exists>k. c = 2 ^ Suc k" using k(1) by auto
  show "n \<le> int c" using k(2) n(1) by (simp add: nat_le_iff)
  show "2 \<le> c" by (rule k(3))
  show "n \<le> 2 \<and> c = 2 \<or> int c < 2 * n"
  proof (cases "n \<le> 2")
    case True
    then have "\<not> 2 < nat n" by linarith
    then show ?thesis using True n(3) by (simp add: doubleUpTo.simps [of "nat n" 2])
  next
    case False
    then show ?thesis using k(4) by linarith
  qed
qed

lemma word_small: "n < 2 ^ 64 \<Longrightarrow> unat (of_nat n :: 64 word) = n"
  by (simp add: unat_of_nat take_bit_nat_eq_self)

lemma and_mask_mod:
  assumes "c = 2 ^ k" and "k \<le> 64"
  shows "unat (w AND of_nat (c - 1) :: 64 word) = unat w mod c"
proof -
  have "(of_nat (c - 1) :: 64 word) = mask k" using assms(1) by (simp add: mask_eq_exp_minus_1 of_nat_diff)
  then have "w AND of_nat (c - 1) = take_bit k w" by (simp add: take_bit_eq_mask)
  then have "unat (w AND of_nat (c - 1)) = take_bit k (unat w)" by (simp only: unsigned_take_bit_eq)
  then show ?thesis using assms(1) by (simp only: take_bit_eq_mod)
qed

section \<open>Invariant\<close>

abbreviation headOf :: "SessionEntryQueue \<Rightarrow> nat" where
  "headOf q \<equiv> unat (qHead q)"

abbreviation tailOf :: "SessionEntryQueue \<Rightarrow> nat" where
  "tailOf q \<equiv> unat (qTail q)"

abbreviation capOf :: "SessionEntryQueue \<Rightarrow> nat" where
  "capOf q \<equiv> length (qSlots q)"

text \<open>The sequence number and the entry in the slot of a position.\<close>

definition seqOf :: "SessionEntryQueue \<Rightarrow> nat \<Rightarrow> nat" where
  "seqOf q p = unat (esSequence (qSlots q ! (p mod capOf q)))"

definition entryAt :: "SessionEntryQueue \<Rightarrow> nat \<Rightarrow> queueEntry" where
  "entryAt q p = esEntry (qSlots q ! (p mod capOf q))"

definition queue_shape :: "queueCall list \<Rightarrow> SessionEntryQueue \<Rightarrow> bool" where
  "queue_shape calls q \<longleftrightarrow> length (qThreads q) = length calls \<and> (\<exists>k. capOf q = 2 ^ Suc k \<and> Suc k \<le> 64) \<and> qMask q = of_nat (capOf q - 1)"

text \<open>
  In the lap of the ring that starts at the tail, a claimed position is written or filled, and a
  position that is not claimed is free or still being read in the lap before.
\<close>

definition slots_ok :: "SessionEntryQueue \<Rightarrow> bool" where
  "slots_ok q \<longleftrightarrow> (\<forall>p. tailOf q \<le> p \<longrightarrow> p < tailOf q + capOf q \<longrightarrow>
     (if p < headOf q then seqOf q p = p \<or> seqOf q p = p + 1 \<and> entryAt q p = qLog q ! p
      else seqOf q p = p \<or> capOf q \<le> p \<and> seqOf q p = p + 1 - capOf q))"

fun thread_ok :: "SessionEntryQueue \<Rightarrow> queueCall \<Rightarrow> queueThread \<Rightarrow> bool" where
  "thread_ok q c (PushAt pos) \<longleftrightarrow> unat pos \<le> headOf q"
| "thread_ok q c (PushSeen pos seq) \<longleftrightarrow> unat pos \<le> headOf q \<and> unat seq \<le> seqOf q (unat pos)"
| "thread_ok q c (PushOwns pos) \<longleftrightarrow> tailOf q \<le> unat pos \<and> unat pos < headOf q \<and> seqOf q (unat pos) = unat pos \<and> qLog q ! unat pos = entryOf c"
| "thread_ok q c (PushFilled pos) \<longleftrightarrow> tailOf q \<le> unat pos \<and> unat pos < headOf q \<and> seqOf q (unat pos) = unat pos \<and> qLog q ! unat pos = entryOf c \<and>
     entryAt q (unat pos) = entryOf c"
| "thread_ok q c (Pushed pos) \<longleftrightarrow> unat pos < headOf q \<and> qLog q ! unat pos = entryOf c"
| "thread_ok q c (PopAt pos) \<longleftrightarrow> unat pos \<le> tailOf q"
| "thread_ok q c (PopSeen pos seq) \<longleftrightarrow> unat pos \<le> tailOf q \<and> unat seq \<le> seqOf q (unat pos)"
| "thread_ok q c (PopOwns pos) \<longleftrightarrow> unat pos < tailOf q \<and> headOf q \<le> unat pos + capOf q \<and> seqOf q (unat pos) = unat pos + 1 \<and>
     entryAt q (unat pos) = qLog q ! unat pos"
| "thread_ok q c (PopRead pos e) \<longleftrightarrow> unat pos < tailOf q \<and> headOf q \<le> unat pos + capOf q \<and> seqOf q (unat pos) = unat pos + 1 \<and> e = qLog q ! unat pos"
| "thread_ok q c (PopCleared pos e) \<longleftrightarrow> unat pos < tailOf q \<and> headOf q \<le> unat pos + capOf q \<and> seqOf q (unat pos) = unat pos + 1 \<and> e = qLog q ! unat pos"
| "thread_ok q c (Popped pos e) \<longleftrightarrow> unat pos < tailOf q \<and> e = qLog q ! unat pos"
| "thread_ok q c _ \<longleftrightarrow> True"

fun pushPos :: "queueThread \<Rightarrow> nat option" where
  "pushPos (PushOwns pos) = Some (unat pos)"
| "pushPos (PushFilled pos) = Some (unat pos)"
| "pushPos (Pushed pos) = Some (unat pos)"
| "pushPos _ = None"

fun popPos :: "queueThread \<Rightarrow> nat option" where
  "popPos (PopOwns pos) = Some (unat pos)"
| "popPos (PopRead pos e) = Some (unat pos)"
| "popPos (PopCleared pos e) = Some (unat pos)"
| "popPos (Popped pos e) = Some (unat pos)"
| "popPos _ = None"

definition alone :: "(queueThread \<Rightarrow> nat option) \<Rightarrow> queueThread list \<Rightarrow> bool" where
  "alone f ts \<longleftrightarrow> (\<forall>i < length ts. \<forall>j < length ts. \<forall>p. f (ts ! i) = Some p \<longrightarrow> f (ts ! j) = Some p \<longrightarrow> i = j)"

definition queue_inv :: "queueCall list \<Rightarrow> SessionEntryQueue \<Rightarrow> bool" where
  "queue_inv calls q \<longleftrightarrow> queue_shape calls q \<and> headOf q = length (qLog q) \<and> tailOf q \<le> headOf q \<and> headOf q \<le> tailOf q + capOf q \<and>
     slots_ok q \<and> (\<forall>i < length calls. thread_ok q (calls ! i) (qThreads q ! i)) \<and> alone pushPos (qThreads q) \<and> alone popPos (qThreads q)"

lemma queue_invD:
  assumes "queue_inv calls q"
  shows "queue_shape calls q" and "headOf q = length (qLog q)" and "tailOf q \<le> headOf q" and "headOf q \<le> tailOf q + capOf q" and "slots_ok q"
    and "i < length calls \<Longrightarrow> thread_ok q (calls ! i) (qThreads q ! i)" and "alone pushPos (qThreads q)" and "alone popPos (qThreads q)"
  using assms unfolding queue_inv_def by blast+

lemma slots_okD:
  assumes "slots_ok q" and "tailOf q \<le> p" and "p < tailOf q + capOf q"
  shows "p < headOf q \<Longrightarrow> seqOf q p = p \<or> seqOf q p = p + 1 \<and> entryAt q p = qLog q ! p"
    and "\<not> p < headOf q \<Longrightarrow> seqOf q p = p \<or> capOf q \<le> p \<and> seqOf q p = p + 1 - capOf q"
  using assms unfolding slots_ok_def by (metis+)

text \<open>As long as fewer than two to the sixty-third positions are claimed, the numbers do not wrap.\<close>

definition in_range :: "SessionEntryQueue \<Rightarrow> bool" where
  "in_range q \<longleftrightarrow> length (qLog q) + capOf q < 2 ^ 63"

lemma queue_shapeD:
  assumes "queue_shape calls q"
  shows "2 \<le> capOf q" and "slotIndex q pos = unat pos mod capOf q"
proof -
  obtain k where k: "capOf q = 2 ^ Suc k" "Suc k \<le> 64" "qMask q = of_nat (capOf q - 1)" using assms unfolding queue_shape_def by blast
  show "2 \<le> capOf q" unfolding k(1) by simp
  show "slotIndex q pos = unat pos mod capOf q" unfolding k(3) by (rule and_mask_mod [OF k(1,2)])
qed

lemma seqOf_bound:
  assumes inv: "queue_inv calls q" and "in_range q"
  shows "seqOf q p < 2 ^ 63"
proof -
  note d = queue_invD [OF inv]
  have c: "2 \<le> capOf q" by (rule queue_shapeD(1) [OF d(1)])
  define r where "r = tailOf q + (p + capOf q - tailOf q mod capOf q) mod capOf q"
  have pos: "0 < capOf q" using c by linarith
  have window: "tailOf q \<le> r" "r < tailOf q + capOf q" using mod_less_divisor [OF pos] by (simp_all add: r_def)
  have "r mod capOf q = p mod capOf q"
  proof -
    have le: "tailOf q mod capOf q \<le> p + capOf q" using mod_le_divisor [OF pos, of "tailOf q"] by linarith
    have "r mod capOf q = (tailOf q mod capOf q + (p + capOf q - tailOf q mod capOf q)) mod capOf q" unfolding r_def by (simp add: mod_simps)
    also have "\<dots> = (p + capOf q) mod capOf q" using le by simp
    finally show ?thesis by simp
  qed
  then have "seqOf q p = seqOf q r" by (simp add: seqOf_def)
  also have "\<dots> \<le> r + 1"
  proof (cases "r < headOf q")
    case True
    then show ?thesis using slots_okD(1) [OF d(5) window] by linarith
  next
    case False
    then show ?thesis using slots_okD(2) [OF d(5) window] by linarith
  qed
  also have "r + 1 \<le> headOf q + capOf q" using window d(3) by simp
  finally show ?thesis using assms(2) d(2) by (simp add: in_range_def)
qed

section \<open>Steps keep the invariant\<close>

fun ownPos :: "queueThread \<Rightarrow> nat option" where
  "ownPos (PushOwns pos) = Some (unat pos)"
| "ownPos (PushFilled pos) = Some (unat pos)"
| "ownPos (PopOwns pos) = Some (unat pos)"
| "ownPos (PopRead pos e) = Some (unat pos)"
| "ownPos (PopCleared pos e) = Some (unat pos)"
| "ownPos _ = None"

lemma owner_window:
  assumes "queue_inv calls q" and "i < length calls" and "ownPos (qThreads q ! i) = Some p"
  shows "p < headOf q" and "headOf q \<le> p + capOf q"
  using queue_invD(3,4) [OF assms(1)] queue_invD(6) [OF assms(1,2)] assms(3) by (cases "qThreads q ! i"; auto)+

text \<open>Two calls never own the same slot.\<close>

lemma owners_apart:
  assumes inv: "queue_inv calls q" and ij: "i < length calls" "j < length calls" "i \<noteq> j"
    and own: "ownPos (qThreads q ! i) = Some p" "ownPos (qThreads q ! j) = Some r"
  shows "p mod capOf q \<noteq> r mod capOf q"
proof
  assume "p mod capOf q = r mod capOf q"
  moreover have "p < r + capOf q" "r < p + capOf q" using owner_window [OF inv ij(1) own(1)] owner_window [OF inv ij(2) own(2)] by auto
  ultimately have "p = r" by (rule mod_window)
  have len: "length (qThreads q) = length calls" using queue_invD(1) [OF inv] by (simp add: queue_shape_def)
  have ne: "\<not> (pushPos (qThreads q ! i) = Some p \<and> pushPos (qThreads q ! j) = Some p)" "\<not> (popPos (qThreads q ! i) = Some p \<and> popPos (qThreads q ! j) = Some p)"
    using queue_invD(7,8) [OF inv] ij len unfolding alone_def by metis+
  show False using ne own \<open>p = r\<close> queue_invD(6) [OF inv ij(1)] queue_invD(6) [OF inv ij(2)]
    by (cases "qThreads q ! i"; cases "qThreads q ! j") auto
qed

lemma thread_ok_frame:
  assumes "thread_ok q c pc" and "tailOf q \<le> headOf q" and "headOf q \<le> headOf q'" "tailOf q \<le> tailOf q'" "capOf q' = capOf q"
    and "\<And>p. p < headOf q \<Longrightarrow> qLog q' ! p = qLog q ! p" and "\<And>p. seqOf q p \<le> seqOf q' p"
    and "\<And>p. ownPos pc = Some p \<Longrightarrow> seqOf q' p = seqOf q p \<and> entryAt q' p = entryAt q p"
    and "\<And>p. ownPos pc = Some p \<Longrightarrow> tailOf q \<le> p \<Longrightarrow> tailOf q' \<le> p"
    and "\<And>p. ownPos pc = Some p \<Longrightarrow> p < tailOf q \<Longrightarrow> headOf q' \<le> p + capOf q"
  shows "thread_ok q' c pc"
  using assms by (cases pc) (auto intro: order_trans)

lemma alone_keep: "alone f ts \<Longrightarrow> f pc = f (ts ! i) \<Longrightarrow> alone f (ts[i := pc])"
  unfolding alone_def by (metis length_list_update nth_list_update_eq nth_list_update_neq)

lemma alone_new: "alone f ts \<Longrightarrow> (\<And>j. j < length ts \<Longrightarrow> f (ts ! j) \<noteq> f pc) \<Longrightarrow> alone f (ts[i := pc])"
  unfolding alone_def by (metis length_list_update nth_list_update_eq nth_list_update_neq)

text \<open>A step that only moves one call.\<close>

lemma queue_inv_goto:
  assumes inv: "queue_inv calls q" and i: "i < length calls" and ok: "thread_ok q (calls ! i) pc"
    and pos: "pushPos pc = pushPos (qThreads q ! i)" "popPos pc = popPos (qThreads q ! i)"
  shows "queue_inv calls (goto i pc q)"
proof -
  note d = queue_invD [OF inv]
  have len: "length (qThreads q) = length calls" using d(1) by (simp add: queue_shape_def)
  have same: "thread_ok (goto i pc q) c t = thread_ok q c t" for c t by (cases t) (simp_all add: seqOf_def entryAt_def)
  have "slots_ok (goto i pc q) = slots_ok q" by (simp add: slots_ok_def seqOf_def entryAt_def)
  moreover have "thread_ok q (calls ! j) ((qThreads q)[i := pc] ! j)" if "j < length calls" for j
    using that d(6) [OF that] ok len by (cases "j = i") auto
  ultimately show ?thesis using d alone_keep [OF d(7) pos(1)] alone_keep [OF d(8) pos(2)]
    unfolding queue_inv_def by (simp add: same queue_shape_def)
qed

text \<open>
  A step that changes the slot of a position the call owns: the others do not own that slot, and
  sequence numbers only grow.
\<close>

lemma queue_inv_slot:
  assumes inv: "queue_inv calls q" and i: "i < length calls" and own: "ownPos (qThreads q ! i) = Some (unat pos)"
    and pc: "pushPos pc = pushPos (qThreads q ! i)" "popPos pc = popPos (qThreads q ! i)"
    and q': "q' = goto i pc (setSlot pos e q)" and ok: "thread_ok q' (calls ! i) pc" and grow: "seqOf q (unat pos) \<le> unat (esSequence e)"
    and slot: "\<And>p. tailOf q \<le> p \<Longrightarrow> p < tailOf q + capOf q \<Longrightarrow> p mod capOf q = unat pos mod capOf q \<Longrightarrow>
      (if p < headOf q then unat (esSequence e) = p \<or> unat (esSequence e) = p + 1 \<and> esEntry e = qLog q ! p
       else unat (esSequence e) = p \<or> capOf q \<le> p \<and> unat (esSequence e) = p + 1 - capOf q)"
  shows "queue_inv calls q'"
proof -
  note d = queue_invD [OF inv]
  note sh = queue_shapeD [OF d(1)]
  have len: "length (qThreads q) = length calls" using d(1) by (simp add: queue_shape_def)
  have pos0: "0 < capOf q" using sh(1) by linarith
  have at: "qSlots q' ! (p mod capOf q) = (if p mod capOf q = unat pos mod capOf q then e else qSlots q ! (p mod capOf q))" for p
    using pos0 by (simp add: q' sh(2) nth_list_update)
  have cap: "capOf q' = capOf q" by (simp add: q')
  have seq: "seqOf q' p = (if p mod capOf q = unat pos mod capOf q then unat (esSequence e) else seqOf q p)" for p by (simp add: seqOf_def cap at)
  have ent: "entryAt q' p = (if p mod capOf q = unat pos mod capOf q then esEntry e else entryAt q p)" for p by (simp add: entryAt_def cap at)
  have mono: "seqOf q p \<le> seqOf q' p" for p
  proof (cases "p mod capOf q = unat pos mod capOf q")
    case True
    then have "seqOf q p = seqOf q (unat pos)" by (simp add: seqOf_def)
    then show ?thesis using grow True by (simp add: seq)
  qed (simp add: seq)
  have same: "headOf q' = headOf q" "tailOf q' = tailOf q" "qLog q' = qLog q" "qThreads q' = (qThreads q)[i := pc]" by (simp_all add: q')
  have slots: "slots_ok q'" unfolding slots_ok_def same cap
  proof (intro allI impI)
    fix p assume w: "tailOf q \<le> p" "p < tailOf q + capOf q"
    show "if p < headOf q then seqOf q' p = p \<or> seqOf q' p = p + 1 \<and> entryAt q' p = qLog q ! p
        else seqOf q' p = p \<or> capOf q \<le> p \<and> seqOf q' p = p + 1 - capOf q"
    proof (cases "p mod capOf q = unat pos mod capOf q")
      case True
      then show ?thesis using slot [OF w True] by (cases "p < headOf q") (simp_all add: seq ent)
    next
      case False
      then show ?thesis using slots_okD [OF d(5) w] by (cases "p < headOf q") (simp_all add: seq ent)
    qed
  qed
  have threads: "thread_ok q' (calls ! j) (qThreads q' ! j)" if j: "j < length calls" for j
  proof (cases "j = i")
    case True
    then show ?thesis using ok j len by (simp add: same)
  next
    case False
    have "thread_ok q' (calls ! j) (qThreads q ! j)"
    proof (rule thread_ok_frame [OF d(6) [OF j] d(3)])
      show "seqOf q' p = seqOf q p \<and> entryAt q' p = entryAt q p" if "ownPos (qThreads q ! j) = Some p" for p
        using owners_apart [OF inv j i False that own] by (simp add: seq ent)
      show "headOf q' \<le> p + capOf q" if "ownPos (qThreads q ! j) = Some p" for p using owner_window(2) [OF inv j that] by (simp add: same)
    qed (simp_all add: mono same cap)
    then show ?thesis using False by (simp add: same)
  qed
  have "alone pushPos (qThreads q')" "alone popPos (qThreads q')" using alone_keep [OF d(7) pc(1)] alone_keep [OF d(8) pc(2)] by (simp_all add: same)
  moreover have "queue_shape calls q'" using d(1) by (simp add: queue_shape_def q')
  ultimately show ?thesis unfolding queue_inv_def same cap using d(2-4) slots threads by (simp add: same)
qed

text \<open>The claim of a position for a push: what the sequence number said is still true when the head has not moved.\<close>

lemma claim_push:
  assumes inv: "queue_inv calls q" and i: "i < length calls" and th: "qThreads q ! i = PushSeen pos seq" and z: "seqDiff seq pos = 0" and hd: "qHead q = pos"
    and range: "in_range q"
  shows "headOf q < tailOf q + capOf q" and "seqOf q (headOf q) = headOf q"
proof -
  note d = queue_invD [OF inv]
  have c: "2 \<le> capOf q" by (rule queue_shapeD(1) [OF d(1)])
  have w: "tailOf q < tailOf q + capOf q" using c by linarith
  have seen: "unat seq \<le> seqOf q (unat pos)" using d(6) [OF i] th by simp
  have "unat pos < 2 ^ 63" using range d(2) hd by (simp add: in_range_def)
  moreover have "unat seq < 2 ^ 63" using seen seqOf_bound [OF inv range, of "unat pos"] by linarith
  ultimately have "int (unat seq) - int (unat pos) = 0" unfolding z [symmetric] by (intro seqDiff_exact [symmetric])
  then have "unat seq = unat pos" by linarith
  then have ge: "headOf q \<le> seqOf q (headOf q)" using seen hd by simp
  show lt: "headOf q < tailOf q + capOf q"
  proof (rule ccontr)
    assume "\<not> headOf q < tailOf q + capOf q"
    then have full: "headOf q = tailOf q + capOf q" using d(4) by simp
    then have "seqOf q (headOf q) = seqOf q (tailOf q)" by (simp add: seqOf_def)
    moreover have "seqOf q (tailOf q) \<le> tailOf q + 1" using slots_okD(1) [OF d(5) order_refl w] full c by linarith
    ultimately show False using ge full c by simp
  qed
  show "seqOf q (headOf q) = headOf q" using slots_okD(2) [OF d(5) d(3) lt] ge c by auto
qed

lemma claim_pop:
  assumes inv: "queue_inv calls q" and i: "i < length calls" and th: "qThreads q ! i = PopSeen pos seq" and z: "seqDiff seq (pos + 1) = 0" and tl: "qTail q = pos"
    and range: "in_range q"
  shows "tailOf q < headOf q" and "seqOf q (tailOf q) = tailOf q + 1" and "entryAt q (tailOf q) = qLog q ! tailOf q"
proof -
  note d = queue_invD [OF inv]
  have c: "2 \<le> capOf q" by (rule queue_shapeD(1) [OF d(1)])
  have seen: "unat seq \<le> seqOf q (unat pos)" using d(6) [OF i] th by simp
  have p: "unat pos + 1 < 2 ^ 63" using range d(2,3) tl c by (simp add: in_range_def)
  then have suc: "unat (pos + 1) = unat pos + 1" using unat_add_lem [of pos 1] by simp
  have "unat seq < 2 ^ 63" using seen seqOf_bound [OF inv range, of "unat pos"] by linarith
  then have "int (unat seq) - int (unat (pos + 1)) = 0" unfolding z [symmetric] by (intro seqDiff_exact [symmetric]) (simp_all only: suc p)
  then have "unat seq = unat pos + 1" unfolding suc by linarith
  then have ge: "tailOf q + 1 \<le> seqOf q (tailOf q)" using seen tl by simp
  have w: "tailOf q < tailOf q + capOf q" using c by linarith
  have lt: "tailOf q < headOf q"
  proof (rule ccontr)
    assume "\<not> tailOf q < headOf q"
    then show False using slots_okD(2) [OF d(5) order_refl w] ge c by auto
  qed
  then show "tailOf q < headOf q" "seqOf q (tailOf q) = tailOf q + 1" "entryAt q (tailOf q) = qLog q ! tailOf q"
    using slots_okD(1) [OF d(5) order_refl w lt] ge by auto
qed

lemma suc_word:
  assumes "unat pos + 1 < 2 ^ 63"
  shows "unat (pos + 1 :: 64 word) = unat pos + 1"
  using assms unat_add_lem [of pos 1] by simp

lemma queue_inv_push:
  assumes inv: "queue_inv calls q" and i: "i < length calls" and th: "qThreads q ! i = PushSeen pos seq" and z: "seqDiff seq pos = 0" and hd: "qHead q = pos"
    and range: "in_range q"
    and q': "q' = goto i (PushOwns pos) (q\<lparr> qHead := pos + 1, qLog := qLog q @ [entryOf (calls ! i)] \<rparr>)"
  shows "queue_inv calls q'" and "headOf q' = headOf q + 1"
proof -
  note d = queue_invD [OF inv] and c = claim_push [OF inv i th z hd range]
  have len: "length (qThreads q) = length calls" using d(1) by (simp add: queue_shape_def)
  have two: "2 \<le> capOf q" by (rule queue_shapeD(1) [OF d(1)])
  have "unat pos + 1 < 2 ^ 63" using range d(2) hd two by (simp add: in_range_def)
  then show head: "headOf q' = headOf q + 1" by (simp add: q' hd suc_word)
  have same: "tailOf q' = tailOf q" "qSlots q' = qSlots q" "qLog q' = qLog q @ [entryOf (calls ! i)]" "qThreads q' = (qThreads q)[i := PushOwns pos]"
    by (simp_all add: q')
  have seq: "seqOf q' p = seqOf q p" "entryAt q' p = entryAt q p" for p by (simp_all add: seqOf_def entryAt_def same)
  have slots: "slots_ok q'" unfolding slots_ok_def same seq head
  proof (intro allI impI)
    fix p assume w: "tailOf q \<le> p" "p < tailOf q + capOf q"
    consider "p < headOf q" | "p = headOf q" | "headOf q < p" by linarith
    then show "if p < headOf q + 1 then seqOf q p = p \<or> seqOf q p = p + 1 \<and> entryAt q p = (qLog q @ [entryOf (calls ! i)]) ! p
        else seqOf q p = p \<or> capOf q \<le> p \<and> seqOf q p = p + 1 - capOf q"
    proof cases
      case 1
      then show ?thesis using slots_okD(1) [OF d(5) w 1] d(2) by (simp add: nth_append)
    next
      case 2
      then show ?thesis using c(2) by simp
    next
      case 3
      then show ?thesis using slots_okD(2) [OF d(5) w] by simp
    qed
  qed
  have threads: "thread_ok q' (calls ! j) (qThreads q' ! j)" if j: "j < length calls" for j
  proof (cases "j = i")
    case True
    then show ?thesis using j len d(2,3) c(2) hd head by (simp add: same seq nth_append)
  next
    case False
    have "thread_ok q' (calls ! j) (qThreads q ! j)"
    proof (rule thread_ok_frame [OF d(6) [OF j] d(3)])
      show "headOf q' \<le> p + capOf q" if own: "ownPos (qThreads q ! j) = Some p" and lt: "p < tailOf q" for p
      proof -
        have "seqOf q p = p + 1" using own lt d(6) [OF j] by (cases "qThreads q ! j") auto
        moreover have "seqOf q p = headOf q" if "headOf q = p + capOf q" using c(2) that by (simp add: seqOf_def)
        ultimately show ?thesis using owner_window(2) [OF inv j own] head two by linarith
      qed
    qed (simp_all add: same seq head d(2) nth_append)
    then show ?thesis using False by (simp add: same)
  qed
  have "pushPos (qThreads q ! j) \<noteq> pushPos (PushOwns pos)" if "j < length (qThreads q)" for j
    using d(6) [of j] that len hd by (cases "qThreads q ! j") auto
  then have "alone pushPos (qThreads q')" using alone_new [OF d(7)] by (simp add: same)
  moreover have "alone popPos (qThreads q')" using alone_keep [OF d(8)] th by (simp add: same)
  moreover have "queue_shape calls q'" using d(1) by (simp add: queue_shape_def q')
  ultimately show "queue_inv calls q'" unfolding queue_inv_def head using d(2-4) slots threads c(1) by (simp add: same)
qed

lemma queue_inv_pop:
  assumes inv: "queue_inv calls q" and i: "i < length calls" and th: "qThreads q ! i = PopSeen pos seq" and z: "seqDiff seq (pos + 1) = 0" and tl: "qTail q = pos"
    and range: "in_range q" and q': "q' = goto i (PopOwns pos) (q\<lparr> qTail := pos + 1 \<rparr>)"
  shows "queue_inv calls q'" and "tailOf q' = tailOf q + 1"
proof -
  note d = queue_invD [OF inv] and c = claim_pop [OF inv i th z tl range]
  have len: "length (qThreads q) = length calls" using d(1) by (simp add: queue_shape_def)
  have two: "2 \<le> capOf q" by (rule queue_shapeD(1) [OF d(1)])
  have "unat pos + 1 < 2 ^ 63" using range d(2,3) tl two by (simp add: in_range_def)
  then show tail: "tailOf q' = tailOf q + 1" by (simp add: q' tl suc_word)
  have same: "headOf q' = headOf q" "qSlots q' = qSlots q" "qLog q' = qLog q" "qThreads q' = (qThreads q)[i := PopOwns pos]"
    by (simp_all add: q')
  have seq: "seqOf q' p = seqOf q p" "entryAt q' p = entryAt q p" for p by (simp_all add: seqOf_def entryAt_def same)
  have slots: "slots_ok q'" unfolding slots_ok_def same seq tail
  proof (intro allI impI)
    fix p assume w: "tailOf q + 1 \<le> p" "p < tailOf q + 1 + capOf q"
    show "if p < headOf q then seqOf q p = p \<or> seqOf q p = p + 1 \<and> entryAt q p = qLog q ! p
        else seqOf q p = p \<or> capOf q \<le> p \<and> seqOf q p = p + 1 - capOf q"
    proof (cases "p = tailOf q + capOf q")
      case True
      then have "seqOf q p = seqOf q (tailOf q)" by (simp add: seqOf_def)
      then show ?thesis using True c(2) d(4) by simp
    next
      case False
      then have "tailOf q \<le> p" "p < tailOf q + capOf q" using w by linarith+
      then show ?thesis using slots_okD [OF d(5)] by (cases "p < headOf q") simp_all
    qed
  qed
  have threads: "thread_ok q' (calls ! j) (qThreads q' ! j)" if j: "j < length calls" for j
  proof (cases "j = i")
    case True
    then show ?thesis using j len d(4) c tl tail by (simp add: same seq)
  next
    case False
    have "thread_ok q' (calls ! j) (qThreads q ! j)"
    proof (rule thread_ok_frame [OF d(6) [OF j] d(3)])
      show "tailOf q' \<le> p" if own: "ownPos (qThreads q ! j) = Some p" and le: "tailOf q \<le> p" for p
      proof -
        have "seqOf q p = p" using own le d(6) [OF j] by (cases "qThreads q ! j") auto
        then have "p \<noteq> tailOf q" using c(2) by auto
        then show ?thesis using le tail by linarith
      qed
      show "headOf q' \<le> p + capOf q" if "ownPos (qThreads q ! j) = Some p" for p using owner_window(2) [OF inv j that] by (simp add: same)
    qed (simp_all add: same seq tail)
    then show ?thesis using False by (simp add: same)
  qed
  have "popPos (qThreads q ! j) \<noteq> popPos (PopOwns pos)" if "j < length (qThreads q)" for j
    using d(6) [of j] that len tl by (cases "qThreads q ! j") auto
  then have "alone popPos (qThreads q')" using alone_new [OF d(8)] by (simp add: same)
  moreover have "alone pushPos (qThreads q')" using alone_keep [OF d(7)] th by (simp add: same)
  moreover have "queue_shape calls q'" using d(1) by (simp add: queue_shape_def q')
  ultimately show "queue_inv calls q'" unfolding queue_inv_def tail using d(2-4) slots threads c(1) by (simp add: same)
qed

lemma slot_new:
  assumes "queue_shape calls q"
  shows "seqOf ((setSlot pos e q)\<lparr> qThreads := ts \<rparr>) (unat pos) = unat (esSequence e)" and "entryAt ((setSlot pos e q)\<lparr> qThreads := ts \<rparr>) (unat pos) = esEntry e"
    and "unat (esSequence (slotAt q pos)) = seqOf q (unat pos)" and "esEntry (slotAt q pos) = entryAt q (unat pos)"
proof -
  have "0 < capOf q" using queue_shapeD(1) [OF assms] by linarith
  then show "seqOf ((setSlot pos e q)\<lparr> qThreads := ts \<rparr>) (unat pos) = unat (esSequence e)" "entryAt ((setSlot pos e q)\<lparr> qThreads := ts \<rparr>) (unat pos) = esEntry e"
    "unat (esSequence (slotAt q pos)) = seqOf q (unat pos)" "esEntry (slotAt q pos) = entryAt q (unat pos)"
    by (simp_all add: seqOf_def entryAt_def queue_shapeD(2) [OF assms])
qed

text \<open>The owner of a position that is not yet popped writes its slot, the owner of a popped one empties it.\<close>

lemma queue_inv_fill:
  assumes inv: "queue_inv calls q" and i: "i < length calls" and own: "ownPos (qThreads q ! i) = Some (unat pos)" and fresh: "tailOf q \<le> unat pos"
    and pc: "pushPos pc = pushPos (qThreads q ! i)" "popPos pc = popPos (qThreads q ! i)" and ok: "thread_ok (goto i pc (setSlot pos e q)) (calls ! i) pc"
    and e: "unat (esSequence e) = unat pos \<or> unat (esSequence e) = unat pos + 1 \<and> esEntry e = qLog q ! unat pos"
  shows "queue_inv calls (goto i pc (setSlot pos e q))"
proof (rule queue_inv_slot [OF inv i own pc refl ok])
  note d = queue_invD [OF inv]
  have "seqOf q (unat pos) = unat pos" using own fresh d(6) [OF i] by (cases "qThreads q ! i") auto
  then show "seqOf q (unat pos) \<le> unat (esSequence e)" using e by linarith
  fix p assume p: "tailOf q \<le> p" "p < tailOf q + capOf q" "p mod capOf q = unat pos mod capOf q"
  have "p = unat pos" using owner_window(1) [OF inv i own] p d(4) fresh by (intro mod_window [OF p(3)]) linarith+
  then show "if p < headOf q then unat (esSequence e) = p \<or> unat (esSequence e) = p + 1 \<and> esEntry e = qLog q ! p
       else unat (esSequence e) = p \<or> capOf q \<le> p \<and> unat (esSequence e) = p + 1 - capOf q"
    using owner_window(1) [OF inv i own] e by simp
qed

lemma queue_inv_empty:
  assumes inv: "queue_inv calls q" and i: "i < length calls" and own: "ownPos (qThreads q ! i) = Some (unat pos)" and old: "unat pos < tailOf q"
    and pc: "pushPos pc = pushPos (qThreads q ! i)" "popPos pc = popPos (qThreads q ! i)" and ok: "thread_ok (goto i pc (setSlot pos e q)) (calls ! i) pc"
    and e: "unat (esSequence e) = unat pos + 1 \<or> unat (esSequence e) = unat pos + capOf q"
  shows "queue_inv calls (goto i pc (setSlot pos e q))"
proof (rule queue_inv_slot [OF inv i own pc refl ok])
  note d = queue_invD [OF inv]
  have two: "2 \<le> capOf q" by (rule queue_shapeD(1) [OF d(1)])
  have "seqOf q (unat pos) = unat pos + 1" using own old d(6) [OF i] by (cases "qThreads q ! i") auto
  then show "seqOf q (unat pos) \<le> unat (esSequence e)" using e two by linarith
  fix p assume p: "tailOf q \<le> p" "p < tailOf q + capOf q" "p mod capOf q = unat pos mod capOf q"
  have w: "headOf q \<le> unat pos + capOf q" by (rule owner_window(2) [OF inv i own])
  have "p mod capOf q = (unat pos + capOf q) mod capOf q" using p(3) by simp
  moreover have "p < unat pos + capOf q + capOf q" "unat pos + capOf q < p + capOf q" using p(1,2) old w d(3) by linarith+
  ultimately have p: "p = unat pos + capOf q" by (rule mod_window)
  have "\<not> p < headOf q" using w p by linarith
  moreover have "unat (esSequence e) = p \<or> capOf q \<le> p \<and> unat (esSequence e) = p + 1 - capOf q" using e p by linarith
  ultimately show "if p < headOf q then unat (esSequence e) = p \<or> unat (esSequence e) = p + 1 \<and> esEntry e = qLog q ! p
       else unat (esSequence e) = p \<or> capOf q \<le> p \<and> unat (esSequence e) = p + 1 - capOf q"
    by (simp only: if_False)
qed

lemma recycled:
  assumes inv: "queue_inv calls q" and range: "in_range q" and "unat pos < tailOf q"
  shows "unat (pos + qMask q + 1) = unat pos + capOf q"
proof -
  note d = queue_invD [OF inv]
  have two: "2 \<le> capOf q" by (rule queue_shapeD(1) [OF d(1)])
  have "qMask q = of_nat (capOf q - 1)" using d(1) by (simp add: queue_shape_def)
  then have "qMask q + 1 = of_nat (capOf q)" using two by (simp add: of_nat_diff)
  then have "pos + qMask q + 1 = of_nat (unat pos + capOf q)" by (simp add: add.assoc)
  moreover have "unat pos + capOf q < 2 ^ 64" using range d(2,3) assms(3) by (simp add: in_range_def)
  ultimately show ?thesis by (simp only: word_small)
qed

lemma queue_step_inv:
  assumes "queue_step calls i q q'" and inv: "queue_inv calls q" and i: "i < length calls" and range: "in_range q"
  shows "queue_inv calls q'"
  using assms(1)
proof cases
  case push_claim
  then show ?thesis using queue_inv_push(1) [OF inv i _ _ _ range] by metis
next
  case pop_claim
  then show ?thesis using queue_inv_pop(1) [OF inv i _ _ _ range] by metis
next
  case (push_see pos)
  then show ?thesis using queue_invD(6) [OF inv i] slot_new(3) [OF queue_invD(1) [OF inv]] by (auto intro!: queue_inv_goto [OF inv i])
next
  case (pop_see pos)
  then show ?thesis using queue_invD(6) [OF inv i] slot_new(3) [OF queue_invD(1) [OF inv]] by (auto intro!: queue_inv_goto [OF inv i])
next
  case (push_write pos)
  note sh = queue_invD(1) [OF inv]
  have ok: "thread_ok q (calls ! i) (PushOwns pos)" using queue_invD(6) [OF inv i] push_write(2) by simp
  show ?thesis unfolding push_write(1) using ok by (intro queue_inv_fill [OF inv i]) (simp_all add: push_write(2) slot_new [OF sh])
next
  case (push_hand pos)
  note sh = queue_invD(1) [OF inv]
  have ok: "thread_ok q (calls ! i) (PushFilled pos)" using queue_invD(6) [OF inv i] push_hand(2) by simp
  then have "unat pos + 1 < 2 ^ 63" using range queue_invD(2) [OF inv] queue_shapeD(1) [OF sh] by (simp add: in_range_def)
  then show ?thesis unfolding push_hand(1) using ok
    by (intro queue_inv_fill [OF inv i]) (simp_all add: push_hand(2) slot_new [OF sh] suc_word)
next
  case (pop_read pos)
  then show ?thesis using queue_invD(6) [OF inv i] slot_new(4) [OF queue_invD(1) [OF inv]] by (auto intro!: queue_inv_goto [OF inv i])
next
  case (pop_clear pos e)
  note sh = queue_invD(1) [OF inv]
  have ok: "thread_ok q (calls ! i) (PopRead pos e)" using queue_invD(6) [OF inv i] pop_clear(2) by simp
  show ?thesis unfolding pop_clear(1) using ok by (intro queue_inv_empty [OF inv i]) (simp_all add: pop_clear(2) slot_new [OF sh])
next
  case (pop_recycle pos e)
  note sh = queue_invD(1) [OF inv]
  have ok: "thread_ok q (calls ! i) (PopCleared pos e)" using queue_invD(6) [OF inv i] pop_recycle(2) by simp
  then have "unat (pos + qMask q + 1) = unat pos + capOf q" by (intro recycled [OF inv range]) simp
  then show ?thesis unfolding pop_recycle(1) using ok by (intro queue_inv_empty [OF inv i]) (simp_all add: pop_recycle(2))
next
  case Close
  have same: "thread_ok (q\<lparr> qClosed := True \<rparr>) c t = thread_ok q c t" for c t by (cases t) (simp_all add: seqOf_def entryAt_def)
  have "slots_ok (q\<lparr> qClosed := True \<rparr>) = slots_ok q" by (simp add: slots_ok_def seqOf_def entryAt_def)
  then show ?thesis unfolding Close using inv by (simp add: queue_inv_def queue_shape_def same)
qed (auto intro!: queue_inv_goto [OF inv i] simp: retry_def split: queueCall.split)

lemma queue_step_log:
  "queue_step calls i q q' \<Longrightarrow> length (qLog q) \<le> length (qLog q') \<and> capOf q' = capOf q"
  by (induction rule: queue_step.induct) simp_all

lemma NewSessionEntryQueue_inv:
  assumes "NewSessionEntryQueue capacity calls = Some q" and "in_range q"
  shows "queue_inv calls q"
proof -
  obtain n where n: "nextPow2 capacity = Some n" and q: "q = \<lparr> qHead = 0, qTail = 0, qClosed = False, qMask = of_nat (n - 1),
         qSlots = map (\<lambda>i. \<lparr> esSequence = of_nat i, esEntry = [] \<rparr>) [0..<n], qThreads = map callStart calls, qLog = [] \<rparr>"
    using assms(1) by (auto simp: NewSessionEntryQueue_def)
  obtain k where k: "n = 2 ^ Suc k" using nextPow2_power(1) [OF n] by blast
  have r: "n < 2 ^ 63" using assms(2) by (simp add: in_range_def q)
  then have "Suc k < 63" unfolding k by (rule power_less_imp_less_exp [rotated]) simp
  moreover have "slots_ok q"
    using r by (auto simp: slots_ok_def q seqOf_def intro!: word_small)
  moreover have "thread_ok q (calls ! i) (callStart (calls ! i))" for i by (cases "calls ! i") (simp_all add: callStart_def)
  moreover have "pushPos (callStart c) = None \<and> popPos (callStart c) = None" for c by (cases c) (simp_all add: callStart_def)
  ultimately show ?thesis using k by (auto simp: queue_inv_def queue_shape_def q alone_def)
qed

section \<open>A bounded queue with one atomic step per call\<close>

datatype queueResult = Pending | Stored | Taken queueEntry | Refused

record fifoState =
  fItems :: "queueEntry list"
  fClosed :: bool
  fResults :: "queueResult list"

text \<open>
  A push takes effect at once when there is room, a pop when there is an entry; a call is refused
  once the queue is closed, and a \<open>TryPush\<close> at any time.
\<close>

inductive fifo_step :: "nat \<Rightarrow> queueCall list \<Rightarrow> nat \<Rightarrow> fifoState \<Rightarrow> fifoState \<Rightarrow> bool" for cap calls i where
  enqueue: "fResults s ! i = Pending \<Longrightarrow> calls ! i = Push e \<or> calls ! i = TryPush e \<Longrightarrow> length (fItems s) < cap \<Longrightarrow>
    fifo_step cap calls i s (s\<lparr> fItems := fItems s @ [e], fResults := (fResults s)[i := Stored] \<rparr>)"
| dequeue: "fResults s ! i = Pending \<Longrightarrow> calls ! i = Pop \<Longrightarrow> fItems s = e # rest \<Longrightarrow>
    fifo_step cap calls i s (s\<lparr> fItems := rest, fResults := (fResults s)[i := Taken e] \<rparr>)"
| refuse: "fResults s ! i = Pending \<Longrightarrow> fClosed s \<or> calls ! i = TryPush e \<Longrightarrow>
    fifo_step cap calls i s (s\<lparr> fResults := (fResults s)[i := Refused] \<rparr>)"
| shut: "fifo_step cap calls i s (s\<lparr> fClosed := True \<rparr>)"

fun threadResult :: "queueEntry list \<Rightarrow> queueThread \<Rightarrow> queueResult" where
  "threadResult log (PushOwns pos) = Stored"
| "threadResult log (PushFilled pos) = Stored"
| "threadResult log (Pushed pos) = Stored"
| "threadResult log (PopOwns pos) = Taken (log ! unat pos)"
| "threadResult log (PopRead pos e) = Taken e"
| "threadResult log (PopCleared pos e) = Taken e"
| "threadResult log (Popped pos e) = Taken e"
| "threadResult log PushClosed = Refused"
| "threadResult log PushFull = Refused"
| "threadResult log PopClosed = Refused"
| "threadResult log _ = Pending"

definition queueAbs :: "SessionEntryQueue \<Rightarrow> fifoState" where
  "queueAbs q = \<lparr> fItems = drop (tailOf q) (qLog q), fClosed = qClosed q, fResults = map (threadResult (qLog q)) (qThreads q) \<rparr>"

text \<open>A thread runs the call it was made for.\<close>

fun pushing :: "queueThread \<Rightarrow> bool" where
  "pushing PopStart = False"
| "pushing (PopAt pos) = False"
| "pushing (PopSeen pos seq) = False"
| "pushing PopEmpty = False"
| "pushing (PopOwns pos) = False"
| "pushing (PopRead pos e) = False"
| "pushing (PopCleared pos e) = False"
| "pushing (Popped pos e) = False"
| "pushing PopClosed = False"
| "pushing _ = True"

definition own_call :: "queueCall list \<Rightarrow> SessionEntryQueue \<Rightarrow> bool" where
  "own_call calls q \<longleftrightarrow> length (qThreads q) = length calls \<and> (\<forall>i < length calls. pushing (qThreads q ! i) = (calls ! i \<noteq> Pop))"

lemma own_callD: "own_call calls q \<Longrightarrow> i < length calls \<Longrightarrow> pushing (qThreads q ! i) = (calls ! i \<noteq> Pop)"
  by (simp add: own_call_def)

lemma own_call_goto: "own_call calls q \<Longrightarrow> qThreads q' = (qThreads q)[i := pc] \<Longrightarrow> pushing pc = pushing (qThreads q ! i) \<Longrightarrow> own_call calls q'"
  unfolding own_call_def by (metis length_list_update nth_list_update_eq nth_list_update_neq)

lemma own_call_step: "queue_step calls i q q' \<Longrightarrow> own_call calls q \<Longrightarrow> own_call calls q'"
  by (induction rule: queue_step.induct)
    (auto elim: own_call_goto simp: retry_def split: queueCall.split, simp_all add: own_call_def)

definition queueKept :: "queueCall list \<Rightarrow> SessionEntryQueue \<Rightarrow> bool" where
  "queueKept calls q \<longleftrightarrow> own_call calls q \<and> (in_range q \<longrightarrow> queue_inv calls q)"

interpretation entry_queue: invariant_machine "\<lambda>calls q. \<exists>capacity. NewSessionEntryQueue capacity calls = Some q" queueRun queueKept
proof
  fix calls q
  assume "\<exists>capacity. NewSessionEntryQueue capacity calls = Some q"
  then obtain capacity where new: "NewSessionEntryQueue capacity calls = Some q" by blast
  have "pushing (callStart c) = (c \<noteq> Pop)" for c by (cases c) (simp_all add: callStart_def)
  moreover have "qThreads q = map callStart calls" using new by (auto simp: NewSessionEntryQueue_def)
  ultimately have "own_call calls q" by (simp add: own_call_def)
  then show "queueKept calls q" using NewSessionEntryQueue_inv [OF new] by (simp add: queueKept_def)
next
  fix calls q q'
  assume kept: "queueKept calls q" and "queueRun calls q q'"
  then obtain i where i: "i < length calls" "queue_step calls i q q'" unfolding queueRun_def by blast
  have "in_range q" if "in_range q'" using that queue_step_log [OF i(2)] by (simp add: in_range_def)
  then show "queueKept calls q'" using kept own_call_step [OF i(2)] queue_step_inv [OF i(2) _ i(1)] by (simp add: queueKept_def)
qed

lemma queue_reachable:
  assumes "NewSessionEntryQueue capacity calls = Some q0" and "(queueRun calls)\<^sup>*\<^sup>* q0 q"
  shows "own_call calls q" and "in_range q \<Longrightarrow> queue_inv calls q"
  using entry_queue.reachable_inv [of calls q0 q] assms by (auto simp: queueKept_def)

lemma queueCap_exact:
  assumes "queue_inv calls q" and "in_range q"
  shows "queueCap q = capOf q"
proof -
  have "2 \<le> capOf q" by (rule queue_shapeD(1) [OF queue_invD(1) [OF assms(1)]])
  moreover have "qMask q = of_nat (capOf q - 1)" using queue_invD(1) [OF assms(1)] by (simp add: queue_shape_def)
  ultimately have "qMask q + 1 = of_nat (capOf q)" by (simp add: of_nat_diff)
  moreover have "capOf q < 2 ^ 64" using assms(2) by (simp add: in_range_def)
  ultimately show ?thesis by (simp only: queueCap_def word_small)
qed

lemma queueAbs_stutter:
  assumes "qThreads q' = (qThreads q)[i := pc]" and "i < length (qThreads q)" and "threadResult (qLog q) pc = threadResult (qLog q) (qThreads q ! i)"
    and "qTail q' = qTail q" "qLog q' = qLog q" "qClosed q' = qClosed q"
  shows "queueAbs q' = queueAbs q"
proof -
  have "(map (threadResult (qLog q)) (qThreads q))[i := threadResult (qLog q) pc] = map (threadResult (qLog q)) (qThreads q)"
    unfolding assms(3) using assms(2) by (metis list_update_id nth_map)
  then show ?thesis using assms by (simp add: queueAbs_def map_update)
qed

lemma queueAbs_claims:
  assumes inv: "queue_inv calls q" and own: "own_call calls q" and i: "i < length calls" and range: "in_range q" and step: "queue_step calls i q q'"
    and claims: "\<exists>pos. qThreads q' ! i = PushOwns pos \<and> pushPos (qThreads q ! i) = None \<or> qThreads q' ! i = PopOwns pos \<and> popPos (qThreads q ! i) = None"
  shows "fifo_step (capOf q) calls i (queueAbs q) (queueAbs q')"
proof -
  note d = queue_invD [OF inv]
  have len: "length (qThreads q) = length calls" using d(1) by (simp add: queue_shape_def)
  have kept: "threadResult (qLog q @ [e]) (qThreads q ! j) = threadResult (qLog q) (qThreads q ! j)" if "j < length calls" for e j
    using d(6) [OF that] d(2,3) by (cases "qThreads q ! j") (auto simp: nth_append)
  have again: "map (threadResult (qLog q @ [e])) (qThreads q) = map (threadResult (qLog q)) (qThreads q)" for e
    using kept len by (simp add: list_eq_iff_nth_eq)
  from step show ?thesis
  proof cases
    case (push_claim pos seq)
    obtain e where e: "calls ! i = Push e \<or> calls ! i = TryPush e" using own_callD [OF own i] push_claim(2) by (cases "calls ! i") simp_all
    then have e': "entryOf (calls ! i) = e" by auto
    have room: "length (qLog q) - tailOf q < capOf q" using claim_push(1) [OF inv i push_claim(2-4) range] d(2,3) by linarith
    have "queueAbs q' = (queueAbs q)\<lparr> fItems := fItems (queueAbs q) @ [e], fResults := (fResults (queueAbs q))[i := Stored] \<rparr>"
      using d(2,3) by (simp add: queueAbs_def push_claim(1) e' map_update again)
    then show ?thesis using fifo_step.enqueue [of "queueAbs q" i calls e "capOf q"] e room i len push_claim(2) by (simp add: queueAbs_def)
  next
    case (pop_claim pos seq)
    have e: "calls ! i = Pop" using own_callD [OF own i] pop_claim(2) by simp
    note c = claim_pop [OF inv i pop_claim(2-4) range] and t = queue_inv_pop [OF inv i pop_claim(2-4) range pop_claim(1)]
    have items: "drop (tailOf q) (qLog q) = qLog q ! tailOf q # drop (tailOf q + 1) (qLog q)" using c(1) d(2) by (simp add: Cons_nth_drop_Suc)
    have "queueAbs q' = (queueAbs q)\<lparr> fItems := drop (tailOf q + 1) (qLog q), fResults := (fResults (queueAbs q))[i := Taken (qLog q ! tailOf q)] \<rparr>"
      unfolding queueAbs_def t(2) by (simp add: pop_claim(1,4) map_update)
    moreover have "fItems (queueAbs q) = qLog q ! tailOf q # drop (tailOf q + 1) (qLog q)" by (simp only: queueAbs_def fifoState.select_convs items)
    ultimately show ?thesis using fifo_step.dequeue [of "queueAbs q" i calls] e i len pop_claim(2) by (simp add: queueAbs_def)
  qed (use claims i len in \<open>auto simp: retry_def split: queueCall.splits\<close>)
qed

lemma queueAbs_refused:
  assumes "qThreads q' = (qThreads q)[i := pc]" and "i < length (qThreads q)" and "threadResult (qLog q) pc = Refused" and "threadResult (qLog q) (qThreads q ! i) = Pending"
    and "qTail q' = qTail q" "qLog q' = qLog q" "qClosed q' = qClosed q" and "qClosed q \<or> (\<exists>e. calls ! i = TryPush e)"
  shows "fifo_step cap calls i (queueAbs q) (queueAbs q')"
proof -
  have "queueAbs q' = (queueAbs q)\<lparr> fResults := (fResults (queueAbs q))[i := Refused] \<rparr>" using assms by (simp add: queueAbs_def map_update)
  then show ?thesis using fifo_step.refuse [of "queueAbs q" i calls] assms by (auto simp: queueAbs_def)
qed

lemma queue_simulates:
  assumes inv: "queue_inv calls q" and own: "own_call calls q" and i: "i < length calls" and range: "in_range q" and step: "queue_step calls i q q'"
  shows "queueAbs q' = queueAbs q \<or> fifo_step (capOf q) calls i (queueAbs q) (queueAbs q')"
proof -
  note d = queue_invD [OF inv]
  have len: "i < length (qThreads q)" using d(1) i by (simp add: queue_shape_def)
  note quiet = disjI1 [OF queueAbs_stutter [OF _ len]] and claim = disjI2 [OF queueAbs_claims [OF inv own i range step]]
    and no = disjI2 [OF queueAbs_refused [OF _ len]]
  from step show ?thesis
  proof cases
    case push_closed
    then show ?thesis by (intro no) auto
  next
    case (push_claim pos seq)
    then show ?thesis using len by (intro claim) auto
  next
    case (push_again pos seq)
    show ?thesis
    proof (cases "\<exists>e. calls ! i = TryPush e")
      case True
      then show ?thesis using push_again by (intro no) (auto simp: retry_def)
    next
      case False
      then have "retry (calls ! i) = PushStart" by (cases "calls ! i") (auto simp: retry_def)
      then show ?thesis using push_again by (intro quiet) auto
    qed
  next
    case (pop_claim pos seq)
    then show ?thesis using len by (intro claim) auto
  next
    case pop_closed
    then show ?thesis by (intro no) auto
  next
    case (pop_read pos)
    have "esEntry (slotAt q pos) = qLog q ! unat pos" using d(6) [OF i] pop_read(2) slot_new(4) [OF d(1)] by simp
    then show ?thesis using pop_read by (intro quiet) auto
  next
    case Close
    then show ?thesis using fifo_step.shut [of "capOf q" calls i "queueAbs q"] by (simp add: queueAbs_def)
  qed (rule quiet, simp, simp, simp, simp, simp)+
qed

section \<open>The queue is a bounded queue\<close>

lemma queue_cap:
  assumes "NewSessionEntryQueue capacity calls = Some q0" and "(queueRun calls)\<^sup>*\<^sup>* q0 q"
  shows "nextPow2 capacity = Some (capOf q)"
  using assms(2)
proof (induction rule: rtranclp_induct)
  case base
  then show ?case using assms(1) by (auto simp: NewSessionEntryQueue_def)
next
  case (step q q')
  then show ?case using queue_step_log unfolding queueRun_def by metis
qed

text \<open>A run of one push and one pop on a queue of capacity one, which is rounded up to two slots.\<close>

definition exampleCalls :: "queueCall list" where
  "exampleCalls = [Push ''a'', Pop]"

definition exampleQueue :: "64 word \<Rightarrow> bool \<Rightarrow> 64 word \<Rightarrow> queueEntry \<Rightarrow> queueThread \<Rightarrow> queueThread \<Rightarrow> queueEntry list \<Rightarrow> SessionEntryQueue" where
  "exampleQueue h cl s e t0 t1 log = \<lparr> qHead = h, qTail = 0, qClosed = cl, qMask = 1,
     qSlots = [\<lparr> esSequence = s, esEntry = e \<rparr>, \<lparr> esSequence = 1, esEntry = [] \<rparr>], qThreads = [t0, t1], qLog = log \<rparr>"

lemma exampleQueue_new: "NewSessionEntryQueue 1 exampleCalls = Some (exampleQueue 0 False 0 [] PushStart PopStart [])"
  by (simp add: NewSessionEntryQueue_def nextPow2_def doubleUpTo.simps exampleCalls_def callStart_def exampleQueue_def upt_rec)

lemma example_step: "i < 2 \<Longrightarrow> queue_step exampleCalls i q q' \<Longrightarrow> queueRun exampleCalls q q'"
  unfolding queueRun_def by (rule exI [of _ i]) (simp add: exampleCalls_def)

lemma example_prefix: "(queueRun exampleCalls)\<^sup>*\<^sup>* (exampleQueue 0 False 0 [] PushStart PopStart []) (exampleQueue 0 False 0 [] (PushSeen 0 0) PopEmpty [])"
proof -
  let ?q = "exampleQueue 0 False 0 []"
  have "queueRun exampleCalls (?q PushStart PopStart []) (?q PushStart (PopAt 0) [])"
    using queue_step.pop_load [of "?q PushStart PopStart []" 1] by (intro example_step [of 1]) (simp_all add: exampleQueue_def)
  moreover have "queueRun exampleCalls (?q PushStart (PopAt 0) []) (?q PushStart (PopSeen 0 0) [])"
    using queue_step.pop_see [of "?q PushStart (PopAt 0) []" 1] by (intro example_step [of 1]) (simp_all add: exampleQueue_def)
  moreover have "queueRun exampleCalls (?q PushStart (PopSeen 0 0) []) (?q PushStart PopEmpty [])"
    using queue_step.pop_empty [of "?q PushStart (PopSeen 0 0) []" 1] by (intro example_step [of 1]) (simp_all add: exampleQueue_def seqDiff_def)
  moreover have "queueRun exampleCalls (?q PushStart PopEmpty []) (?q PushOpen PopEmpty [])"
    using queue_step.push_open [of "?q PushStart PopEmpty []" 0] by (intro example_step [of 0]) (simp_all add: exampleQueue_def)
  moreover have "queueRun exampleCalls (?q PushOpen PopEmpty []) (?q (PushAt 0) PopEmpty [])"
    using queue_step.push_load [of "?q PushOpen PopEmpty []" 0] by (intro example_step [of 0]) (simp_all add: exampleQueue_def)
  moreover have "queueRun exampleCalls (?q (PushAt 0) PopEmpty []) (?q (PushSeen 0 0) PopEmpty [])"
    using queue_step.push_see [of "?q (PushAt 0) PopEmpty []" 0] by (intro example_step [of 0]) (simp_all add: exampleQueue_def)
  ultimately show ?thesis by (meson converse_rtranclp_into_rtranclp rtranclp.rtrancl_refl)
qed

lemma example_claim: "queue_step exampleCalls 0 (exampleQueue 0 False 0 [] (PushSeen 0 0) PopEmpty []) (exampleQueue 1 False 0 [] (PushOwns 0) PopEmpty [''a''])"
  using queue_step.push_claim [of "exampleQueue 0 False 0 [] (PushSeen 0 0) PopEmpty []" 0 0 0 exampleCalls] by (simp add: exampleQueue_def exampleCalls_def seqDiff_def)

lemma example_end: "(queueRun exampleCalls)\<^sup>*\<^sup>* (exampleQueue 0 False 0 [] PushStart PopStart []) (exampleQueue 1 True 1 ''a'' (Pushed 0) PopClosed [''a''])"
proof -
  have "queueRun exampleCalls (exampleQueue 0 False 0 [] (PushSeen 0 0) PopEmpty []) (exampleQueue 1 False 0 [] (PushOwns 0) PopEmpty [''a''])"
    by (rule example_step [OF _ example_claim]) simp
  moreover have "queueRun exampleCalls (exampleQueue 1 False 0 [] (PushOwns 0) PopEmpty [''a'']) (exampleQueue 1 False 0 ''a'' (PushFilled 0) PopEmpty [''a''])"
    using queue_step.push_write [of "exampleQueue 1 False 0 [] (PushOwns 0) PopEmpty [''a'']" 0 0 exampleCalls]
    by (intro example_step [of 0]) (simp_all add: exampleQueue_def exampleCalls_def)
  moreover have "queueRun exampleCalls (exampleQueue 1 False 0 ''a'' (PushFilled 0) PopEmpty [''a'']) (exampleQueue 1 False 1 ''a'' (Pushed 0) PopEmpty [''a''])"
    using queue_step.push_hand [of "exampleQueue 1 False 0 ''a'' (PushFilled 0) PopEmpty [''a'']" 0 0] by (intro example_step [of 0]) (simp_all add: exampleQueue_def)
  moreover have "queueRun exampleCalls (exampleQueue 1 False 1 ''a'' (Pushed 0) PopEmpty [''a'']) (exampleQueue 1 True 1 ''a'' (Pushed 0) PopEmpty [''a''])"
    using queue_step.Close [of _ 0 "exampleQueue 1 False 1 ''a'' (Pushed 0) PopEmpty [''a'']"] by (intro example_step [of 0]) (simp_all add: exampleQueue_def)
  moreover have "queueRun exampleCalls (exampleQueue 1 True 1 ''a'' (Pushed 0) PopEmpty [''a'']) (exampleQueue 1 True 1 ''a'' (Pushed 0) PopClosed [''a''])"
    using queue_step.pop_closed [of "exampleQueue 1 True 1 ''a'' (Pushed 0) PopEmpty [''a'']" 1] by (intro example_step [of 1]) (simp_all add: exampleQueue_def)
  ultimately show ?thesis by (meson example_prefix rtranclp.rtrancl_into_rtrancl)
qed

text \<open>
  C25: Every interleaving of pushes and pops refines a bounded first-in first-out queue: as
  long as the counters stay below two to the sixty-third, each atomic step of a call either does
  nothing to the contents or the results, or is one step of the abstract queue, which appends the
  call's entry while there is room or hands the oldest entry to the call, and in which no call is
  refused before the queue is closed except a \<open>TryPush\<close>.
\<close>

theorem queue_refines_fifo:
  assumes "NewSessionEntryQueue capacity calls = Some q0" and "(queueRun calls)\<^sup>*\<^sup>* q0 q" and "in_range q"
    and "i < length calls" and "queue_step calls i q q'"
  shows "queueAbs q' = queueAbs q \<or> fifo_step (queueCap q) calls i (queueAbs q) (queueAbs q')"
proof -
  note r = queue_reachable [OF assms(1,2)]
  show ?thesis using queue_simulates [OF r(2) [OF assms(3)] r(1) assms(4,3,5)] queueCap_exact [OF r(2) [OF assms(3)] assms(3)] by simp
qed

theorem queue_refines_fifo_witness:
  "fifo_step 2 exampleCalls 0 \<lparr> fItems = [], fClosed = False, fResults = [Pending, Pending] \<rparr> \<lparr> fItems = [''a''], fClosed = False, fResults = [Stored, Pending] \<rparr>"
  using queue_refines_fifo [OF exampleQueue_new example_prefix _ _ example_claim]
  by (simp add: queueAbs_def exampleQueue_def in_range_def queueCap_def exampleCalls_def)



text \<open>
  C27: \<open>Pop\<close> can report a closed and drained queue while an entry is in it: when the
  queue is empty at the load of the sequence number, and a push completes and \<open>Close\<close> is called before
  the load of the flag, the pop returns \<open>ErrQueueClosed\<close> although the push returned without an error
  and \<open>Len\<close> is one.
\<close>

theorem Pop_closed_not_drained:
  "\<exists>q0 q. NewSessionEntryQueue 1 [Push ''a'', Pop] = Some q0 \<and> (queueRun [Push ''a'', Pop])\<^sup>*\<^sup>* q0 q \<and>
     qThreads q = [Pushed 0, PopClosed] \<and> fItems (queueAbs q) = [''a''] \<and> queueLen q = 1"
  using exampleQueue_new example_end unfolding exampleCalls_def
  by (intro exI [of _ "exampleQueue 0 False 0 [] PushStart PopStart []"] exI [of _ "exampleQueue 1 True 1 ''a'' (Pushed 0) PopClosed [''a'']"])
    (simp add: exampleQueue_def queueAbs_def queueLen_def seqDiff_def)

end
