(* ===== verification/Spec2Isabelle.thy ===== *)
theory Spec2Isabelle
  imports Selection_Config Projection Cohort Origin Contract Upload Auto_Publish Push_Selection Push_Plan Code_Diff Hook_Lifecycle Ingest_Run Entry_Queue
begin

text \<open>
  Peasant reads the session transcripts that coding agents leave on a machine, keeps them in a
  local store, and publishes chosen sessions to a service called the village. This
  development models the code that decides which sessions leave the machine: the saved
  selection, the push pipeline, the auto-publish rules of git hooks, and the negotiation of
  the contract with the village.

  \<^bold>\<open>Parts of the program and their theories.\<close> Paths are under \<^verbatim>\<open>src/\<close>.

  \<^item> \<open>Go_Base\<close>: what the sources use of Go's standard library (byte strings, \<^verbatim>\<open>strings\<close>,
    \<^verbatim>\<open>path\<close>, \<^verbatim>\<open>url.Parse\<close> as far as it is read, UTF-8 validity), generic folds that can stop,
    association lists for maps whose entries are read back.
  \<^item> \<open>Glob\<close>: \<^verbatim>\<open>path.Match\<close>, and that an escaped segment matches itself only.
  \<^item> \<open>Remote\<close>: \<^verbatim>\<open>internal/ingest/remote.go\<close>, the normal form of git remotes.
  \<^item> \<open>Selection\<close>: the selection part of \<^verbatim>\<open>internal/ingest/types.go\<close> and \<open>CompileSelectionMatcher\<close> of
    \<^verbatim>\<open>internal/config/config.go\<close>: the compiled matcher, its builder, and the decision on a candidate.
  \<^item> \<open>Selection_Config\<close>: \<open>ValidateSelection\<close> of \<^verbatim>\<open>internal/config/config.go\<close>.
  \<^item> \<open>Projection\<close>, \<open>Cohort\<close>: \<^verbatim>\<open>internal/selectionprojection\<close>, the projects a selection shows.
  \<^item> \<open>Origin\<close>: \<^verbatim>\<open>internal/sessionorigin\<close> and \<^verbatim>\<open>internal/sessionvisibility\<close>.
  \<^item> \<open>Contract\<close>: version negotiation in \<^verbatim>\<open>internal/village\<close> and \<^verbatim>\<open>internal/push/negotiate.go\<close>.
  \<^item> \<open>Push\<close>: candidate query, repository scope, saved selection and narrowing in \<^verbatim>\<open>internal/push\<close>.
  \<^item> \<open>Upload\<close>: the concurrent loop of \<open>Pipeline.Run\<close> as a step relation, with the concurrency tracker.
  \<^item> \<open>Auto_Publish\<close>: \<^verbatim>\<open>internal/autopublish\<close> and \<^verbatim>\<open>cmd/peasant/cmd_push_auto_publish.go\<close>: rules,
    the decision for a repository and an event, and the plan of a run.
  \<^item> \<open>Evidence\<close>: the interface of a table that collects the identities seen under a text.
  \<^item> \<open>Push_Selection\<close>: \<^verbatim>\<open>cmd/peasant/selection_candidates.go\<close>, \<open>preparePushSelection\<close> of
    \<^verbatim>\<open>cmd/peasant/cmd_push.go\<close>, and the named sessions with their subagent trees in
    \<^verbatim>\<open>cmd/peasant/cmd_push_selection.go\<close>.
  \<^item> \<open>Push_Plan\<close>: the plan and the counts of the same file.

  \<^bold>\<open>How they interact.\<close> A push reads the stored rows, prepares one candidate per row with the
  multiplicity of its remote and name over all rows, asks the compiled matcher for a decision
  per session, expands named sessions with their subagent trees, plans the hook run against
  the rules, narrows the rows with all of these, orders the rest, uploads them concurrently
  and reports a plan. The properties of this theory join these steps.

  \<^bold>\<open>Conventions.\<close> A Go map whose entries are read back is an association list kept in update
  order or a HOL map, and a set where only membership is read. \<open>None\<close> of an operation that
  the code cannot fail otherwise is a panic; errors are values of a sum type, without their
  texts where nothing reads them. Code outside the repository, the file system, git and the
  store are arguments; what a property needs of them is a hypothesis of it.

  \<^bold>\<open>What is shown.\<close> The matcher's decision rule, its independence of map order and of skipped
  evidence, and that validated denials are enforced; that equal repositories in different
  spellings get one key; which rows a run keeps; that every interleaving of the upload loop
  accounts for every session, stays within the limit, and ends; what a rule covers and what a
  plan pins; that version comparison is numeric and that negotiation stays in the window;
  which sessions a tree expansion selects and that it succeeds; that the plan's counts add up
  and its verdicts agree with the run. Findings are stated as theorems that the modelled code
  has the behaviour.

  \<^bold>\<open>Termination and bounds.\<close> Every definition is total. Loops over lists are folds; the level
  loop of the tree expansion has a measure from its depth bound of 64, beyond which a level
  adds nothing or is refused; the search for a gone directory walks up a path that gets
  shorter; the upload loop is a step relation with a measure of five steps per session.

  \<^bold>\<open>Not modelled.\<close> Reading the native session stores of the harnesses, the SQL of the store,
  HTTP, terminal rendering, redaction patterns, file transactions of the git hooks, and
  message texts: they are input and output, generated code, or libraries the modelled code
  calls through the arguments above.
\<close>

section \<open>Properties that span components\<close>



text \<open>
  C2: A push of named sessions sends their trees and nothing else. Let the run be given the
  requested sessions expanded with their subagent trees, and let subagent sessions inherit
  the selection as the command sets it up. Every session that is sent is a requested one or
  descends from one; it passes the saved selection itself, or its tree's named session does
  and is sent by the same run.
\<close>

theorem named_push_sends:
  assumes "expandSubagents (\<lambda>i. Inr (f i) :: 'e + string list) requested False = Inr st" and "distinct requested"
    and "requested \<noteq> []"
    and "pcFilterSessionIDs c = Some (selectedIDs st)" and "pcInheritSelection c = inheritance st"
    and "row \<in> set (fst (NarrowCandidates rows c))"
  shows "prSessionID row \<in> (child_rel f)\<^sup>* `` set requested \<and>
    (Push.Decision (pcSelection c) (prSessionID row) = BranchMatchYes \<or>
     (\<exists>root \<in> set requested. (root, prSessionID row) \<in> (child_rel f)\<^sup>+ \<and>
        Push.Decision (pcSelection c) root = BranchMatchYes \<and> root \<in> prSessionID ` set (fst (NarrowCandidates rows c))))"
proof -
  have inv: "expandInv f requested requested st" by (rule expandSubagents_inv [OF assms(1,2)])
  have sel: "set (selectedIDs st) = set (xsSeen st)" and req: "set requested \<subseteq> set (xsSeen st)"
    using inv by (auto simp: expandInv_def selectedIDs_def)
  then have "selectedIDs st \<noteq> []" using assms(3) by (metis empty_iff list.set(1) list.set_intros(1) neq_Nil_conv subset_iff)
  with assms(4,6) have "prSessionID row \<in> set (selectedIDs st)" by (auto simp: kept_iff passesFilters_def)
  then obtain s where s: "s \<in> set (xsSessions st)" "ssID s = prSessionID row" by (auto simp: selectedIDs_def)
  then have "if ssID s \<in> set requested then ssParent s = []
      else ssParent s \<in> set requested \<and> (ssParent s, ssID s) \<in> (child_rel f)\<^sup>+"
    using inv unfolding expandInv_def by blast
  then have reach: "prSessionID row \<in> (child_rel f)\<^sup>* `` set requested"
    using s(2) by (cases "ssID s \<in> set requested") (auto dest: trancl_into_rtrancl)
  show ?thesis
  proof (cases "SelectionInheritedFrom c (prSessionID row)")
    case None
    with assms(6) reach show ?thesis by (auto simp: kept_iff selectionDecision_def)
  next
    case (Some root)
    then have "map_of (inheritance st) (prSessionID row) = Some root"
      using assms(5) by (auto simp: SelectionInheritedFrom_def split: option.splits if_splits)
    note named = inheritance_from_named [OF assms(1,2) this]
    have rt: "Push.Decision (pcSelection c) root = BranchMatchYes" "SelectionInheritedFrom c root = None"
      using root_decision [OF Some] by blast+
    have "root \<in> prSessionID ` set (fst (NarrowCandidates rows c))"
      using assms(6) Some rt(2) by (force simp: kept_iff)
    with named rt(1) reach show ?thesis by blast
  qed
qed

definition exampleTree :: expandState where
  "exampleTree = \<lparr> xsSeen = [''c'', ''b'', ''a''], xsSessions = [\<lparr> ssID = ''a'', ssParent = [] \<rparr>,
     \<lparr> ssID = ''b'', ssParent = ''a'' \<rparr>, \<lparr> ssID = ''c'', ssParent = ''a'' \<rparr>], xsOmitted = [] \<rparr>"

definition exampleTreeRun :: PipelineConfig where
  "exampleTreeRun = exampleRun\<lparr> pcFilterSessionIDs := Some (selectedIDs exampleTree),
     pcInheritSelection := inheritance exampleTree,
     pcSelection := Some [(''a'', BranchMatchYes), (''b'', BranchMatchNo)] \<rparr>"

lemma example_tree_facts:
  "expandSubagents (\<lambda>i. Inr (exampleChildren i) :: unit + string list) [''a''] False = Inr exampleTree"
  "exampleRow ''b'' \<in> set (fst (NarrowCandidates [exampleRow ''a'', exampleRow ''b''] exampleTreeRun))"
  "prSessionID (exampleRow ''b'') = ''b''" "Push.Decision (pcSelection exampleTreeRun) ''b'' \<noteq> BranchMatchYes"
  "distinct [''a'']" "[''a''] \<noteq> []"
  by (simp add: example_expanded exampleTree_def, code_simp+)

lemma example_tree_run:
  "pcFilterSessionIDs exampleTreeRun = Some (selectedIDs exampleTree)" "pcInheritSelection exampleTreeRun = inheritance exampleTree"
  by (simp_all add: exampleTreeRun_def)

theorem named_push_sends_witness:
  "\<exists>root \<in> set [''a'']. (root, ''b'') \<in> (child_rel exampleChildren)\<^sup>+ \<and>
     root \<in> prSessionID ` set (fst (NarrowCandidates [exampleRow ''a'', exampleRow ''b''] exampleTreeRun))"
  using named_push_sends [OF example_tree_facts(1,5,6) example_tree_run example_tree_facts(2)] example_tree_facts(3,4)
  by auto

text \<open>
  C3: A reviewed list names only clean sessions. When a push reads its sessions from an input, a
  session that an entry of the input reports with findings or an error is not named, and is
  reported as left out, unless the developer named it with \<open>--session\<close>. What is named is what
  the two flags give, each session once, and never nothing.
\<close>

theorem reviewed_push_names:
  assumes "ReadSessionList decode (Some data) = Inr l"
    and "resolveExplicitSelection named changed (Inr (Some (slIDs l, Warnings l)) :: 'e + (string list \<times> sessionWarning list) option) = Inr (Some ex)"
  shows "set (exIDs ex) = trim_space ` set named \<union> set (slIDs l) \<and> distinct (exIDs ex) \<and> exIDs ex \<noteq> [] \<and>
    (\<forall>entries i st. JObject entries \<in> set (jsonEntries decode data) \<and> namesSession entries i \<and>
       (''status'', JString (reviewText st)) \<in> set entries \<and> st \<noteq> ReviewClean \<and> i \<notin> trim_space ` set named \<longrightarrow>
         i \<notin> set (exIDs ex) \<and> i \<in> swSessionID ` set (exWarnings ex))"
proof -
  obtain ids where ids: "mergeNamed [] (named @ slIDs l) = (Inr ids :: 'e named_error + string list)"
    and ex: "exIDs ex = ids" "exWarnings ex = filter (\<lambda>w. swSessionID w \<notin> set ids) (Warnings l)"
    using assms(2) by (auto simp: resolveExplicitSelection_def split: sum.splits)
  have trims: "trim_space ` set (slIDs l) = set (slIDs l)"
    using ReadSessionList_disjoint(4) [OF assms(1)] by (auto simp: image_iff)
  have all: "set ids = trim_space ` set named \<union> set (slIDs l)" and dist: "distinct ids"
    using mergeNamed_Inr [OF ids] trims by (auto simp: image_Un)
  have warn: "swSessionID ` set (Warnings l) = dsID ` set (slDropped l)" by (force simp: Warnings_def)
  have "i \<notin> set ids \<and> i \<in> swSessionID ` set (exWarnings ex)"
    if "JObject entries \<in> set (jsonEntries decode data)" "namesSession entries i" "(''status'', JString (reviewText st)) \<in> set entries"
      "st \<noteq> ReviewClean" "i \<notin> trim_space ` set named" for entries i st
  proof -
    have "i \<in> dsID ` set (slDropped l)" by (rule refused_entry_dropped [OF assms(1) that(1-4)])
    moreover from this have "i \<notin> set ids" using ReadSessionList_disjoint(1) [OF assms(1)] that(5) all by blast
    ultimately show ?thesis unfolding ex(2) warn [symmetric] by auto
  qed
  with all dist ReadSessionList_disjoint(2) [OF assms(1)] ex(1) show ?thesis by auto
qed

theorem reviewed_push_names_witness:
  "\<exists>ex. resolveExplicitSelection ['' c ''] True (Inr (Some ([''a''], Warnings \<lparr> slIDs = [''a''], slDropped = [\<lparr> dsID = ''b'', dsStatus = ReviewFindings \<rparr>] \<rparr>)) ::
      unit + (string list \<times> sessionWarning list) option) = Inr (Some ex) \<and> set (exIDs ex) = {''a'', ''c''}"
proof -
  let ?l = "\<lparr> slIDs = [''a''], slDropped = [\<lparr> dsID = ''b'', dsStatus = ReviewFindings \<rparr>] \<rparr>"
  have l: "ReadSessionList exampleReview (Some ''{}'') = Inr ?l" by code_simp
  have t: "trim_space '' c '' = ''c''" "trim_space ''a'' = ''a''" by code_simp+
  then obtain ex where ex: "resolveExplicitSelection ['' c ''] True (Inr (Some (slIDs ?l, Warnings ?l)) ::
      unit + (string list \<times> sessionWarning list) option) = Inr (Some ex)"
    by (simp add: resolveExplicitSelection_def Let_def)
  from reviewed_push_names [OF l ex] ex t show ?thesis by auto
qed


lemma example_excluded_facts:
  "preparePushSelection (Inr [exampleRow ''s2''] :: unit + PushSessionRow list) exampleMatcher None =
     Some (Inr [(''s2'', BranchMatchNo)])"
  "map_option (\<lambda>cands. ExcludesCandidate exampleMatcher (cands ! 0))
     (prepareSelectionCandidates None (map selectionInput [exampleRow ''s2''])) = Some True"
  by code_simp+


end
